(* ===== verification/BSSL_Prelude.thy ===== *)
theory BSSL_Prelude
  imports Main "HOL-Library.Word"
begin

text \<open>
  Prelude of the BoringSSL development: the machine integers of the C sources, the
  combinators that read an early return of the C code (\<open>if (!f(x)) return 0;\<close>),
  big-endian numbers as byte lists, and the facts on words that the component theories
  share. The widths are those of the 64-bit builds: \<open>size_t\<close> has 64 bits and is
  modelled by a natural number whose wrap-around is written out where the code tests it.
\<close>

unbundle bit_operations_syntax

type_synonym u8 = "8 word"
type_synonym u16 = "16 word"
type_synonym u32 = "32 word"
type_synonym u64 = "64 word"
type_synonym bytes = "u8 list"

text \<open>Facts that turn bit operations on words into arithmetic on \<^typ>\<open>nat\<close>.\<close>

named_theorems word_arith

abbreviation SIZE_MOD :: nat where
  "SIZE_MOD \<equiv> 2 ^ 64"

text \<open>\<open>size_add a b\<close> is the C expression \<open>a + b\<close> at type \<open>size_t\<close>.\<close>

definition size_add :: "nat \<Rightarrow> nat \<Rightarrow> nat" where
  "size_add a b = unat (of_nat a + of_nat b :: u64)"

section \<open>Big-endian numbers\<close>

definition be_nat :: "bytes \<Rightarrow> nat" where
  "be_nat bs = foldl (\<lambda>n b. n * 256 + unat b) 0 bs"

fun be_bytes :: "nat \<Rightarrow> nat \<Rightarrow> bytes" where
  "be_bytes 0 v = []"
| "be_bytes (Suc n) v = be_bytes n (v div 256) @ [of_nat v]"

section \<open>Words as numbers\<close>

lemma bit_ge_unat: "unat (w::'a::len word) < 2 ^ n \<Longrightarrow> n \<le> k \<Longrightarrow> \<not> bit w k"
proof -
  assume a: "unat w < 2 ^ n" "n \<le> k"
  then have "unat w < 2 ^ k" by (meson less_le_trans one_le_numeral power_increasing)
  then have "take_bit k (unat w) = unat w" by (simp add: take_bit_nat_eq_self)
  then have "\<not> bit (unat w) k" by (metis bit_take_bit_iff less_irrefl)
  then show ?thesis by (simp add: bit_unsigned_iff)
qed

lemma unat_of_nat_less: "m < 2 ^ LENGTH('a) \<Longrightarrow> unat (of_nat m :: 'a::len word) = m"
  by (simp only: unsigned_of_nat) (simp add: take_bit_nat_eq_self)

lemma unat_of_nat_mod [word_arith]: "unat (of_nat m :: 'a::len word) = m mod 2 ^ LENGTH('a)"
  by (simp only: unsigned_of_nat take_bit_eq_mod of_nat_id)

lemma size_add_eq: "size_add a b = (a + b) mod SIZE_MOD"
  unfolding size_add_def of_nat_add [symmetric] by (simp only: unat_of_nat_mod) simp

lemma size_add_small: "a + b < SIZE_MOD \<Longrightarrow> size_add a b = a + b"
  by (simp only: size_add_eq mod_less)

text \<open>The overflow test \<open>a + b < a\<close> of the C code.\<close>

lemma size_add_overflow:
  assumes "a < SIZE_MOD" "b < SIZE_MOD"
  shows "size_add a b < a \<longleftrightarrow> SIZE_MOD \<le> a + b"
proof (cases "a + b < SIZE_MOD")
  case False
  then have "size_add a b = a + b - SIZE_MOD"
    using assms unfolding size_add_eq by (simp add: le_mod_geq)
  with False assms show ?thesis by linarith
qed (simp add: size_add_small)

lemma unat_lt_power: "unat (w::'a::len word) < 2 ^ LENGTH('a)"
  by simp

lemma unat_u8_less [simp]: "unat (b::u8) < 256"
  using unat_lt_power [of b] by simp

lemma unat_u8_le [simp]: "unat (b::u8) \<le> 255"
  using unat_u8_less [of b] by linarith

lemma word_eq_unatI: "unat v = unat w \<Longrightarrow> v = (w::'a::len word)"
  by (rule unsigned_word_eqI)

lemma push_bit_or_eq_add:
  fixes v w :: "'a::len word"
  assumes w: "unat w < 2 ^ n"
  shows "push_bit n v OR w = v * 2 ^ n + w"
proof -
  have "push_bit n v AND w = 0"
    by (rule bit_eqI) (use bit_ge_unat [OF w] in \<open>auto simp: bit_simps\<close>)
  from disjunctive_add_eq_or [OF this] show ?thesis
    by (simp add: push_bit_eq_mult)
qed

lemma push_bit_or_of_nat:
  fixes w :: "'a::len word"
  shows "unat w < 2 ^ n \<Longrightarrow> push_bit n (of_nat m) OR w = of_nat (m * 2 ^ n + unat w)"
  by (simp add: push_bit_or_eq_add)

lemma unat_push_or:
  fixes v w :: "'a::len word"
  assumes "unat w < 2 ^ n" and "unat v * 2 ^ n + unat w < 2 ^ LENGTH('a)"
  shows "unat (push_bit n v OR w) = unat v * 2 ^ n + unat w"
  using push_bit_or_of_nat [OF assms(1), of "unat v"] assms(2)
  by (simp only: unat_of_nat_less of_nat_unat ucast_id)

lemma unat_drop_bit [word_arith]: "unat (drop_bit n (v::'a::len word)) = unat v div 2 ^ n"
proof -
  have "unat (drop_bit n v) = drop_bit n (unat v)"
    by (rule bit_eqI) (auto simp: bit_simps dest: bit_imp_le_length)
  then show ?thesis by (simp add: drop_bit_eq_div)
qed

lemma unat_and_mask [word_arith]: "unat (b AND mask n) = unat (b::'a::len word) mod 2 ^ n"
proof -
  have "unat (b AND mask n) = take_bit n (unat b)"
    by (rule bit_eqI) (auto simp: bit_simps dest: bit_imp_le_length)
  then show ?thesis by (simp add: take_bit_eq_mod)
qed

lemma drop_bit_eq_0_iff: "drop_bit n (v::'a::len word) = 0 \<longleftrightarrow> unat v < 2 ^ n"
proof -
  have "drop_bit n v = 0 \<longleftrightarrow> unat v div 2 ^ n = 0" by (metis unat_drop_bit unat_eq_zero)
  then show ?thesis by (simp add: div_eq_0_iff)
qed

lemma unat_ucast_le: "LENGTH('a) \<le> LENGTH('b) \<Longrightarrow>
    unat (ucast (w::'a::len word) :: 'b::len word) = unat w"
  by (rule bit_eqI) (auto simp: bit_simps dest: bit_imp_le_length)

lemma unat_ucast_mod: "unat (ucast (w::'a::len word) :: 'b::len word) = unat w mod 2 ^ LENGTH('b)"
proof -
  have "unat (ucast w :: 'b word) = take_bit LENGTH('b) (unat w)"
    by (rule bit_eqI) (auto simp: bit_simps dest: bit_imp_le_length)
  then show ?thesis by (simp add: take_bit_eq_mod)
qed

text \<open>A statement about every byte is a finite check.\<close>

lemma u8_all: "(\<forall>b::u8. P b) \<longleftrightarrow> list_all P (map of_nat [0..<256])"
proof -
  have "P b" if "\<forall>n<256. P (of_nat n)" for b :: u8
    using that [rule_format, of "unat b"] by simp
  then show ?thesis by (auto simp: list_all_iff)
qed

lemma u8_and_7f [word_arith]: "unat ((b::u8) AND 0x7f) = unat b mod 128"
  using unat_and_mask [of b 7] by (simp add: mask_eq_exp_minus_1)

lemma u8_and_1f [word_arith]: "unat ((b::u8) AND 0x1f) = unat b mod 32"
  using unat_and_mask [of b 5] by (simp add: mask_eq_exp_minus_1)

lemma u8_mod_128: "128 \<le> unat (b::u8) \<Longrightarrow> unat b mod 128 = unat b - 128"
proof -
  assume h: "128 \<le> unat b"
  have "unat b - 128 < 128" using unat_u8_less [of b] h by arith
  then show ?thesis using h by (simp add: le_mod_geq)
qed

lemma u8_and_80: "(b::u8) AND 0x80 = 0 \<longleftrightarrow> unat b < 128"
proof -
  have "\<forall>b::u8. (b AND 0x80 = 0) = (unat b < 128)" unfolding u8_all by code_simp
  then show ?thesis by blast
qed

section \<open>Facts on big-endian numbers\<close>

lemma be_nat_Nil [simp]: "be_nat [] = 0"
  by (simp add: be_nat_def)

lemma be_nat_snoc [simp]: "be_nat (bs @ [b]) = be_nat bs * 256 + unat b"
  by (simp add: be_nat_def)

lemma be_nat_append: "be_nat (xs @ ys) = be_nat xs * 256 ^ length ys + be_nat ys"
proof (induction ys rule: rev_induct)
  case (snoc y ys)
  have "be_nat (xs @ ys @ [y]) = be_nat (xs @ ys) * 256 + unat y"
    using be_nat_snoc [of "xs @ ys" y] by simp
  then show ?case using snoc by (simp add: algebra_simps)
qed simp

lemma be_nat_Cons: "be_nat (b # bs) = unat b * 256 ^ length bs + be_nat bs"
  using be_nat_append [of "[b]" bs] be_nat_snoc [of "[]" b] by simp

lemma be_nat_less: "be_nat bs < 256 ^ length bs"
proof (induction bs rule: rev_induct)
  case (snoc b bs)
  have "be_nat bs * 256 + unat b < (be_nat bs + 1) * 256" by simp
  also have "\<dots> \<le> 256 ^ length bs * 256" using snoc by (intro mult_right_mono) auto
  finally show ?case by (simp add: algebra_simps)
qed simp

lemma length_be_bytes [simp]: "length (be_bytes n v) = n"
  by (induction n arbitrary: v) auto

lemma be_nat_be_bytes: "be_nat (be_bytes n v) = v mod 256 ^ n"
proof (induction n arbitrary: v)
  case (Suc n)
  have "v mod (256 ^ n * 256) = 256 * (v div 256 mod 256 ^ n) + v mod 256"
    using mod_mult2_eq [of v 256 "256 ^ n"] by (simp add: mult.commute)
  with Suc show ?case by (simp add: unat_of_nat_mod mult.commute)
qed simp

lemma be_bytes_be_nat: "be_bytes (length bs) (be_nat bs) = bs"
proof (induction bs rule: rev_induct)
  case (snoc b bs)
  have "(be_nat bs * 256 + unat b) div 256 = be_nat bs" by simp
  moreover have "of_nat (be_nat bs * 256 + unat b) = b"
    by (rule word_eq_unatI) (simp only: unat_of_nat_mod, simp)
  ultimately show ?case using snoc by simp
qed simp

lemma be_nat_inject: "length xs = length ys \<Longrightarrow> be_nat xs = be_nat ys \<Longrightarrow> xs = ys"
  by (metis be_bytes_be_nat)

end
