(* ===== verification/Cbs.thy ===== *)
theory Cbs
  imports BSSL_Prelude
begin

text \<open>
  The reader \<open>CBS\<close> of \<open>crypto/bytestring/cbs.c\<close>: a pointer and a length over
  immutable input, modelled by the bytes still to be read. An operation that advances the
  reader returns \<open>(None, cbs')\<close> where the C function returns 0 and
  \<open>(Some v, cbs')\<close> where it returns 1 with the out-parameter \<open>v\<close>; \<open>cbs'\<close> is
  what the C code leaves in the reader, on failure too. The helpers of
  \<open>crypto/mem.c\<close> that the reader calls come first.
\<close>

type_synonym cbs = bytes
type_synonym 'a cbs_ret = "'a option \<times> cbs"

text \<open>\<open>if (!f(cbs, &x)) return 0;\<close> and the code after it.\<close>

definition cbs_bind :: "'a cbs_ret \<Rightarrow> ('a \<Rightarrow> cbs \<Rightarrow> 'b cbs_ret) \<Rightarrow> 'b cbs_ret" where
  "cbs_bind m f = (case m of (None, cbs) \<Rightarrow> (None, cbs) | (Some x, cbs) \<Rightarrow> f x cbs)"

section \<open>Helpers of mem.c\<close>

definition CRYPTO_memcmp :: "bytes \<Rightarrow> bytes \<Rightarrow> u8" where
  "CRYPTO_memcmp a b = foldl (\<lambda>x (ai, bi). x OR (ai XOR bi)) 0 (zip a b)"

definition OPENSSL_isdigit :: "u8 \<Rightarrow> bool" where
  "OPENSSL_isdigit c \<longleftrightarrow> 0x30 \<le> c \<and> c \<le> 0x39"

fun OPENSSL_strnlen :: "bytes \<Rightarrow> nat" where
  "OPENSSL_strnlen [] = 0"
| "OPENSSL_strnlen (c # s) = (if c = 0 then 0 else Suc (OPENSSL_strnlen s))"

text \<open>
  The allocator is a parameter: \<open>malloc_ok n\<close> says whether an allocation of \<open>n\<close>
  bytes succeeds.
\<close>

definition OPENSSL_memdup :: "(nat \<Rightarrow> bool) \<Rightarrow> bytes \<Rightarrow> bytes option" where
  "OPENSSL_memdup malloc_ok data =
     (if length data = 0 then None
      else if malloc_ok (length data) then Some data else None)"

definition OPENSSL_strndup :: "(nat \<Rightarrow> bool) \<Rightarrow> bytes \<Rightarrow> bytes option" where
  "OPENSSL_strndup malloc_ok str =
     (let size = OPENSSL_strnlen str; alloc_size = size_add size 1
      in if alloc_size < size then None
         else if malloc_ok alloc_size then Some (take size str @ [0]) else None)"

definition OPENSSL_memchr :: "bytes \<Rightarrow> u8 \<Rightarrow> nat option" where
  "OPENSSL_memchr s c =
     (let n = length (takeWhile (\<lambda>x. x \<noteq> c) s) in if n < length s then Some n else None)"

section \<open>Fixed-size reads\<close>

definition CBS_init :: "bytes \<Rightarrow> cbs" where
  "CBS_init data = data"

definition cbs_get :: "cbs \<Rightarrow> nat \<Rightarrow> bytes cbs_ret" where
  "cbs_get cbs n = (if length cbs < n then (None, cbs) else (Some (take n cbs), drop n cbs))"

definition CBS_skip :: "cbs \<Rightarrow> nat \<Rightarrow> unit cbs_ret" where
  "CBS_skip cbs len = cbs_bind (cbs_get cbs len) (\<lambda>dummy cbs. (Some (), cbs))"

definition CBS_len :: "cbs \<Rightarrow> nat" where
  "CBS_len cbs = length cbs"

text \<open>The pair is the return value and the new \<open>(*out_ptr, *out_len)\<close>.\<close>

definition CBS_stow :: "(nat \<Rightarrow> bool) \<Rightarrow> cbs \<Rightarrow> bool \<times> bytes option \<times> nat" where
  "CBS_stow malloc_ok cbs =
     (if CBS_len cbs = 0 then (True, None, 0)
      else case OPENSSL_memdup malloc_ok cbs of
        None \<Rightarrow> (False, None, 0)
      | Some p \<Rightarrow> (True, Some p, CBS_len cbs))"

definition CBS_strdup :: "(nat \<Rightarrow> bool) \<Rightarrow> cbs \<Rightarrow> bool \<times> bytes option" where
  "CBS_strdup malloc_ok cbs =
     (let out_ptr = OPENSSL_strndup malloc_ok cbs in (out_ptr \<noteq> None, out_ptr))"

definition CBS_contains_zero_byte :: "cbs \<Rightarrow> bool" where
  "CBS_contains_zero_byte cbs \<longleftrightarrow> OPENSSL_memchr cbs 0 \<noteq> None"

definition CBS_mem_equal :: "cbs \<Rightarrow> bytes \<Rightarrow> bool" where
  "CBS_mem_equal cbs data \<longleftrightarrow>
     (if length data \<noteq> CBS_len cbs then False else CRYPTO_memcmp cbs data = 0)"

definition cbs_get_u :: "cbs \<Rightarrow> nat \<Rightarrow> u64 cbs_ret" where
  "cbs_get_u cbs len = cbs_bind (cbs_get cbs len)
     (\<lambda>data cbs. (Some (foldl (\<lambda>result b. push_bit 8 result OR ucast b) 0 data), cbs))"

definition CBS_get_u8 :: "cbs \<Rightarrow> u8 cbs_ret" where
  "CBS_get_u8 cbs = cbs_bind (cbs_get cbs 1) (\<lambda>v cbs. (Some (v ! 0), cbs))"

definition CBS_get_u16 :: "cbs \<Rightarrow> u16 cbs_ret" where
  "CBS_get_u16 cbs = cbs_bind (cbs_get_u cbs 2) (\<lambda>v cbs. (Some (ucast v), cbs))"

text \<open>Byte swaps: \<open>CRYPTO_bswap2/4/8\<close> of \<open>crypto/internal.h\<close>.\<close>

definition CRYPTO_bswap2 :: "u16 \<Rightarrow> u16" where
  "CRYPTO_bswap2 x = drop_bit 8 x OR push_bit 8 x"

definition CRYPTO_bswap4 :: "u32 \<Rightarrow> u32" where
  "CRYPTO_bswap4 x =
     (let x = drop_bit 16 x OR push_bit 16 x
      in drop_bit 8 (x AND 0xff00ff00) OR push_bit 8 (x AND 0x00ff00ff))"

definition CRYPTO_bswap8 :: "u64 \<Rightarrow> u64" where
  "CRYPTO_bswap8 x =
     push_bit 32 (ucast (CRYPTO_bswap4 (ucast x))) OR ucast (CRYPTO_bswap4 (ucast (drop_bit 32 x)))"

definition CBS_get_u16le :: "cbs \<Rightarrow> u16 cbs_ret" where
  "CBS_get_u16le cbs = cbs_bind (CBS_get_u16 cbs) (\<lambda>out cbs. (Some (CRYPTO_bswap2 out), cbs))"

definition CBS_get_u24 :: "cbs \<Rightarrow> u32 cbs_ret" where
  "CBS_get_u24 cbs = cbs_bind (cbs_get_u cbs 3) (\<lambda>v cbs. (Some (ucast v), cbs))"

definition CBS_get_u32 :: "cbs \<Rightarrow> u32 cbs_ret" where
  "CBS_get_u32 cbs = cbs_bind (cbs_get_u cbs 4) (\<lambda>v cbs. (Some (ucast v), cbs))"

definition CBS_get_u32le :: "cbs \<Rightarrow> u32 cbs_ret" where
  "CBS_get_u32le cbs = cbs_bind (CBS_get_u32 cbs) (\<lambda>out cbs. (Some (CRYPTO_bswap4 out), cbs))"

definition CBS_get_u64 :: "cbs \<Rightarrow> u64 cbs_ret" where
  "CBS_get_u64 cbs = cbs_get_u cbs 8"

definition CBS_get_u64le :: "cbs \<Rightarrow> u64 cbs_ret" where
  "CBS_get_u64le cbs = cbs_bind (cbs_get_u cbs 8) (\<lambda>out cbs. (Some (CRYPTO_bswap8 out), cbs))"

definition CBS_get_last_u8 :: "cbs \<Rightarrow> u8 cbs_ret" where
  "CBS_get_last_u8 cbs =
     (if CBS_len cbs = 0 then (None, cbs)
      else (Some (cbs ! (CBS_len cbs - 1)), take (CBS_len cbs - 1) cbs))"

section \<open>Variable-size reads\<close>

definition CBS_get_bytes :: "cbs \<Rightarrow> nat \<Rightarrow> cbs cbs_ret" where
  "CBS_get_bytes cbs len = cbs_bind (cbs_get cbs len) (\<lambda>v cbs. (Some (CBS_init v), cbs))"

definition CBS_copy_bytes :: "cbs \<Rightarrow> nat \<Rightarrow> bytes cbs_ret" where
  "CBS_copy_bytes cbs len = cbs_bind (cbs_get cbs len) (\<lambda>v cbs. (Some v, cbs))"

text \<open>The outer \<open>None\<close> is the failed assertion \<open>len_len <= 3\<close>.\<close>

definition cbs_get_length_prefixed :: "cbs \<Rightarrow> nat \<Rightarrow> cbs cbs_ret option" where
  "cbs_get_length_prefixed cbs len_len =
     (case cbs_get_u cbs len_len of
        (None, cbs) \<Rightarrow> Some (None, cbs)
      | (Some len, cbs) \<Rightarrow> if len_len \<le> 3 then Some (CBS_get_bytes cbs (unat len)) else None)"

definition CBS_get_u8_length_prefixed :: "cbs \<Rightarrow> cbs cbs_ret option" where
  "CBS_get_u8_length_prefixed cbs = cbs_get_length_prefixed cbs 1"

definition CBS_get_u16_length_prefixed :: "cbs \<Rightarrow> cbs cbs_ret option" where
  "CBS_get_u16_length_prefixed cbs = cbs_get_length_prefixed cbs 2"

definition CBS_get_u24_length_prefixed :: "cbs \<Rightarrow> cbs cbs_ret option" where
  "CBS_get_u24_length_prefixed cbs = cbs_get_length_prefixed cbs 3"

definition CBS_get_until_first :: "cbs \<Rightarrow> u8 \<Rightarrow> cbs cbs_ret" where
  "CBS_get_until_first cbs c =
     (case OPENSSL_memchr cbs c of None \<Rightarrow> (None, cbs) | Some split \<Rightarrow> CBS_get_bytes cbs split)"

text \<open>
  The loop of \<open>CBS_get_u64_decimal\<close>, with its locals \<open>v\<close> and \<open>seen_digit\<close>.
\<close>

fun cbs_decimal_loop :: "u64 \<Rightarrow> bool \<Rightarrow> cbs \<Rightarrow> u64 cbs_ret" where
  "cbs_decimal_loop v seen_digit [] = (if seen_digit then Some v else None, [])"
| "cbs_decimal_loop v seen_digit (c # cbs) =
     (if \<not> OPENSSL_isdigit c then (if seen_digit then Some v else None, c # cbs)
      else if v = 0 \<and> seen_digit \<or>
              v > (- 1) div 10 \<or>
              v * 10 > (- 1) - ucast (c - 0x30)
      then (None, cbs)
      else cbs_decimal_loop (v * 10 + ucast (c - 0x30)) True cbs)"

definition CBS_get_u64_decimal :: "cbs \<Rightarrow> u64 cbs_ret" where
  "CBS_get_u64_decimal cbs = cbs_decimal_loop 0 False cbs"

text \<open>The loop of \<open>parse_base128_integer\<close>, with its local \<open>v\<close>.\<close>

fun parse_base128_loop :: "u64 \<Rightarrow> cbs \<Rightarrow> u64 cbs_ret" where
  "parse_base128_loop v [] = (None, [])"
| "parse_base128_loop v (b # cbs) =
     (if drop_bit (64 - 7) v \<noteq> 0 then (None, cbs)
      else if v = 0 \<and> b = 0x80 then (None, cbs)
      else let v = push_bit 7 v OR ucast (b AND 0x7f)
           in if b AND 0x80 \<noteq> 0 then parse_base128_loop v cbs else (Some v, cbs))"

definition parse_base128_integer :: "cbs \<Rightarrow> u64 cbs_ret" where
  "parse_base128_integer cbs = parse_base128_loop 0 cbs"


section \<open>What the readers return\<close>

text \<open>Specification of the base-128 encoding used by tags and object identifiers.\<close>

fun base128_hi :: "nat \<Rightarrow> bytes" where
  "base128_hi n = (if n = 0 then [] else base128_hi (n div 128) @ [0x80 OR of_nat (n mod 128)])"

declare base128_hi.simps [simp del]

definition base128 :: "nat \<Rightarrow> bytes" where
  "base128 n = base128_hi (n div 128) @ [of_nat (n mod 128)]"

text \<open>The value of a string of decimal digits, read after a number \<open>n\<close>.\<close>

definition dec_from :: "nat \<Rightarrow> bytes \<Rightarrow> nat" where
  "dec_from n ds = foldl (\<lambda>n c. n * 10 + (unat c - 48)) n ds"

lemma cbs_bind_simps [simp]:
  "cbs_bind (None, cbs) f = (None, cbs)"
  "cbs_bind (Some x, cbs) f = f x cbs"
  by (simp_all add: cbs_bind_def)

lemma cbs_bind_Some:
  "cbs_bind m f = (Some y, rest) \<longleftrightarrow> (\<exists>x cbs. m = (Some x, cbs) \<and> f x cbs = (Some y, rest))"
  by (auto simp: cbs_bind_def split: option.splits prod.splits)

lemma CBS_get_u8_simps [simp]:
  "CBS_get_u8 [] = (None, [])"
  "CBS_get_u8 (b # cbs) = (Some b, cbs)"
  by (simp_all add: CBS_get_u8_def cbs_get_def)

lemma CBS_get_bytes_eq:
  "CBS_get_bytes cbs n = (if length cbs < n then (None, cbs) else (Some (take n cbs), drop n cbs))"
  by (simp add: CBS_get_bytes_def cbs_get_def CBS_init_def)

lemma CBS_skip_eq:
  "CBS_skip cbs n = (if length cbs < n then (None, cbs) else (Some (), drop n cbs))"
  by (simp add: CBS_skip_def cbs_get_def)

lemma foldl_be_word:
  "foldl (\<lambda>r b. push_bit 8 r OR ucast b) (of_nat n :: u64) (data::bytes) =
     of_nat (n * 256 ^ length data + be_nat data)"
proof (induction data rule: rev_induct)
  case (snoc b data)
  have "unat (ucast b :: u64) = unat b" by (simp add: unat_ucast_le)
  then have "push_bit 8 (of_nat m :: u64) OR ucast b = of_nat (m * 256 + unat b)" for m
    using push_bit_or_of_nat [of "ucast b :: u64" 8 m] by simp
  with snoc show ?case by (simp add: algebra_simps del: of_nat_add of_nat_mult)
qed simp

lemma cbs_get_u_eq:
  "cbs_get_u cbs n = (if length cbs < n then (None, cbs)
     else (Some (of_nat (be_nat (take n cbs))), drop n cbs))"
  using foldl_be_word [of 0] by (simp add: cbs_get_u_def cbs_get_def)

lemma or_80: "n < 128 \<Longrightarrow> (0x80 OR of_nat n :: u8) = of_nat (128 + n)"
proof -
  assume "n < 128"
  moreover have "list_all (\<lambda>n. (0x80 OR of_nat n :: u8) = of_nat (128 + n)) [0..<128]" by code_simp
  ultimately show ?thesis by (simp add: list_all_iff)
qed

lemma unat_or_80: "n < 128 \<Longrightarrow> unat (0x80 OR of_nat n :: u8) = 128 + n"
  by (simp add: or_80 unat_of_nat_mod del: of_nat_add)

lemma unat_low_byte: "n < 128 \<Longrightarrow> unat (of_nat n :: u8) = n"
  by (simp add: unat_of_nat_mod)

lemma hi_byte_cases: "128 \<le> unat (b::u8) \<Longrightarrow> b = 0x80 OR of_nat (unat b mod 128)"
proof (rule word_eq_unatI)
  assume h: "128 \<le> unat b"
  then have "128 + unat b mod 128 = unat b" by (simp add: u8_mod_128)
  then show "unat b = unat (0x80 OR of_nat (unat b mod 128) :: u8)"
    using unat_or_80 [of "unat b mod 128"] by simp
qed

lemma base128_step:
  assumes n: "n < 2 ^ 57" and nz: "n \<noteq> 0 \<or> b \<noteq> 0x80"
  shows "parse_base128_loop (of_nat n) (b # rest) =
     (if 128 \<le> unat b then parse_base128_loop (of_nat (n * 128 + unat b mod 128)) rest
      else (Some (of_nat (n * 128 + unat b mod 128)), rest))"
proof -
  have ub: "unat (ucast (b AND 0x7f) :: u64) = unat b mod 128"
    by (simp add: unat_ucast_le u8_and_7f)
  have sh: "push_bit 7 (of_nat n) OR (ucast (b AND 0x7f) :: u64) = of_nat (n * 128 + unat b mod 128)"
    using push_bit_or_of_nat [of "ucast (b AND 0x7f) :: u64" 7 n] ub by simp
  have un: "unat (of_nat n :: u64) = n" using n by (intro unat_of_nat_less) simp
  then have z: "(of_nat n :: u64) = 0 \<longleftrightarrow> n = 0" using unat_eq_zero [of "of_nat n :: u64"] by (simp only:)
  have d: "drop_bit (64 - 7) (of_nat n :: u64) = 0" using n un by (simp add: drop_bit_eq_0_iff)
  have h: "b AND 0x80 \<noteq> 0 \<longleftrightarrow> 128 \<le> unat b" by (simp add: u8_and_80 not_less)
  show ?thesis unfolding parse_base128_loop.simps Let_def sh h z d using nz by auto
qed

lemma parse_base128_hi:
  "n < 2 ^ 64 \<Longrightarrow> parse_base128_loop 0 (base128_hi n @ rest) = parse_base128_loop (of_nat n) rest"
proof (induction n arbitrary: rest rule: base128_hi.induct)
  case (1 n)
  show ?case
  proof (cases "n = 0")
    case False
    have "unat (0x80 OR of_nat (n mod 128) :: u8) = 128 + n mod 128" by (simp add: unat_or_80)
    moreover from this have "n div 128 \<noteq> 0 \<or> (0x80 OR of_nat (n mod 128) :: u8) \<noteq> 0x80"
      using False by force
    ultimately have "parse_base128_loop (of_nat (n div 128)) ((0x80 OR of_nat (n mod 128)) # rest)
        = parse_base128_loop (of_nat n) rest"
      using base128_step [of "n div 128" "0x80 OR of_nat (n mod 128)" rest] 1(2)
      by (simp del: of_nat_add of_nat_mult parse_base128_loop.simps)
    then show ?thesis
      using 1 False by (subst base128_hi.simps) (simp del: parse_base128_loop.simps)
  qed (simp add: base128_hi.simps)
qed

lemma parse_base128_base128:
  assumes "n < 2 ^ 64"
  shows "parse_base128_integer (base128 n @ rest) = (Some (of_nat n), rest)"
  using parse_base128_hi [of "n div 128" "of_nat (n mod 128) # rest"]
    base128_step [of "n div 128" "of_nat (n mod 128)" rest] assms
    unat_low_byte [of "n mod 128"]
  by (force simp: parse_base128_integer_def base128_def
      simp del: of_nat_add of_nat_mult parse_base128_loop.simps)

lemma parse_base128_loop_Some:
  "parse_base128_loop (of_nat n) cbs = (Some v, rest) \<Longrightarrow> n < 2 ^ 64 \<Longrightarrow>
   \<exists>p. cbs = p @ rest \<and> base128_hi n @ p = base128 (unat v)"
proof (induction cbs arbitrary: n)
  case (Cons b cbs)
  let ?d = "unat b mod 128"
  from Cons.prems have n57: "n < 2 ^ 57"
    by (auto simp: drop_bit_eq_0_iff unat_of_nat_less split: if_splits)
  then have n64: "n * 128 + ?d < 2 ^ 64" by simp
  have nz: "n \<noteq> 0 \<or> b \<noteq> 0x80" using Cons.prems(1) by (auto split: if_splits)
  have dm: "(n * 128 + ?d) div 128 = n" "(n * 128 + ?d) mod 128 = ?d" by simp_all
  note step = base128_step [OF n57 nz, of cbs]
  show ?case
  proof (cases "128 \<le> unat b")
    case True
    then have "parse_base128_loop (of_nat (n * 128 + ?d)) cbs = (Some v, rest)"
      using Cons.prems(1) step by (simp del: of_nat_add of_nat_mult parse_base128_loop.simps)
    from Cons.IH [OF this n64] obtain p where
      p: "cbs = p @ rest" "base128_hi (n * 128 + ?d) @ p = base128 (unat v)" by blast
    have "n * 128 + ?d \<noteq> 0" using nz hi_byte_cases [OF True] by auto
    then have "base128_hi (n * 128 + ?d) = base128_hi n @ [b]"
      using hi_byte_cases [OF True] by (subst base128_hi.simps) (simp add: dm)
    with p show ?thesis by (intro exI [of _ "b # p"]) simp
  next
    case False
    then have "v = of_nat (n * 128 + ?d)" "rest = cbs"
      using Cons.prems(1) step by (simp_all del: of_nat_add of_nat_mult parse_base128_loop.simps)
    moreover have "base128 (n * 128 + ?d) = base128_hi n @ [b]"
      using False by (simp add: base128_def dm)
    ultimately show ?thesis using n64 by (intro exI [of _ "[b]"]) (simp add: unat_of_nat_less del: of_nat_add of_nat_mult)
  qed
qed simp

lemma parse_base128_Some_iff:
  "parse_base128_integer cbs = (Some v, rest) \<longleftrightarrow> cbs = base128 (unat v) @ rest"
proof
  assume "parse_base128_integer cbs = (Some v, rest)"
  then show "cbs = base128 (unat v) @ rest"
    using parse_base128_loop_Some [of 0 cbs v rest]
    by (auto simp: parse_base128_integer_def base128_hi.simps)
next
  assume "cbs = base128 (unat v) @ rest"
  then show "parse_base128_integer cbs = (Some v, rest)"
    using parse_base128_base128 [of "unat v" rest] unat_lt_power [of v] by simp
qed
section \<open>Decimal numbers\<close>

lemma dec_from_simps [simp]:
  "dec_from n [] = n"
  "dec_from n (c # ds) = dec_from (n * 10 + (unat c - 48)) ds"
  by (simp_all add: dec_from_def)

lemma dec_from_ge: "n \<le> dec_from n ds"
proof (induction ds arbitrary: n)
  case (Cons c ds)
  from Cons [of "n * 10 + (unat c - 48)"] show ?case by simp
qed simp

lemma OPENSSL_isdigit_unat: "OPENSSL_isdigit c \<longleftrightarrow> 48 \<le> unat c \<and> unat c \<le> 57"
  by (simp add: OPENSSL_isdigit_def word_le_nat_alt)

lemma digit_bound: "unat (c::u8) - 48 < 256"
  using unat_u8_less [of c] by arith

lemma digit_value: "OPENSSL_isdigit c \<Longrightarrow> (ucast (c - 0x30) :: u64) = of_nat (unat c - 48)"
proof (rule word_eq_unatI)
  assume "OPENSSL_isdigit c"
  then have "(0x30::u8) \<le> c" by (simp add: OPENSSL_isdigit_def)
  then have "unat (c - 0x30) = unat c - 48" by (simp add: unat_sub)
  then show "unat (ucast (c - 0x30) :: u64) = unat (of_nat (unat c - 48) :: u64)"
    using digit_bound [of c] by (simp add: unat_ucast_le unat_of_nat_less del: of_nat_diff)
qed

lemma decimal_overflow_test:
  assumes n: "n < 2 ^ 64" and d: "d < 10"
  shows "(of_nat n :: u64) > (- 1) div 10 \<or> (of_nat n :: u64) * 10 > (- 1) - of_nat d \<longleftrightarrow> 2 ^ 64 \<le> n * 10 + d"
proof -
  have un: "unat (of_nat n :: u64) = n" using n by (intro unat_of_nat_less) simp
  have ud: "unat (of_nat d :: u64) = d" using d by (intro unat_of_nat_less) simp
  have m1: "unat (- 1 :: u64) = 2 ^ 64 - 1" by (simp add: unsigned_minus_1_eq_mask mask_eq_exp_minus_1)
  have q: "unat ((- 1 :: u64) div 10) = (2 ^ 64 - 1) div 10" by (simp add: unat_div m1)
  have r: "unat ((- 1 :: u64) - of_nat d) = 2 ^ 64 - 1 - d"
    by (subst unat_sub) (simp_all add: m1 ud)
  have t: "unat ((of_nat n :: u64) * 10) = n * 10" if "n \<le> (2 ^ 64 - 1) div 10"
    using that unat_of_nat_less [of "n * 10", where ?'a = 64] by simp
  show ?thesis
  proof (cases "n \<le> (2 ^ 64 - 1) div 10")
    case True
    then show ?thesis using t [OF True] d by (auto simp: word_less_nat_alt q r un)
  next
    case False
    then show ?thesis by (auto simp: word_less_nat_alt q un)
  qed
qed

lemma decimal_step:
  assumes n: "n < 2 ^ 64" and c: "OPENSSL_isdigit c"
  shows "cbs_decimal_loop (of_nat n) seen (c # cbs) =
    (if n = 0 \<and> seen \<or> 2 ^ 64 \<le> n * 10 + (unat c - 48) then (None, cbs)
     else cbs_decimal_loop (of_nat (n * 10 + (unat c - 48))) True cbs)"
proof -
  have un: "unat (of_nat n :: u64) = n" using n by (intro unat_of_nat_less) simp
  then have z: "(of_nat n :: u64) = 0 \<longleftrightarrow> n = 0"
    using unat_eq_zero [of "of_nat n :: u64"] by (simp only:)
  have d: "unat c - 48 < 10" using c by (auto simp: OPENSSL_isdigit_unat)
  note o = decimal_overflow_test [OF n d]
  have s: "(of_nat n :: u64) * 10 + of_nat (unat c - 48) = of_nat (n * 10 + (unat c - 48))" by simp
  show ?thesis
    unfolding cbs_decimal_loop.simps digit_value [OF c] z o s using c by auto
qed

lemma decimal_loop_eq:
  "n < 2 ^ 64 \<Longrightarrow> list_all OPENSSL_isdigit ds \<Longrightarrow> rest = [] \<or> \<not> OPENSSL_isdigit (hd rest) \<Longrightarrow>
   cbs_decimal_loop (of_nat n) True (ds @ rest) = (Some v, rest') \<longleftrightarrow>
     (ds = [] \<or> n \<noteq> 0) \<and> dec_from n ds < 2 ^ 64 \<and> v = of_nat (dec_from n ds) \<and> rest' = rest"
proof (induction ds arbitrary: n)
  case Nil
  then show ?case by (cases rest) auto
next
  case (Cons c ds)
  show ?case
  proof (cases "n \<noteq> 0 \<and> n * 10 + (unat c - 48) < 2 ^ 64")
    case True
    then show ?thesis
      using decimal_step [of n c True "ds @ rest"] Cons.IH [of "n * 10 + (unat c - 48)"] Cons.prems
      by (auto simp del: cbs_decimal_loop.simps of_nat_add of_nat_mult)
  next
    case False
    then show ?thesis
      using decimal_step [of n c True "ds @ rest"] Cons.prems dec_from_ge [of "n * 10 + (unat c - 48)" ds]
      by (auto simp del: cbs_decimal_loop.simps of_nat_add of_nat_mult)
  qed
qed

lemma CBS_get_u64_decimal_iff:
  assumes "list_all OPENSSL_isdigit ds" and "rest = [] \<or> \<not> OPENSSL_isdigit (hd rest)"
  shows "CBS_get_u64_decimal (ds @ rest) = (Some v, rest') \<longleftrightarrow>
    ds \<noteq> [] \<and> (hd ds \<noteq> 0x30 \<or> tl ds = []) \<and> dec_from 0 ds < 2 ^ 64 \<and>
    v = of_nat (dec_from 0 ds) \<and> rest' = rest"
proof (cases ds)
  case Nil
  then show ?thesis using assms by (cases rest) (auto simp: CBS_get_u64_decimal_def)
next
  case (Cons c ds')
  have c: "OPENSSL_isdigit c" using assms Cons by simp
  then have z: "c = 0x30 \<longleftrightarrow> unat c - 48 = 0"
    by (auto simp: OPENSSL_isdigit_unat word_unat_eq_iff)
  have b: "unat c - 48 < 2 ^ 64" using digit_bound [of c] by simp
  show ?thesis
    using decimal_step [of 0 c False "ds' @ rest"] decimal_loop_eq [OF b, of ds' rest v rest'] assms Cons c z b
    by (auto simp: CBS_get_u64_decimal_def simp del: cbs_decimal_loop.simps of_nat_add of_nat_mult)
qed
section \<open>Comparison and length-prefixed strings\<close>

lemma memcmp_foldl_0:
  "length a = length b \<Longrightarrow>
   foldl (\<lambda>x (ai, bi). x OR (ai XOR bi)) (x::u8) (zip a b) = 0 \<longleftrightarrow> x = 0 \<and> a = b"
proof (induction a b arbitrary: x rule: list_induct2)
  case (Cons u us v vs)
  have "x OR (u XOR v) = 0 \<longleftrightarrow> x = 0 \<and> u = v"
    by (auto simp: bit_eq_iff bit_simps dest: bit_imp_le_length)
  with Cons.IH show ?case by simp
qed simp

lemma CBS_mem_equal_iff: "CBS_mem_equal cbs data \<longleftrightarrow> cbs = data"
  by (auto simp: CBS_mem_equal_def CRYPTO_memcmp_def CBS_len_def memcmp_foldl_0)

lemma cbs_get_length_prefixed_eq: "n \<le> 3 \<Longrightarrow> cbs_get_length_prefixed cbs n = Some (cbs_bind (cbs_get_u cbs n) (\<lambda>len cbs. CBS_get_bytes cbs (unat len)))"
  by (simp add: cbs_get_length_prefixed_def cbs_bind_def split: prod.splits option.splits)

lemma cbs_get_length_prefixed_iff:
  assumes "n \<le> 3"
  shows "cbs_get_length_prefixed cbs n = Some (Some body, rest) \<longleftrightarrow>
    length body < 256 ^ n \<and> cbs = be_bytes n (length body) @ body @ rest"
proof
  assume "cbs_get_length_prefixed cbs n = Some (Some body, rest)"
  then have n: "n \<le> length cbs" and b: "body = take (unat (of_nat (be_nat (take n cbs)) :: u64)) (drop n cbs)"
    and l: "unat (of_nat (be_nat (take n cbs)) :: u64) \<le> length (drop n cbs)"
    and r: "rest = drop (unat (of_nat (be_nat (take n cbs)) :: u64)) (drop n cbs)"
    using assms by (auto simp: cbs_get_length_prefixed_eq cbs_get_u_eq CBS_get_bytes_eq split: if_splits)
  from be_nat_less [of "take n cbs"] n have lt: "be_nat (take n cbs) < 256 ^ n" by simp
  also have "\<dots> \<le> 256 ^ 8" using assms by (intro power_increasing) auto
  finally have "unat (of_nat (be_nat (take n cbs)) :: u64) = be_nat (take n cbs)"
    by (intro unat_of_nat_less) simp
  with b l r n lt have lb: "length body = be_nat (take n cbs)" and "length body < 256 ^ n"
    by simp_all
  moreover have "cbs = take n cbs @ body @ rest"
    using b r by (simp only: append_take_drop_id)
  moreover have "be_bytes n (length body) = take n cbs"
    using lb be_bytes_be_nat [of "take n cbs"] n by simp
  ultimately show "length body < 256 ^ n \<and> cbs = be_bytes n (length body) @ body @ rest" by simp
next
  assume a: "length body < 256 ^ n \<and> cbs = be_bytes n (length body) @ body @ rest"
  have "(256::nat) ^ n \<le> 256 ^ 8" using assms by (intro power_increasing) auto
  with a have "unat (of_nat (length body) :: u64) = length body" by (intro unat_of_nat_less) simp
  with a assms show "cbs_get_length_prefixed cbs n = Some (Some body, rest)"
    by (simp add: cbs_get_length_prefixed_eq cbs_get_u_eq CBS_get_bytes_eq be_nat_be_bytes)
qed

end
