(* ===== verification/Cbb.thy ===== *)
theory Cbb
  imports Cbs
begin

text \<open>
  The builder \<open>CBB\<close> of \<open>crypto/bytestring/cbb.c\<close>. A tree of \<open>CBB\<close> objects
  shares one \<open>cbb_buffer_st\<close>; each object has at most one open child, so the objects
  reachable from a top-level \<open>CBB\<close> form a chain. The model keeps the buffer and the chain
  of open children; the \<open>CBB\<close> at depth \<open>d\<close> is the root for \<open>d = 0\<close> and
  \<open>children ! (d - 1)\<close> otherwise. A depth beyond the chain is a child that was flushed or
  discarded, whose \<open>u.child.base\<close> is \<open>NULL\<close>.

  An operation returns \<open>None\<close> where the C code has no defined behaviour (a write outside
  the buffer, a failed \<open>assert\<close>, a \<open>NULL\<close> dereference), \<open>Some (None, s)\<close> where it
  returns 0 and \<open>Some (Some x, s)\<close> where it returns 1 with the out-parameter \<open>x\<close>. The
  first argument \<open>mem\<close> is the C library's \<open>malloc\<close>: \<open>mem n\<close> is \<open>None\<close> or a
  block of \<open>n\<close> bytes of any content.
\<close>

record cbb_buffer =
  bbuf :: bytes
  blen :: nat
  bcap :: nat
  can_resize :: bool
  berror :: bool

record cbb_child =
  c_offset :: nat
  pending_len_len :: nat
  pending_is_asn1 :: bool

record cbb =
  cbb_base :: cbb_buffer
  children :: "cbb_child list"

type_synonym allocator = "nat \<Rightarrow> bytes option"
type_synonym 'a cbb_ret = "('a option \<times> cbb) option"

text \<open>\<open>if (!f(cbb)) return 0;\<close> and the code after it.\<close>

definition cbb_bind :: "'a cbb_ret \<Rightarrow> ('a \<Rightarrow> cbb \<Rightarrow> 'b cbb_ret) \<Rightarrow> 'b cbb_ret" where
  "cbb_bind m f = (case m of
     None \<Rightarrow> None
   | Some (None, s) \<Rightarrow> Some (None, s)
   | Some (Some x, s) \<Rightarrow> f x s)"

section \<open>Allocation and the shared buffer\<close>

definition OPENSSL_malloc :: "allocator \<Rightarrow> nat \<Rightarrow> bytes option" where
  "OPENSSL_malloc mem n =
     (if size_add n 8 < n then None else map_option (drop 8) (mem (size_add n 8)))"

definition OPENSSL_realloc :: "allocator \<Rightarrow> bytes \<Rightarrow> nat \<Rightarrow> bytes option" where
  "OPENSSL_realloc mem orig new_size =
     map_option (\<lambda>ret. let to_copy = min (length orig) new_size in take to_copy orig @ drop to_copy ret)
       (OPENSSL_malloc mem new_size)"

text \<open>\<open>memcpy\<close>/\<open>memmove\<close> into the buffer at index \<open>i\<close>.\<close>

definition buf_write :: "cbb_buffer \<Rightarrow> nat \<Rightarrow> bytes \<Rightarrow> cbb_buffer option" where
  "buf_write b i bs =
     (if i + length bs \<le> length (bbuf b)
      then Some (b\<lparr>bbuf := take i (bbuf b) @ bs @ drop (i + length bs) (bbuf b)\<rparr>) else None)"

definition cbb_init :: "bytes \<Rightarrow> nat \<Rightarrow> bool \<Rightarrow> cbb" where
  "cbb_init b c resize =
     \<lparr>cbb_base = \<lparr>bbuf = b, blen = 0, bcap = c, can_resize = resize, berror = False\<rparr>, children = []\<rparr>"

definition CBB_init :: "allocator \<Rightarrow> nat \<Rightarrow> cbb option" where
  "CBB_init mem initial_capacity =
     (case OPENSSL_malloc mem initial_capacity of
        None \<Rightarrow> if initial_capacity > 0 then None else Some (cbb_init [] initial_capacity True)
      | Some b \<Rightarrow> Some (cbb_init b initial_capacity True))"

definition CBB_init_fixed :: "bytes \<Rightarrow> cbb" where
  "CBB_init_fixed b = cbb_init b (length b) False"

text \<open>The flag is the return value; the pointer \<open>*out\<close> is \<open>buf + len\<close>.\<close>

definition cbb_buffer_reserve :: "allocator \<Rightarrow> cbb_buffer \<Rightarrow> nat \<Rightarrow> bool \<times> cbb_buffer" where
  "cbb_buffer_reserve mem b n =
     (let newlen = size_add (blen b) n; err = (False, b\<lparr>berror := True\<rparr>)
      in if newlen < blen b then err
         else if newlen > bcap b then
           if \<not> can_resize b then err
           else let newcap = size_add (bcap b) (bcap b);
                    newcap = (if newcap < bcap b \<or> newcap < newlen then newlen else newcap)
             in case OPENSSL_realloc mem (bbuf b) newcap of
                  None \<Rightarrow> err
                | Some newbuf \<Rightarrow> (True, b\<lparr>bbuf := newbuf, bcap := newcap\<rparr>)
         else (True, b))"

definition cbb_buffer_add :: "allocator \<Rightarrow> cbb_buffer \<Rightarrow> nat \<Rightarrow> bool \<times> cbb_buffer" where
  "cbb_buffer_add mem b n =
     (case cbb_buffer_reserve mem b n of
        (False, b) \<Rightarrow> (False, b)
      | (True, b) \<Rightarrow> (True, b\<lparr>blen := blen b + n\<rparr>))"

section \<open>Flushing\<close>

definition cbb_on_error :: "nat \<Rightarrow> cbb \<Rightarrow> cbb" where
  "cbb_on_error d s = s\<lparr>cbb_base := (cbb_base s)\<lparr>berror := True\<rparr>, children := take d (children s)\<rparr>"

text \<open>
  The loop \<open>for (i = n - 1; i < n; i--) { buf[i] = v; v >>= 8; }\<close> at index \<open>at\<close>
  of the buffer, with the value of \<open>v\<close> after it.
\<close>

fun cbb_write_be :: "nat \<Rightarrow> nat \<Rightarrow> u64 \<Rightarrow> cbb_buffer \<Rightarrow> (u64 \<times> cbb_buffer) option" where
  "cbb_write_be 0 i v b = Some (v, b)"
| "cbb_write_be (Suc n) i v b =
     (case buf_write b (i + n) [ucast v] of
        None \<Rightarrow> None
      | Some b \<Rightarrow> cbb_write_be n i (drop_bit 8 v) b)"

text \<open>
  The part of \<open>CBB_flush\<close> for an ASN.1 child: the length of the length, the initial
  byte, the length still to be written, or \<open>None\<close> for a length that is too large.
\<close>

definition cbb_asn1_len_len :: "u64 \<Rightarrow> (nat \<times> u8 \<times> u64) option" where
  "cbb_asn1_len_len n =
     (if n > 0xfffffffe then None
      else if n > 0xffffff then Some (5, 0x80 OR 4, n)
      else if n > 0xffff then Some (4, 0x80 OR 3, n)
      else if n > 0xff then Some (3, 0x80 OR 2, n)
      else if n > 0x7f then Some (2, 0x80 OR 1, n)
      else Some (1, ucast n, 0))"

text \<open>
  The body of \<open>CBB_flush\<close> after the recursive call has succeeded, for the \<open>CBB\<close> at
  depth \<open>d\<close> whose child is \<open>children ! d\<close>.
\<close>

definition cbb_flush_child :: "allocator \<Rightarrow> nat \<Rightarrow> cbb \<Rightarrow> unit cbb_ret" where
  "cbb_flush_child mem d s =
     (let child = children s ! d;
          child_start = size_add (c_offset child) (pending_len_len child);
          err = (\<lambda>b. Some (None, cbb_on_error d (s\<lparr>cbb_base := b\<rparr>)));
          write_len = (\<lambda>b off n v. case cbb_write_be n off v b of
              None \<Rightarrow> None
            | Some (v, b) \<Rightarrow>
                if v \<noteq> 0 then err b
                else Some (Some (), s\<lparr>cbb_base := b, children := take d (children s)\<rparr>))
      in if child_start < c_offset child \<or> blen (cbb_base s) < child_start then err (cbb_base s)
         else let n = of_nat (blen (cbb_base s) - child_start) :: u64
           in if pending_is_asn1 child then
                if pending_len_len child \<noteq> 1 then None
                else case cbb_asn1_len_len n of
                    None \<Rightarrow> err (cbb_base s)
                  | Some (len_len, initial_length_byte, v) \<Rightarrow>
                      (case (if len_len \<noteq> 1 then
                               let extra_bytes = len_len - 1
                               in case cbb_buffer_add mem (cbb_base s) extra_bytes of
                                    (False, b) \<Rightarrow> Some (False, b)
                                  | (True, b) \<Rightarrow>
                                      map_option (Pair True)
                                        (buf_write b (child_start + extra_bytes)
                                           (take (unat n) (drop child_start (bbuf b))))
                             else Some (True, cbb_base s)) of
                         None \<Rightarrow> None
                       | Some (False, b) \<Rightarrow> err b
                       | Some (True, b) \<Rightarrow>
                           (case buf_write b (c_offset child) [initial_length_byte] of
                              None \<Rightarrow> None
                            | Some b \<Rightarrow> write_len b (c_offset child + 1) (len_len - 1) v))
              else write_len (cbb_base s) (c_offset child) (pending_len_len child) n)"

function CBB_flush :: "allocator \<Rightarrow> nat \<Rightarrow> cbb \<Rightarrow> unit cbb_ret" where
  "CBB_flush mem d s =
     (if d > length (children s) \<or> berror (cbb_base s) then Some (None, s)
      else if d = length (children s) then Some (Some (), s)
      else case CBB_flush mem (Suc d) s of
          None \<Rightarrow> None
        | Some (None, s) \<Rightarrow> Some (None, cbb_on_error d s)
        | Some (Some _, s) \<Rightarrow> cbb_flush_child mem d s)"
  by pat_completeness auto
termination
  by (relation "measure (\<lambda>(mem, d, s). length (children s) - d)") auto

declare CBB_flush.simps [simp del]

section \<open>Reading a builder\<close>

definition CBB_data_offset :: "nat \<Rightarrow> cbb \<Rightarrow> nat option" where
  "CBB_data_offset d s =
     (if d \<noteq> length (children s) then None
      else if d > 0 then let c = children s ! (d - 1) in Some (c_offset c + pending_len_len c)
      else Some 0)"

definition CBB_len :: "nat \<Rightarrow> cbb \<Rightarrow> nat option" where
  "CBB_len d s =
     (if d \<noteq> length (children s) then None
      else if d > 0 then
        let c = children s ! (d - 1)
        in if c_offset c + pending_len_len c \<le> blen (cbb_base s)
           then Some (blen (cbb_base s) - c_offset c - pending_len_len c) else None
      else Some (blen (cbb_base s)))"

definition CBB_data :: "nat \<Rightarrow> cbb \<Rightarrow> bytes option" where
  "CBB_data d s = map_option (\<lambda>i. drop i (bbuf (cbb_base s))) (CBB_data_offset d s)"

text \<open>
  \<open>CBB_finish\<close>: \<open>out_given\<close> says that neither \<open>out_data\<close> nor \<open>out_len\<close> is
  \<open>NULL\<close>. The result is the first \<open>*out_len\<close> bytes at \<open>*out_data\<close>.
\<close>

definition CBB_finish :: "allocator \<Rightarrow> nat \<Rightarrow> bool \<Rightarrow> cbb \<Rightarrow> bytes cbb_ret" where
  "CBB_finish mem d out_given s =
     (if d > 0 then Some (None, s)
      else cbb_bind (CBB_flush mem d s) (\<lambda>_ s.
        if can_resize (cbb_base s) \<and> \<not> out_given then Some (None, s)
        else Some (Some (take (blen (cbb_base s)) (bbuf (cbb_base s))), s\<lparr>cbb_base := (cbb_base s)\<lparr>bbuf := []\<rparr>\<rparr>)))"

section \<open>Adding bytes and children\<close>

text \<open>The out-parameter of \<open>CBB_add_space\<close> and \<open>CBB_reserve\<close> is an index into the buffer.\<close>

definition CBB_add_space :: "allocator \<Rightarrow> nat \<Rightarrow> nat \<Rightarrow> cbb \<Rightarrow> nat cbb_ret" where
  "CBB_add_space mem d n s = cbb_bind (CBB_flush mem d s) (\<lambda>_ s.
     case cbb_buffer_add mem (cbb_base s) n of
       (False, b) \<Rightarrow> Some (None, s\<lparr>cbb_base := b\<rparr>)
     | (True, b) \<Rightarrow> Some (Some (blen (cbb_base s)), s\<lparr>cbb_base := b\<rparr>))"

definition CBB_reserve :: "allocator \<Rightarrow> nat \<Rightarrow> nat \<Rightarrow> cbb \<Rightarrow> nat cbb_ret" where
  "CBB_reserve mem d n s = cbb_bind (CBB_flush mem d s) (\<lambda>_ s.
     case cbb_buffer_reserve mem (cbb_base s) n of
       (False, b) \<Rightarrow> Some (None, s\<lparr>cbb_base := b\<rparr>)
     | (True, b) \<Rightarrow> Some (Some (blen (cbb_base s)), s\<lparr>cbb_base := b\<rparr>))"

definition CBB_did_write :: "nat \<Rightarrow> nat \<Rightarrow> cbb \<Rightarrow> unit cbb_ret" where
  "CBB_did_write d n s =
     (if d > length (children s) then None
      else let newlen = size_add (blen (cbb_base s)) n
        in if d < length (children s) \<or> newlen < blen (cbb_base s) \<or> newlen > bcap (cbb_base s)
           then Some (None, s)
           else Some (Some (), s\<lparr>cbb_base := (cbb_base s)\<lparr>blen := newlen\<rparr>\<rparr>))"

definition cbb_write :: "nat \<Rightarrow> bytes \<Rightarrow> cbb \<Rightarrow> unit cbb_ret" where
  "cbb_write i bs s = map_option (\<lambda>b. (Some (), s\<lparr>cbb_base := b\<rparr>)) (buf_write (cbb_base s) i bs)"

definition CBB_add_bytes :: "allocator \<Rightarrow> nat \<Rightarrow> bytes \<Rightarrow> cbb \<Rightarrow> unit cbb_ret" where
  "CBB_add_bytes mem d data s =
     cbb_bind (CBB_add_space mem d (length data) s) (\<lambda>out s. cbb_write out data s)"

definition CBB_add_zeros :: "allocator \<Rightarrow> nat \<Rightarrow> nat \<Rightarrow> cbb \<Rightarrow> unit cbb_ret" where
  "CBB_add_zeros mem d n s =
     cbb_bind (CBB_add_space mem d n s) (\<lambda>out s. cbb_write out (replicate n 0) s)"

definition cbb_add_u :: "allocator \<Rightarrow> nat \<Rightarrow> u64 \<Rightarrow> nat \<Rightarrow> cbb \<Rightarrow> unit cbb_ret" where
  "cbb_add_u mem d v len_len s =
     cbb_bind (CBB_add_space mem d len_len s) (\<lambda>out s.
       case cbb_write_be len_len out v (cbb_base s) of
         None \<Rightarrow> None
       | Some (v, b) \<Rightarrow>
           let s = s\<lparr>cbb_base := b\<rparr>
           in if v \<noteq> 0 then Some (None, cbb_on_error d s) else Some (Some (), s))"

definition CBB_add_u8 :: "allocator \<Rightarrow> nat \<Rightarrow> u8 \<Rightarrow> cbb \<Rightarrow> unit cbb_ret" where
  "CBB_add_u8 mem d value s = cbb_add_u mem d (ucast value) 1 s"

definition CBB_add_u16 :: "allocator \<Rightarrow> nat \<Rightarrow> u16 \<Rightarrow> cbb \<Rightarrow> unit cbb_ret" where
  "CBB_add_u16 mem d value s = cbb_add_u mem d (ucast value) 2 s"

definition CBB_add_u16le :: "allocator \<Rightarrow> nat \<Rightarrow> u16 \<Rightarrow> cbb \<Rightarrow> unit cbb_ret" where
  "CBB_add_u16le mem d value s = CBB_add_u16 mem d (CRYPTO_bswap2 value) s"

definition CBB_add_u24 :: "allocator \<Rightarrow> nat \<Rightarrow> u32 \<Rightarrow> cbb \<Rightarrow> unit cbb_ret" where
  "CBB_add_u24 mem d value s = cbb_add_u mem d (ucast value) 3 s"

definition CBB_add_u32 :: "allocator \<Rightarrow> nat \<Rightarrow> u32 \<Rightarrow> cbb \<Rightarrow> unit cbb_ret" where
  "CBB_add_u32 mem d value s = cbb_add_u mem d (ucast value) 4 s"

definition CBB_add_u32le :: "allocator \<Rightarrow> nat \<Rightarrow> u32 \<Rightarrow> cbb \<Rightarrow> unit cbb_ret" where
  "CBB_add_u32le mem d value s = CBB_add_u32 mem d (CRYPTO_bswap4 value) s"

definition CBB_add_u64 :: "allocator \<Rightarrow> nat \<Rightarrow> u64 \<Rightarrow> cbb \<Rightarrow> unit cbb_ret" where
  "CBB_add_u64 mem d value s = cbb_add_u mem d value 8 s"

definition CBB_add_u64le :: "allocator \<Rightarrow> nat \<Rightarrow> u64 \<Rightarrow> cbb \<Rightarrow> unit cbb_ret" where
  "CBB_add_u64le mem d value s = CBB_add_u64 mem d (CRYPTO_bswap8 value) s"

text \<open>On success the new child is at depth \<open>d + 1\<close>.\<close>

definition cbb_add_child :: "allocator \<Rightarrow> nat \<Rightarrow> nat \<Rightarrow> bool \<Rightarrow> cbb \<Rightarrow> unit cbb_ret" where
  "cbb_add_child mem d len_len is_asn1 s =
     (if d \<noteq> length (children s) \<or> is_asn1 \<and> len_len \<noteq> 1 then None
      else let off = blen (cbb_base s)
        in case cbb_buffer_add mem (cbb_base s) len_len of
             (False, b) \<Rightarrow> Some (None, s\<lparr>cbb_base := b\<rparr>)
           | (True, b) \<Rightarrow>
               map_option (\<lambda>b. (Some (), s\<lparr>cbb_base := b, children := children s @
                   [\<lparr>c_offset = off, pending_len_len = len_len, pending_is_asn1 = is_asn1\<rparr>]\<rparr>))
                 (buf_write b off (replicate len_len 0)))"

definition cbb_add_length_prefixed :: "allocator \<Rightarrow> nat \<Rightarrow> nat \<Rightarrow> cbb \<Rightarrow> unit cbb_ret" where
  "cbb_add_length_prefixed mem d len_len s =
     cbb_bind (CBB_flush mem d s) (\<lambda>_ s. cbb_add_child mem d len_len False s)"

definition CBB_add_u8_length_prefixed :: "allocator \<Rightarrow> nat \<Rightarrow> cbb \<Rightarrow> unit cbb_ret" where
  "CBB_add_u8_length_prefixed mem d s = cbb_add_length_prefixed mem d 1 s"

definition CBB_add_u16_length_prefixed :: "allocator \<Rightarrow> nat \<Rightarrow> cbb \<Rightarrow> unit cbb_ret" where
  "CBB_add_u16_length_prefixed mem d s = cbb_add_length_prefixed mem d 2 s"

definition CBB_add_u24_length_prefixed :: "allocator \<Rightarrow> nat \<Rightarrow> cbb \<Rightarrow> unit cbb_ret" where
  "CBB_add_u24_length_prefixed mem d s = cbb_add_length_prefixed mem d 3 s"

definition CBB_discard_child :: "nat \<Rightarrow> cbb \<Rightarrow> cbb" where
  "CBB_discard_child d s =
     (if d \<ge> length (children s) then s
      else s\<lparr>cbb_base := (cbb_base s)\<lparr>blen := c_offset (children s ! d)\<rparr>, children := take d (children s)\<rparr>)"

end
