(* ===== verification/Mem_Str.thy ===== *)
theory Mem_Str
  imports Cbb
begin

text \<open>
  The string helpers of \<open>crypto/mem.c\<close>. A \<open>char *\<close> is the list of the bytes from the pointer to the end of
  the array; a C string is such a list with a zero byte, and \<open>None\<close> is an access behind the array. The
  signedness of \<open>char\<close> is the implementation's: \<open>ci\<close> is the value of a \<open>char\<close> as an \<open>int\<close>.
\<close>

section \<open>The model\<close>

fun strlen :: "bytes \<Rightarrow> nat option" where
  "strlen [] = None"
| "strlen (c # s) = (if c = 0 then Some 0 else map_option Suc (strlen s))"

definition OPENSSL_hash32 :: "bytes \<Rightarrow> u32" where
  "OPENSSL_hash32 data = foldl (\<lambda>h b. (h XOR ucast b) * 16777619) 2166136261 data"

definition OPENSSL_strhash :: "bytes \<Rightarrow> u32 option" where
  "OPENSSL_strhash s = map_option (\<lambda>n. OPENSSL_hash32 (take n s)) (strlen s)"

text \<open>The inner \<open>None\<close> is \<open>NULL\<close>.\<close>

definition OPENSSL_strdup :: "allocator \<Rightarrow> bytes option \<Rightarrow> bytes option option" where
  "OPENSSL_strdup mem s =
     (case s of
        None \<Rightarrow> Some None
      | Some s \<Rightarrow>
          (case strlen s of
             None \<Rightarrow> None
           | Some n \<Rightarrow> let len = size_add n 1 in Some (if OPENSSL_malloc mem len = None then None else Some (take len s))))"

definition OPENSSL_isalpha :: "int \<Rightarrow> bool" where
  "OPENSSL_isalpha c \<longleftrightarrow> (c \<ge> 97 \<and> c \<le> 122) \<or> (c \<ge> 65 \<and> c \<le> 90)"

text \<open>\<open>OPENSSL_isdigit\<close> on an \<open>int\<close>; the digits of a \<open>CBS\<close> use it on bytes.\<close>

definition isdigit_int :: "int \<Rightarrow> bool" where
  "isdigit_int c \<longleftrightarrow> c \<ge> 48 \<and> c \<le> 57"

definition OPENSSL_isxdigit :: "int \<Rightarrow> bool" where
  "OPENSSL_isxdigit c \<longleftrightarrow> isdigit_int c \<or> (c \<ge> 97 \<and> c \<le> 102) \<or> (c \<ge> 65 \<and> c \<le> 70)"

text \<open>\<open>None\<close> for the return value 0.\<close>

definition OPENSSL_fromxdigit :: "int \<Rightarrow> u8 option" where
  "OPENSSL_fromxdigit c =
     (if isdigit_int c then Some (of_int (c - 48))
      else if 97 \<le> c \<and> c \<le> 102 then Some (of_int (c - 97 + 10))
      else if 65 \<le> c \<and> c \<le> 70 then Some (of_int (c - 65 + 10))
      else None)"

definition OPENSSL_isalnum :: "int \<Rightarrow> bool" where
  "OPENSSL_isalnum c \<longleftrightarrow> OPENSSL_isalpha c \<or> isdigit_int c"

definition OPENSSL_tolower :: "int \<Rightarrow> int" where
  "OPENSSL_tolower c = (if c \<ge> 65 \<and> c \<le> 90 then c + (97 - 65) else c)"

definition OPENSSL_isspace :: "int \<Rightarrow> bool" where
  "OPENSSL_isspace c \<longleftrightarrow> c = 9 \<or> c = 10 \<or> c = 11 \<or> c = 12 \<or> c = 13 \<or> c = 32"

fun OPENSSL_strcasecmp :: "(u8 \<Rightarrow> int) \<Rightarrow> bytes \<Rightarrow> bytes \<Rightarrow> int option" where
  "OPENSSL_strcasecmp ci (a # as) (b # bs) =
     (let aa = OPENSSL_tolower (ci a); bb = OPENSSL_tolower (ci b)
      in if aa < bb then Some (- 1) else if aa > bb then Some 1 else if aa = 0 then Some 0
         else OPENSSL_strcasecmp ci as bs)"
| "OPENSSL_strcasecmp ci _ _ = None"

fun OPENSSL_strncasecmp :: "(u8 \<Rightarrow> int) \<Rightarrow> bytes \<Rightarrow> bytes \<Rightarrow> nat \<Rightarrow> int option" where
  "OPENSSL_strncasecmp ci as bs 0 = Some 0"
| "OPENSSL_strncasecmp ci (a # as) (b # bs) (Suc n) =
     (let aa = OPENSSL_tolower (ci a); bb = OPENSSL_tolower (ci b)
      in if aa < bb then Some (- 1) else if aa > bb then Some 1 else if aa = 0 then Some 0
         else OPENSSL_strncasecmp ci as bs n)"
| "OPENSSL_strncasecmp ci _ _ (Suc n) = None"

text \<open>The copying loop: \<open>dst_size\<close>, the array, the position of \<open>dst\<close> in it and \<open>src\<close>, before and after.\<close>

fun strlcpy_loop :: "nat \<Rightarrow> bytes \<Rightarrow> nat \<Rightarrow> bytes \<Rightarrow> (nat \<times> bytes \<times> nat \<times> bytes) option" where
  "strlcpy_loop (Suc (Suc n)) d i (c # src) =
     (if c = 0 then Some (Suc (Suc n), d, i, c # src)
      else if i < length d then strlcpy_loop (Suc n) (d[i := c]) (Suc i) src
      else None)"
| "strlcpy_loop (Suc (Suc n)) d i [] = None"
| "strlcpy_loop n d i src = Some (n, d, i, src)"

text \<open>The return value and the array, with \<open>dst\<close> at position \<open>i\<close>.\<close>

definition strlcpy_at :: "bytes \<Rightarrow> nat \<Rightarrow> bytes \<Rightarrow> nat \<Rightarrow> (nat \<times> bytes) option" where
  "strlcpy_at d i src dst_size =
     (case strlcpy_loop dst_size d i src of
        None \<Rightarrow> None
      | Some (dst_size', d', i', src') \<Rightarrow>
          if dst_size' \<noteq> 0 \<and> \<not> i' < length d' then None
          else map_option (\<lambda>n. (size_add (i' - i) n, if dst_size' \<noteq> 0 then d'[i' := 0] else d')) (strlen src'))"

definition OPENSSL_strlcpy :: "bytes \<Rightarrow> bytes \<Rightarrow> nat \<Rightarrow> (nat \<times> bytes) option" where
  "OPENSSL_strlcpy dst src dst_size = strlcpy_at dst 0 src dst_size"

text \<open>The loop of \<open>OPENSSL_strlcat\<close>: the position of the end of the string and what is left of \<open>dst_size\<close>.\<close>

fun strlcat_loop :: "nat \<Rightarrow> bytes \<Rightarrow> nat \<Rightarrow> (nat \<times> nat) option" where
  "strlcat_loop 0 d l = Some (l, 0)"
| "strlcat_loop (Suc n) d l =
     (if l < length d then if d ! l = 0 then Some (l, Suc n) else strlcat_loop n d (Suc l) else None)"

definition OPENSSL_strlcat :: "bytes \<Rightarrow> bytes \<Rightarrow> nat \<Rightarrow> (nat \<times> bytes) option" where
  "OPENSSL_strlcat dst src dst_size =
     (case strlcat_loop dst_size dst 0 of
        None \<Rightarrow> None
      | Some (l, n) \<Rightarrow> map_option (\<lambda>(r, d). (size_add l r, d)) (strlcpy_at dst l src n))"

section \<open>Strings in arrays\<close>

lemma strlen_iff: "strlen s = Some n \<longleftrightarrow> (\<exists>w r. s = w @ 0 # r \<and> 0 \<notin> set w \<and> length w = n)"
proof (induction s arbitrary: n)
  case (Cons c s)
  show ?case
  proof (cases "c = 0")
    case True
    then show ?thesis by (auto simp: Cons_eq_append_conv)
  next
    case False
    have "strlen (c # s) = Some n \<longleftrightarrow> (\<exists>m. n = Suc m \<and> strlen s = Some m)" using False by auto
    also have "\<dots> \<longleftrightarrow> (\<exists>w r. c # s = w @ 0 # r \<and> 0 \<notin> set w \<and> length w = n)"
      unfolding Cons.IH
    proof (intro iffI; elim exE conjE)
      fix m w r assume "n = Suc m" "s = w @ 0 # r" "0 \<notin> set w" "length w = m"
      then show "\<exists>w r. c # s = w @ 0 # r \<and> 0 \<notin> set w \<and> length w = n"
        using False by (intro exI [of _ "c # w"] exI [of _ r]) simp
    next
      fix w r assume "c # s = w @ 0 # r" "0 \<notin> set w" "length w = n"
      then show "\<exists>m. n = Suc m \<and> (\<exists>w r. s = w @ 0 # r \<and> 0 \<notin> set w \<and> length w = m)"
        using False by (cases w) auto
    qed
    finally show ?thesis .
  qed
qed simp

lemma strlen_append [simp]: "0 \<notin> set w \<Longrightarrow> strlen (w @ 0 # r) = Some (length w)"
  by (auto simp: strlen_iff)

text \<open>What \<open>OPENSSL_strlcpy\<close> and \<open>OPENSSL_strlcat\<close> write: as much of the string as fits before the terminator.\<close>

lemma strlcpy_loop_ok:
  assumes "0 \<notin> set w" "i + n \<le> length d" "0 < n"
  shows "strlcpy_loop n d i (w @ 0 # r) =
    Some (n - min (n - 1) (length w), take i d @ take (n - 1) w @ drop (i + min (n - 1) (length w)) d,
          i + min (n - 1) (length w), drop (n - 1) w @ 0 # r)"
  using assms
proof (induction w arbitrary: n d i)
  case Nil
  then show ?case by (cases "(n, d, i, 0 # r)" rule: strlcpy_loop.cases) auto
next
  case (Cons c w)
  show ?case
  proof (cases "n = 1")
    case False
    with Cons.prems obtain m where n: "n = Suc (Suc m)" by (metis One_nat_def Suc_pred less_Suc0 not_less_eq old.nat.exhaust)
    have "take (Suc i) (d[i := c]) = take i d @ [c]" using Cons.prems n by (simp add: take_Suc_conv_app_nth)
    then show ?thesis using Cons.prems Cons.IH [of "Suc i" "Suc m" "d[i := c]"] by (auto simp: n min_Suc_Suc)
  qed (use Cons.prems in simp)
qed

lemma update_at_end:
  "m = length xs \<Longrightarrow> m < length d \<Longrightarrow> (xs @ drop m d)[m := x] = xs @ x # drop (Suc m) d"
  by (simp add: Cons_nth_drop_Suc [symmetric])

lemma strlcpy_at_ok:
  assumes "0 \<notin> set w" "i + n \<le> length d" "length w < SIZE_MOD"
  shows "strlcpy_at d i (w @ 0 # r) n =
    Some (length w, if n = 0 then d else take i d @ take (n - 1) w @ 0 # drop (i + min n (Suc (length w))) d)"
proof (cases "n = 0")
  case True
  then show ?thesis using assms by (simp add: strlcpy_at_def size_add_small)
next
  case False
  define k where "k = min (n - 1) (length w)"
  have kn: "n - k \<noteq> 0" using False by (auto simp: k_def min_def)
  have k: "i + k < length d" "Suc k = min n (Suc (length w))" using False assms(2) by (auto simp: k_def)
  have "0 \<notin> set (drop (n - 1) w)" using assms(1) by (metis in_set_dropD)
  moreover have "size_add k (length (drop (n - 1) w)) = length w" using assms(3) by (subst size_add_small) (auto simp: min_def k_def)
  moreover have "(take i d @ take (n - 1) w @ drop (i + k) d)[i + k := 0] = take i d @ take (n - 1) w @ 0 # drop (i + min n (Suc (length w))) d"
  proof -
    have "i + k = length (take i d @ take (n - 1) w)" using assms(2) by (auto simp: k_def)
    from update_at_end [OF this k(1), of 0] show ?thesis unfolding k(2) [symmetric] by (simp only: append_assoc add_Suc_right)
  qed
  moreover have "length (take i d @ take (n - 1) w @ drop (i + k) d) = length d" using assms(2) k(1) by (auto simp: k_def)
  moreover have "strlcpy_loop n d i (w @ 0 # r) =
      Some (n - k, take i d @ take (n - 1) w @ drop (i + k) d, i + k, drop (n - 1) w @ 0 # r)"
    using strlcpy_loop_ok [OF assms(1,2)] False by (simp add: k_def)
  ultimately show ?thesis using False kn k(1) by (simp only: strlcpy_at_def option.case prod.case strlen_append) simp
qed

lemma strlcat_loop_ok:
  assumes "0 \<notin> set u" "length u < n" "take n d = u @ 0 # v" "k \<le> length u"
  shows "strlcat_loop (n - k) d k = Some (length u, n - length u)"
  using assms(4)
proof (induction "length u - k" arbitrary: k)
  case 0
  then have k: "k = length u" by simp
  obtain m where m: "n - length u = Suc m" using assms(2) by (metis Suc_diff_Suc)
  have "length u < length d" "d ! length u = 0"
    using assms(3) by (metis length_append length_Cons length_take less_add_Suc1 min_less_iff_conj add_Suc_right,
        metis assms(2) nth_append_length nth_take)
  then show ?case by (simp add: k m)
next
  case (Suc x)
  then have k: "k < length u" by simp
  obtain m where m: "n - k = Suc m" "n - Suc k = m" using assms(2) k by (metis Suc_diff_Suc less_trans diff_Suc_Suc)
  have "length (u @ 0 # v) \<le> length d" using assms(3) by (metis length_take min.cobounded1)
  then have l: "k < length d" using k by simp
  have "d ! k = u ! k" using assms(2,3) k by (metis less_trans nth_append nth_take)
  then have "d ! k \<noteq> 0" using assms(1) k by (metis nth_mem)
  then show ?case using Suc.hyps(1) [of "Suc k"] Suc.hyps(2) k l m by simp
qed

lemma strlcat_ok:
  assumes "0 \<notin> set u" "0 \<notin> set w" "length u < n" "length d \<ge> n" "take n d = u @ 0 # v" "length u + length w < SIZE_MOD"
  shows "OPENSSL_strlcat d (w @ 0 # r) n =
    Some (length u + length w, u @ take (n - length u - 1) w @ 0 # drop (length u + min (n - length u) (Suc (length w))) d)"
proof -
  have "take (length u) d = u" using assms(3,5) by (metis append_eq_conv_conj min.absorb1 less_imp_le take_take)
  then show ?thesis
    using strlcat_loop_ok [OF assms(1,3,5), of 0] strlcpy_at_ok [OF assms(2), of "length u" "n - length u" d r] assms(3,4,6)
    by (simp add: OPENSSL_strlcat_def size_add_small)
qed

text \<open>Comparing without case, whatever the sign of \<open>char\<close>.\<close>

definition char_value :: "(u8 \<Rightarrow> int) \<Rightarrow> bool" where
  "char_value ci \<longleftrightarrow> ci = uint \<or> ci = sint"

definition lower :: "u8 \<Rightarrow> u8" where
  "lower c = (if 65 \<le> c \<and> c \<le> 90 then c + 32 else c)"

lemma sint_u8: "sint (c::u8) = (if uint c < 128 then uint c else uint c - 256)"
proof -
  have "sint c = (uint c + 128) mod 256 - 128"
    by (simp add: sint_uint signed_take_bit_eq_take_bit_shift take_bit_eq_mod)
  moreover have "0 \<le> uint c" "uint c < 256" using uint_lt2p [of c] by simp_all
  ultimately show ?thesis
    using mod_pos_pos_trivial [of "uint c + 128" 256] mod_pos_pos_trivial [of "uint c - 128" 256] mod_add_self2 [of "uint c - 128" 256]
    by (auto simp: not_less add.commute [of 128])
qed

lemma uint_lower: "uint (lower c) = (if 65 \<le> uint c \<and> uint c \<le> 90 then uint c + 32 else uint c)"
  by (auto simp: lower_def word_le_def uint_word_ariths)

lemma tolower_lower:
  assumes "char_value ci"
  shows "ci (lower c) = OPENSSL_tolower (ci c)" "ci c = 0 \<longleftrightarrow> c = 0"
proof -
  have u: "0 \<le> uint c" "uint c < 256" "uint c = 0 \<longleftrightarrow> c = 0" using uint_lt2p [of c] by (simp_all add: uint_0_iff)
  then show "ci (lower c) = OPENSSL_tolower (ci c)" "ci c = 0 \<longleftrightarrow> c = 0"
    using assms unfolding char_value_def by (auto simp: sint_u8 uint_lower OPENSSL_tolower_def split: if_splits)
qed

lemma lower_0 [simp]: "lower 0 = 0" "lower a = 0 \<longleftrightarrow> a = 0"
  using uint_lower [of 0] uint_lower [of a] by (simp_all add: uint_0_iff [symmetric] del: uint_0_iff)

lemma tolower_eq:
  assumes "char_value ci"
  shows "OPENSSL_tolower (ci a) = OPENSSL_tolower (ci b) \<longleftrightarrow> lower a = lower b" "OPENSSL_tolower (ci a) = 0 \<longleftrightarrow> a = 0"
proof -
  have "inj ci" using assms unfolding char_value_def by (auto intro!: injI intro: unsigned_word_eqI signed_word_eqI)
  then show "OPENSSL_tolower (ci a) = OPENSSL_tolower (ci b) \<longleftrightarrow> lower a = lower b"
    unfolding tolower_lower(1) [OF assms, symmetric] by (simp add: inj_eq)
  show "OPENSSL_tolower (ci a) = 0 \<longleftrightarrow> a = 0"
    unfolding tolower_lower(1) [OF assms, symmetric] tolower_lower(2) [OF assms] by simp
qed

lemma strcasecmp_eq:
  assumes ci: "char_value ci" and "0 \<notin> set v" "0 \<notin> set w"
  shows "\<exists>x. OPENSSL_strcasecmp ci (v @ 0 # r) (w @ 0 # r') = Some x \<and> (x = 0 \<longleftrightarrow> map lower v = map lower w)"
  using assms(2,3)
proof (induction v arbitrary: w)
  case Nil
  then show ?case using tolower_eq [OF ci] by (cases w) (auto simp: Let_def)
next
  case (Cons a v)
  show ?case
  proof (cases w)
    case Nil
    then show ?thesis using Cons.prems tolower_eq [OF ci] by (auto simp: Let_def)
  next
    case (Cons b w')
    then obtain x where x: "OPENSSL_strcasecmp ci (v @ 0 # r) (w' @ 0 # r') = Some x" "x = 0 \<longleftrightarrow> map lower v = map lower w'"
      using Cons.IH [of w'] Cons.prems by auto
    have "OPENSSL_tolower (ci a) \<noteq> 0" using Cons.prems tolower_eq(2) [OF ci] by simp
    then show ?thesis using x tolower_eq(1) [OF ci, of a b] Cons
      by (cases "OPENSSL_tolower (ci a)" "OPENSSL_tolower (ci b)" rule: linorder_cases) (simp_all add: Let_def)
  qed
qed

end
