(* ===== verification/Cbs_Asn1.thy ===== *)
theory Cbs_Asn1
  imports Cbs
begin

text \<open>
  The ASN.1 part of \<open>crypto/bytestring/cbs.c\<close>: tags, element headers in DER and in the
  BER superset, and the typed readers built on them. A tag is the 32-bit
  \<open>CBS_ASN1_TAG\<close>, with the class and constructed bits in its top three bits.
  The DER encoding these readers accept is specified in the theory \<open>Der\<close>.
\<close>

abbreviation CBS_ASN1_TAG_SHIFT :: nat where "CBS_ASN1_TAG_SHIFT \<equiv> 24"
abbreviation CBS_ASN1_CONSTRUCTED :: u32 where "CBS_ASN1_CONSTRUCTED \<equiv> 0x20000000"
abbreviation CBS_ASN1_TAG_NUMBER_MASK :: u32 where "CBS_ASN1_TAG_NUMBER_MASK \<equiv> 0x1fffffff"
abbreviation CBS_ASN1_CONTEXT_SPECIFIC :: u32 where "CBS_ASN1_CONTEXT_SPECIFIC \<equiv> 0x80000000"
abbreviation CBS_ASN1_BOOLEAN :: u32 where "CBS_ASN1_BOOLEAN \<equiv> 0x1"
abbreviation CBS_ASN1_INTEGER :: u32 where "CBS_ASN1_INTEGER \<equiv> 0x2"
abbreviation CBS_ASN1_OCTETSTRING :: u32 where "CBS_ASN1_OCTETSTRING \<equiv> 0x4"
abbreviation CBS_ASN1_SEQUENCE :: u32 where "CBS_ASN1_SEQUENCE \<equiv> 0x20000010"

section \<open>Tags and elements\<close>

definition parse_asn1_tag :: "cbs \<Rightarrow> u32 cbs_ret" where
  "parse_asn1_tag cbs = cbs_bind (CBS_get_u8 cbs) (\<lambda>tag_byte cbs.
     let tag = push_bit CBS_ASN1_TAG_SHIFT ((ucast tag_byte :: u32) AND 0xe0);
         tag_number = (ucast (tag_byte AND 0x1f) :: u32);
         finish = (\<lambda>tag_number cbs.
           let tag = tag OR tag_number
           in if tag AND NOT CBS_ASN1_CONSTRUCTED = 0 then (None, cbs) else (Some tag, cbs))
     in if tag_number = 0x1f then
          cbs_bind (parse_base128_integer cbs) (\<lambda>v cbs.
            if v > ucast CBS_ASN1_TAG_NUMBER_MASK \<or> v < 0x1f then (None, cbs)
            else finish (ucast v) cbs)
        else finish tag_number cbs)"

text \<open>The out-parameters of \<open>cbs_get_any_asn1_element\<close>.\<close>

record asn1_out =
  out_cbs :: cbs
  out_tag :: u32
  out_header_len :: nat
  out_ber_found :: bool
  out_indefinite :: bool

definition cbs_get_any_asn1_element :: "cbs \<Rightarrow> bool \<Rightarrow> asn1_out cbs_ret" where
  "cbs_get_any_asn1_element cbs ber_ok =
     (case parse_asn1_tag cbs of (None, _) \<Rightarrow> (None, cbs) | (Some tag, header) \<Rightarrow>
      case CBS_get_u8 header of (None, _) \<Rightarrow> (None, cbs) | (Some length_byte, header) \<Rightarrow>
      let header_len = CBS_len cbs - CBS_len header;
          take_element = (\<lambda>len header_len ber_found indefinite.
            cbs_bind (CBS_get_bytes cbs len) (\<lambda>out cbs.
              (Some \<lparr>out_cbs = out, out_tag = tag, out_header_len = header_len,
                     out_ber_found = ber_found, out_indefinite = indefinite\<rparr>, cbs)))
      in if length_byte AND 0x80 = 0 then
           take_element (unat length_byte + header_len) header_len False False
         else
           let num_bytes = unat (length_byte AND 0x7f)
           in if ber_ok \<and> tag AND CBS_ASN1_CONSTRUCTED \<noteq> 0 \<and> num_bytes = 0 then
                take_element header_len header_len True True
              else if num_bytes = 0 \<or> num_bytes > 4 then (None, cbs)
              else case cbs_get_u header num_bytes of (None, _) \<Rightarrow> (None, cbs)
                | (Some len64, header) \<Rightarrow>
                  let not_short = len64 < 128;
                      not_minimal = drop_bit ((num_bytes - 1) * 8) len64 = 0
                  in if \<not> ber_ok \<and> (not_short \<or> not_minimal) then (None, cbs)
                     else let len = unat len64
                       in if size_add (size_add len header_len) num_bytes < len then (None, cbs)
                          else take_element (len + (header_len + num_bytes))
                                 (header_len + num_bytes) (not_short \<or> not_minimal) False)"

definition CBS_get_any_asn1_element :: "cbs \<Rightarrow> asn1_out cbs_ret" where
  "CBS_get_any_asn1_element cbs = cbs_get_any_asn1_element cbs False"

definition CBS_get_any_ber_asn1_element :: "cbs \<Rightarrow> asn1_out cbs_ret" where
  "CBS_get_any_ber_asn1_element cbs = cbs_get_any_asn1_element cbs True"

text \<open>The result of \<open>CBS_get_any_asn1\<close> is \<open>out\<close> without its header, and the tag.\<close>

definition CBS_get_any_asn1 :: "cbs \<Rightarrow> (cbs \<times> u32) cbs_ret" where
  "CBS_get_any_asn1 cbs = cbs_bind (CBS_get_any_asn1_element cbs) (\<lambda>el cbs.
     case CBS_skip (out_cbs el) (out_header_len el) of
       (None, _) \<Rightarrow> (None, cbs)
     | (Some _, out) \<Rightarrow> (Some (out, out_tag el), cbs))"

definition cbs_get_asn1 :: "cbs \<Rightarrow> u32 \<Rightarrow> bool \<Rightarrow> cbs cbs_ret" where
  "cbs_get_asn1 cbs tag_value skip_header =
     cbs_bind (CBS_get_any_asn1_element cbs) (\<lambda>el cbs.
       if out_tag el \<noteq> tag_value then (None, cbs)
       else if skip_header then
         (case CBS_skip (out_cbs el) (out_header_len el) of
            (None, _) \<Rightarrow> (None, cbs) | (Some _, out) \<Rightarrow> (Some out, cbs))
       else (Some (out_cbs el), cbs))"

definition CBS_get_asn1 :: "cbs \<Rightarrow> u32 \<Rightarrow> cbs cbs_ret" where
  "CBS_get_asn1 cbs tag_value = cbs_get_asn1 cbs tag_value True"

definition CBS_get_asn1_element :: "cbs \<Rightarrow> u32 \<Rightarrow> cbs cbs_ret" where
  "CBS_get_asn1_element cbs tag_value = cbs_get_asn1 cbs tag_value False"

definition CBS_peek_asn1_tag :: "cbs \<Rightarrow> u32 \<Rightarrow> bool" where
  "CBS_peek_asn1_tag cbs tag_value \<longleftrightarrow> fst (parse_asn1_tag cbs) = Some tag_value"

section \<open>Validity of primitive values\<close>

text \<open>\<open>Some b\<close>: the integer is valid and \<open>b\<close> says whether it is negative.\<close>

definition CBS_is_valid_asn1_integer :: "cbs \<Rightarrow> bool option" where
  "CBS_is_valid_asn1_integer cbs =
     (case CBS_get_u8 cbs of (None, _) \<Rightarrow> None | (Some first_byte, copy) \<Rightarrow>
      let is_negative = (first_byte AND 0x80 \<noteq> 0)
      in case CBS_get_u8 copy of (None, _) \<Rightarrow> Some is_negative | (Some second_byte, copy) \<Rightarrow>
         if first_byte = 0x00 \<and> second_byte AND 0x80 = 0 \<or>
            first_byte = 0xff \<and> second_byte AND 0x80 \<noteq> 0 then None
         else Some is_negative)"

definition CBS_is_unsigned_asn1_integer :: "cbs \<Rightarrow> bool" where
  "CBS_is_unsigned_asn1_integer cbs \<longleftrightarrow> CBS_is_valid_asn1_integer cbs = Some False"

definition CBS_is_valid_asn1_bitstring :: "cbs \<Rightarrow> bool" where
  "CBS_is_valid_asn1_bitstring cbs \<longleftrightarrow>
     (case CBS_get_u8 cbs of (None, _) \<Rightarrow> False | (Some num_unused_bits, inp) \<Rightarrow>
      if num_unused_bits > 7 then False
      else if num_unused_bits = 0 then True
      else case CBS_get_last_u8 inp of (None, _) \<Rightarrow> False | (Some last_byte, inp) \<Rightarrow>
        last_byte AND (push_bit (unat num_unused_bits) 1 - 1) = 0)"

definition CBS_asn1_bitstring_has_bit :: "cbs \<Rightarrow> u32 \<Rightarrow> bool" where
  "CBS_asn1_bitstring_has_bit cbs bit_no \<longleftrightarrow>
     (if \<not> CBS_is_valid_asn1_bitstring cbs then False
      else let byte_num = drop_bit 3 bit_no + 1; bit_num = 7 - (bit_no AND 7)
        in unat byte_num < CBS_len cbs \<and>
           (cbs ! unat byte_num) AND push_bit (unat bit_num) 1 \<noteq> 0)"

fun cbs_oid_loop :: "u8 \<Rightarrow> cbs \<Rightarrow> bool" where
  "cbs_oid_loop prev [] = (prev AND 0x80 = 0)"
| "cbs_oid_loop prev (v # copy) =
     (if prev AND 0x80 = 0 \<and> v = 0x80 then False else cbs_oid_loop v copy)"

definition CBS_is_valid_asn1_oid :: "cbs \<Rightarrow> bool" where
  "CBS_is_valid_asn1_oid cbs \<longleftrightarrow> (if CBS_len cbs = 0 then False else cbs_oid_loop 0 cbs)"

section \<open>Typed readers\<close>

fun asn1_uint64_loop :: "u64 \<Rightarrow> bytes \<Rightarrow> u64 option" where
  "asn1_uint64_loop out [] = Some out"
| "asn1_uint64_loop out (b # data) =
     (if drop_bit 56 out \<noteq> 0 then None
      else asn1_uint64_loop (push_bit 8 out OR ucast b) data)"

definition CBS_get_asn1_uint64 :: "cbs \<Rightarrow> u64 cbs_ret" where
  "CBS_get_asn1_uint64 cbs = cbs_bind (CBS_get_asn1 cbs CBS_ASN1_INTEGER) (\<lambda>bytes cbs.
     if \<not> CBS_is_unsigned_asn1_integer bytes then (None, cbs)
     else (asn1_uint64_loop 0 bytes, cbs))"

text \<open>
  \<open>memcpy\<close> of eight bytes into an \<open>int64_t\<close> on a little-endian machine, which is
  what the C code relies on.
\<close>

definition le_int64 :: "bytes \<Rightarrow> u64" where
  "le_int64 bs = foldr (\<lambda>b r. push_bit 8 r OR ucast b) bs 0"

definition CBS_get_asn1_int64 :: "cbs \<Rightarrow> u64 cbs_ret" where
  "CBS_get_asn1_int64 cbs = cbs_bind (CBS_get_asn1 cbs CBS_ASN1_INTEGER) (\<lambda>bytes cbs.
     case CBS_is_valid_asn1_integer bytes of None \<Rightarrow> (None, cbs) | Some is_negative \<Rightarrow>
     let len = CBS_len bytes
     in if len > 8 then (None, cbs)
        else let sign_extend = replicate 8 (if is_negative then 0xff else 0);
                 sign_extend = foldl (\<lambda>s i. s[i := bytes ! (len - i - 1)]) sign_extend [0..<len]
          in (Some (le_int64 sign_extend), cbs))"

definition CBS_get_asn1_bool :: "cbs \<Rightarrow> bool cbs_ret" where
  "CBS_get_asn1_bool cbs = cbs_bind (CBS_get_asn1 cbs CBS_ASN1_BOOLEAN) (\<lambda>bytes cbs.
     if CBS_len bytes \<noteq> 1 then (None, cbs)
     else let value = bytes ! 0
       in if value \<noteq> 0 \<and> value \<noteq> 0xff then (None, cbs) else (Some (value \<noteq> 0), cbs))"

text \<open>\<open>Some None\<close>: the call succeeds and the optional element is absent.\<close>

definition CBS_get_optional_asn1 :: "cbs \<Rightarrow> u32 \<Rightarrow> cbs option cbs_ret" where
  "CBS_get_optional_asn1 cbs tag =
     (if CBS_peek_asn1_tag cbs tag
      then cbs_bind (CBS_get_asn1 cbs tag) (\<lambda>out cbs. (Some (Some out), cbs))
      else (Some None, cbs))"

text \<open>The result is \<open>(*out, *out_present)\<close>.\<close>

definition CBS_get_optional_asn1_octet_string :: "cbs \<Rightarrow> u32 \<Rightarrow> (cbs \<times> bool) cbs_ret" where
  "CBS_get_optional_asn1_octet_string cbs tag =
     cbs_bind (CBS_get_optional_asn1 cbs tag) (\<lambda>child cbs.
       case child of
         None \<Rightarrow> (Some ([], False), cbs)
       | Some child \<Rightarrow>
           (case CBS_get_asn1 child CBS_ASN1_OCTETSTRING of
              (None, _) \<Rightarrow> (None, cbs)
            | (Some out, child) \<Rightarrow>
                if CBS_len child \<noteq> 0 then (None, cbs) else (Some (out, True), cbs)))"

definition CBS_get_optional_asn1_uint64 :: "cbs \<Rightarrow> u32 \<Rightarrow> u64 \<Rightarrow> u64 cbs_ret" where
  "CBS_get_optional_asn1_uint64 cbs tag default_value =
     cbs_bind (CBS_get_optional_asn1 cbs tag) (\<lambda>child cbs.
       case child of
         None \<Rightarrow> (Some default_value, cbs)
       | Some child \<Rightarrow>
           (case CBS_get_asn1_uint64 child of
              (None, _) \<Rightarrow> (None, cbs)
            | (Some out, child) \<Rightarrow>
                if CBS_len child \<noteq> 0 then (None, cbs) else (Some out, cbs)))"

definition CBS_get_optional_asn1_bool :: "cbs \<Rightarrow> u32 \<Rightarrow> int \<Rightarrow> int cbs_ret" where
  "CBS_get_optional_asn1_bool cbs tag default_value =
     cbs_bind (CBS_get_optional_asn1 cbs tag) (\<lambda>child cbs.
       case child of
         None \<Rightarrow> (Some default_value, cbs)
       | Some child \<Rightarrow>
           (case CBS_get_asn1 child CBS_ASN1_BOOLEAN of
              (None, _) \<Rightarrow> (None, cbs)
            | (Some child2, child) \<Rightarrow>
                if CBS_len child2 \<noteq> 1 \<or> CBS_len child \<noteq> 0 then (None, cbs)
                else let boolean = child2 ! 0
                  in if boolean = 0 then (Some 0, cbs)
                     else if boolean = 0xff then (Some 1, cbs)
                     else (None, cbs)))"

end
