(* ===== verification/Der.thy ===== *)
theory Der
  imports Cbs_Asn1
begin

text \<open>
  The distinguished encoding of ASN.1 elements, and what the readers of
  \<open>Cbs_Asn1\<close> accept. \<open>der_element tag body\<close> is the encoding of a tag and a body,
  \<open>der_uint_body\<close> and \<open>der_int_body\<close> the minimal bodies of integers. The lemmas
  \<open>..._iff\<close> state that a reader succeeds on exactly the encodings of its result, which is
  soundness, completeness and canonicity at once.
\<close>

section \<open>The encoding\<close>

definition asn1_valid_tag :: "u32 \<Rightarrow> bool" where
  "asn1_valid_tag tag \<longleftrightarrow> tag AND NOT CBS_ASN1_CONSTRUCTED \<noteq> 0"

definition der_tag :: "u32 \<Rightarrow> bytes" where
  "der_tag tag =
     (let cls = unat tag div 2 ^ 29; num = unat tag mod 2 ^ 29
      in if num < 31 then [of_nat (cls * 32 + num)] else of_nat (cls * 32 + 31) # base128 num)"

definition der_length :: "nat \<Rightarrow> bytes" where
  "der_length n =
     (if n < 128 then [of_nat n]
      else let k = (if n < 256 then 1 else if n < 65536 then 2 else if n < 16777216 then 3 else 4)
        in of_nat (128 + k) # be_bytes k n)"

definition der_element :: "u32 \<Rightarrow> bytes \<Rightarrow> bytes" where
  "der_element tag body = der_tag tag @ der_length (length body) @ body"

definition der_header :: "u32 \<Rightarrow> nat \<Rightarrow> bytes" where
  "der_header tag n = der_tag tag @ der_length n"

text \<open>The element parser with its words read as numbers.\<close>

definition asn1_take :: "cbs \<Rightarrow> u32 \<Rightarrow> nat \<Rightarrow> nat \<Rightarrow> bool \<Rightarrow> bool \<Rightarrow> asn1_out cbs_ret" where
  "asn1_take cbs tag len header_len ber_found indefinite =
     (if length cbs < len then (None, cbs)
      else (Some \<lparr>out_cbs = take len cbs, out_tag = tag, out_header_len = header_len,
        out_ber_found = ber_found, out_indefinite = indefinite\<rparr>, drop len cbs))"

fun min_be :: "nat \<Rightarrow> bytes" where
  "min_be n = (if n = 0 then [] else min_be (n div 256) @ [of_nat n])"

declare min_be.simps [simp del]

definition der_uint_body :: "nat \<Rightarrow> bytes" where
  "der_uint_body n = (let b = min_be n in if b = [] \<or> hd b AND 0x80 \<noteq> 0 then 0 # b else b)"

definition der_int_body :: "int \<Rightarrow> bytes" where
  "der_int_body z = (if 0 \<le> z then der_uint_body (nat z) else map NOT (der_uint_body (nat (- z - 1))))"

definition asn1_int64_value :: "bool \<Rightarrow> bytes \<Rightarrow> u64" where
  "asn1_int64_value neg body = of_nat (be_nat (replicate (8 - length body) (if neg then 0xff else 0) @ body))"

section \<open>Tags\<close>

lemma tag_class_bits:
  "push_bit 24 ((ucast (b::u8) :: u32) AND 0xe0) = push_bit 29 (of_nat (unat b div 32))"
proof -
  have "\<forall>b::u8. push_bit 24 ((ucast b :: u32) AND 0xe0) = push_bit 29 (of_nat (unat b div 32))"
    unfolding u8_all by code_simp
  then show ?thesis by blast
qed

lemma tag_word:
  "unat w < 2 ^ 29 \<Longrightarrow>
   push_bit 24 ((ucast (b::u8) :: u32) AND 0xe0) OR w = of_nat (unat b div 32 * 2 ^ 29 + unat w)"
  unfolding tag_class_bits by (rule push_bit_or_of_nat)

lemma u8_div_32: "unat (b::u8) div 32 < 8"
  by (rule less_mult_imp_div_less) simp

lemma unat_tag_word:
  "n < 2 ^ 29 \<Longrightarrow> unat (of_nat (unat (b::u8) div 32 * 2 ^ 29 + n) :: u32) = unat b div 32 * 2 ^ 29 + n"
  using u8_div_32 [of b] by (intro unat_of_nat_less) simp

lemma der_tag_of_nat:
  assumes "n < 2 ^ 29"
  shows "der_tag (of_nat (unat (b::u8) div 32 * 2 ^ 29 + n)) =
    (if n < 31 then [of_nat (unat b div 32 * 32 + n)]
     else of_nat (unat b div 32 * 32 + 31) # base128 n)"
proof -
  have "(unat b div 32 * 2 ^ 29 + n) div 2 ^ 29 = unat b div 32"
    "(unat b div 32 * 2 ^ 29 + n) mod 2 ^ 29 = n" using assms by simp_all
  then show ?thesis unfolding der_tag_def Let_def unat_tag_word [OF assms] by simp
qed

lemma parse_asn1_tag_Cons:
  "parse_asn1_tag (b # cbs) =
    (let finish = (\<lambda>n cbs. let tag = of_nat (unat b div 32 * 2 ^ 29 + n)
                   in if asn1_valid_tag tag then (Some tag, cbs) else (None, cbs))
     in if unat b mod 32 = 31 then
          cbs_bind (parse_base128_integer cbs)
            (\<lambda>v cbs. if unat v < 2 ^ 29 \<and> 31 \<le> unat v then finish (unat v) cbs else (None, cbs))
        else finish (unat b mod 32) cbs)"
proof -
  have n1: "unat (ucast (b AND 0x1f) :: u32) = unat b mod 32"
    by (simp add: unat_ucast_le u8_and_1f)
  then have e: "(ucast (b AND 0x1f) :: u32) = 0x1f \<longleftrightarrow> unat b mod 32 = 31"
    by (simp add: word_unat_eq_iff)
  have r: "\<not> (v > ucast CBS_ASN1_TAG_NUMBER_MASK \<or> v < 0x1f) \<longleftrightarrow> unat v < 2 ^ 29 \<and> 31 \<le> unat v"
    for v :: u64 by (simp add: word_less_nat_alt not_less less_Suc_eq_le) auto
  have u: "unat v < 2 ^ 29 \<Longrightarrow> unat (ucast v :: u32) = unat v" for v :: u64
    by (simp add: unat_ucast_mod)
  have t1: "push_bit 24 ((ucast b :: u32) AND 0xe0) OR ucast (b AND 0x1f) =
      of_nat (unat b div 32 * 2 ^ 29 + unat b mod 32)"
    using tag_word [of "ucast (b AND 0x1f)" b] n1 by simp
  have t2: "push_bit 24 ((ucast b :: u32) AND 0xe0) OR ucast v =
      of_nat (unat b div 32 * 2 ^ 29 + unat v)" if "unat v < 2 ^ 29" for v :: u64
    using tag_word [of "ucast v" b] u [OF that] that by simp
  show ?thesis
  proof (cases "unat b mod 32 = 31")
    case True
    obtain r' c where p: "parse_base128_integer cbs = (r', c)" by (cases "parse_base128_integer cbs")
    show ?thesis
    proof (cases r')
      case None
      with True p e show ?thesis
        unfolding parse_asn1_tag_def CBS_get_u8_simps cbs_bind_simps Let_def e by simp
    next
      case (Some v)
      show ?thesis
        unfolding parse_asn1_tag_def CBS_get_u8_simps cbs_bind_simps Let_def e p Some
        using True r [of v] t2 [of v]
        by (cases "unat v < 2 ^ 29 \<and> 31 \<le> unat v") (simp_all only: asn1_valid_tag_def if_True if_False not_False_eq_True if_not_P simp_thms split: if_split, auto)
    qed
  next
    case False
    then show ?thesis
      unfolding parse_asn1_tag_def CBS_get_u8_simps cbs_bind_simps Let_def e t1
      by (simp add: asn1_valid_tag_def)
  qed
qed

lemma byte_split: "of_nat (unat (b::u8) div 32 * 32 + unat b mod 32) = b"
  by (simp del: of_nat_add of_nat_mult)

lemma parse_asn1_tag_Some_iff:
  "parse_asn1_tag cbs = (Some tag, rest) \<longleftrightarrow> cbs = der_tag tag @ rest \<and> asn1_valid_tag tag"
proof
  assume a: "parse_asn1_tag cbs = (Some tag, rest)"
  then obtain b cs where c: "cbs = b # cs" by (cases cbs) (auto simp: parse_asn1_tag_def)
  show "cbs = der_tag tag @ rest \<and> asn1_valid_tag tag"
  proof (cases "unat b mod 32 = 31")
    case True
    with a c obtain v where v: "parse_base128_integer cs = (Some v, rest)" "unat v < 2 ^ 29" "31 \<le> unat v"
      and t: "tag = of_nat (unat b div 32 * 2 ^ 29 + unat v)" "asn1_valid_tag tag"
      by (auto simp add: parse_asn1_tag_Cons Let_def cbs_bind_Some simp del: of_nat_add of_nat_mult split: if_splits)
    have "of_nat (unat b div 32 * 32 + 31) = b" using byte_split [of b] True by simp
    moreover have "cs = base128 (unat v) @ rest" using v by (simp add: parse_base128_Some_iff)
    ultimately show ?thesis
      unfolding t(1) der_tag_of_nat [OF v(2)] using v(3) t c by simp
  next
    case False
    with a c have t: "tag = of_nat (unat b div 32 * 2 ^ 29 + unat b mod 32)" "asn1_valid_tag tag" "rest = cs"
      by (auto simp add: parse_asn1_tag_Cons Let_def simp del: of_nat_add of_nat_mult split: if_splits)
    have "unat b mod 32 < 2 ^ 29" "unat b mod 32 < 31"
      using False mod_less_divisor [of 32 "unat b"] by simp_all
    then show ?thesis
      unfolding t(1) der_tag_of_nat [OF \<open>unat b mod 32 < 2 ^ 29\<close>] using t c byte_split [of b] by simp
  qed
next
  assume a: "cbs = der_tag tag @ rest \<and> asn1_valid_tag tag"
  define cls num where "cls = unat tag div 2 ^ 29" and "num = unat tag mod 2 ^ 29"
  have cls: "cls < 8" using unat_lt_power [of tag] by (simp add: cls_def)
  have num: "num < 2 ^ 29" by (simp add: num_def)
  have tag: "tag = of_nat (cls * 2 ^ 29 + num)" by (simp add: cls_def num_def del: of_nat_add of_nat_mult)
  show "parse_asn1_tag cbs = (Some tag, rest)"
  proof (cases "num < 31")
    case True
    let ?b = "of_nat (cls * 32 + num) :: u8"
    have ub: "unat ?b = cls * 32 + num" using cls True by (intro unat_of_nat_less) simp
    then have "unat ?b div 32 = cls" "unat ?b mod 32 = num" using True by simp_all
    moreover have "cbs = ?b # rest" using a True by (simp add: der_tag_def cls_def num_def)
    ultimately show ?thesis
      using a True tag by (simp add: parse_asn1_tag_Cons Let_def del: of_nat_add of_nat_mult)
  next
    case False
    let ?b = "of_nat (cls * 32 + 31) :: u8"
    have ub: "unat ?b = cls * 32 + 31" using cls by (intro unat_of_nat_less) simp
    then have "unat ?b div 32 = cls" "unat ?b mod 32 = 31" by simp_all
    moreover have "cbs = ?b # base128 num @ rest" using a False by (simp add: der_tag_def cls_def num_def)
    moreover have "parse_base128_integer (base128 num @ rest) = (Some (of_nat num), rest)"
      using num by (intro parse_base128_base128) simp
    moreover have "unat (of_nat num :: u64) = num" using num by (intro unat_of_nat_less) simp
    ultimately show ?thesis
      using a False tag num by (simp add: parse_asn1_tag_Cons Let_def del: of_nat_add of_nat_mult)
  qed
qed
lemma der_length_long:
  assumes "0 < k" "k \<le> 4" "128 \<le> n" "256 ^ (k - 1) \<le> n" "n < 256 ^ k"
  shows "der_length n = of_nat (128 + k) # be_bytes k n"
proof -
  from assms(1,2) consider "k = 1" | "k = 2" | "k = 3" | "k = 4" by linarith
  then show ?thesis using assms by cases (simp_all add: der_length_def)
qed

lemma der_length_cases:
  assumes "n < 2 ^ 32"
  obtains "n < 128" "der_length n = [of_nat n]"
  | k where "0 < k" "k \<le> 4" "128 \<le> n" "256 ^ (k - 1) \<le> n" "n < 256 ^ k"
      "der_length n = of_nat (128 + k) # be_bytes k n"
proof -
  define k :: nat where "k = (if n < 256 then 1 else if n < 65536 then 2 else if n < 16777216 then 3 else 4)"
  show thesis
  proof (cases "n < 128")
    case True
    then show ?thesis using that(1) by (simp add: der_length_def)
  next
    case False
    then have "0 < k" "k \<le> 4" "128 \<le> n" "256 ^ (k - 1) \<le> n" "n < 256 ^ k"
      using assms by (simp_all add: k_def)
    with that(2) [of k] der_length_long [of k n] show ?thesis by blast
  qed
qed

lemma der_element_header: "der_element tag body = der_header tag (length body) @ body"
  by (simp add: der_element_def der_header_def)

lemma unat_long_length_byte: "k < 128 \<Longrightarrow> unat (of_nat (128 + k) :: u8) = 128 + k"
  by (rule unat_of_nat_less) simp

lemma length_word: "n \<le> 4 \<Longrightarrow> n \<le> length cs \<Longrightarrow> unat (of_nat (be_nat (take n cs)) :: u64) = be_nat (take n cs)"
proof -
  assume "n \<le> 4" "n \<le> length cs"
  then have "be_nat (take n cs) < 256 ^ n" using be_nat_less [of "take n cs"] by simp
  also have "\<dots> \<le> 256 ^ 4" using \<open>n \<le> 4\<close> by (intro power_increasing) auto
  finally show ?thesis by (intro unat_of_nat_less) simp
qed

lemma drop_bytes_eq_0: "drop_bit (k * 8) (w::u64) = 0 \<longleftrightarrow> unat w < 256 ^ k"
  by (simp add: drop_bit_eq_0_iff power_mult mult.commute [of k])


lemma length_base128_hi: "n < 128 ^ k \<Longrightarrow> length (base128_hi n) \<le> k"
proof (induction k arbitrary: n)
  case (Suc k)
  then have "n div 128 < 128 ^ k" by (intro less_mult_imp_div_less) (simp add: mult.commute)
  then show ?case using Suc.IH by (subst base128_hi.simps) simp
qed (simp add: base128_hi.simps)

lemma length_der_tag: "length (der_tag tag) \<le> 6"
proof -
  have "unat tag mod 2 ^ 29 div 128 < 128 ^ 4" by simp
  from length_base128_hi [OF this] show ?thesis by (simp add: der_tag_def Let_def base128_def)
qed

lemma asn1_element_eq:
  assumes t: "asn1_valid_tag tag" and c: "cbs = der_tag tag @ lb # h"
  defines "hl \<equiv> length (der_tag tag) + 1" and "nb \<equiv> unat lb - 128"
  shows "cbs_get_any_asn1_element cbs ber_ok =
    (if unat lb < 128 then asn1_take cbs tag (unat lb + hl) hl False False
     else if ber_ok \<and> tag AND CBS_ASN1_CONSTRUCTED \<noteq> 0 \<and> nb = 0 then asn1_take cbs tag hl hl True True
     else if nb = 0 \<or> nb > 4 \<or> length h < nb then (None, cbs)
     else let len = be_nat (take nb h); ber = (len < 128 \<or> len < 256 ^ (nb - 1))
       in if \<not> ber_ok \<and> ber then (None, cbs)
          else asn1_take cbs tag (len + (hl + nb)) (hl + nb) ber False)"
proof -
  have p: "parse_asn1_tag cbs = (Some tag, lb # h)"
    using t c by (simp add: parse_asn1_tag_Some_iff)
  have hl: "CBS_len cbs - CBS_len h = hl" using c by (simp add: CBS_len_def hl_def)
  have hl7: "hl \<le> 7" using length_der_tag [of tag] by (simp add: hl_def)
  note tk = asn1_take_def CBS_get_bytes_eq cbs_bind_simps if_distrib [of "\<lambda>x. cbs_bind x _"]
  show ?thesis
  proof (cases "unat lb < 128")
    case True
    then show ?thesis
      by (simp add: cbs_get_any_asn1_element_def p u8_and_80 hl tk)
  next
    case False
    then have nb: "unat (lb AND 0x7f) = nb"
      by (simp add: u8_and_7f nb_def u8_mod_128)
    show ?thesis
    proof (cases "nb = 0 \<or> nb > 4 \<or> length h < nb")
      case T: True
      then show ?thesis using False
        by (auto simp add: cbs_get_any_asn1_element_def p u8_and_80 hl nb tk cbs_get_u_eq Let_def)
    next
      case F: False
      let ?n = "be_nat (take nb h)"
      have un: "unat (of_nat ?n :: u64) = ?n" using F by (intro length_word) auto
      have b32: "?n < 2 ^ 32"
      proof -
        have "?n < 256 ^ nb" using be_nat_less [of "take nb h"] F by simp
        also have "\<dots> \<le> 256 ^ 4" using F by (intro power_increasing) auto
        finally show ?thesis by simp
      qed
      have ov: "\<not> size_add (size_add ?n hl) nb < ?n"
        using b32 hl7 F by (simp add: size_add_eq)
      have s: "(of_nat ?n :: u64) < 128 \<longleftrightarrow> ?n < 128" using un by (simp add: word_less_nat_alt)
      have m: "drop_bit ((nb - 1) * 8) (of_nat ?n :: u64) = 0 \<longleftrightarrow> ?n < 256 ^ (nb - 1)"
        using un by (simp only: drop_bytes_eq_0)
      show ?thesis
        using False F ov un
        by (simp add: cbs_get_any_asn1_element_def p u8_and_80 hl nb tk cbs_get_u_eq s m Let_def
            del: One_nat_def)
    qed
  qed
qed

lemma asn1_element_None:
  "fst (parse_asn1_tag cbs) = None \<Longrightarrow> cbs_get_any_asn1_element cbs ber_ok = (None, cbs)"
  by (cases "parse_asn1_tag cbs") (simp add: cbs_get_any_asn1_element_def)

lemma asn1_element_no_length:
  "asn1_valid_tag tag \<Longrightarrow> cbs_get_any_asn1_element (der_tag tag) ber_ok = (None, der_tag tag)"
  using parse_asn1_tag_Some_iff [of "der_tag tag" tag "[]"]
  by (simp add: cbs_get_any_asn1_element_def)

text \<open>Every accepted element starts with a tag and a length byte.\<close>

lemma asn1_element_SomeE:
  assumes "cbs_get_any_asn1_element cbs ber_ok = (Some el, rest)"
  obtains tag lb h where "asn1_valid_tag tag" "cbs = der_tag tag @ lb # h"
proof -
  obtain r header where p: "parse_asn1_tag cbs = (r, header)" by (cases "parse_asn1_tag cbs")
  with assms asn1_element_None [of cbs ber_ok] obtain tag where r: "r = Some tag" by (cases r) auto
  with p have t: "cbs = der_tag tag @ header" "asn1_valid_tag tag"
    by (simp_all add: parse_asn1_tag_Some_iff)
  show thesis
  proof (cases header)
    case Nil
    then show ?thesis using t assms asn1_element_no_length [of tag ber_ok] by simp
  qed (use t that in blast)
qed

lemma asn1_take_Some:
  "asn1_take cbs tag len header_len ber_found indefinite = (Some el, rest) \<longleftrightarrow>
     len \<le> length cbs \<and> rest = drop len cbs \<and>
     el = \<lparr>out_cbs = take len cbs, out_tag = tag, out_header_len = header_len,
        out_ber_found = ber_found, out_indefinite = indefinite\<rparr>"
  by (auto simp: asn1_take_def)

lemma der_parse_imp:
  assumes "CBS_get_any_asn1_element cbs = (Some el, rest)"
  obtains body where "asn1_valid_tag (out_tag el)" "length body < 2 ^ 32"
    "out_cbs el = der_element (out_tag el) body" "cbs = out_cbs el @ rest"
    "out_header_len el = length (der_header (out_tag el) (length body))"
    "\<not> out_ber_found el" "\<not> out_indefinite el"
proof -
  from assms have a: "cbs_get_any_asn1_element cbs False = (Some el, rest)"
    by (simp add: CBS_get_any_asn1_element_def)
  from this obtain tag lb h where t: "asn1_valid_tag tag" "cbs = der_tag tag @ lb # h"
    by (rule asn1_element_SomeE)
  note a = a [unfolded asn1_element_eq [OF t]]
  show thesis
  proof (cases "unat lb < 128")
    case True
    with a have len: "unat lb \<le> length h" and r: "rest = drop (unat lb) h"
      and el: "out_cbs el = der_tag tag @ lb # take (unat lb) h" "out_tag el = tag"
        "out_header_len el = length (der_tag tag) + 1" "\<not> out_ber_found el" "\<not> out_indefinite el"
      using t(2) by (auto simp: asn1_take_Some)
    have "der_length (unat lb) = [lb]" using True by (simp add: der_length_def)
    then show ?thesis
      using that [of "take (unat lb) h"] len r el t unat_u8_less [of lb]
      by (simp add: der_element_def der_header_def)
  next
    case False
    define nb n where "nb = unat lb - 128" and "n = be_nat (take nb h)"
    have nb: "0 < nb" "nb \<le> 4" "nb \<le> length h"
      and n: "128 \<le> n" "256 ^ (nb - 1) \<le> n" and len: "n + nb \<le> length h"
      and r: "rest = drop (n + nb) h"
      and el: "out_cbs el = der_tag tag @ lb # take (n + nb) h" "out_tag el = tag"
        "out_header_len el = length (der_tag tag) + 1 + nb" "\<not> out_ber_found el" "\<not> out_indefinite el"
      using a False t(2) unfolding nb_def [symmetric] n_def [symmetric] Let_def
      by (auto simp: asn1_take_Some not_less split: if_splits)
    have n2: "n < 256 ^ nb" using be_nat_less [of "take nb h"] nb by (simp add: n_def)
    also have "\<dots> \<le> 256 ^ 4" using nb by (intro power_increasing) auto
    finally have b32: "n < 2 ^ 32" by simp
    have "lb = of_nat (128 + nb)" using False by (simp add: nb_def)
    moreover have "be_bytes nb n = take nb h" using be_bytes_be_nat [of "take nb h"] nb by (simp add: n_def)
    ultimately have dl: "der_length n = lb # take nb h" using der_length_long [OF nb(1,2) n n2] by simp
    have "take (n + nb) h = take nb h @ take n (drop nb h)"
      using take_add [of nb n h] by (simp add: add.commute)
    moreover from this have "h = take nb h @ take n (drop nb h) @ drop (n + nb) h"
      by (metis append_assoc append_take_drop_id)
    ultimately show ?thesis
      using that [of "take n (drop nb h)"] len r el t dl b32 nb
      by (simp add: der_element_def der_header_def)
  qed
qed

lemma der_element_parse:
  assumes "asn1_valid_tag tag" "length body < 2 ^ 32"
  shows "CBS_get_any_asn1_element (der_element tag body @ rest) =
    (Some \<lparr>out_cbs = der_element tag body, out_tag = tag,
       out_header_len = length (der_header tag (length body)),
       out_ber_found = False, out_indefinite = False\<rparr>, rest)"
  using assms(2)
proof (cases rule: der_length_cases)
  case 1
  then have "unat (of_nat (length body) :: u8) = length body" by (intro unat_of_nat_less) simp
  with 1 show ?thesis
    using asn1_element_eq [OF assms(1) refl, of "of_nat (length body)" "body @ rest" False]
    by (simp add: CBS_get_any_asn1_element_def der_element_def der_header_def asn1_take_def)
next
  case (2 k)
  let ?n = "length body"
  have lb: "unat (of_nat (128 + k) :: u8) = 128 + k" using 2 by (intro unat_long_length_byte) simp
  have bn: "be_nat (be_bytes k ?n) = ?n" using 2 by (simp add: be_nat_be_bytes)
  show ?thesis
    using asn1_element_eq [OF assms(1) refl, of "of_nat (128 + k)" "be_bytes k ?n @ body @ rest" False] 2 lb bn
    by (simp add: CBS_get_any_asn1_element_def der_element_def der_header_def asn1_take_def Let_def del: of_nat_add)
qed
lemma der_parse_iff:
  "CBS_get_any_asn1_element cbs = (Some el, rest) \<longleftrightarrow>
    (\<exists>tag body. asn1_valid_tag tag \<and> length body < 2 ^ 32 \<and> cbs = der_element tag body @ rest \<and>
       el = \<lparr>out_cbs = der_element tag body, out_tag = tag,
         out_header_len = length (der_header tag (length body)),
         out_ber_found = False, out_indefinite = False\<rparr>)"
proof
  assume "CBS_get_any_asn1_element cbs = (Some el, rest)"
  from this obtain body where "asn1_valid_tag (out_tag el)" "length body < 2 ^ 32"
    "out_cbs el = der_element (out_tag el) body" "cbs = out_cbs el @ rest"
    "out_header_len el = length (der_header (out_tag el) (length body))"
    "\<not> out_ber_found el" "\<not> out_indefinite el" by (rule der_parse_imp)
  then show "\<exists>tag body. asn1_valid_tag tag \<and> length body < 2 ^ 32 \<and> cbs = der_element tag body @ rest \<and>
       el = \<lparr>out_cbs = der_element tag body, out_tag = tag,
         out_header_len = length (der_header tag (length body)),
         out_ber_found = False, out_indefinite = False\<rparr>"
    by (intro exI [of _ "out_tag el"] exI [of _ body]) simp
qed (use der_element_parse in blast)

lemma der_element_inject:
  assumes "asn1_valid_tag tag" "asn1_valid_tag tag'" "length body < 2 ^ 32" "length body' < 2 ^ 32"
    and eq: "der_element tag body @ rest = der_element tag' body' @ rest'"
  shows "tag = tag' \<and> body = body' \<and> rest = rest'"
proof -
  have "CBS_get_any_asn1_element (der_element tag body @ rest) =
        CBS_get_any_asn1_element (der_element tag' body' @ rest')" by (simp only: eq)
  then show ?thesis
    unfolding der_element_parse [OF assms(1,3)] der_element_parse [OF assms(2,4)]
    by (auto simp: der_element_header)
qed

lemma asn1_element_fail: "fst (cbs_get_any_asn1_element cbs ber_ok) = None \<Longrightarrow>
    cbs_get_any_asn1_element cbs ber_ok = (None, cbs)"
proof (cases "fst (parse_asn1_tag cbs)")
  case (Some tag)
  then obtain header where "parse_asn1_tag cbs = (Some tag, header)" by (metis prod.collapse)
  then have t: "asn1_valid_tag tag" "cbs = der_tag tag @ header" by (simp_all add: parse_asn1_tag_Some_iff)
  assume a: "fst (cbs_get_any_asn1_element cbs ber_ok) = None"
  show ?thesis
  proof (cases header)
    case Nil
    then show ?thesis using t by (simp add: asn1_element_no_length)
  next
    case (Cons lb h)
    with t have c: "cbs = der_tag tag @ lb # h" by simp
    show ?thesis using a unfolding asn1_element_eq [OF t(1) c] Let_def asn1_take_def
      by (auto split: if_splits)
  qed
qed (rule asn1_element_None)

lemma der_element_dichotomy:
  obtains (fail) "CBS_get_any_asn1_element cbs = (None, cbs)"
    "\<And>tag body rest. asn1_valid_tag tag \<Longrightarrow> length body < 2 ^ 32 \<Longrightarrow> cbs \<noteq> der_element tag body @ rest"
  | (ok) tag body rest where "asn1_valid_tag tag" "length body < 2 ^ 32"
    "cbs = der_element tag body @ rest"
proof (cases "CBS_get_any_asn1_element cbs")
  case (Pair r rest)
  show thesis
  proof (cases r)
    case None
    with Pair have "CBS_get_any_asn1_element cbs = (None, cbs)"
      using asn1_element_fail [of cbs False] by (simp add: CBS_get_any_asn1_element_def)
    then show ?thesis using fail der_element_parse by fastforce
  next
    case (Some el)
    with Pair ok show ?thesis by (auto simp: der_parse_iff)
  qed
qed

lemma CBS_skip_header: "CBS_skip (der_element tag body) (length (der_header tag (length body))) = (Some (), body)"
  by (simp add: CBS_skip_eq der_element_header)

lemma CBS_get_any_asn1_iff:
  "CBS_get_any_asn1 cbs = (Some (body, tag), rest) \<longleftrightarrow>
    asn1_valid_tag tag \<and> length body < 2 ^ 32 \<and> cbs = der_element tag body @ rest"
proof (cases cbs rule: der_element_dichotomy)
  case fail
  then show ?thesis by (auto simp: CBS_get_any_asn1_def)
next
  case (ok tag' body' rest')
  then have "CBS_get_any_asn1 cbs = (Some (body', tag'), rest')"
    by (simp add: CBS_get_any_asn1_def der_element_parse CBS_skip_header)
  with ok show ?thesis using der_element_inject [of tag' tag body' body rest' rest] by auto
qed

lemma cbs_get_asn1_der:
  assumes "asn1_valid_tag tag'" "length body < 2 ^ 32"
  shows "cbs_get_asn1 (der_element tag' body @ rest) tag skip =
    (if tag' = tag then Some (if skip then body else der_element tag body) else None, rest)"
  using assms by (cases "tag' = tag") (simp_all add: cbs_get_asn1_def der_element_parse CBS_skip_header)

lemma cbs_get_asn1_iff:
  "cbs_get_asn1 cbs tag skip = (Some out, rest) \<longleftrightarrow>
    (\<exists>body. asn1_valid_tag tag \<and> length body < 2 ^ 32 \<and> cbs = der_element tag body @ rest \<and>
       out = (if skip then body else der_element tag body))"
proof (cases cbs rule: der_element_dichotomy)
  case fail
  then show ?thesis by (auto simp: cbs_get_asn1_def)
next
  case (ok tag' body' rest')
  then show ?thesis
    using cbs_get_asn1_der [OF ok(1,2), of rest' tag skip] der_element_inject [of tag' tag body' _ rest' rest]
    by auto
qed

lemma CBS_get_asn1_iff:
  "CBS_get_asn1 cbs tag = (Some body, rest) \<longleftrightarrow>
    asn1_valid_tag tag \<and> length body < 2 ^ 32 \<and> cbs = der_element tag body @ rest"
  by (auto simp: CBS_get_asn1_def cbs_get_asn1_iff)

lemma CBS_get_asn1_element_iff:
  "CBS_get_asn1_element cbs tag = (Some out, rest) \<longleftrightarrow>
    (\<exists>body. asn1_valid_tag tag \<and> length body < 2 ^ 32 \<and> out = der_element tag body \<and> cbs = out @ rest)"
  by (auto simp: CBS_get_asn1_element_def cbs_get_asn1_iff)

lemma CBS_peek_asn1_tag_iff:
  "CBS_peek_asn1_tag cbs tag \<longleftrightarrow> asn1_valid_tag tag \<and> (\<exists>rest. cbs = der_tag tag @ rest)"
proof
  assume "CBS_peek_asn1_tag cbs tag"
  then have "parse_asn1_tag cbs = (Some tag, snd (parse_asn1_tag cbs))"
    by (simp add: CBS_peek_asn1_tag_def prod_eq_iff)
  then show "asn1_valid_tag tag \<and> (\<exists>rest. cbs = der_tag tag @ rest)"
    by (auto simp: parse_asn1_tag_Some_iff)
next
  assume "asn1_valid_tag tag \<and> (\<exists>rest. cbs = der_tag tag @ rest)"
  then obtain rest where "parse_asn1_tag cbs = (Some tag, rest)"
    by (auto simp: parse_asn1_tag_Some_iff)
  then show "CBS_peek_asn1_tag cbs tag" by (simp add: CBS_peek_asn1_tag_def)
qed

lemma min_be_0 [simp]: "min_be 0 = []" by (simp add: min_be.simps)

lemma min_be_nonzero: "n \<noteq> 0 \<Longrightarrow> min_be n \<noteq> [] \<and> hd (min_be n) \<noteq> 0"
proof (induction n rule: min_be.induct)
  case (1 n)
  have "(of_nat n :: u8) \<noteq> 0" if "n div 256 = 0"
    using that 1(2) unat_eq_zero [of "of_nat n :: u8"] by (simp add: unat_of_nat_mod div_eq_0_iff)
  with 1 show ?case by (cases "n div 256 = 0") (simp_all add: min_be.simps [of n] hd_append)
qed

lemma be_nat_min_be: "be_nat (min_be n) = n"
proof (induction n rule: min_be.induct)
  case (1 n)
  then show ?case by (subst min_be.simps) (simp add: unat_of_nat_mod)
qed

lemma min_be_be_nat: "bs = [] \<or> hd bs \<noteq> 0 \<Longrightarrow> min_be (be_nat bs) = bs"
proof (induction bs rule: rev_induct)
  case (snoc b bs)
  have "(be_nat bs * 256 + unat b) div 256 = be_nat bs" by simp
  moreover have "(of_nat (be_nat bs * 256 + unat b) :: u8) = b"
    by (rule word_eq_unatI) (simp only: unat_of_nat_mod, simp)
  moreover have "be_nat bs * 256 + unat b \<noteq> 0"
  proof (cases "bs = []")
    case False
    then obtain c cs where c: "bs = c # cs" by (cases bs) auto
    with snoc.prems have "0 < unat c" by (simp add: unat_gt_0)
    then show ?thesis using c by (simp add: be_nat_Cons)
  qed (use snoc.prems in \<open>simp add: unat_eq_zero\<close>)
  ultimately show ?case using snoc by (subst min_be.simps) (auto simp: hd_append split: if_splits)
qed simp

lemma uint64_loop:
  "n < 2 ^ 64 \<Longrightarrow> asn1_uint64_loop (of_nat n) bs = Some v \<longleftrightarrow>
     (bs \<noteq> [] \<longrightarrow> n * 256 ^ length bs + be_nat bs < 2 ^ 64) \<and> v = of_nat (n * 256 ^ length bs + be_nat bs)"
proof (induction bs arbitrary: n)
  case (Cons b bs)
  have un: "unat (of_nat n :: u64) = n" using Cons.prems by (intro unat_of_nat_less) simp
  have ub: "unat (ucast b :: u64) = unat b" by (simp add: unat_ucast_le)
  have st: "push_bit 8 (of_nat n :: u64) OR ucast b = of_nat (n * 256 + unat b)"
    using push_bit_or_of_nat [of "ucast b :: u64" 8 n] ub by simp
  have v: "n * 256 ^ length (b # bs) + be_nat (b # bs) = (n * 256 + unat b) * 256 ^ length bs + be_nat bs"
    by (simp add: be_nat_Cons algebra_simps)
  have ge: "n * 256 + unat b \<le> (n * 256 + unat b) * 256 ^ length bs + be_nat bs"
    by (simp add: trans_le_add1)
  show ?case
  proof (cases "n < 2 ^ 56")
    case True
    have "n * 256 + unat b < (n + 1) * 256" by simp
    also have "\<dots> \<le> 2 ^ 56 * 256" using True by (intro mult_right_mono) auto
    finally have lt: "n * 256 + unat b < 2 ^ 64" by simp
    have "drop_bit 56 (of_nat n :: u64) = 0" using True un by (simp add: drop_bit_eq_0_iff)
    then show ?thesis unfolding asn1_uint64_loop.simps st v
      using Cons.IH [OF lt] lt by (cases "bs = []") (simp_all del: of_nat_add of_nat_mult)
  next
    case False
    then have "drop_bit 56 (of_nat n :: u64) \<noteq> 0" using un by (simp add: drop_bit_eq_0_iff)
    moreover have "\<not> (n * 256 + unat b) * 256 ^ length bs + be_nat bs < 2 ^ 64" using ge False by simp
    ultimately show ?thesis unfolding v by simp
  qed
qed auto

lemma valid_integer_unsigned_iff:
  "CBS_is_unsigned_asn1_integer bs \<longleftrightarrow> bs \<noteq> [] \<and> bs = der_uint_body (be_nat bs)"
proof (cases bs)
  case (Cons b cs)
  show ?thesis
  proof (cases cs)
    case Nil
    have "min_be (unat b) = (if b = 0 then [] else [b])"
      using min_be_be_nat [of "[b]"] by (cases "b = 0") (simp_all add: be_nat_Cons)
    then show ?thesis using Cons Nil
      by (auto simp: CBS_is_unsigned_asn1_integer_def CBS_is_valid_asn1_integer_def der_uint_body_def
          be_nat_Cons Let_def split: if_splits)
  next
    case (Cons c ds)
    show ?thesis
    proof (cases "b = 0")
      case True
      have n: "be_nat bs = be_nat (c # ds)" using \<open>bs = b # cs\<close> Cons True by (simp add: be_nat_Cons [of 0])
      have v: "CBS_is_unsigned_asn1_integer bs \<longleftrightarrow> c AND 0x80 \<noteq> 0" using \<open>bs = b # cs\<close> Cons True
        by (auto simp: CBS_is_unsigned_asn1_integer_def CBS_is_valid_asn1_integer_def)
      show ?thesis
      proof (cases "c = 0")
        case c: True
        have "der_uint_body m \<noteq> 0 # 0 # ds" for m
          using min_be_nonzero [of m] by (cases "m = 0") (auto simp: der_uint_body_def Let_def)
        from this [of "be_nat bs"] show ?thesis using c v Cons True \<open>bs = b # cs\<close> by auto
      next
        case c: False
        then have "min_be (be_nat bs) = c # ds" using min_be_be_nat [of "c # ds"] n by simp
        then show ?thesis using v Cons True \<open>bs = b # cs\<close> by (auto simp: der_uint_body_def)
      qed
    next
      case False
      have "min_be (be_nat bs) = bs" using \<open>bs = b # cs\<close> False by (intro min_be_be_nat) simp
      then show ?thesis using \<open>bs = b # cs\<close> Cons False
        by (auto simp: CBS_is_unsigned_asn1_integer_def CBS_is_valid_asn1_integer_def der_uint_body_def Let_def split: if_splits)
    qed
  qed
qed (simp add: CBS_is_unsigned_asn1_integer_def CBS_is_valid_asn1_integer_def)

lemma der_uint_body_props: "der_uint_body n \<noteq> []" "be_nat (der_uint_body n) = n"
  by (auto simp: der_uint_body_def Let_def be_nat_min_be be_nat_Cons)

lemma unsigned_asn1_integer_iff: "CBS_is_unsigned_asn1_integer bs \<longleftrightarrow> (\<exists>n. bs = der_uint_body n)"
  using valid_integer_unsigned_iff [of bs] der_uint_body_props by metis

lemma length_min_be: "n < 256 ^ k \<Longrightarrow> length (min_be n) \<le> k"
proof (induction k arbitrary: n)
  case (Suc k)
  then have "n div 256 < 256 ^ k" by (intro less_mult_imp_div_less) (simp add: mult.commute)
  then show ?case using Suc.IH by (subst min_be.simps) simp
qed (simp add: min_be.simps)

lemma length_der_uint_body: "n < 2 ^ 64 \<Longrightarrow> length (der_uint_body n) \<le> 9"
  using length_min_be [of n 8] by (simp add: der_uint_body_def Let_def)

lemma valid_tag_primitive [simp]:
  "asn1_valid_tag CBS_ASN1_INTEGER" "asn1_valid_tag CBS_ASN1_BOOLEAN" "asn1_valid_tag CBS_ASN1_OCTETSTRING"
  by (simp_all add: asn1_valid_tag_def)

lemma CBS_get_asn1_uint64_iff:
  "CBS_get_asn1_uint64 cbs = (Some v, rest) \<longleftrightarrow>
    cbs = der_element CBS_ASN1_INTEGER (der_uint_body (unat v)) @ rest"
proof -
  have loop: "asn1_uint64_loop 0 (der_uint_body n) = Some v \<longleftrightarrow> n = unat v" for n
  proof -
    have "asn1_uint64_loop 0 (der_uint_body n) = Some v \<longleftrightarrow> n < 2 ^ 64 \<and> v = of_nat n"
      using uint64_loop [of 0 "der_uint_body n" v] by (simp add: der_uint_body_props)
    also have "\<dots> \<longleftrightarrow> n = unat v" using unat_of_nat_less [of n, where ?'a = 64] unat_lt_power [of v] by auto
    finally show ?thesis .
  qed
  have len: "length (der_uint_body (unat v)) < 2 ^ 32"
    using length_der_uint_body [of "unat v"] unat_lt_power [of v] by simp
  have "CBS_get_asn1_uint64 cbs = (Some v, rest) \<longleftrightarrow>
      (\<exists>n. length (der_uint_body n) < 2 ^ 32 \<and> cbs = der_element CBS_ASN1_INTEGER (der_uint_body n) @ rest \<and>
         asn1_uint64_loop 0 (der_uint_body n) = Some v)"
    by (auto simp: CBS_get_asn1_uint64_def cbs_bind_Some CBS_get_asn1_iff unsigned_asn1_integer_iff
        split: if_splits)
  with loop len show ?thesis by auto
qed

lemma CBS_get_asn1_bool_iff:
  "CBS_get_asn1_bool cbs = (Some b, rest) \<longleftrightarrow>
    cbs = der_element CBS_ASN1_BOOLEAN [if b then 0xff else 0] @ rest"
proof -
  have "CBS_get_asn1_bool cbs = (Some b, rest) \<longleftrightarrow>
    (\<exists>body. length body < 2 ^ 32 \<and> cbs = der_element CBS_ASN1_BOOLEAN body @ rest \<and>
       length body = 1 \<and> (body ! 0 = 0 \<or> body ! 0 = 0xff) \<and> b = (body ! 0 \<noteq> 0))"
    by (auto simp: CBS_get_asn1_bool_def cbs_bind_Some CBS_get_asn1_iff CBS_len_def Let_def split: if_splits)
  also have "\<dots> \<longleftrightarrow> cbs = der_element CBS_ASN1_BOOLEAN [if b then 0xff else 0] @ rest"
    by (auto simp: length_Suc_conv intro!: exI [of _ "[if b then 0xff else 0]"])
  finally show ?thesis .
qed

lemma be_nat_hd_bounds:
  "bs \<noteq> [] \<Longrightarrow> unat (hd bs) * 256 ^ (length bs - 1) \<le> be_nat bs \<and>
    be_nat bs < (unat (hd bs) + 1) * 256 ^ (length bs - 1)"
  using be_nat_less [of "tl bs"] by (cases bs) (simp_all add: be_nat_Cons)

lemma hd_der_uint_body: "unat (hd (der_uint_body n)) < 128"
  by (auto simp: der_uint_body_def Let_def u8_and_80)

lemma length_der_uint_body_8: "length (der_uint_body n) \<le> 8 \<longleftrightarrow> n < 2 ^ 63"
proof
  let ?b = "der_uint_body n"
  assume "length ?b \<le> 8"
  then have "(256::nat) ^ (length ?b - 1) \<le> 256 ^ 7" by (intro power_increasing) auto
  then have "(unat (hd ?b) + 1) * 256 ^ (length ?b - 1) \<le> 128 * 256 ^ 7"
    using hd_der_uint_body [of n] by (intro mult_mono) auto
  then show "n < 2 ^ 63"
    using be_nat_hd_bounds [of ?b] der_uint_body_props [of n] by simp
next
  assume n: "n < 2 ^ 63"
  then have l: "length (min_be n) \<le> 8" using length_min_be [of n 8] by simp
  show "length (der_uint_body n) \<le> 8"
  proof (cases "min_be n = [] \<or> hd (min_be n) AND 0x80 = 0")
    case False
    then have h: "128 \<le> unat (hd (min_be n))" by (simp add: u8_and_80)
    have "length (min_be n) \<noteq> 8"
    proof
      assume "length (min_be n) = 8"
      then have "unat (hd (min_be n)) * 256 ^ 7 \<le> n"
        using be_nat_hd_bounds [of "min_be n"] False by (simp add: be_nat_min_be)
      moreover have "128 * 256 ^ 7 \<le> unat (hd (min_be n)) * 256 ^ 7" using h by (intro mult_right_mono) auto
      ultimately show False using n by simp
    qed
    with l show ?thesis by (simp add: der_uint_body_def Let_def)
  qed (use l in \<open>auto simp: der_uint_body_def Let_def\<close>)
qed

lemma unat_not_u8: "unat (NOT (b::u8)) = 255 - unat b"
proof -
  have "\<forall>b::u8. unat (NOT b) = 255 - unat b" unfolding u8_all by code_simp
  then show ?thesis by blast
qed

lemma be_nat_map_not: "be_nat bs + be_nat (map NOT bs) = 256 ^ length bs - 1"
proof (induction bs)
  case (Cons b bs)
  have "unat b + unat (NOT b) = 255" using unat_u8_le [of b] by (simp add: unat_not_u8 del: unat_u8_le)
  then have "unat b * 256 ^ length bs + unat (NOT b) * 256 ^ length bs = 255 * 256 ^ length bs"
    by (simp flip: add_mult_distrib)
  with Cons show ?case by (simp add: be_nat_Cons algebra_simps)
qed simp

lemma not_u8_tests:
  "NOT (b::u8) AND 0x80 = 0 \<longleftrightarrow> b AND 0x80 \<noteq> 0"
  "NOT (b::u8) = 0 \<longleftrightarrow> b = 0xff" "NOT (b::u8) = 0xff \<longleftrightarrow> b = 0"
proof -
  have "\<forall>b::u8. (NOT b AND 0x80 = 0 \<longleftrightarrow> b AND 0x80 \<noteq> 0) \<and> (NOT b = 0 \<longleftrightarrow> b = 0xff) \<and> (NOT b = 0xff \<longleftrightarrow> b = 0)"
    unfolding u8_all by code_simp
  then show "NOT (b::u8) AND 0x80 = 0 \<longleftrightarrow> b AND 0x80 \<noteq> 0"
    "NOT (b::u8) = 0 \<longleftrightarrow> b = 0xff" "NOT (b::u8) = 0xff \<longleftrightarrow> b = 0" by blast+
qed

lemma map_not_not: "map NOT (map NOT bs) = (bs::bytes)"
  by (induction bs) simp_all

lemma signed_asn1_integer_iff:
  "CBS_is_valid_asn1_integer bs = Some True \<longleftrightarrow> (\<exists>n. bs = map NOT (der_uint_body n))"
proof -
  have "CBS_is_valid_asn1_integer bs = Some True \<longleftrightarrow> CBS_is_unsigned_asn1_integer (map NOT bs)"
  proof (cases bs)
    case (Cons b cs)
    then show ?thesis
      by (cases cs) (simp_all add: CBS_is_unsigned_asn1_integer_def CBS_is_valid_asn1_integer_def not_u8_tests)
  qed (simp add: CBS_is_unsigned_asn1_integer_def CBS_is_valid_asn1_integer_def)
  also have "\<dots> \<longleftrightarrow> (\<exists>n. bs = map NOT (der_uint_body n))"
    unfolding unsigned_asn1_integer_iff by (metis map_not_not)
  finally show ?thesis .
qed

lemma foldr_le_word:
  "foldr (\<lambda>b r. push_bit 8 r OR ucast b) bs 0 = (of_nat (be_nat (rev bs)) :: u64)"
proof (induction bs)
  case (Cons b bs)
  have "unat (ucast b :: u64) = unat b" by (simp add: unat_ucast_le)
  then show ?case
    using push_bit_or_of_nat [of "ucast b :: u64" 8 "be_nat (rev bs)"] Cons by simp
qed simp

lemma sign_extend_loop:
  "n \<le> length bs \<Longrightarrow> length bs \<le> length s \<Longrightarrow>
   foldl (\<lambda>s i. s[i := bs ! (length bs - i - 1)]) s [0..<n] = take n (rev bs) @ drop n s"
proof (induction n)
  case (Suc n)
  then have "foldl (\<lambda>s i. s[i := bs ! (length bs - i - 1)]) s [0..<Suc n] =
      (take n (rev bs) @ drop n s)[n := bs ! (length bs - n - 1)]" by simp
  also have "\<dots> = take n (rev bs) @ (bs ! (length bs - n - 1)) # drop (Suc n) s"
    using Suc.prems by (simp add: list_update_append Cons_nth_drop_Suc [symmetric])
  also have "\<dots> = take (Suc n) (rev bs) @ drop (Suc n) s"
    using Suc.prems by (simp add: take_Suc_conv_app_nth rev_nth)
  finally show ?case .
qed simp

lemma be_nat_replicate: "be_nat (replicate k 0xff) = 256 ^ k - 1" "be_nat (replicate k 0) = 0"
  by (induction k) (simp_all add: be_nat_Cons)

lemma sint_of_int_64: "- (2 ^ 63) \<le> z \<Longrightarrow> z < 2 ^ 63 \<Longrightarrow> sint (word_of_int z :: u64) = z"
  by (simp add: signed_of_int signed_take_bit_int_eq_self)

lemma sint_range_64: "- (2 ^ 63) \<le> sint (v::u64) \<and> sint v < 2 ^ 63"
  using sint_greater_eq [of v] sint_less [of v] by simp

lemma asn1_int64_loop:
  assumes "length body \<le> 8"
  shows "le_int64 (foldl (\<lambda>s i. s[i := body ! (length body - i - 1)])
      (replicate 8 (if neg then 0xff else 0)) [0..<length body]) = asn1_int64_value neg body"
  unfolding le_int64_def foldr_le_word asn1_int64_value_def
  using sign_extend_loop [of "length body" body "replicate 8 (if neg then 0xff else 0)"] assms
  by simp

lemma asn1_int64_value_nonneg: "asn1_int64_value False (der_uint_body n) = word_of_int (int n)"
  by (simp add: asn1_int64_value_def be_nat_append be_nat_replicate der_uint_body_props)

lemma asn1_int64_value_neg:
  assumes "n < 2 ^ 63"
  shows "asn1_int64_value True (map NOT (der_uint_body n)) = word_of_int (- 1 - int n)"
proof -
  let ?b = "der_uint_body n"
  have l: "length ?b \<le> 8" using assms by (simp add: length_der_uint_body_8)
  have "be_nat (map NOT ?b) = 256 ^ length ?b - 1 - n"
    using be_nat_map_not [of ?b] by (simp add: der_uint_body_props)
  moreover have "n < 256 ^ length ?b" using be_nat_less [of ?b] by (simp add: der_uint_body_props)
  ultimately have "int (be_nat (replicate (8 - length ?b) 0xff @ map NOT ?b)) =
      (256 ^ (8 - length ?b) - 1) * 256 ^ length ?b + (256 ^ length ?b - 1 - int n)"
    by (simp add: be_nat_append be_nat_replicate of_nat_diff)
  also have "\<dots> = 256 ^ (8 - length ?b + length ?b) - 1 - int n"
    by (simp add: power_add algebra_simps)
  also have "\<dots> = 2 ^ 64 + (- 1 - int n)" using l by simp
  finally have "asn1_int64_value True (map NOT ?b) = word_of_int (2 ^ 64 + (- 1 - int n))"
    unfolding asn1_int64_value_def by (metis length_map of_int_of_nat_eq)
  also have "\<dots> = word_of_int (- 1 - int n)"
    by (simp only: of_int_add) simp
  finally show ?thesis .
qed

lemma asn1_int64_body_iff:
  "(\<exists>neg. CBS_is_valid_asn1_integer body = Some neg \<and> length body \<le> 8 \<and> v = asn1_int64_value neg body) \<longleftrightarrow>
   body = der_int_body (sint v)"
proof
  assume "\<exists>neg. CBS_is_valid_asn1_integer body = Some neg \<and> length body \<le> 8 \<and> v = asn1_int64_value neg body"
  then obtain neg where a: "CBS_is_valid_asn1_integer body = Some neg" "length body \<le> 8"
    "v = asn1_int64_value neg body" by blast
  show "body = der_int_body (sint v)"
  proof (cases neg)
    case True
    with a obtain n where n: "body = map NOT (der_uint_body n)" by (auto simp: signed_asn1_integer_iff)
    with a(2) have "n < 2 ^ 63" by (simp add: length_der_uint_body_8)
    moreover from this have "sint v = - 1 - int n"
      using a n True asn1_int64_value_neg [of n] sint_of_int_64 [of "- 1 - int n"] by simp
    ultimately show ?thesis using n by (simp add: der_int_body_def)
  next
    case False
    with a obtain n where n: "body = der_uint_body n"
      using unsigned_asn1_integer_iff [of body] by (auto simp: CBS_is_unsigned_asn1_integer_def)
    with a(2) have "n < 2 ^ 63" by (simp add: length_der_uint_body_8)
    then have "sint v = int n"
      using a n False by (simp only: asn1_int64_value_nonneg) (simp add: sint_of_int_64 del: of_int_of_nat_eq)
    then show ?thesis using n by (simp add: der_int_body_def)
  qed
next
  assume b: "body = der_int_body (sint v)"
  have v: "v = word_of_int (sint v)" by simp
  show "\<exists>neg. CBS_is_valid_asn1_integer body = Some neg \<and> length body \<le> 8 \<and> v = asn1_int64_value neg body"
  proof (cases "0 \<le> sint v")
    case True
    then have e: "body = der_uint_body (nat (sint v))" using b by (simp add: der_int_body_def)
    then have "CBS_is_valid_asn1_integer body = Some False"
      using unsigned_asn1_integer_iff [of body] by (auto simp: CBS_is_unsigned_asn1_integer_def)
    moreover have "length body \<le> 8" using e sint_range_64 [of v] True by (simp add: length_der_uint_body_8 nat_less_iff)
    moreover have "v = asn1_int64_value False body" using e True by (simp only: asn1_int64_value_nonneg) simp
    ultimately show ?thesis by blast
  next
    case False
    let ?n = "nat (- sint v - 1)"
    have e: "body = map NOT (der_uint_body ?n)" using b False by (simp add: der_int_body_def)
    have n: "?n < 2 ^ 63" using sint_range_64 [of v] False by (simp add: nat_less_iff)
    have "CBS_is_valid_asn1_integer body = Some True" using e signed_asn1_integer_iff [of body] by blast
    moreover have "length body \<le> 8" using e n by (simp add: length_der_uint_body_8)
    moreover have "v = asn1_int64_value True body" using e False asn1_int64_value_neg [OF n] by simp
    ultimately show ?thesis by blast
  qed
qed

lemma length_der_int_body: "length (der_int_body (sint (v::u64))) \<le> 8"
  using asn1_int64_body_iff [of "der_int_body (sint v)" v] by blast

lemma CBS_get_asn1_int64_iff:
  "CBS_get_asn1_int64 cbs = (Some v, rest) \<longleftrightarrow>
    cbs = der_element CBS_ASN1_INTEGER (der_int_body (sint v)) @ rest"
proof -
  have step: "(case CBS_is_valid_asn1_integer body of None \<Rightarrow> (None, c) | Some neg \<Rightarrow>
     let len = CBS_len body
     in if len > 8 then (None, c)
        else let s = replicate 8 (if neg then 0xff else 0);
                 s = foldl (\<lambda>s i. s[i := body ! (len - i - 1)]) s [0..<len]
          in (Some (le_int64 s), c)) = (Some v, rest) \<longleftrightarrow>
     c = rest \<and> (\<exists>neg. CBS_is_valid_asn1_integer body = Some neg \<and> length body \<le> 8 \<and> v = asn1_int64_value neg body)"
    for body c
  proof (cases "CBS_is_valid_asn1_integer body")
    case (Some neg)
    then show ?thesis
      using asn1_int64_loop [of body neg] by (cases "length body \<le> 8") (auto simp: CBS_len_def Let_def)
  qed simp
  have "CBS_get_asn1_int64 cbs = (Some v, rest) \<longleftrightarrow>
      (\<exists>body. length body < 2 ^ 32 \<and> cbs = der_element CBS_ASN1_INTEGER body @ rest \<and>
        (\<exists>neg. CBS_is_valid_asn1_integer body = Some neg \<and> length body \<le> 8 \<and> v = asn1_int64_value neg body))"
    unfolding CBS_get_asn1_int64_def cbs_bind_Some CBS_get_asn1_iff step by auto
  also have "\<dots> \<longleftrightarrow> cbs = der_element CBS_ASN1_INTEGER (der_int_body (sint v)) @ rest"
    unfolding asn1_int64_body_iff using length_der_int_body [of v] by auto
  finally show ?thesis .
qed
end
