(* ===== verification/Cbb_Refine.thy ===== *)
theory Cbb_Refine
  imports Cbb Der
begin

text \<open>
  What a builder promises, and that \<open>Cbb\<close> keeps it. The abstract state is the output of
  the root and a stack of open children, each with its kind and the bytes written to it so
  far; closing a child appends its length prefix and body to its parent. \<open>cbb_rel\<close> relates
  it to the shared buffer of the C code, where each open child is a run of zero bytes at
  \<open>c_offset\<close> followed by its body. \<open>cbb_wp\<close> states of an operation that its behaviour is
  defined, what holds when it fails and what holds when it succeeds.
\<close>

section \<open>The abstract builder\<close>

datatype frame_kind = Prefix nat | Asn1

type_synonym frames = "(frame_kind \<times> bytes) list"

fun plen :: "frame_kind \<Rightarrow> nat" where
  "plen (Prefix n) = n"
| "plen Asn1 = 1"

fun kind_ok :: "frame_kind \<Rightarrow> bool" where
  "kind_ok (Prefix n) = (n \<le> 8)"
| "kind_ok Asn1 = True"

text \<open>What closing a child of a kind with a body appends to the parent.\<close>

fun a_close :: "frame_kind \<Rightarrow> bytes \<Rightarrow> bytes option" where
  "a_close (Prefix n) body =
     (if length body < 256 ^ n then Some (be_bytes n (length body) @ body) else None)"
| "a_close Asn1 body =
     (if length body \<le> 0xfffffffe then Some (der_length (length body) @ body) else None)"

fun a_append :: "bytes \<Rightarrow> bytes \<times> frames \<Rightarrow> bytes \<times> frames" where
  "a_append e (root, []) = (root @ e, [])"
| "a_append e (root, (k, b) # fs) = (root, (k, b @ e) # fs)"

fun a_close_top :: "bytes \<times> frames \<Rightarrow> (bytes \<times> frames) option" where
  "a_close_top (root, []) = None"
| "a_close_top (root, (k, b) # fs) = map_option (\<lambda>e. a_append e (root, fs)) (a_close k b)"

fun a_close_n :: "nat \<Rightarrow> bytes \<times> frames \<Rightarrow> (bytes \<times> frames) option" where
  "a_close_n 0 a = Some a"
| "a_close_n (Suc m) a = Option.bind (a_close_n m a) a_close_top"

text \<open>Flushing the builder at depth \<open>d\<close> closes every child below it, innermost first.\<close>

definition a_flush :: "nat \<Rightarrow> bytes \<times> frames \<Rightarrow> (bytes \<times> frames) option" where
  "a_flush d a = (if d > length (snd a) then None else a_close_n (length (snd a) - d) a)"

section \<open>The refinement relation\<close>

fun flat :: "bytes \<Rightarrow> frames \<Rightarrow> bytes" where
  "flat root [] = root"
| "flat root ((k, b) # fs) = flat root fs @ replicate (plen k) 0 @ b"

fun chain :: "bytes \<Rightarrow> frames \<Rightarrow> cbb_child list" where
  "chain root [] = []"
| "chain root ((k, b) # fs) = chain root fs @
     [\<lparr>c_offset = length (flat root fs), pending_len_len = plen k, pending_is_asn1 = (k = Asn1)\<rparr>]"

definition alloc_ok :: "allocator \<Rightarrow> bool" where
  "alloc_ok mem \<longleftrightarrow> (\<forall>n b. mem n = Some b \<longrightarrow> length b = n)"

definition buf_ok :: "cbb_buffer \<Rightarrow> bool" where
  "buf_ok b \<longleftrightarrow> length (bbuf b) = bcap b \<and> blen b \<le> bcap b \<and> bcap b < 2 ^ 64"

definition contents :: "cbb_buffer \<Rightarrow> bytes" where
  "contents b = take (blen b) (bbuf b)"

definition cbb_rel :: "cbb \<Rightarrow> bytes \<Rightarrow> frames \<Rightarrow> bool" where
  "cbb_rel s root fs \<longleftrightarrow> buf_ok (cbb_base s) \<and> \<not> berror (cbb_base s) \<and>
     contents (cbb_base s) = flat root fs \<and> children s = chain root fs \<and>
     list_all (\<lambda>(k, _). kind_ok k) fs"

text \<open>Weakest precondition: \<open>E\<close> holds of the state after a failure, \<open>Q\<close> after a success.\<close>

definition cbb_wp :: "'a cbb_ret \<Rightarrow> (cbb \<Rightarrow> bool) \<Rightarrow> ('a \<Rightarrow> cbb \<Rightarrow> bool) \<Rightarrow> bool" where
  "cbb_wp m E Q = (case m of
     None \<Rightarrow> False
   | Some (None, s) \<Rightarrow> E s
   | Some (Some x, s) \<Rightarrow> Q x s)"

text \<open>A failed builder is locked: every later operation fails (\<open>CBB_flush\<close> tests the flag).\<close>

abbreviation locked :: "cbb \<Rightarrow> bool" where
  "locked s \<equiv> berror (cbb_base s)"

text \<open>The state after a failure on the builder at depth \<open>d\<close>, which still has its base.\<close>

definition failed :: "nat \<Rightarrow> cbb \<Rightarrow> bool" where
  "failed d s \<longleftrightarrow> locked s \<and> d \<le> length (children s)"

text \<open>The buffer holds, or can grow to hold, an output of \<open>n\<close> bytes.\<close>

definition cbb_room :: "allocator \<Rightarrow> cbb_buffer \<Rightarrow> nat \<Rightarrow> bool" where
  "cbb_room mem b n \<longleftrightarrow> n \<le> bcap b \<or> can_resize b \<and> (\<forall>m. mem m \<noteq> None) \<and> n \<le> 2 ^ 61"

text \<open>What every operation keeps of the buffer: it never shrinks.\<close>

definition grows :: "cbb_buffer \<Rightarrow> cbb_buffer \<Rightarrow> bool" where
  "grows b b' \<longleftrightarrow> can_resize b' = can_resize b \<and> bcap b \<le> bcap b'"

lemma grows_refl [simp]: "grows b b"
  by (simp add: grows_def)

lemma grows_trans: "grows b c \<Longrightarrow> grows c d \<Longrightarrow> grows b d"
  by (auto simp: grows_def)

lemma cbb_room_grows: "grows b c \<Longrightarrow> cbb_room mem b n \<Longrightarrow> cbb_room mem c n"
  by (auto simp: grows_def cbb_room_def)

lemma cbb_room_mono: "cbb_room mem b n \<Longrightarrow> m \<le> n \<Longrightarrow> cbb_room mem b m"
  by (auto simp: cbb_room_def)

section \<open>Weakest preconditions\<close>

lemma cbb_wp_simps [simp]:
  "cbb_wp None E Q = False"
  "cbb_wp (Some (None, s)) E Q = E s"
  "cbb_wp (Some (Some x, s)) E Q = Q x s"
  by (simp_all add: cbb_wp_def)

lemma cbb_bind_simps [simp]:
  "cbb_bind None f = None"
  "cbb_bind (Some (None, s)) f = Some (None, s)"
  "cbb_bind (Some (Some x, s)) f = f x s"
  by (simp_all add: cbb_bind_def)

lemma cbb_wp_bind [simp]: "cbb_wp (cbb_bind m f) E Q = cbb_wp m E (\<lambda>x s. cbb_wp (f x s) E Q)"
  by (simp add: cbb_wp_def cbb_bind_def split: option.splits prod.splits)

lemma cbb_wp_mono:
  assumes "cbb_wp m E Q" "\<And>s. E s \<Longrightarrow> E' s" "\<And>x s. Q x s \<Longrightarrow> Q' x s"
  shows "cbb_wp m E' Q'"
  using assms by (auto simp: cbb_wp_def split: option.splits prod.splits)

lemma cbb_wp_conj:
  "cbb_wp m E Q \<Longrightarrow> cbb_wp m E' Q' \<Longrightarrow> cbb_wp m (\<lambda>s. E s \<and> E' s) (\<lambda>x s. Q x s \<and> Q' x s)"
  by (auto simp: cbb_wp_def split: option.splits prod.splits)

section \<open>The shared buffer\<close>

lemma OPENSSL_malloc_length: "alloc_ok mem \<Longrightarrow> n < 2 ^ 64 \<Longrightarrow> OPENSSL_malloc mem n = Some b \<Longrightarrow> length b = n"
  by (auto simp: OPENSSL_malloc_def alloc_ok_def size_add_eq mod_if split: if_splits)

lemma OPENSSL_malloc_live: "(\<forall>m. mem m \<noteq> None) \<Longrightarrow> n \<le> 2 ^ 62 \<Longrightarrow> \<exists>b. OPENSSL_malloc mem n = Some b"
  by (auto simp: OPENSSL_malloc_def size_add_eq)

lemma OPENSSL_realloc_props:
  assumes "alloc_ok mem" "length old \<le> n" "n < 2 ^ 64" "OPENSSL_realloc mem old n = Some b"
  shows "length b = n \<and> take (length old) b = old"
  using assms OPENSSL_malloc_length [of mem n] by (auto simp: OPENSSL_realloc_def Let_def)

lemma reserve_fail: "cbb_buffer_reserve mem b n = (False, b') \<Longrightarrow> b' = b\<lparr>berror := True\<rparr>"
  by (auto simp: cbb_buffer_reserve_def Let_def split: if_splits option.splits)

lemma reserve_ok:
  assumes "alloc_ok mem" "buf_ok b" "n < 2 ^ 64" and r: "cbb_buffer_reserve mem b n = (True, b')"
  shows "buf_ok b' \<and> blen b' = blen b \<and> blen b + n \<le> bcap b' \<and> contents b' = contents b \<and>
    berror b' = berror b \<and> grows b b'"
proof -
  let ?newlen = "size_add (blen b) n"
  have "blen b < 2 ^ 64" using assms(2) by (simp add: buf_ok_def)
  moreover have "\<not> ?newlen < blen b" using r by (auto simp: cbb_buffer_reserve_def Let_def)
  ultimately have nl64: "blen b + n < 2 ^ 64" 
    using size_add_overflow [of "blen b" n] assms(3) by (simp only: not_le)
  then have nl: "?newlen = blen b + n" by (rule size_add_small)
  show ?thesis
  proof (cases "?newlen > bcap b")
    case False
    then show ?thesis using r assms nl by (auto simp: cbb_buffer_reserve_def Let_def grows_def split: if_splits)
  next
    case True
    define newcap where "newcap = (let c = size_add (bcap b) (bcap b) in if c < bcap b \<or> c < ?newlen then ?newlen else c)"
    from True r obtain nb where nb: "OPENSSL_realloc mem (bbuf b) newcap = Some nb"
      and b': "b' = b\<lparr>bbuf := nb, bcap := newcap\<rparr>"
      by (auto simp: cbb_buffer_reserve_def Let_def newcap_def split: if_splits option.splits)
    have "size_add x y < 2 ^ 64" for x y unfolding size_add_eq by simp
    then have c: "?newlen \<le> newcap" "newcap < 2 ^ 64"
      by (auto simp: newcap_def Let_def)
    then have "length (bbuf b) \<le> newcap" using True assms(2) by (simp add: buf_ok_def)
    from OPENSSL_realloc_props [OF assms(1) this c(2) nb] have "length nb = newcap" "take (bcap b) nb = bbuf b"
      using assms(2) by (auto simp: buf_ok_def)
    moreover have "take (blen b) (take (bcap b) nb) = take (blen b) nb"
      using assms(2) by (simp add: buf_ok_def min_absorb1)
    ultimately show ?thesis using c nl True assms(2) by (auto simp: b' buf_ok_def contents_def grows_def)
  qed
qed

lemma reserve_live:
  assumes "buf_ok b" "cbb_room mem b (blen b + n)"
  shows "fst (cbb_buffer_reserve mem b n)"
proof (cases "blen b + n \<le> bcap b")
  case True
  then have "size_add (blen b) n = blen b + n" using assms(1) unfolding size_add_eq buf_ok_def by simp
  with True show ?thesis by (simp add: cbb_buffer_reserve_def)
next
  case False
  with assms(2) have r: "can_resize b" "\<forall>m. mem m \<noteq> None" "blen b + n \<le> 2 ^ 61" by (simp_all add: cbb_room_def)
  then have nl: "size_add (blen b) n = blen b + n" unfolding size_add_eq by simp
  define newcap where "newcap = (let c = size_add (bcap b) (bcap b) in if c < bcap b \<or> c < blen b + n then blen b + n else c)"
  have "newcap \<le> 2 ^ 62" using False r(3) by (auto simp: newcap_def Let_def size_add_eq)
  from OPENSSL_malloc_live [OF r(2) this] obtain nb where "OPENSSL_realloc mem (bbuf b) newcap = Some nb"
    by (auto simp: OPENSSL_realloc_def)
  then show ?thesis using False r nl by (simp add: cbb_buffer_reserve_def Let_def newcap_def)
qed


lemma buffer_add_fail: "cbb_buffer_add mem b n = (False, b') \<Longrightarrow> b' = b\<lparr>berror := True\<rparr>"
  by (auto simp: cbb_buffer_add_def dest: reserve_fail split: prod.splits bool.splits)

lemma buffer_add_ok:
  assumes "alloc_ok mem" "buf_ok b" "n < 2 ^ 64" and a: "cbb_buffer_add mem b n = (True, b')"
  obtains junk where "buf_ok b'" "blen b' = blen b + n" "contents b' = contents b @ junk"
    "length junk = n" "berror b' = berror b" "grows b b'"
proof -
  from a obtain c where c: "cbb_buffer_reserve mem b n = (True, c)" and b': "b' = c\<lparr>blen := blen c + n\<rparr>"
    by (auto simp: cbb_buffer_add_def split: prod.splits bool.splits)
  from reserve_ok [OF assms(1-3) c] have r: "buf_ok c" "blen c = blen b" "blen b + n \<le> bcap c"
    "contents c = contents b" "berror c = berror b" "grows b c" by auto
  then show thesis
    by (intro that [of "take n (drop (blen c) (bbuf c))"])
      (simp_all add: b' buf_ok_def contents_def take_add grows_def)
qed

lemma buffer_add_live: "buf_ok b \<Longrightarrow> cbb_room mem b (blen b + n) \<Longrightarrow> fst (cbb_buffer_add mem b n)"
  using reserve_live [of b mem n] by (auto simp: cbb_buffer_add_def split: prod.splits bool.splits)

lemma length_contents: "buf_ok b \<Longrightarrow> length (contents b) = blen b"
  by (simp add: buf_ok_def contents_def)

lemma buf_write_ok:
  assumes "buf_ok b" "contents b = xs @ old @ ys" "length bs = length old"
  obtains b' where "buf_write b (length xs) bs = Some b'" "buf_ok b'" "contents b' = xs @ bs @ ys"
    "blen b' = blen b" "bcap b' = bcap b" "berror b' = berror b" "can_resize b' = can_resize b"
proof -
  let ?b = "b\<lparr>bbuf := take (length xs) (bbuf b) @ bs @ drop (length xs + length bs) (bbuf b)\<rparr>"
  have l: "length xs + length old + length ys = blen b" using assms(1,2) length_contents [of b] by simp
  have e: "bbuf b = xs @ old @ ys @ drop (blen b) (bbuf b)"
    using assms(2) append_take_drop_id [of "blen b" "bbuf b"] by (simp add: contents_def)
  have "buf_write b (length xs) bs = Some ?b"
    using l assms by (simp add: buf_write_def buf_ok_def)
  moreover have "bbuf ?b = xs @ bs @ ys @ drop (blen b) (bbuf b)"
    using e assms(3) by (metis (no_types, lifting) append_assoc append_eq_conv_conj cbb_buffer.select_convs(1)
        cbb_buffer.surjective cbb_buffer.update_convs(1) length_append)
  ultimately show thesis
    using l assms that [of ?b] by (simp add: buf_ok_def contents_def)
qed

lemma write_be_ok:
  "buf_ok b \<Longrightarrow> contents b = xs @ old @ ys \<Longrightarrow> length old = n \<Longrightarrow>
   \<exists>b'. cbb_write_be n (length xs) v b = Some (drop_bit (8 * n) v, b') \<and> buf_ok b' \<and>
     contents b' = xs @ be_bytes n (unat v) @ ys \<and> blen b' = blen b \<and> bcap b' = bcap b \<and>
     berror b' = berror b \<and> can_resize b' = can_resize b"
proof (induction n arbitrary: v b old ys)
  case (Suc n)
  then obtain old' x where o: "old = old' @ [x]" "length old' = n" by (metis length_Suc_conv_rev)
  have "contents b = (xs @ old') @ [x] @ ys" using Suc.prems o by simp
  from buf_write_ok [OF Suc.prems(1) this, of "[ucast v]"] obtain b1 where
    b1: "buf_write b (length xs + n) [ucast v] = Some b1" "buf_ok b1" "contents b1 = xs @ old' @ ucast v # ys"
      "blen b1 = blen b" "bcap b1 = bcap b" "berror b1 = berror b" "can_resize b1 = can_resize b"
    using o(2) by auto
  from Suc.IH [OF b1(2,3) o(2), of "drop_bit 8 v"] obtain b2 where
    b2: "cbb_write_be n (length xs) (drop_bit 8 v) b1 = Some (drop_bit (8 * n) (drop_bit 8 v), b2)" "buf_ok b2"
      "contents b2 = xs @ be_bytes n (unat (drop_bit 8 v)) @ ucast v # ys"
      "blen b2 = blen b1" "bcap b2 = bcap b1" "berror b2 = berror b1" "can_resize b2 = can_resize b1" by auto
  have "(ucast v :: u8) = of_nat (unat v)"
    by (rule word_eq_unatI) (simp add: unat_ucast_mod unat_of_nat_mod)
  then have "be_bytes n (unat (drop_bit 8 v)) @ [ucast v] = be_bytes (Suc n) (unat v)"
    by (simp add: unat_drop_bit)
  moreover have "drop_bit (8 * n) (drop_bit 8 v) = drop_bit (8 * Suc n) v" by (simp add: add.commute)
  ultimately show ?case using b1 b2 by (intro exI [of _ b2]) simp
qed simp
section \<open>Flushing refines closing\<close>

abbreviation cbb_rel2 :: "cbb \<Rightarrow> bytes \<times> frames \<Rightarrow> bool" where
  "cbb_rel2 s a \<equiv> cbb_rel s (fst a) (snd a)"

lemma a_append_simps:
  "flat (fst (a_append e (root, fs))) (snd (a_append e (root, fs))) = flat root fs @ e"
  "chain (fst (a_append e (root, fs))) (snd (a_append e (root, fs))) = chain root fs"
  "list_all (\<lambda>(k, _). kind_ok k) (snd (a_append e (root, fs))) = list_all (\<lambda>(k, _). kind_ok k) fs"
  "length (snd (a_append e (root, fs))) = length fs"
  by (cases fs; auto)+

lemma cbb_rel_append:
  "cbb_rel2 s (a_append e (root, fs)) \<longleftrightarrow> buf_ok (cbb_base s) \<and> \<not> berror (cbb_base s) \<and>
     contents (cbb_base s) = flat root fs @ e \<and> children s = chain root fs \<and>
     list_all (\<lambda>(k, _). kind_ok k) fs"
  by (simp add: cbb_rel_def a_append_simps)

lemma length_chain [simp]: "length (chain root fs) = length fs"
  by (induction root fs rule: chain.induct) auto

lemma chain_append_simps [simp]:
  "(chain root fs @ [c]) ! length fs = c"
  "take (length fs) (chain root fs @ cs) = chain root fs"
  using length_chain [of root fs] by (simp_all add: nth_append)

lemma plen_le: "kind_ok k \<Longrightarrow> plen k \<le> 8"
  by (cases k) auto

lemma failed_on_error [simp]: "failed d (cbb_on_error d s) \<longleftrightarrow> d \<le> length (children s)"
  by (simp add: cbb_on_error_def failed_def)

lemma flush_child_prefix:
  assumes "cbb_rel s root ((Prefix n, body) # fs)"
  shows "cbb_wp (cbb_flush_child mem (length fs) s) (\<lambda>s'. failed (length fs) s' \<and> a_close (Prefix n) body = None)
    (\<lambda>_ s'. \<exists>e. a_close (Prefix n) body = Some e \<and> cbb_rel2 s' (a_append e (root, fs)) \<and>
      grows (cbb_base s) (cbb_base s'))"
proof -
  let ?b = "cbb_base s" and ?o = "length (flat root fs)" and ?v = "of_nat (length body) :: u64"
  from assms have r: "buf_ok ?b" "\<not> berror ?b" "contents ?b = flat root fs @ replicate n 0 @ body"
    "children s = chain root ((Prefix n, body) # fs)" "list_all (\<lambda>(k, _). kind_ok k) fs" "n \<le> 8"
    by (simp_all add: cbb_rel_def)
  have len: "blen ?b = ?o + n + length body" using length_contents [OF r(1)] r(3) by simp
  moreover have "blen ?b < 2 ^ 64" using r(1) by (simp add: buf_ok_def)
  ultimately have st: "size_add ?o n = ?o + n" and lb: "length body < 2 ^ 64" by (simp_all add: size_add_small)
  then have uv: "unat ?v = length body" by (intro unat_of_nat_less) simp
  from write_be_ok [OF r(1,3), of n ?v] obtain b' where
    w: "cbb_write_be n ?o ?v ?b = Some (drop_bit (8 * n) ?v, b')" "buf_ok b'"
      "contents b' = flat root fs @ be_bytes n (length body) @ body" "berror b' = berror ?b"
      "grows ?b b'"
    using uv by (auto simp: grows_def)
  have z: "drop_bit (8 * n) ?v = 0 \<longleftrightarrow> length body < 256 ^ n"
    using drop_bytes_eq_0 [of n ?v] uv by (simp add: mult.commute)
  have e: "cbb_flush_child mem (length fs) s =
      (if drop_bit (8 * n) ?v \<noteq> 0 then Some (None, cbb_on_error (length fs) (s\<lparr>cbb_base := b'\<rparr>))
       else Some (Some (), s\<lparr>cbb_base := b', children := chain root fs\<rparr>))"
    unfolding cbb_flush_child_def r(4) using st len w(1) by (simp add: Let_def)
  show ?thesis unfolding e z using r w by (simp add: cbb_rel_append)
qed

lemma asn1_len_len_cases:
  assumes "n < 2 ^ 64"
  obtains (big) "0xfffffffe < n" "cbb_asn1_len_len (of_nat n) = None"
  | (short) "n < 128" "cbb_asn1_len_len (of_nat n) = Some (1, of_nat n, 0)" "der_length n = [of_nat n]"
  | (long) k where "0 < k" "k \<le> 4" "128 \<le> n" "n \<le> 0xfffffffe" "n < 256 ^ k"
      "cbb_asn1_len_len (of_nat n) = Some (k + 1, of_nat (128 + k), of_nat n)"
      "der_length n = of_nat (128 + k) # be_bytes k n"
proof -
  have un: "unat (of_nat n :: u64) = n" using assms by (intro unat_of_nat_less) simp
  have cmp: "(of_nat n :: u64) > c \<longleftrightarrow> n > unat c" for c using un by (simp add: word_less_nat_alt)
  have ln: "cbb_asn1_len_len (of_nat n) =
     (if n > 0xfffffffe then None
      else if n > 0xffffff then Some (5, 0x84, of_nat n)
      else if n > 0xffff then Some (4, 0x83, of_nat n)
      else if n > 0xff then Some (3, 0x82, of_nat n)
      else if n > 0x7f then Some (2, 0x81, of_nat n)
      else Some (1, ucast (of_nat n :: u64), 0))"
    unfolding cbb_asn1_len_len_def cmp by simp
  have "unat (ucast (of_nat n :: u64) :: u8) = n mod 2 ^ LENGTH(8)"
    by (simp only: unat_ucast_mod un)
  then have uc: "(ucast (of_nat n :: u64) :: u8) = of_nat n"
    by (intro word_eq_unatI) (simp only: unat_of_nat_mod)
  consider "0xfffffffe < n" | "n < 128" | "n \<le> 0xfffffffe" "128 \<le> n" by linarith
  then show thesis
  proof cases
    case 1
    then show ?thesis using big ln by simp
  next
    case 2
    then show ?thesis using short ln uc by (simp add: der_length_def)
  next
    case 3
    have n32: "n < 2 ^ 32" using 3 by simp
    from n32 show ?thesis
    proof (cases rule: der_length_cases)
      case 1
      then show ?thesis using 3 by simp
    next
      case (2 k)
      then consider "k = 1" | "k = 2" | "k = 3" | "k = 4" by linarith
      then have "cbb_asn1_len_len (of_nat n) = Some (k + 1, of_nat (128 + k), of_nat n)"
        using ln 2 3 by cases simp_all
      with 2 3 show ?thesis using long [of k] by blast
    qed
  qed
qed

text \<open>The three writes of \<open>CBB_flush\<close> for a long-form length.\<close>

lemma long_form_writes:
  assumes b1: "buf_ok b1" and c1: "contents b1 = hdr @ [0] @ body @ junk" and k: "length junk = k"
  obtains b2 b3 b4 where
    "take (length body) (drop (length hdr + 1) (bbuf b1)) = body"
    "buf_write b1 (length hdr + 1 + k) body = Some b2" "buf_write b2 (length hdr) [c] = Some b3"
    "cbb_write_be k (length hdr + 1) v b3 = Some (drop_bit (8 * k) v, b4)" "buf_ok b4"
    "contents b4 = hdr @ c # be_bytes k (unat v) @ body" "berror b4 = berror b1"
    "can_resize b4 = can_resize b1" "blen b4 = blen b1" "bcap b4 = bcap b1"
proof -
  obtain x y where xy: "body @ junk = x @ y" and l: "length x = k" "length y = length body"
    using k append_take_drop_id [of k "body @ junk"] length_take [of k "body @ junk"]
      length_drop [of k "body @ junk"] by (metis add_diff_cancel_right' length_append min.absorb2 le_add2)
  have "bbuf b1 = contents b1 @ drop (blen b1) (bbuf b1)" by (simp add: contents_def)
  then obtain z where "bbuf b1 = contents b1 @ z" by blast
  then have mv: "take (length body) (drop (length hdr + 1) (bbuf b1)) = body" using c1 by simp
  have "contents b1 = (hdr @ [0] @ x) @ y @ []" using c1 xy by simp
  from buf_write_ok [OF b1 this, of body] obtain b2 where
    b2: "buf_write b1 (length hdr + 1 + k) body = Some b2" "buf_ok b2" "contents b2 = hdr @ [0] @ x @ body"
      "berror b2 = berror b1" "can_resize b2 = can_resize b1" "blen b2 = blen b1" "bcap b2 = bcap b1" using l by auto
  from buf_write_ok [OF b2(2,3), of "[c]"] obtain b3 where
    b3: "buf_write b2 (length hdr) [c] = Some b3" "buf_ok b3" "contents b3 = (hdr @ [c]) @ x @ body"
      "berror b3 = berror b2" "can_resize b3 = can_resize b2" "blen b3 = blen b2" "bcap b3 = bcap b2" by auto
  from write_be_ok [OF b3(2,3) l(1), of v] obtain b4 where
    b4: "cbb_write_be k (length hdr + 1) v b3 = Some (drop_bit (8 * k) v, b4)" "buf_ok b4"
      "contents b4 = hdr @ c # be_bytes k (unat v) @ body" "berror b4 = berror b3"
      "can_resize b4 = can_resize b3" "blen b4 = blen b3" "bcap b4 = bcap b3" by auto
  show thesis using that [OF mv b2(1) b3(1) b4(1,2,3)] b2 b3 b4 by simp
qed

lemma flush_child_asn1:
  assumes "alloc_ok mem" and rel: "cbb_rel s root ((Asn1, body) # fs)"
  shows "cbb_wp (cbb_flush_child mem (length fs) s)
    (\<lambda>s'. failed (length fs) s' \<and>
       (\<forall>e. a_close Asn1 body = Some e \<longrightarrow> \<not> cbb_room mem (cbb_base s) (length (flat root fs @ e))))
    (\<lambda>_ s'. \<exists>e. a_close Asn1 body = Some e \<and> cbb_rel2 s' (a_append e (root, fs)) \<and>
      grows (cbb_base s) (cbb_base s'))"
proof -
  let ?b = "cbb_base s" and ?o = "length (flat root fs)" and ?n = "length body"
  let ?v = "of_nat ?n :: u64"
  from rel have r: "buf_ok ?b" "\<not> berror ?b" "contents ?b = flat root fs @ [0] @ body"
    "children s = chain root fs @ [\<lparr>c_offset = ?o, pending_len_len = 1, pending_is_asn1 = True\<rparr>]"
    "list_all (\<lambda>(k, _). kind_ok k) fs"
    by (simp_all add: cbb_rel_def)
  have len: "blen ?b = ?o + 1 + ?n" using length_contents [OF r(1)] r(3) by simp
  moreover have "blen ?b < 2 ^ 64" using r(1) by (simp add: buf_ok_def)
  ultimately have st: "size_add ?o 1 = ?o + 1" and lb: "?n < 2 ^ 64" by (simp_all add: size_add_small)
  then have uv: "unat ?v = ?n" by (intro unat_of_nat_less) simp
  have ch: "length fs \<le> length (children s)" using r(4) length_chain [of root fs] by simp
  note unf = cbb_flush_child_def r(4)
  from lb show ?thesis
  proof (cases rule: asn1_len_len_cases)
    case big
    then show ?thesis unfolding unf using st len ch by (simp add: Let_def)
  next
    case short
    from buf_write_ok [OF r(1,3), of "[of_nat ?n]"] obtain b' where
      w: "buf_write ?b ?o [of_nat ?n] = Some b'" "buf_ok b'"
        "contents b' = flat root fs @ [of_nat ?n] @ body" "berror b' = berror ?b"
        "blen b' = blen ?b" "bcap b' = bcap ?b" "can_resize b' = can_resize ?b" by auto
    then have g: "grows ?b b'" by (simp add: grows_def)
    have "cbb_flush_child mem (length fs) s = Some (Some (), s\<lparr>cbb_base := b', children := chain root fs\<rparr>)"
      unfolding unf using st len short w(1) by (simp add: Let_def)
    then show ?thesis using r w short g by (simp add: cbb_rel_append)
  next
    case (long k)
    show ?thesis
    proof (cases "cbb_buffer_add mem ?b k")
      case (Pair ok b1)
      show ?thesis
      proof (cases ok)
        case False
        with Pair have "berror b1" using buffer_add_fail [of mem ?b k b1] by simp
        moreover have "\<not> cbb_room mem ?b (blen ?b + k)"
          using buffer_add_live [OF r(1), of mem k] Pair False by auto
        ultimately show ?thesis unfolding unf using st len long Pair False ch
          by (simp add: Let_def add.assoc add.commute add.left_commute)
      next
        case True
        have k64: "k < 2 ^ 64" using long by simp
        from buffer_add_ok [OF assms(1) r(1) k64, of b1] Pair True obtain junk where
          b1: "buf_ok b1" "blen b1 = blen ?b + k" "contents b1 = contents ?b @ junk" "length junk = k"
            "berror b1 = berror ?b" "grows ?b b1" by auto
        have c1: "contents b1 = flat root fs @ [0] @ body @ junk" using b1(3) r(3) by simp
        obtain b2 b3 b4 where
          w: "take ?n (drop (?o + 1) (bbuf b1)) = body"
            "buf_write b1 (?o + 1 + k) body = Some b2" "buf_write b2 ?o [of_nat (128 + k)] = Some b3"
            "cbb_write_be k (?o + 1) ?v b3 = Some (drop_bit (8 * k) ?v, b4)" "buf_ok b4"
            "contents b4 = flat root fs @ of_nat (128 + k) # be_bytes k ?n @ body" "berror b4 = berror b1"
            "can_resize b4 = can_resize b1" "blen b4 = blen b1" "bcap b4 = bcap b1"
          by (rule long_form_writes [OF b1(1) c1 b1(4), where v = ?v and c = "of_nat (128 + k)", unfolded uv])
        have "drop_bit (8 * k) ?v = 0"
          using drop_bytes_eq_0 [of k ?v] uv long by (simp add: mult.commute)
        then have "cbb_flush_child mem (length fs) s =
            Some (Some (), s\<lparr>cbb_base := b4, children := chain root fs\<rparr>)"
          unfolding unf using st len long Pair True w uv
          by (simp add: Let_def del: of_nat_add)
        moreover have "grows ?b b4" using b1(6) w by (simp add: grows_def)
        ultimately show ?thesis using r w b1 long by (simp add: cbb_rel_append del: of_nat_add)
      qed
    qed
  qed
qed

text \<open>The length of the output with its open prefixes.\<close>

definition alen :: "bytes \<times> frames \<Rightarrow> nat" where
  "alen a = length (flat (fst a) (snd a))"

lemma alen_append [simp]: "alen (a_append e a) = alen a + length e"
  by (cases a) (simp add: alen_def a_append_simps)

lemma a_close_length: "a_close k body = Some e \<Longrightarrow> plen k + length body \<le> length e"
  by (cases k) (auto simp: der_length_def Let_def split: if_splits)

lemma alen_close_top: "a_close_top a = Some a' \<Longrightarrow> alen a \<le> alen a'"
proof (cases a rule: a_close_top.cases)
  case (2 root k b fs)
  assume "a_close_top a = Some a'"
  with 2 obtain e where e: "a_close k b = Some e" "a' = a_append e (root, fs)" by auto
  then show ?thesis using a_close_length [OF e(1)] 2 alen_append [of e "(root, fs)"] by (simp add: alen_def)
qed simp

lemma flush_child_refines:
  assumes "alloc_ok mem" "cbb_rel s root (f # fs)"
  shows "cbb_wp (cbb_flush_child mem (length fs) s)
    (\<lambda>s'. failed (length fs) s' \<and> (\<forall>a. a_close_top (root, f # fs) = Some a \<longrightarrow> \<not> cbb_room mem (cbb_base s) (alen a)))
    (\<lambda>_ s'. \<exists>a. a_close_top (root, f # fs) = Some a \<and> cbb_rel2 s' a \<and> length (snd a) = length fs \<and>
      grows (cbb_base s) (cbb_base s'))"
proof -
  obtain k body where f: "f = (k, body)" by (cases f)
  have al: "alen (a_append e (root, fs)) = length (flat root fs @ e)" for e by (simp add: alen_def [of "(root, fs)"])
  have "cbb_wp (cbb_flush_child mem (length fs) s)
      (\<lambda>s'. failed (length fs) s' \<and> (\<forall>e. a_close k body = Some e \<longrightarrow> \<not> cbb_room mem (cbb_base s) (length (flat root fs @ e))))
      (\<lambda>_ s'. \<exists>e. a_close k body = Some e \<and> cbb_rel2 s' (a_append e (root, fs)) \<and>
        grows (cbb_base s) (cbb_base s'))"
  proof (cases k)
    case (Prefix n)
    show ?thesis
      by (rule cbb_wp_mono [OF flush_child_prefix [of s root n body fs mem]])
        (use assms f Prefix in auto)
  next
    case Asn1
    then show ?thesis using flush_child_asn1 [of mem s root body fs] assms f by blast
  qed
  then show ?thesis
  proof (rule cbb_wp_mono)
    fix s' assume "\<exists>e. a_close k body = Some e \<and> cbb_rel2 s' (a_append e (root, fs)) \<and>
      grows (cbb_base s) (cbb_base s')"
    then obtain e where "a_close k body = Some e" "cbb_rel2 s' (a_append e (root, fs))"
      "grows (cbb_base s) (cbb_base s')" by blast
    then show "\<exists>a. a_close_top (root, f # fs) = Some a \<and> cbb_rel2 s' a \<and> length (snd a) = length fs \<and>
        grows (cbb_base s) (cbb_base s')"
      using f by (intro exI [of _ "a_append e (root, fs)"]) (simp add: a_append_simps)
  next
    fix s' assume "failed (length fs) s' \<and>
      (\<forall>e. a_close k body = Some e \<longrightarrow> \<not> cbb_room mem (cbb_base s) (length (flat root fs @ e)))"
    then show "failed (length fs) s' \<and>
      (\<forall>a. a_close_top (root, f # fs) = Some a \<longrightarrow> \<not> cbb_room mem (cbb_base s) (alen a))"
      unfolding f a_close_top.simps map_option_eq_Some using al by metis
  qed
qed

lemma a_flush_Suc:
  assumes "d < length (snd a)"
  shows "a_flush d a = Option.bind (a_flush (Suc d) a) a_close_top"
proof -
  have "length (snd a) - d = Suc (length (snd a) - Suc d)" using assms by arith
  then show ?thesis using assms by (simp add: a_flush_def)
qed

text \<open>
  Flushing is defined, refines the abstract flush, and fails only where the abstract flush
  does (a body too long for its prefix) or where the buffer cannot hold the output.
\<close>

lemma CBB_flush_refines:
  assumes "alloc_ok mem" "cbb_rel2 s a" "d \<le> length (snd a)"
  shows "cbb_wp (CBB_flush mem d s)
    (\<lambda>s'. failed d s' \<and> (\<forall>a'. a_flush d a = Some a' \<longrightarrow> \<not> cbb_room mem (cbb_base s) (alen a')))
    (\<lambda>_ s'. \<exists>a'. a_flush d a = Some a' \<and> cbb_rel2 s' a' \<and> length (snd a') = d \<and>
      grows (cbb_base s) (cbb_base s'))"
  using assms(3)
proof (induction "length (snd a) - d" arbitrary: d)
  case 0
  then have "d = length (snd a)" by simp
  then show ?case using assms(2) by (subst CBB_flush.simps) (simp add: cbb_rel_def a_flush_def)
next
  case (Suc m)
  have ch: "children s = chain (fst a) (snd a)" "\<not> berror (cbb_base s)"
    using assms(2) by (simp_all add: cbb_rel_def)
  have m: "m = length (snd a) - Suc d" "Suc d \<le> length (snd a)" using Suc(2,3) by simp_all
  note IH = Suc.hyps(1) [OF m]
  have u: "CBB_flush mem d s = (case CBB_flush mem (Suc d) s of
          None \<Rightarrow> None
        | Some (None, s) \<Rightarrow> Some (None, cbb_on_error d s)
        | Some (Some _, s) \<Rightarrow> cbb_flush_child mem d s)"
    using Suc(2) ch by (subst CBB_flush.simps) auto
  have af: "a_flush d a = Option.bind (a_flush (Suc d) a) a_close_top"
    using m by (intro a_flush_Suc) simp
  show ?case
  proof (cases "CBB_flush mem (Suc d) s")
    case None
    with IH show ?thesis by simp
  next
    case (Some r)
    obtain x s1 where r: "r = (x, s1)" by (cases r)
    show ?thesis
    proof (cases x)
      case None
      then have "failed (Suc d) s1" "\<forall>a'. a_flush (Suc d) a = Some a' \<longrightarrow> \<not> cbb_room mem (cbb_base s) (alen a')"
        using IH Some r by simp_all
      moreover from this have "\<forall>a'. a_flush d a = Some a' \<longrightarrow> \<not> cbb_room mem (cbb_base s) (alen a')"
        using af cbb_room_mono [of mem "cbb_base s"] alen_close_top by (auto simp: bind_eq_Some_conv)
      ultimately show ?thesis using u Some r None failed_on_error [of d s1] by (auto simp: failed_def)
    next
      case (Some y)
      with IH \<open>CBB_flush mem (Suc d) s = Some r\<close> r obtain a1 where
        a1: "a_flush (Suc d) a = Some a1" "cbb_rel2 s1 a1" "length (snd a1) = Suc d"
          "grows (cbb_base s) (cbb_base s1)" by auto
      then obtain root' f fs' where f: "a1 = (root', f # fs')" and d: "length fs' = d"
        by (cases a1; cases "snd a1") auto
      have "CBB_flush mem d s = cbb_flush_child mem (length fs') s1"
        using u \<open>CBB_flush mem (Suc d) s = Some r\<close> r Some d by simp
      moreover have "a_flush d a = a_close_top (root', f # fs')" using af a1(1) f by simp
      moreover have "cbb_wp (cbb_flush_child mem (length fs') s1)
        (\<lambda>s'. failed d s' \<and> (\<forall>a'. a_close_top (root', f # fs') = Some a' \<longrightarrow> \<not> cbb_room mem (cbb_base s) (alen a')))
        (\<lambda>_ s'. \<exists>a'. a_close_top (root', f # fs') = Some a' \<and> cbb_rel2 s' a' \<and> length (snd a') = d \<and>
          grows (cbb_base s) (cbb_base s'))"
        by (rule cbb_wp_mono [OF flush_child_refines [OF assms(1), of s1 root' f fs']])
          (use a1 f d cbb_room_grows [OF a1(4)] grows_trans [OF a1(4)] in auto)
      ultimately show ?thesis by simp
    qed
  qed
qed

end
