(* ===== verification/Err.thy ===== *)
theory Err
  imports Mem_Str Cbb_Refine
begin

text \<open>
  The error queue of a thread, \<open>crypto/err/err.c\<close>: a ring of 16 entries that keeps the 15 most recent errors, with marks to return to, and saved states. The
  thread-local slot is an argument; \<open>avail\<close> tells whether the allocation of a missing state and \<open>CRYPTO_set_thread_local\<close> succeed. The texts of errors are in \<open>Err_Text\<close>. \<open>None\<close> is a failed assertion, \<open>abort\<close> or an access outside a buffer.
\<close>

section \<open>The model\<close>

record err_error_st =
  ee_file :: "bytes option"
  ee_data :: "bytes option"
  ee_packed :: u32
  ee_line :: u16
  ee_mark :: bool

record ERR_STATE =
  es_errors :: "err_error_st list"
  es_top :: nat
  es_bottom :: nat
  es_to_free :: "bytes option"

definition ERR_NUM_ERRORS :: nat where "ERR_NUM_ERRORS = 16"

definition ERR_PACK :: "u32 \<Rightarrow> u32 \<Rightarrow> u32" where
  "ERR_PACK lib reason = push_bit 24 (lib AND 0xff) OR (reason AND 0xfff)"

definition ERR_GET_LIB :: "u32 \<Rightarrow> u32" where
  "ERR_GET_LIB packed_error = drop_bit 24 packed_error AND 0xff"

definition ERR_GET_REASON :: "u32 \<Rightarrow> u32" where
  "ERR_GET_REASON packed_error = packed_error AND 0xfff"

text \<open>The cleared entry; \<open>strdup\<close> may fail.\<close>

definition err_clear :: err_error_st where
  "err_clear = \<lparr>ee_file = None, ee_data = None, ee_packed = 0, ee_line = 0, ee_mark = False\<rparr>"

definition err_strdup :: "allocator \<Rightarrow> bytes \<Rightarrow> bytes option" where
  "err_strdup mem s = (if mem (size_add (length s) 1) = None then None else Some s)"

definition err_copy :: "allocator \<Rightarrow> err_error_st \<Rightarrow> err_error_st" where
  "err_copy mem src = err_clear\<lparr>ee_file := ee_file src, ee_data := Option.bind (ee_data src) (err_strdup mem), ee_packed := ee_packed src, ee_line := ee_line src\<rparr>"

definition err_get_state :: "bool \<Rightarrow> ERR_STATE option \<Rightarrow> ERR_STATE option" where
  "err_get_state avail tls =
     (case tls of
        Some state \<Rightarrow> Some state
      | None \<Rightarrow> if avail then Some \<lparr>es_errors = replicate ERR_NUM_ERRORS err_clear, es_top = 0, es_bottom = 0, es_to_free = None\<rparr> else None)"

text \<open>The packed code with the values that are stored through \<open>file\<close>, \<open>line\<close>, \<open>data\<close> and \<open>flags\<close> where these are given; the result is \<open>None\<close> if there is no error, and then the
  function returns 0 and stores nothing. \<open>want_data\<close> tells whether \<open>data\<close> is given.\<close>

record err_info =
  ei_packed :: u32
  ei_file :: bytes
  ei_line :: int
  ei_data :: bytes
  ei_flags :: int

definition error_info :: "err_error_st \<Rightarrow> err_info" where
  "error_info error =
     \<lparr>ei_packed = ee_packed error,
      ei_file = (case ee_file error of None \<Rightarrow> [0x4e, 0x41] | Some f \<Rightarrow> f),
      ei_line = (case ee_file error of None \<Rightarrow> 0 | Some f \<Rightarrow> uint (ee_line error)),
      ei_data = (case ee_data error of None \<Rightarrow> [] | Some d \<Rightarrow> d),
      ei_flags = (case ee_data error of None \<Rightarrow> 0 | Some d \<Rightarrow> 3)\<rparr>"

definition get_error_values :: "bool \<Rightarrow> bool \<Rightarrow> bool \<Rightarrow> ERR_STATE \<Rightarrow> (err_info option \<times> ERR_STATE) option" where
  "get_error_values inc newest want_data state =
     (if es_bottom state = es_top state then Some (None, state)
      else if newest \<and> inc then None
      else
        let i = (if newest then es_top state else (es_bottom state + 1) mod ERR_NUM_ERRORS)
        in if i \<ge> length (es_errors state) then None
           else
             let error = es_errors state ! i
             in Some (Some (error_info error),
                  if inc then state\<lparr>es_errors := (es_errors state)[i := err_clear], es_bottom := i,
                    es_to_free := (if want_data \<and> ee_data error \<noteq> None then ee_data error else es_to_free state)\<rparr>
                  else state))"

text \<open>The exported readers, on the slot of the thread.\<close>

definition with_state :: "bool \<Rightarrow> ERR_STATE option \<Rightarrow> 'r \<Rightarrow> (ERR_STATE \<Rightarrow> ('r \<times> ERR_STATE) option) \<Rightarrow> ('r \<times> ERR_STATE option) option" where
  "with_state avail tls r f =
     (case err_get_state avail tls of
        None \<Rightarrow> Some (r, tls)
      | Some state \<Rightarrow> map_option (\<lambda>(r, state). (r, Some state)) (f state))"

text \<open>A caller without \<open>file\<close> and \<open>data\<close> sees the packed code only, one without \<open>data\<close> also the file and the line.\<close>

definition code_of :: "err_info option \<Rightarrow> u32" where
  "code_of r = (case r of None \<Rightarrow> 0 | Some e \<Rightarrow> ei_packed e)"

definition line_of :: "err_info option \<Rightarrow> (u32 \<times> bytes \<times> int) option" where
  "line_of r = map_option (\<lambda>e. (ei_packed e, ei_file e, ei_line e)) r"

definition ERR_get_error :: "bool \<Rightarrow> ERR_STATE option \<Rightarrow> (u32 \<times> ERR_STATE option) option" where
  "ERR_get_error avail tls = map_option (map_prod code_of id) (with_state avail tls None (get_error_values True False False))"

definition ERR_get_error_line :: "bool \<Rightarrow> ERR_STATE option \<Rightarrow> ((u32 \<times> bytes \<times> int) option \<times> ERR_STATE option) option" where
  "ERR_get_error_line avail tls = map_option (map_prod line_of id) (with_state avail tls None (get_error_values True False False))"

definition ERR_get_error_line_data :: "bool \<Rightarrow> ERR_STATE option \<Rightarrow> (err_info option \<times> ERR_STATE option) option" where
  "ERR_get_error_line_data avail tls = with_state avail tls None (get_error_values True False True)"

definition ERR_peek_error :: "bool \<Rightarrow> ERR_STATE option \<Rightarrow> (u32 \<times> ERR_STATE option) option" where
  "ERR_peek_error avail tls = map_option (map_prod code_of id) (with_state avail tls None (get_error_values False False False))"

definition ERR_peek_error_line :: "bool \<Rightarrow> ERR_STATE option \<Rightarrow> ((u32 \<times> bytes \<times> int) option \<times> ERR_STATE option) option" where
  "ERR_peek_error_line avail tls = map_option (map_prod line_of id) (with_state avail tls None (get_error_values False False False))"

definition ERR_peek_error_line_data :: "bool \<Rightarrow> ERR_STATE option \<Rightarrow> (err_info option \<times> ERR_STATE option) option" where
  "ERR_peek_error_line_data avail tls = with_state avail tls None (get_error_values False False True)"

definition ERR_peek_last_error :: "bool \<Rightarrow> ERR_STATE option \<Rightarrow> (u32 \<times> ERR_STATE option) option" where
  "ERR_peek_last_error avail tls = map_option (map_prod code_of id) (with_state avail tls None (get_error_values False True False))"

definition ERR_peek_last_error_line :: "bool \<Rightarrow> ERR_STATE option \<Rightarrow> ((u32 \<times> bytes \<times> int) option \<times> ERR_STATE option) option" where
  "ERR_peek_last_error_line avail tls = map_option (map_prod line_of id) (with_state avail tls None (get_error_values False True False))"

definition ERR_peek_last_error_line_data :: "bool \<Rightarrow> ERR_STATE option \<Rightarrow> (err_info option \<times> ERR_STATE option) option" where
  "ERR_peek_last_error_line_data avail tls = with_state avail tls None (get_error_values False True True)"

definition clear_state :: "ERR_STATE \<Rightarrow> ERR_STATE" where
  "clear_state state = state\<lparr>es_errors := replicate ERR_NUM_ERRORS err_clear, es_to_free := None, es_top := 0, es_bottom := 0\<rparr>"

definition ERR_clear_error :: "bool \<Rightarrow> ERR_STATE option \<Rightarrow> (unit \<times> ERR_STATE option) option" where
  "ERR_clear_error avail tls = with_state avail tls () (\<lambda>state. Some ((), clear_state state))"

text \<open>\<open>errno\<close> is the reason of a system error without one.\<close>

definition put_error :: "u32 \<Rightarrow> u32 \<Rightarrow> bytes option \<Rightarrow> u32 \<Rightarrow> u32 \<Rightarrow> ERR_STATE \<Rightarrow> (unit \<times> ERR_STATE) option" where
  "put_error library reason file line errno state =
     (let reason = (if library = 2 \<and> reason = 0 then errno else reason);
          new_top = (es_top state + 1) mod ERR_NUM_ERRORS;
          bottom = (if new_top = es_bottom state then (es_bottom state + 1) mod ERR_NUM_ERRORS else es_bottom state)
      in if new_top \<ge> length (es_errors state) then None
         else Some ((), state\<lparr>es_top := new_top, es_bottom := bottom,
           es_errors := (es_errors state)[new_top := err_clear\<lparr>ee_file := file, ee_line := ucast line, ee_packed := ERR_PACK library reason\<rparr>]\<rparr>))"

definition ERR_put_error :: "bool \<Rightarrow> ERR_STATE option \<Rightarrow> u32 \<Rightarrow> u32 \<Rightarrow> bytes option \<Rightarrow> u32 \<Rightarrow> u32 \<Rightarrow> (unit \<times> ERR_STATE option) option" where
  "ERR_put_error avail tls library reason file line errno = with_state avail tls () (put_error library reason file line errno)"

definition err_set_error_data :: "bytes \<Rightarrow> ERR_STATE \<Rightarrow> (unit \<times> ERR_STATE) option" where
  "err_set_error_data data state =
     (if es_top state = es_bottom state then Some ((), state)
      else if es_top state \<ge> length (es_errors state) then None
      else Some ((), state\<lparr>es_errors := (es_errors state)[es_top state := (es_errors state ! es_top state)\<lparr>ee_data := Some data\<rparr>]\<rparr>))"

text \<open>
  The loops of \<open>err_add_error_vdata\<close>: the total size, \<open>None\<close> if it would overflow, and the concatenation. The strings are C strings; \<open>NULL\<close> arguments are skipped.
\<close>

fun vdata_size :: "bytes option list \<Rightarrow> nat \<Rightarrow> nat option" where
  "vdata_size [] total_size = Some total_size"
| "vdata_size (None # args) total_size = vdata_size args total_size"
| "vdata_size (Some s # args) total_size = (if (SIZE_MOD - 1) - total_size < length s then None else vdata_size args (total_size + length s))"

fun vdata_cat :: "bytes option list \<Rightarrow> bytes \<Rightarrow> nat \<Rightarrow> bytes option" where
  "vdata_cat [] buf total_size = Some buf"
| "vdata_cat (None # args) buf total_size = vdata_cat args buf total_size"
| "vdata_cat (Some s # args) buf total_size =
     (case OPENSSL_strlcat buf (s @ [0]) total_size of
        None \<Rightarrow> None
      | Some (n, buf) \<Rightarrow> if n \<ge> total_size then None else vdata_cat args buf total_size)"

text \<open>The text, if it could be built.\<close>

definition vdata_text :: "allocator \<Rightarrow> bytes option list \<Rightarrow> bytes option option" where
  "vdata_text mem args =
     (case vdata_size args 0 of
        None \<Rightarrow> Some None
      | Some total_size \<Rightarrow>
          if total_size = SIZE_MOD - 1 then Some None
          else
            case mem (total_size + 1) of
              None \<Rightarrow> Some None
            | Some buf \<Rightarrow> map_option (\<lambda>buf. Some (takeWhile (\<lambda>c. c \<noteq> 0) buf)) (vdata_cat args (buf[0 := 0]) (total_size + 1)))"

definition ERR_add_error_data :: "allocator \<Rightarrow> bool \<Rightarrow> ERR_STATE option \<Rightarrow> bytes option list \<Rightarrow> (unit \<times> ERR_STATE option) option" where
  "ERR_add_error_data mem avail tls args =
     (case vdata_text mem args of
        None \<Rightarrow> None
      | Some None \<Rightarrow> Some ((), tls)
      | Some (Some data) \<Rightarrow> with_state avail tls () (err_set_error_data data))"

text \<open>\<open>flags\<close> without \<open>ERR_FLAG_STRING\<close> fails an assertion.\<close>

definition ERR_set_error_data :: "allocator \<Rightarrow> bool \<Rightarrow> ERR_STATE option \<Rightarrow> bytes \<Rightarrow> u32 \<Rightarrow> (unit \<times> ERR_STATE option) option" where
  "ERR_set_error_data mem avail tls data flags =
     (if flags AND 1 = 0 then None
      else case err_strdup mem data of
          None \<Rightarrow> Some ((), tls)
        | Some copy \<Rightarrow> with_state avail tls () (err_set_error_data copy))"

definition set_mark :: "ERR_STATE \<Rightarrow> (bool \<times> ERR_STATE) option" where
  "set_mark state =
     (if es_bottom state = es_top state then Some (False, state)
      else if es_top state \<ge> length (es_errors state) then None
      else Some (True, state\<lparr>es_errors := (es_errors state)[es_top state := (es_errors state ! es_top state)\<lparr>ee_mark := True\<rparr>]\<rparr>))"

definition ERR_set_mark :: "bool \<Rightarrow> ERR_STATE option \<Rightarrow> (bool \<times> ERR_STATE option) option" where
  "ERR_set_mark avail tls = with_state avail tls False set_mark"

text \<open>The loop of \<open>ERR_pop_to_mark\<close> ends only if it can reach \<open>bottom\<close>.\<close>

partial_function (option) pop_to_mark :: "ERR_STATE \<Rightarrow> (bool \<times> ERR_STATE) option" where
  "pop_to_mark state =
     (if es_bottom state = es_top state then Some (False, state)
      else if es_top state \<ge> length (es_errors state) then None
      else
        let error = es_errors state ! es_top state
        in if ee_mark error then Some (True, state\<lparr>es_errors := (es_errors state)[es_top state := error\<lparr>ee_mark := False\<rparr>]\<rparr>)
           else pop_to_mark (state\<lparr>es_errors := (es_errors state)[es_top state := err_clear],
             es_top := (if es_top state = 0 then ERR_NUM_ERRORS - 1 else es_top state - 1)\<rparr>))"

definition ERR_pop_to_mark :: "bool \<Rightarrow> ERR_STATE option \<Rightarrow> (bool \<times> ERR_STATE option) option" where
  "ERR_pop_to_mark avail tls = with_state avail tls False pop_to_mark"

text \<open>A saved state is the list of the errors in the range \<open>(bottom, top]\<close>; its structures have 16 and 24 bytes.\<close>

definition save_state :: "allocator \<Rightarrow> ERR_STATE \<Rightarrow> (err_error_st list option \<times> ERR_STATE) option" where
  "save_state mem state =
     (if es_top state = es_bottom state then Some (None, state)
      else if mem 16 = None then Some (None, state)
      else
        let num_errors = (if es_top state \<ge> es_bottom state then es_top state - es_bottom state else ERR_NUM_ERRORS + es_top state - es_bottom state)
        in if \<not> num_errors < ERR_NUM_ERRORS \<or> length (es_errors state) \<noteq> ERR_NUM_ERRORS then None
           else if mem (num_errors * 24) = None then Some (None, state)
           else Some (Some (map (\<lambda>i. err_copy mem (es_errors state ! ((es_bottom state + i + 1) mod ERR_NUM_ERRORS))) [0..<num_errors]), state))"

definition ERR_save_state :: "allocator \<Rightarrow> bool \<Rightarrow> ERR_STATE option \<Rightarrow> (err_error_st list option \<times> ERR_STATE option) option" where
  "ERR_save_state mem avail tls = with_state avail tls None (save_state mem)"

definition restore_state :: "allocator \<Rightarrow> err_error_st list \<Rightarrow> ERR_STATE \<Rightarrow> (unit \<times> ERR_STATE) option" where
  "restore_state mem saved dst =
     (if length (es_errors dst) < length saved then None
      else Some ((), dst\<lparr>es_errors := map (err_copy mem) saved @ drop (length saved) (es_errors dst),
             es_top := length saved - 1, es_bottom := ERR_NUM_ERRORS - 1\<rparr>))"

definition ERR_restore_state :: "allocator \<Rightarrow> bool \<Rightarrow> ERR_STATE option \<Rightarrow> err_error_st list option \<Rightarrow> (unit \<times> ERR_STATE option) option" where
  "ERR_restore_state mem avail tls saved =
     (case saved of
        None \<Rightarrow> ERR_clear_error avail tls
      | Some errors \<Rightarrow>
          if errors = [] then ERR_clear_error avail tls
          else if length errors \<ge> ERR_NUM_ERRORS then None
          else with_state avail tls () (restore_state mem errors))"

declare pop_to_mark.simps [code]

section \<open>The ring as a queue\<close>

definition err_inv :: "ERR_STATE \<Rightarrow> bool" where
  "err_inv s \<longleftrightarrow> length (es_errors s) = 16 \<and> es_top s < 16 \<and> es_bottom s < 16"

definition err_num :: "ERR_STATE \<Rightarrow> nat" where
  "err_num s = (es_top s + 16 - es_bottom s) mod 16"

definition err_queue :: "ERR_STATE \<Rightarrow> err_error_st list" where
  "err_queue s = map (\<lambda>i. es_errors s ! ((es_bottom s + 1 + i) mod 16)) [0..<err_num s]"

lemma length_err_queue [simp]: "length (err_queue s) = err_num s"
  by (simp add: err_queue_def)

lemma err_queue_nth: "i < err_num s \<Longrightarrow> err_queue s ! i = es_errors s ! ((es_bottom s + 1 + i) mod 16)"
  by (simp add: err_queue_def)

lemma mod_16: "a < 32 \<Longrightarrow> a mod 16 = (if a < 16 then a else a - 16)" for a :: nat
  by (simp add: mod_if)

lemma err_num_if: "err_inv s \<Longrightarrow> err_num s = (if es_bottom s \<le> es_top s then es_top s - es_bottom s else es_top s + 16 - es_bottom s)"
  by (auto simp: err_inv_def err_num_def mod_16)

lemma err_num_0: "err_inv s \<Longrightarrow> err_num s = 0 \<longleftrightarrow> es_bottom s = es_top s"
  by (auto simp: err_num_if err_inv_def)

lemma err_queue_Nil: "err_inv s \<Longrightarrow> err_queue s = [] \<longleftrightarrow> es_bottom s = es_top s"
  using err_num_0 [of s] length_err_queue [of s] by (metis length_0_conv)

lemma err_num_less: "err_num s < 16"
  by (simp add: err_num_def)

text \<open>The most recent error is at \<open>top\<close>, the least recent behind \<open>bottom\<close>.\<close>

lemma err_queue_last:
  assumes "err_inv s" "es_bottom s \<noteq> es_top s"
  shows "last (err_queue s) = es_errors s ! es_top s" "hd (err_queue s) = es_errors s ! ((es_bottom s + 1) mod 16)" "err_queue s \<noteq> []"
proof -
  show ne: "err_queue s \<noteq> []" using err_queue_Nil assms by blast
  then have n: "0 < err_num s" using length_err_queue [of s] by (metis length_greater_0_conv)
  have "(es_bottom s + 1 + (err_num s - 1)) mod 16 = es_top s" using assms n err_num_if [OF assms(1)] by (auto simp: err_inv_def mod_16 split: if_splits)
  then show "last (err_queue s) = es_errors s ! es_top s" using last_conv_nth [OF ne] err_queue_nth [of "err_num s - 1" s] n by simp
  show "hd (err_queue s) = es_errors s ! ((es_bottom s + 1) mod 16)" using hd_conv_nth [OF ne] err_queue_nth [of 0 s] n by simp
qed

text \<open>Changing the entry at \<open>top\<close>.\<close>

lemma err_queue_update:
  assumes "err_inv s" "es_bottom s \<noteq> es_top s"
  shows "err_queue (s\<lparr>es_errors := (es_errors s)[es_top s := e]\<rparr>) = butlast (err_queue s) @ [e]" "err_inv (s\<lparr>es_errors := (es_errors s)[es_top s := e]\<rparr>)"
proof -
  let ?s = "s\<lparr>es_errors := (es_errors s)[es_top s := e]\<rparr>"
  show "err_inv ?s" using assms(1) by (simp add: err_inv_def)
  have n: "err_num ?s = err_num s" "0 < err_num s" using err_num_0 [OF assms(1)] assms(2) by (simp_all add: err_num_def)
  show "err_queue ?s = butlast (err_queue s) @ [e]"
  proof (rule nth_equalityI)
    show "length (err_queue ?s) = length (butlast (err_queue s) @ [e])" using n by simp
    fix i assume "i < length (err_queue ?s)"
    then have i: "i < err_num s" using n by simp
    have "(es_bottom s + 1 + i) mod 16 = es_top s \<longleftrightarrow> i = err_num s - 1"
      using assms(1) i n(2) err_num_if [OF assms(1)] by (auto simp: err_inv_def mod_16 split: if_splits)
    then show "err_queue ?s ! i = (butlast (err_queue s) @ [e]) ! i"
      using i n err_queue_nth [of i s] err_queue_nth [of i ?s] assms(1) by (auto simp: nth_append nth_butlast err_inv_def)
  qed
qed

text \<open>Putting an error keeps the last 15.\<close>

lemma put_queue:
  assumes inv: "err_inv s" and t: "t = (es_top s + 1) mod 16" and b: "b = (if t = es_bottom s then (es_bottom s + 1) mod 16 else es_bottom s)"
    and s': "s' = s\<lparr>es_top := t, es_bottom := b, es_errors := (es_errors s)[t := e]\<rparr>"
  shows "err_inv s'" "err_queue s' = drop (length (err_queue s @ [e]) - 15) (err_queue s @ [e])"
proof -
  show inv': "err_inv s'" using inv by (auto simp: err_inv_def s' t b)
  have full: "t = es_bottom s \<longleftrightarrow> err_num s = 15" using inv err_num_if [OF inv] unfolding t by (auto simp: err_inv_def mod_16 split: if_splits)
  have n: "err_num s' = (if err_num s = 15 then 15 else err_num s + 1)"
    using inv err_num_if [OF inv] err_num_if [OF inv'] unfolding s' b t by (auto simp: err_inv_def mod_16 split: if_splits)
  define k where "k = length (err_queue s @ [e]) - 15"
  have k: "k = (if err_num s = 15 then 1 else 0)" using err_num_less [of s] by (auto simp: k_def)
  show "err_queue s' = drop k (err_queue s @ [e])"
  proof (rule nth_equalityI)
    show "length (err_queue s') = length (drop k (err_queue s @ [e]))" using n k by simp
    fix i assume "i < length (err_queue s')"
    then have i: "i + k \<le> err_num s" using n k by (auto split: if_splits)
    have idx: "(b + 1 + i) mod 16 = (es_bottom s + 1 + (i + k)) mod 16"
      using inv i err_num_less [of s] unfolding b full k by (auto simp: err_inv_def mod_16)
    have "(es_bottom s + 1 + (i + k)) mod 16 = t \<longleftrightarrow> i + k = err_num s"
      using inv i err_num_less [of s] err_num_if [OF inv] unfolding t by (auto simp: err_inv_def mod_16 split: if_splits)
    moreover have "err_queue s' ! i = (es_errors s)[t := e] ! ((es_bottom s + 1 + (i + k)) mod 16)"
      using err_queue_nth [of i s'] \<open>i < length (err_queue s')\<close> idx by (simp add: s')
    ultimately show "err_queue s' ! i = drop k (err_queue s @ [e]) ! i"
      using i inv err_queue_nth [of "i + k" s] unfolding t by (auto simp: nth_append add.commute err_inv_def)
  qed
qed

text \<open>Taking the least recent error.\<close>

lemma get_queue:
  assumes inv: "err_inv s" and ne: "es_bottom s \<noteq> es_top s" and i: "i = (es_bottom s + 1) mod 16"
    and s': "s' = s\<lparr>es_errors := (es_errors s)[i := e], es_bottom := i, es_to_free := x\<rparr>"
  shows "err_inv s'" "err_queue s' = tl (err_queue s)"
proof -
  show inv': "err_inv s'" using inv by (auto simp: err_inv_def s' i)
  have n: "err_num s' = err_num s - 1" "0 < err_num s" using inv ne err_num_if [OF inv] err_num_if [OF inv'] unfolding s' i by (auto simp: err_inv_def mod_16 split: if_splits)
  show "err_queue s' = tl (err_queue s)"
  proof (rule nth_equalityI)
    show "length (err_queue s') = length (tl (err_queue s))" using n by simp
    fix j assume "j < length (err_queue s')"
    then have j: "j + 1 < err_num s" using n by simp
    have "(i + 1 + j) mod 16 = (es_bottom s + 1 + (j + 1)) mod 16" "(es_bottom s + 1 + (j + 1)) mod 16 \<noteq> i"
      using inv j err_num_less [of s] unfolding i by (auto simp: err_inv_def mod_16 split: if_splits)
    then show "err_queue s' ! j = tl (err_queue s) ! j" using err_queue_nth [of j s'] err_queue_nth [of "j + 1" s] j n by (simp add: s' nth_tl)
  qed
qed

lemma drop_queue:
  assumes inv: "err_inv s" and ne: "es_bottom s \<noteq> es_top s"
    and s': "s' = s\<lparr>es_errors := (es_errors s)[es_top s := e], es_top := (if es_top s = 0 then 15 else es_top s - 1)\<rparr>"
  shows "err_inv s'" "err_queue s' = butlast (err_queue s)"
proof -
  show inv': "err_inv s'" using inv by (auto simp: err_inv_def s')
  have n: "err_num s' = err_num s - 1" "0 < err_num s" using inv ne err_num_if [OF inv] err_num_if [OF inv'] unfolding s' by (auto simp: err_inv_def split: if_splits)
  show "err_queue s' = butlast (err_queue s)"
  proof (rule nth_equalityI)
    show "length (err_queue s') = length (butlast (err_queue s))" using n by simp
    fix j assume "j < length (err_queue s')"
    then have j: "j + 1 < err_num s" using n by simp
    have "(es_bottom s + 1 + j) mod 16 \<noteq> es_top s"
      using inv j err_num_less [of s] err_num_if [OF inv] by (auto simp: err_inv_def mod_16 split: if_splits)
    then show "err_queue s' ! j = butlast (err_queue s) ! j" using err_queue_nth [of j s'] err_queue_nth [of j s] j n by (simp add: s' nth_butlast)
  qed
qed

section \<open>The operations on lists\<close>

definition q_put :: "err_error_st \<Rightarrow> err_error_st list \<Rightarrow> err_error_st list" where
  "q_put e q = drop (length (q @ [e]) - 15) (q @ [e])"

definition q_last :: "(err_error_st \<Rightarrow> err_error_st) \<Rightarrow> err_error_st list \<Rightarrow> err_error_st list" where
  "q_last f q = (if q = [] then [] else butlast q @ [f (last q)])"

definition q_pop :: "err_error_st list \<Rightarrow> bool \<times> err_error_st list" where
  "q_pop q = (case dropWhile (\<lambda>e. \<not> ee_mark e) (rev q) of [] \<Rightarrow> (False, []) | e # r \<Rightarrow> (True, rev r @ [e\<lparr>ee_mark := False\<rparr>]))"

lemma put_error_ok:
  assumes "err_inv s"
  shows "\<exists>s'. put_error lib reason file line errno s = Some ((), s') \<and> err_inv s' \<and>
    err_queue s' = q_put (err_clear\<lparr>ee_file := file, ee_line := ucast line, ee_packed := ERR_PACK lib (if lib = 2 \<and> reason = 0 then errno else reason)\<rparr>) (err_queue s)"
proof -
  let ?e = "err_clear\<lparr>ee_file := file, ee_line := ucast line, ee_packed := ERR_PACK lib (if lib = 2 \<and> reason = 0 then errno else reason)\<rparr>"
  let ?t = "(es_top s + 1) mod 16"
  let ?s = "s\<lparr>es_top := ?t, es_bottom := (if ?t = es_bottom s then (es_bottom s + 1) mod 16 else es_bottom s), es_errors := (es_errors s)[?t := ?e]\<rparr>"
  have "\<not> ?t \<ge> length (es_errors s)" using assms by (simp add: err_inv_def not_le)
  then have "put_error lib reason file line errno s = Some ((), ?s)" unfolding put_error_def Let_def ERR_NUM_ERRORS_def by (simp only: if_False)
  then show ?thesis using put_queue [OF assms refl refl refl, of ?e] unfolding q_put_def by blast
qed

lemma get_values_ok:
  assumes inv: "err_inv s"
  shows "get_error_values False False w s = Some (if err_queue s = [] then None else Some (error_info (hd (err_queue s))), s)"
    "get_error_values False True w s = Some (if err_queue s = [] then None else Some (error_info (last (err_queue s))), s)"
    "\<exists>s'. get_error_values True False w s = Some (if err_queue s = [] then None else Some (error_info (hd (err_queue s))), s') \<and> err_inv s' \<and> err_queue s' = tl (err_queue s)"
proof -
  have l: "length (es_errors s) = 16" "es_top s < 16" "\<not> 16 \<le> Suc (es_bottom s) mod 16" using inv by (simp_all add: err_inv_def not_le)
  note ne = err_queue_Nil [OF inv] and hl = err_queue_last [OF inv]
  show "get_error_values False False w s = Some (if err_queue s = [] then None else Some (error_info (hd (err_queue s))), s)"
    "get_error_values False True w s = Some (if err_queue s = [] then None else Some (error_info (last (err_queue s))), s)"
    using ne hl l by (simp_all add: get_error_values_def Let_def ERR_NUM_ERRORS_def)
  show "\<exists>s'. get_error_values True False w s = Some (if err_queue s = [] then None else Some (error_info (hd (err_queue s))), s') \<and> err_inv s' \<and> err_queue s' = tl (err_queue s)"
  proof (cases "es_bottom s = es_top s")
    case True
    then show ?thesis using ne inv by (simp add: get_error_values_def)
  next
    case False
    then show ?thesis using ne hl(2) l get_queue [OF inv False refl refl, where e = err_clear] by (simp add: get_error_values_def Let_def ERR_NUM_ERRORS_def)
  qed
qed

lemma set_data_ok:
  assumes inv: "err_inv s"
  shows "\<exists>s'. err_set_error_data d s = Some ((), s') \<and> err_inv s' \<and> err_queue s' = q_last (\<lambda>e. e\<lparr>ee_data := Some d\<rparr>) (err_queue s)"
  using inv err_queue_Nil [OF inv] err_queue_last [OF inv] err_queue_update [OF inv]
  by (cases "es_bottom s = es_top s") (simp_all add: err_set_error_data_def q_last_def err_inv_def)

lemma set_mark_ok:
  assumes inv: "err_inv s"
  shows "\<exists>s'. set_mark s = Some (err_queue s \<noteq> [], s') \<and> err_inv s' \<and> err_queue s' = q_last (\<lambda>e. e\<lparr>ee_mark := True\<rparr>) (err_queue s)"
  using inv err_queue_Nil [OF inv] err_queue_last [OF inv] err_queue_update [OF inv]
  by (cases "es_bottom s = es_top s") (simp_all add: set_mark_def q_last_def err_inv_def)

lemma clear_state_ok: "err_inv (clear_state s) \<and> err_queue (clear_state s) = []"
  by (simp add: clear_state_def err_inv_def err_queue_def err_num_def ERR_NUM_ERRORS_def)

lemma q_pop_butlast: "q \<noteq> [] \<Longrightarrow> \<not> ee_mark (last q) \<Longrightarrow> q_pop q = q_pop (butlast q)"
  by (cases q rule: rev_cases) (simp_all add: q_pop_def)

lemma q_pop_mark: "q \<noteq> [] \<Longrightarrow> ee_mark (last q) \<Longrightarrow> q_pop q = (True, q_last (\<lambda>e. e\<lparr>ee_mark := False\<rparr>) q)"
  by (cases q rule: rev_cases) (simp_all add: q_pop_def q_last_def)

lemma pop_to_mark_ok:
  "err_inv s \<Longrightarrow> \<exists>s'. pop_to_mark s = Some (fst (q_pop (err_queue s)), s') \<and> err_inv s' \<and> err_queue s' = snd (q_pop (err_queue s))"
proof (induction "length (err_queue s)" arbitrary: s rule: less_induct)
  case less
  show ?case
  proof (cases "es_bottom s = es_top s")
    case True
    then show ?thesis using less.prems err_queue_Nil [OF less.prems] by (subst pop_to_mark.simps) (simp add: q_pop_def)
  next
    case False
    note q = err_queue_last [OF less.prems False]
    have l: "es_top s < length (es_errors s)" using less.prems by (simp add: err_inv_def)
    show ?thesis
    proof (cases "ee_mark (es_errors s ! es_top s)")
      case True
      then show ?thesis using False l q q_pop_mark [OF q(3)] err_queue_update [OF less.prems False] by (subst pop_to_mark.simps) (simp add: q_last_def)
    next
      case unmarked: False
      let ?s = "s\<lparr>es_errors := (es_errors s)[es_top s := err_clear], es_top := (if es_top s = 0 then 15 else es_top s - 1)\<rparr>"
      note d = drop_queue [OF less.prems False refl, of err_clear]
      have e: "pop_to_mark s = pop_to_mark ?s" using False l unmarked by (subst pop_to_mark.simps) (simp add: Let_def ERR_NUM_ERRORS_def)
      have "length (err_queue ?s) < length (err_queue s)" unfolding d(2) using q(3) by (metis length_butlast diff_less length_greater_0_conv zero_less_one)
      from less.hyps [OF this d(1)] show ?thesis unfolding e d(2) using q_pop_butlast [OF q(3)] unmarked q(1) by simp
    qed
  qed
qed

text \<open>Saving copies the errors without their marks; restoring puts them back.\<close>

lemma save_restore:
  assumes inv: "err_inv s" and mem: "\<forall>n. mem n \<noteq> None"
  shows "save_state mem s = Some (if err_queue s = [] then None else Some (map (\<lambda>e. e\<lparr>ee_mark := False\<rparr>) (err_queue s)), s)"
    "err_inv d \<Longrightarrow> q \<noteq> [] \<Longrightarrow> length q < 16 \<Longrightarrow> \<exists>d'. restore_state mem q d = Some ((), d') \<and> err_inv d' \<and> err_queue d' = map (\<lambda>e. e\<lparr>ee_mark := False\<rparr>) q"
proof -
  have c: "err_copy mem e = e\<lparr>ee_mark := False\<rparr>" for e
    using mem by (cases "ee_data e") (simp_all add: err_copy_def err_clear_def err_strdup_def)
  have l: "length (es_errors s) = 16" using inv by (simp add: err_inv_def)
  have n: "(if es_top s \<ge> es_bottom s then es_top s - es_bottom s else 16 + es_top s - es_bottom s) = err_num s" using err_num_if [OF inv] by (simp add: add.commute)
  show "save_state mem s = Some (if err_queue s = [] then None else Some (map (\<lambda>e. e\<lparr>ee_mark := False\<rparr>) (err_queue s)), s)"
  proof -
    have m: "(mem k = None) = False" for k using mem by simp
    show ?thesis using err_queue_Nil [OF inv] err_num_less [of s]
      unfolding save_state_def Let_def ERR_NUM_ERRORS_def n l m if_False by (simp add: c err_queue_def eq_commute [of "es_top s"])
  qed
  show "\<exists>d'. restore_state mem q d = Some ((), d') \<and> err_inv d' \<and> err_queue d' = map (\<lambda>e. e\<lparr>ee_mark := False\<rparr>) q"
    if q: "err_inv d" "q \<noteq> []" "length q < 16"
  proof -
    let ?d = "d\<lparr>es_errors := map (err_copy mem) q @ drop (length q) (es_errors d), es_top := length q - 1, es_bottom := 15\<rparr>"
    have "err_inv ?d" "err_num ?d = length q" using q by (auto simp: err_inv_def err_num_def mod_16)
    moreover have "err_queue ?d = map (\<lambda>e. e\<lparr>ee_mark := False\<rparr>) q"
      using calculation(2) q(3) err_queue_nth [of _ ?d] by (intro nth_equalityI) (auto simp: c nth_append)
    ultimately show ?thesis using q by (intro exI [of _ ?d]) (simp add: restore_state_def ERR_NUM_ERRORS_def err_inv_def)
  qed
qed

section \<open>Texts of errors\<close>

definition args_text :: "bytes option list \<Rightarrow> bytes" where
  "args_text args = concat (map (\<lambda>a. case a of None \<Rightarrow> [] | Some s \<Rightarrow> s) args)"

lemma args_text_simps [simp]: "args_text [] = []" "args_text (None # args) = args_text args" "args_text (Some s # args) = s @ args_text args"
  by (simp_all add: args_text_def)

lemma vdata_size_ok: "total_size + length (args_text args) < SIZE_MOD \<Longrightarrow> vdata_size args total_size = Some (total_size + length (args_text args))"
  by (induction args total_size rule: vdata_size.induct) auto

lemma vdata_cat_ok:
  "\<forall>s. Some s \<in> set args \<longrightarrow> 0 \<notin> set s \<Longrightarrow> 0 \<notin> set u \<Longrightarrow> length (u @ args_text args) < n \<Longrightarrow> n < SIZE_MOD \<Longrightarrow> length (u @ 0 # v) = n \<Longrightarrow>
    \<exists>v'. vdata_cat args (u @ 0 # v) n = Some (u @ args_text args @ 0 # v')"
proof (induction args arbitrary: u v)
  case (Cons a args)
  show ?case
  proof (cases a)
    case None
    then show ?thesis using Cons by simp
  next
    case (Some s)
    have s: "0 \<notin> set s" "length u + length s < n" using Cons.prems Some by auto
    let ?d = "u @ 0 # v"
    have "OPENSSL_strlcat ?d (s @ 0 # []) n = Some (length u + length s, u @ take (n - length u - 1) s @ 0 # drop (length u + min (n - length u) (Suc (length s))) ?d)"
      using Cons.prems s by (intro strlcat_ok) auto
    moreover have "take (n - length u - 1) s = s" "min (n - length u) (Suc (length s)) = Suc (length s)" using s(2) by auto
    ultimately have c: "OPENSSL_strlcat ?d (s @ [0]) n = Some (length u + length s, (u @ s) @ 0 # drop (length s) v)" by simp
    have "\<exists>v'. vdata_cat args ((u @ s) @ 0 # drop (length s) v) n = Some ((u @ s) @ args_text args @ 0 # v')"
      using Cons.prems s by (intro Cons.IH) (auto simp: Some)
    then show ?thesis using Some c s(2) by auto
  qed
qed simp

lemma vdata_text_ok:
  assumes mem: "alloc_ok mem" "\<forall>n. mem n \<noteq> None" and args: "\<forall>s. Some s \<in> set args \<longrightarrow> 0 \<notin> set s" "length (args_text args) < 2 ^ 63"
  shows "vdata_text mem args = Some (Some (args_text args))"
proof -
  let ?n = "length (args_text args) + 1"
  obtain buf where buf: "mem ?n = Some buf" using mem(2) by blast
  then have "length buf = ?n" using mem(1) by (simp add: alloc_ok_def)
  then obtain x v where "buf = x # v" "length (0 # v) = ?n" by (cases buf) auto
  then have b: "buf[0 := 0] = [] @ 0 # v" "length ([] @ 0 # v) = ?n" by simp_all
  obtain v' where "vdata_cat args (buf[0 := 0]) ?n = Some (args_text args @ 0 # v')"
    unfolding b(1) using vdata_cat_ok [OF args(1), of "[]" ?n v] args(2) b(2) by auto
  moreover have "takeWhile (\<lambda>c. c \<noteq> 0) (args_text args @ 0 # v') = args_text args"
    using args(1) by (subst takeWhile_append2) (auto simp: args_text_def split: option.splits)
  ultimately show ?thesis using buf args(2) vdata_size_ok [of 0 args] by (simp add: vdata_text_def)
qed

section \<open>Sequences of calls\<close>

datatype err_call =
    Put_error u32 u32 "bytes option" u32 u32 | Get_error | Get_error_data | Peek_error | Peek_last_error | Clear_error | Add_data "bytes option list"
  | Mark_error | Pop_to_mark

datatype err_result = Code u32 | Info "err_info option" | Flag bool | Nothing

definition err_call :: "allocator \<Rightarrow> err_call \<Rightarrow> ERR_STATE option \<Rightarrow> (err_result \<times> ERR_STATE option) option" where
  "err_call mem c tls =
     (case c of
        Put_error lib reason fl line errno \<Rightarrow> map_option (map_prod (\<lambda>_. Nothing) id) (ERR_put_error True tls lib reason fl line errno)
      | Get_error \<Rightarrow> map_option (map_prod Code id) (ERR_get_error True tls)
      | Get_error_data \<Rightarrow> map_option (map_prod Info id) (ERR_get_error_line_data True tls)
      | Peek_error \<Rightarrow> map_option (map_prod Info id) (ERR_peek_error_line_data True tls)
      | Peek_last_error \<Rightarrow> map_option (map_prod Info id) (ERR_peek_last_error_line_data True tls)
      | Clear_error \<Rightarrow> map_option (map_prod (\<lambda>_. Nothing) id) (ERR_clear_error True tls)
      | Add_data args \<Rightarrow> map_option (map_prod (\<lambda>_. Nothing) id) (ERR_add_error_data mem True tls args)
      | Mark_error \<Rightarrow> map_option (map_prod Flag id) (ERR_set_mark True tls)
      | Pop_to_mark \<Rightarrow> map_option (map_prod Flag id) (ERR_pop_to_mark True tls))"

text \<open>The specification: a list of at most 15 errors, the least recent first.\<close>

definition q_front :: "err_error_st list \<Rightarrow> err_info option" where
  "q_front q = (if q = [] then None else Some (error_info (hd q)))"

definition err_spec :: "err_call \<Rightarrow> err_error_st list \<Rightarrow> err_result \<times> err_error_st list" where
  "err_spec c q =
     (case c of
        Put_error lib reason fl line errno \<Rightarrow>
          (Nothing, q_put (err_clear\<lparr>ee_file := fl, ee_line := ucast line, ee_packed := ERR_PACK lib (if lib = 2 \<and> reason = 0 then errno else reason)\<rparr>) q)
      | Get_error \<Rightarrow> (Code (code_of (q_front q)), tl q)
      | Get_error_data \<Rightarrow> (Info (q_front q), tl q)
      | Peek_error \<Rightarrow> (Info (q_front q), q)
      | Peek_last_error \<Rightarrow> (Info (if q = [] then None else Some (error_info (last q))), q)
      | Clear_error \<Rightarrow> (Nothing, [])
      | Add_data args \<Rightarrow> (Nothing, q_last (\<lambda>e. e\<lparr>ee_data := Some (args_text args)\<rparr>) q)
      | Mark_error \<Rightarrow> (Flag (q \<noteq> []), q_last (\<lambda>e. e\<lparr>ee_mark := True\<rparr>) q)
      | Pop_to_mark \<Rightarrow> (Flag (fst (q_pop q)), snd (q_pop q)))"

fun err_calls :: "allocator \<Rightarrow> err_call list \<Rightarrow> ERR_STATE option \<Rightarrow> (err_result list \<times> ERR_STATE option) option" where
  "err_calls mem [] tls = Some ([], tls)"
| "err_calls mem (c # cs) tls =
     (case err_call mem c tls of
        None \<Rightarrow> None
      | Some (r, tls) \<Rightarrow> map_option (\<lambda>(rs, tls). (r # rs, tls)) (err_calls mem cs tls))"

fun err_specs :: "err_call list \<Rightarrow> err_error_st list \<Rightarrow> err_result list \<times> err_error_st list" where
  "err_specs [] q = ([], q)"
| "err_specs (c # cs) q = (let (r, q) = err_spec c q; (rs, q) = err_specs cs q in (r # rs, q))"

definition tls_inv :: "ERR_STATE option \<Rightarrow> bool" where
  "tls_inv tls \<longleftrightarrow> (case tls of None \<Rightarrow> True | Some s \<Rightarrow> err_inv s)"

definition tls_queue :: "ERR_STATE option \<Rightarrow> err_error_st list" where
  "tls_queue tls = (case tls of None \<Rightarrow> [] | Some s \<Rightarrow> err_queue s)"

text \<open>The strings of the calls are C strings of a size that can be allocated.\<close>

definition call_ok :: "err_call \<Rightarrow> bool" where
  "call_ok c \<longleftrightarrow> (case c of Add_data args \<Rightarrow> (\<forall>s. Some s \<in> set args \<longrightarrow> 0 \<notin> set s) \<and> length (args_text args) < 2 ^ 63 | _ \<Rightarrow> True)"

text \<open>An operation on the state implements one on the queue.\<close>

definition implements :: "(ERR_STATE \<Rightarrow> ('r \<times> ERR_STATE) option) \<Rightarrow> (err_error_st list \<Rightarrow> 'r \<times> err_error_st list) \<Rightarrow> bool" where
  "implements f g \<longleftrightarrow> (\<forall>s. err_inv s \<longrightarrow> (\<exists>s'. f s = Some (fst (g (err_queue s)), s') \<and> err_inv s' \<and> err_queue s' = snd (g (err_queue s))))"

lemma implementsI:
  "(\<And>s. err_inv s \<Longrightarrow> \<exists>s'. f s = Some (fst (g (err_queue s)), s') \<and> err_inv s' \<and> err_queue s' = snd (g (err_queue s))) \<Longrightarrow> implements f g"
  by (simp add: implements_def)

definition new_error :: "u32 \<Rightarrow> u32 \<Rightarrow> bytes option \<Rightarrow> u32 \<Rightarrow> u32 \<Rightarrow> err_error_st" where
  "new_error lib reason fl line errno =
     err_clear\<lparr>ee_file := fl, ee_line := ucast line, ee_packed := ERR_PACK lib (if lib = 2 \<and> reason = 0 then errno else reason)\<rparr>"

lemma operations_ok:
  "implements (put_error lib reason fl line errno) (\<lambda>q. ((), q_put (new_error lib reason fl line errno) q))"
  "implements (get_error_values True False w) (\<lambda>q. (q_front q, tl q))"
  "implements (get_error_values False False w) (\<lambda>q. (q_front q, q))"
  "implements (get_error_values False True w) (\<lambda>q. (if q = [] then None else Some (error_info (last q)), q))"
  "implements (\<lambda>state. Some ((), clear_state state)) (\<lambda>q. ((), []))"
  "implements (err_set_error_data d) (\<lambda>q. ((), q_last (\<lambda>e. e\<lparr>ee_data := Some d\<rparr>) q))"
  "implements set_mark (\<lambda>q. (q \<noteq> [], q_last (\<lambda>e. e\<lparr>ee_mark := True\<rparr>) q))"
  "implements pop_to_mark q_pop"
  using put_error_ok get_values_ok clear_state_ok set_data_ok set_mark_ok pop_to_mark_ok
  by (intro implementsI; simp add: new_error_def q_front_def; fail)+

lemma with_state_ok:
  assumes f: "implements f g" and tls: "tls_inv tls"
  obtains tls' where "with_state True tls x f = Some (fst (g (tls_queue tls)), tls')" "tls_inv tls'" "tls_queue tls' = snd (g (tls_queue tls))"
proof -
  obtain s where s: "err_get_state True tls = Some s" "err_inv s" "err_queue s = tls_queue tls"
    using tls by (cases tls) (simp_all add: err_get_state_def tls_inv_def tls_queue_def err_inv_def err_queue_def err_num_def ERR_NUM_ERRORS_def)
  obtain s' where "f s = Some (fst (g (tls_queue tls)), s')" "err_inv s'" "err_queue s' = snd (g (tls_queue tls))"
    using f s(2,3) unfolding implements_def by metis
  then show ?thesis using that [of "Some s'"] s(1) by (simp add: with_state_def tls_inv_def tls_queue_def)
qed

lemma err_call_ok:
  assumes mem: "alloc_ok mem" "\<forall>n. mem n \<noteq> None" and tls: "tls_inv tls" and c: "call_ok c"
  obtains tls' where "err_call mem c tls = Some (fst (err_spec c (tls_queue tls)), tls')" "tls_inv tls'" "tls_queue tls' = snd (err_spec c (tls_queue tls))"
proof (cases c)
  case (Put_error lib reason fl line errno)
  show ?thesis by (rule with_state_ok [OF operations_ok(1) [of lib reason fl line errno] tls, where x = "()"])
    (rule that, simp add: Put_error err_call_def err_spec_def new_error_def ERR_put_error_def, simp_all add: Put_error err_spec_def new_error_def)
next
  case Get_error
  show ?thesis by (rule with_state_ok [OF operations_ok(2) [of False] tls, where x = None]) (rule that, simp add: Get_error err_call_def err_spec_def ERR_get_error_def, simp_all add: Get_error err_spec_def)
next
  case Get_error_data
  show ?thesis by (rule with_state_ok [OF operations_ok(2) [of True] tls, where x = None]) (rule that, simp add: Get_error_data err_call_def err_spec_def ERR_get_error_line_data_def, simp_all add: Get_error_data err_spec_def)
next
  case Peek_error
  show ?thesis by (rule with_state_ok [OF operations_ok(3) [of True] tls, where x = None]) (rule that, simp add: Peek_error err_call_def err_spec_def ERR_peek_error_line_data_def, simp_all add: Peek_error err_spec_def)
next
  case Peek_last_error
  show ?thesis by (rule with_state_ok [OF operations_ok(4) [of True] tls, where x = None]) (rule that, simp add: Peek_last_error err_call_def err_spec_def ERR_peek_last_error_line_data_def, simp_all add: Peek_last_error err_spec_def)
next
  case Clear_error
  show ?thesis by (rule with_state_ok [OF operations_ok(5) tls, where x = "()"]) (rule that, simp add: Clear_error err_call_def err_spec_def ERR_clear_error_def, simp_all add: Clear_error err_spec_def)
next
  case (Add_data args)
  have v: "vdata_text mem args = Some (Some (args_text args))" using vdata_text_ok [OF mem] c Add_data by (simp add: call_ok_def)
  show ?thesis by (rule with_state_ok [OF operations_ok(6) [of "args_text args"] tls, where x = "()"])
    (rule that, simp add: v Add_data err_call_def err_spec_def ERR_add_error_data_def, simp_all add: Add_data err_spec_def)
next
  case Mark_error
  show ?thesis by (rule with_state_ok [OF operations_ok(7) tls, where x = False]) (rule that, simp add: Mark_error err_call_def err_spec_def ERR_set_mark_def, simp_all add: Mark_error err_spec_def)
next
  case Pop_to_mark
  show ?thesis by (rule with_state_ok [OF operations_ok(8) tls, where x = False]) (rule that, simp add: Pop_to_mark err_call_def err_spec_def ERR_pop_to_mark_def, simp_all add: Pop_to_mark err_spec_def)
qed

lemma err_calls_ok:
  assumes mem: "alloc_ok mem" "\<forall>n. mem n \<noteq> None"
  shows "tls_inv tls \<Longrightarrow> \<forall>c\<in>set cs. call_ok c \<Longrightarrow>
    \<exists>tls'. err_calls mem cs tls = Some (fst (err_specs cs (tls_queue tls)), tls') \<and> tls_inv tls' \<and> tls_queue tls' = snd (err_specs cs (tls_queue tls))"
proof (induction cs arbitrary: tls)
  case (Cons c cs)
  obtain tls1 where 1: "err_call mem c tls = Some (fst (err_spec c (tls_queue tls)), tls1)" "tls_inv tls1" "tls_queue tls1 = snd (err_spec c (tls_queue tls))"
    using err_call_ok [OF mem Cons.prems(1), of c] Cons.prems(2) by auto
  obtain tls' where "err_calls mem cs tls1 = Some (fst (err_specs cs (tls_queue tls1)), tls')" "tls_inv tls'" "tls_queue tls' = snd (err_specs cs (tls_queue tls1))"
    using Cons.IH [OF 1(2)] Cons.prems(2) by auto
  with 1 show ?case by (simp add: split_beta)
qed simp

end
