(* ===== verification/Err_Text.thy ===== *)
theory Err_Text
  imports Err
begin

text \<open>
  The texts of errors, second half of \<open>crypto/err/err.c\<close>: the search in the table of reasons, the names of libraries and \<open>ERR_error_string_n\<close>. The tables
  \<open>kOpenSSLReasonValues\<close> and \<open>kOpenSSLReasonStringData\<close> of the generated file \<open>err_data.c\<close> and the texts of \<open>strerror\<close> are arguments. A ctext is a list of bytes without
  its terminator; the outer \<open>None\<close> is an access outside a table or a buffer.
\<close>

section \<open>The model\<close>

definition ctext :: "string \<Rightarrow> bytes" where
  "ctext s = map of_char s"

text \<open>\<open>bsearch\<close> of the C library, with the comparison against the key.\<close>

function bsearch :: "('a \<Rightarrow> int) \<Rightarrow> 'a list \<Rightarrow> nat \<Rightarrow> nat \<Rightarrow> 'a option" where
  "bsearch cmp xs lo hi =
     (if lo \<ge> hi \<or> hi > length xs then None
      else
        let i = (lo + hi) div 2; c = cmp (xs ! i)
        in if c = 0 then Some (xs ! i) else if c < 0 then bsearch cmp xs lo i else bsearch cmp xs (i + 1) hi)"
  by pat_completeness auto
termination by (relation "measure (\<lambda>(cmp, xs, lo, hi). hi - lo)") auto

declare bsearch.simps [simp del]

definition err_string_cmp :: "u32 \<Rightarrow> u32 \<Rightarrow> int" where
  "err_string_cmp a b =
     (let a_key = drop_bit 15 a; b_key = drop_bit 15 b in if a_key < b_key then -1 else if a_key > b_key then 1 else 0)"

definition err_string_lookup :: "u32 \<Rightarrow> u32 \<Rightarrow> u32 list \<Rightarrow> bytes \<Rightarrow> bytes option option" where
  "err_string_lookup lib key values string_data =
     (if lib \<ge> 64 \<or> key \<ge> 2048 then Some None
      else
        let search_key = push_bit 26 lib OR push_bit 15 key
        in case bsearch (err_string_cmp search_key) values 0 (length values) of
             None \<Rightarrow> Some None
           | Some result \<Rightarrow>
               let s = drop (unat (result AND 0x7fff)) string_data
               in map_option (\<lambda>n. Some (take n s)) (strlen s))"

definition ERR_NUM_LIBS :: nat where "ERR_NUM_LIBS = 34"

definition kLibraryNames :: "bytes list" where
  "kLibraryNames = map ctext
     [''invalid library (0)'', ''unknown library'', ''system library'', ''bignum routines'', ''RSA routines'', ''Diffie-Hellman routines'',
      ''public key routines'', ''memory buffer routines'', ''object identifier routines'', ''PEM routines'', ''DSA routines'', ''X.509 certificate routines'',
      ''ASN.1 encoding routines'', ''configuration file routines'', ''common libcrypto routines'', ''elliptic curve routines'', ''SSL routines'', ''BIO routines'',
      ''PKCS7 routines'', ''PKCS8 routines'', ''X509 V3 routines'', ''random number generator'', ''ENGINE routines'', ''OCSP routines'', ''UI routines'',
      ''COMP routines'', ''ECDSA routines'', ''ECDH routines'', ''HMAC routines'', ''Digest functions'', ''Cipher functions'', ''HKDF functions'',
      ''Trust Token functions'', ''User defined functions'']"

definition err_lib_error_string :: "u32 \<Rightarrow> bytes option" where
  "err_lib_error_string packed_error =
     (let lib = unat (ERR_GET_LIB packed_error) in if lib \<ge> ERR_NUM_LIBS then None else Some (kLibraryNames ! lib))"

definition ERR_lib_error_string :: "u32 \<Rightarrow> bytes" where
  "ERR_lib_error_string packed_error = (case err_lib_error_string packed_error of None \<Rightarrow> ctext ''unknown library'' | Some ret \<Rightarrow> ret)"

definition ERR_func_error_string :: "u32 \<Rightarrow> bytes" where
  "ERR_func_error_string packed_error = ctext ''OPENSSL_internal''"

definition err_reason_error_string :: "(u32 \<Rightarrow> bytes) \<Rightarrow> u32 list \<Rightarrow> bytes \<Rightarrow> u32 \<Rightarrow> bytes option option" where
  "err_reason_error_string strerror values string_data packed_error =
     (let lib = ERR_GET_LIB packed_error; reason = ERR_GET_REASON packed_error
      in if lib = 2 then Some (if reason < 127 then Some (strerror reason) else None)
         else if unat reason < ERR_NUM_LIBS then Some (Some (kLibraryNames ! unat reason))
         else if reason < 100 then
           Some (if reason = 65 then Some (ctext ''malloc failure'')
                 else if reason = 66 then Some (ctext ''function should not have been called'')
                 else if reason = 67 then Some (ctext ''passed a null parameter'')
                 else if reason = 68 then Some (ctext ''internal error'')
                 else if reason = 69 then Some (ctext ''overflow'')
                 else None)
         else err_string_lookup lib reason values string_data)"

definition ERR_reason_error_string :: "(u32 \<Rightarrow> bytes) \<Rightarrow> u32 list \<Rightarrow> bytes \<Rightarrow> u32 \<Rightarrow> bytes option" where
  "ERR_reason_error_string strerror values string_data packed_error =
     map_option (\<lambda>ret. case ret of None \<Rightarrow> ctext ''unknown error'' | Some r \<Rightarrow> r) (err_reason_error_string strerror values string_data packed_error)"

text \<open>The conversions \<open>%u\<close> and \<open>%08x\<close>, and \<open>snprintf\<close> of a ctext that is already put together: it stores at most \<open>len - 1\<close> bytes and a terminator.\<close>

fun print_u :: "nat \<Rightarrow> bytes" where
  "print_u n = (if n < 10 then [of_nat (48 + n)] else print_u (n div 10) @ [of_nat (48 + n mod 10)])"

declare print_u.simps [simp del]

definition hex_digit :: "nat \<Rightarrow> u8" where
  "hex_digit d = of_nat (if d < 10 then 48 + d else 87 + d)"

definition print_08x :: "u32 \<Rightarrow> bytes" where
  "print_08x v = map (\<lambda>i. hex_digit (unat (drop_bit (4 * i) v AND 0xf))) [7, 6, 5, 4, 3, 2, 1, 0]"

definition snprintf :: "bytes \<Rightarrow> nat \<Rightarrow> bytes \<Rightarrow> (int \<times> bytes) option" where
  "snprintf buf len s =
     (if len > length buf then None
      else Some (if length s < 2 ^ 31 then int (length s) else -1,
             if len = 0 then buf else take (len - 1) s @ 0 # drop (Suc (min (len - 1) (length s))) buf))"

text \<open>\<open>strchr\<close> from an index: the index found, \<open>None\<close> inside at the terminator, \<open>None\<close> outside without a terminator.\<close>

fun strchr :: "bytes \<Rightarrow> u8 \<Rightarrow> nat option option" where
  "strchr [] c = None"
| "strchr (x # s) c = (if x = c then Some (Some 0) else if x = 0 then Some None else map_option (map_option Suc) (strchr s c))"

text \<open>The loop that places missing colons, from the position \<open>s\<close> at colon \<open>i\<close> of 4.\<close>

function colon_loop :: "bytes \<Rightarrow> nat \<Rightarrow> nat \<Rightarrow> nat \<Rightarrow> bytes option" where
  "colon_loop buf len s i =
     (if i \<ge> 4 then Some buf
      else
        case strchr (drop s buf) 0x3a of
          None \<Rightarrow> None
        | Some colon \<Rightarrow>
            let last_pos = len - 1 - 4 + i
            in if colon = None \<or> s + the colon > last_pos then
                 if last_pos + (4 - i) > length buf then None
                 else Some (take last_pos buf @ replicate (4 - i) 0x3a @ drop (last_pos + (4 - i)) buf)
               else colon_loop buf len (s + the colon + 1) (i + 1))"
  by pat_completeness auto
termination by (relation "measure (\<lambda>(buf, len, s, i). 4 - i)") auto

declare colon_loop.simps [simp del]

definition error_text :: "u32 \<Rightarrow> bytes \<Rightarrow> bytes \<Rightarrow> bytes" where
  "error_text packed_error lib_str reason_str = ctext ''error:'' @ print_08x packed_error @ [0x3a] @ lib_str @ ctext '':OPENSSL_internal:'' @ reason_str"

definition lib_text :: "u32 \<Rightarrow> bytes" where
  "lib_text packed_error =
     (case err_lib_error_string packed_error of Some s \<Rightarrow> s | None \<Rightarrow> take 31 (ctext ''lib('' @ print_u (unat (ERR_GET_LIB packed_error)) @ ctext '')''))"

definition reason_text :: "u32 \<Rightarrow> bytes option \<Rightarrow> bytes" where
  "reason_text packed_error reason_opt =
     (case reason_opt of Some s \<Rightarrow> s | None \<Rightarrow> take 31 (ctext ''reason('' @ print_u (unat (ERR_GET_REASON packed_error)) @ ctext '')''))"

text \<open>The result tells whether a pointer to the buffer is returned.\<close>

definition ERR_error_string_n :: "(u32 \<Rightarrow> bytes) \<Rightarrow> u32 list \<Rightarrow> bytes \<Rightarrow> u32 \<Rightarrow> bytes \<Rightarrow> nat \<Rightarrow> (bool \<times> bytes) option" where
  "ERR_error_string_n strerror values string_data packed_error buf len =
     (if len = 0 then Some (False, buf)
      else
        case err_reason_error_string strerror values string_data packed_error of
          None \<Rightarrow> None
        | Some reason_str \<Rightarrow>
            case snprintf buf len (error_text packed_error (lib_text packed_error) (reason_text packed_error reason_str)) of
              None \<Rightarrow> None
            | Some (ret, buf) \<Rightarrow>
                if ret \<ge> 0 \<and> nat ret \<ge> len then
                  if len \<le> 4 then Some (True, buf) else map_option (Pair True) (colon_loop buf len 0 0)
                else Some (True, buf))"

section \<open>The search in the table\<close>

text \<open>On a table sorted by the key, a search finds the entry with the key if there is one.\<close>

definition err_key :: "u32 \<Rightarrow> u32" where
  "err_key v = drop_bit 15 v"

lemma err_cmp: "err_string_cmp a b = (if err_key a < err_key b then -1 else if err_key b < err_key a then 1 else 0)"
  by (simp add: err_string_cmp_def err_key_def Let_def)

lemma bsearch_sound: "bsearch cmp xs lo hi = Some v \<Longrightarrow> v \<in> set xs \<and> cmp v = 0"
proof (induction cmp xs lo hi rule: bsearch.induct)
  case (1 cmp xs lo hi)
  then show ?case by (subst (asm) (3) bsearch.simps) (auto simp: Let_def split: if_splits)
qed

lemma bsearch_complete:
  assumes sorted: "sorted_wrt (<) (map err_key xs)"
  shows "lo \<le> j \<Longrightarrow> j < hi \<Longrightarrow> hi \<le> length xs \<Longrightarrow> err_key (xs ! j) = err_key k \<Longrightarrow> bsearch (err_string_cmp k) xs lo hi = Some (xs ! j)"
proof (induction "hi - lo" arbitrary: lo hi rule: less_induct)
  case less
  have mono: "err_key (xs ! a) < err_key (xs ! b)" if "a < b" "b < length xs" for a b
    using sorted that by (simp add: sorted_wrt_iff_nth_less)
  define i where "i = (lo + hi) div 2"
  have i: "lo \<le> i" "i < hi" "i < length xs" using less.prems by (auto simp: i_def)
  have s: "bsearch (err_string_cmp k) xs lo hi = (if err_string_cmp k (xs ! i) = 0 then Some (xs ! i)
      else if err_string_cmp k (xs ! i) < 0 then bsearch (err_string_cmp k) xs lo i else bsearch (err_string_cmp k) xs (i + 1) hi)"
    using less.prems by (subst bsearch.simps) (simp add: i_def Let_def)
  consider "j = i" | "j < i" | "i < j" by linarith
  then show ?case
  proof cases
    case 1
    then show ?thesis using less.prems unfolding s by (simp add: err_cmp)
  next
    case 2
    then have "err_string_cmp k (xs ! i) = -1" using mono [of j i] i less.prems by (simp add: err_cmp)
    then show ?thesis using less.hyps [of i lo] 2 i less.prems unfolding s by simp
  next
    case 3
    then have "err_string_cmp k (xs ! i) = 1" using mono [of i j] i less.prems by (simp add: err_cmp)
    then show ?thesis using less.hyps [of hi "i + 1"] 3 i less.prems unfolding s by simp
  qed
qed

lemma lookup_entry:
  assumes "sorted_wrt (<) (map err_key values)" "v \<in> set values" "lib < 64" "key < 2048" "err_key v = err_key (push_bit 26 lib OR push_bit 15 key)"
    "drop (unat (v AND 0x7fff)) string_data = s @ 0 # r" "0 \<notin> set s"
  shows "err_string_lookup lib key values string_data = Some (Some s)"
proof -
  obtain j where "j < length values" "values ! j = v" using assms(2) by (meson in_set_conv_nth)
  then have "bsearch (err_string_cmp (push_bit 26 lib OR push_bit 15 key)) values 0 (length values) = Some v"
    using bsearch_complete [OF assms(1), of 0 j "length values"] assms(5) by simp
  then show ?thesis using assms by (simp add: err_string_lookup_def Let_def not_le)
qed

section \<open>Five fields\<close>

lemma of_nat_u8_nonzero: "0 < n \<Longrightarrow> n < 256 \<Longrightarrow> (of_nat n :: u8) \<noteq> 0"
  by (auto simp: word_of_nat_eq_0_iff dest: dvd_imp_le)

lemma hex_digit_nonzero: "hex_digit (unat ((v :: u32) AND 0xf)) \<noteq> 0"
proof -
  have "v AND 0xf \<le> 0xf" by (simp add: word_and_le1)
  then have "unat (v AND 0xf) \<le> 15" by (simp add: word_le_nat_alt)
  then show ?thesis unfolding hex_digit_def by (intro of_nat_u8_nonzero) auto
qed

lemma print_08x_nonzero: "0 \<notin> set (print_08x v)"
  using hex_digit_nonzero unfolding print_08x_def set_map image_iff by metis

lemma strchr_ok:
  "0 \<notin> set t \<Longrightarrow> c \<noteq> 0 \<Longrightarrow> strchr (t @ 0 # r) c = Some (if c \<in> set t then Some (length (takeWhile (\<lambda>x. x \<noteq> c) t)) else None)"
  by (induction t) auto

lemma count_take_mono: "a \<le> b \<Longrightarrow> count_list (take a t) c \<le> count_list (take b t) c"
proof -
  assume "a \<le> b"
  then have "take b t = take a t @ take (b - a) (drop a t)" by (metis le_add_diff_inverse take_add)
  then show ?thesis by simp
qed

lemma colon_loop_ok:
  "buf = t @ 0 # r \<Longrightarrow> 0 \<notin> set t \<Longrightarrow> length t = len - 1 \<Longrightarrow> 4 < len \<Longrightarrow> i \<le> 4 \<Longrightarrow> s \<le> len - 1 - 4 + i \<Longrightarrow> i \<le> count_list (take s t) 0x3a \<Longrightarrow>
    \<exists>t'. colon_loop buf len s i = Some (t' @ 0 # r) \<and> length t' = len - 1 \<and> 0 \<notin> set t' \<and> 4 \<le> count_list t' 0x3a"
proof (induction buf len s i rule: colon_loop.induct)
  case (1 buf len s i)
  show ?case
  proof (cases "i \<ge> 4")
    case True
    have "count_list (take s t) 0x3a \<le> count_list t 0x3a" using count_take_mono [of s "max s (length t)" t "0x3a"] by simp
    then show ?thesis using 1 True by (subst colon_loop.simps) auto
  next
    case i: False
    let ?k = "length (takeWhile (\<lambda>x. x \<noteq> 0x3a) (drop s t))"
    have s: "s \<le> length t" using "1.prems" i by linarith
    have nz: "0 \<notin> set (drop s t)" using "1.prems"(2) by (meson in_set_dropD)
    have sc: "strchr (drop s buf) 0x3a = Some (if 0x3a \<in> set (drop s t) then Some ?k else None)"
      using strchr_ok [OF nz, of "0x3a" r] s "1.prems"(1) by simp
    show ?thesis
    proof (cases "0x3a \<in> set (drop s t) \<and> s + ?k \<le> len - 1 - 4 + i")
      case True
      then have kl: "?k < length (drop s t)" using takeWhile_eq_all_conv [of "\<lambda>x. x \<noteq> 0x3a" "drop s t"] length_takeWhile_le [of "\<lambda>x. x \<noteq> 0x3a" "drop s t"] takeWhile_eq_take [of "\<lambda>x. x \<noteq> 0x3a" "drop s t"]
        by (metis le_neq_implies_less take_all_iff order_refl)
      then have "drop s t ! ?k = 0x3a" using nth_length_takeWhile by blast
      then have "take (s + ?k + 1) t = take (s + ?k) t @ [0x3a]" using kl by (simp add: take_Suc_conv_app_nth)
      then have "i + 1 \<le> count_list (take (s + ?k + 1) t) 0x3a"
        using "1.prems"(7) count_take_mono [of s "s + ?k" t "0x3a"] by simp
      moreover have "colon_loop buf len s i = colon_loop buf len (s + ?k + 1) (i + 1)" using i sc True by (subst colon_loop.simps) (simp add: Let_def)
      ultimately show ?thesis using "1.IH" [OF i sc refl] "1.prems" True i by simp
    next
      case False
      let ?p = "len - 1 - 4 + i"
      let ?t = "take ?p t @ replicate (4 - i) 0x3a"
      have p: "?p + (4 - i) = length t" using "1.prems" i by simp
      have "colon_loop buf len s i = Some (?t @ 0 # r)"
        using i sc False p "1.prems"(1) by (subst colon_loop.simps) (auto simp: Let_def not_le)
      moreover have "count_list ?t 0x3a = count_list (take ?p t) 0x3a + (4 - i)" by (simp add: count_list_eq_length_filter)
      moreover have "i \<le> count_list (take ?p t) 0x3a" using count_take_mono [of s ?p t "0x3a"] "1.prems" by simp
      moreover have "length ?t = len - 1" "0 \<notin> set ?t" using p "1.prems" by (auto dest: in_set_takeD)
      ultimately show ?thesis by auto
    qed
  qed
qed

lemma library_names [simp]: "length kLibraryNames = 34" "\<forall>s\<in>set kLibraryNames. 0 \<notin> set s"
  by (simp_all add: kLibraryNames_def ctext_def)

lemma print_u_nonzero: "0 \<notin> set (print_u n)"
proof (induction n rule: print_u.induct)
  case (1 n)
  have d: "(of_nat (48 + d) :: u8) \<noteq> 0" if "d < 10" for d using of_nat_u8_nonzero [of "48 + d"] that by simp
  show ?case using 1 d [of n] d [of "n mod 10"] by (subst print_u.simps) auto
qed

lemma lib_text_nonzero: "0 \<notin> set (lib_text e)"
proof (cases "err_lib_error_string e")
  case None
  then show ?thesis using print_u_nonzero by (auto simp: lib_text_def ctext_def dest!: in_set_takeD)
next
  case (Some s)
  then have "s \<in> set kLibraryNames" by (auto simp: err_lib_error_string_def ERR_NUM_LIBS_def Let_def split: if_splits)
  then show ?thesis using Some library_names(2) by (auto simp: lib_text_def)
qed

lemma reason_text_nonzero:
  assumes "err_reason_error_string strerror values string_data e = Some ro" "\<forall>r. 0 \<notin> set (strerror r)"
  shows "0 \<notin> set (reason_text e ro)"
proof (cases ro)
  case None
  then show ?thesis using print_u_nonzero by (auto simp: reason_text_def ctext_def dest!: in_set_takeD)
next
  case (Some s)
  have l: "0 \<notin> set s" if "err_string_lookup lib key values string_data = Some (Some s)" for lib key
    using that by (auto simp: err_string_lookup_def Let_def strlen_iff split: if_splits option.splits)
  have n: "0 \<notin> set (kLibraryNames ! i)" if "i < ERR_NUM_LIBS" for i using that library_names by (simp add: ERR_NUM_LIBS_def)
  show ?thesis using Some assms l n by (auto simp: reason_text_def err_reason_error_string_def Let_def ctext_def split: if_splits)
qed

lemma error_text_colons: "4 \<le> count_list (error_text e l r) 0x3a"
  by (simp add: error_text_def ctext_def)

lemma error_string_ok:
  assumes r: "err_reason_error_string strerror values string_data e = Some ro" "\<forall>r. 0 \<notin> set (strerror r)"
    and s: "s = error_text e (lib_text e) (reason_text e ro)" "length s < 2 ^ 31" and len: "0 < len" "len \<le> length buf"
  shows "\<exists>t r. ERR_error_string_n strerror values string_data e buf len = Some (True, t @ 0 # r) \<and> length (t @ 0 # r) = length buf \<and> 0 \<notin> set t \<and> length t < len \<and>
    (length s < len \<longrightarrow> t = s) \<and> (4 < len \<longrightarrow> 4 \<le> count_list t 0x3a)"
proof -
  define t where "t = take (len - 1) s"
  define q where "q = drop (Suc (min (len - 1) (length s))) buf"
  have nz: "0 \<notin> set s" "0 \<notin> set t" using lib_text_nonzero reason_text_nonzero [OF r] print_08x_nonzero by (auto simp: t_def s error_text_def ctext_def dest: in_set_takeD)
  have l: "length (t @ 0 # q) = length buf" "length t < len" using len by (auto simp: t_def q_def)
  have e: "ERR_error_string_n strerror values string_data e buf len =
      (if length s \<ge> len then if len \<le> 4 then Some (True, t @ 0 # q) else map_option (Pair True) (colon_loop (t @ 0 # q) len 0 0) else Some (True, t @ 0 # q))"
    using r(1) len s(2) unfolding ERR_error_string_n_def
    by (simp add: snprintf_def t_def q_def s(1))
  consider "length s < len" | "len \<le> length s" "len \<le> 4" | "len \<le> length s" "4 < len" by linarith
  then show ?thesis
  proof cases
    case 1
    then have "t = s" by (simp add: t_def)
    then show ?thesis using 1 e l nz error_text_colons s(1) by auto
  next
    case 2
    then show ?thesis using e l nz by auto
  next
    case 3
    then have "length t = len - 1" by (simp add: t_def)
    then obtain t' where "colon_loop (t @ 0 # q) len 0 0 = Some (t' @ 0 # q)" "length t' = len - 1" "0 \<notin> set t'" "4 \<le> count_list t' 0x3a"
      using colon_loop_ok [OF refl nz(2), of len 0 0 q] 3 by auto
    then show ?thesis using 3 e l \<open>length t = len - 1\<close> by (intro exI [of _ t'] exI [of _ q]) auto
  qed
qed

end
