(* ===== verification/Cbb_Asn1.thy ===== *)
theory Cbb_Asn1
  imports Cbb Cbs_Asn1
begin

text \<open>
  The ASN.1 writers of \<open>crypto/bytestring/cbb.c\<close>, the object identifier printer of
  \<open>cbs.c\<close> and \<open>CBB_finish_i2d\<close> of \<open>asn1_compat.c\<close>. Handles and results are those of the
  theory \<open>Cbb\<close>: an operation on the builder at depth \<open>d\<close> opens its child at depth \<open>d + 1\<close>.
\<close>

section \<open>Tags\<close>

text \<open>\<open>while (copy > 0) { len_len++; copy >>= 7; }\<close>\<close>

function base128_len_loop :: "nat \<Rightarrow> u64 \<Rightarrow> nat" where
  "base128_len_loop len_len copy =
     (if copy > 0 then base128_len_loop (len_len + 1) (drop_bit 7 copy) else len_len)"
  by pat_completeness auto
termination
proof (relation "measure (\<lambda>(_, copy). unat copy)")
  fix len_len :: nat and copy :: u64
  assume "copy > 0"
  then have "unat copy > 0" by (simp add: word_less_nat_alt)
  then show "((len_len + 1, drop_bit 7 copy), len_len, copy) \<in> measure (\<lambda>(_, copy). unat copy)"
    by (simp add: unat_drop_bit)
qed simp

declare base128_len_loop.simps [simp del]

fun add_base128_loop :: "allocator \<Rightarrow> nat \<Rightarrow> u64 \<Rightarrow> nat \<Rightarrow> cbb \<Rightarrow> unit cbb_ret" where
  "add_base128_loop mem d v 0 s = Some (Some (), s)"
| "add_base128_loop mem d v (Suc i) s =
     (let byte = ucast (drop_bit (7 * i) v AND 0x7f) :: u8;
          byte = (if i \<noteq> 0 then byte OR 0x80 else byte)
      in cbb_bind (CBB_add_u8 mem d byte s) (\<lambda>_ s. add_base128_loop mem d v i s))"

definition add_base128_integer :: "allocator \<Rightarrow> nat \<Rightarrow> u64 \<Rightarrow> cbb \<Rightarrow> unit cbb_ret" where
  "add_base128_integer mem d v s =
     (let len_len = base128_len_loop 0 v;
          len_len = (if len_len = 0 then 1 else len_len)
      in add_base128_loop mem d v len_len s)"

definition CBB_add_asn1 :: "allocator \<Rightarrow> nat \<Rightarrow> u32 \<Rightarrow> cbb \<Rightarrow> unit cbb_ret" where
  "CBB_add_asn1 mem d tag s = cbb_bind (CBB_flush mem d s) (\<lambda>_ s.
     let tag_bits = ucast (drop_bit CBS_ASN1_TAG_SHIFT tag AND 0xe0) :: u8;
         tag_number = tag AND CBS_ASN1_TAG_NUMBER_MASK
     in cbb_bind
          (if tag_number \<ge> 0x1f then
             cbb_bind (CBB_add_u8 mem d (tag_bits OR 0x1f) s) (\<lambda>_ s. add_base128_integer mem d (ucast tag_number) s)
           else CBB_add_u8 mem d (tag_bits OR ucast tag_number) s)
          (\<lambda>_ s. cbb_add_child mem d 1 True s))"

section \<open>Values\<close>

text \<open>
  \<open>goto err\<close> with \<open>err: cbb_on_error(cbb); return 0;\<close>. On a builder that was flushed by its
  parent \<open>cbb_get_base\<close> is \<open>NULL\<close> and \<open>cbb_on_error\<close> writes through it.
\<close>

definition cbb_goto_err :: "nat \<Rightarrow> 'a cbb_ret \<Rightarrow> 'a cbb_ret" where
  "cbb_goto_err d m = (case m of
     Some (None, s) \<Rightarrow> if d > length (children s) then None else Some (None, cbb_on_error d s)
   | _ \<Rightarrow> m)"

text \<open>The loop over the eight bytes of the value; the result is \<open>started\<close>.\<close>

fun asn1_uint64_bytes :: "allocator \<Rightarrow> nat \<Rightarrow> u64 \<Rightarrow> nat \<Rightarrow> bool \<Rightarrow> cbb \<Rightarrow> bool cbb_ret" where
  "asn1_uint64_bytes mem c value 0 started s = Some (Some started, s)"
| "asn1_uint64_bytes mem c value (Suc i) started s =
     (let byte = ucast (drop_bit (8 * i) value AND 0xff) :: u8
      in if \<not> started \<and> byte = 0 then asn1_uint64_bytes mem c value i started s
         else cbb_bind
           (if \<not> started \<and> byte AND 0x80 \<noteq> 0 then CBB_add_u8 mem c 0 s else Some (Some (), s)) (\<lambda>_ s.
           cbb_bind (CBB_add_u8 mem c byte s) (\<lambda>_ s. asn1_uint64_bytes mem c value i True s)))"

definition CBB_add_asn1_uint64_with_tag :: "allocator \<Rightarrow> nat \<Rightarrow> u64 \<Rightarrow> u32 \<Rightarrow> cbb \<Rightarrow> unit cbb_ret" where
  "CBB_add_asn1_uint64_with_tag mem d value tag s =
     cbb_bind (cbb_goto_err d (
       cbb_bind (CBB_add_asn1 mem d tag s) (\<lambda>_ s.
       cbb_bind (asn1_uint64_bytes mem (d + 1) value 8 False s) (\<lambda>started s.
         if \<not> started then CBB_add_u8 mem (d + 1) 0 s else Some (Some (), s)))))
     (\<lambda>_ s. CBB_flush mem d s)"

definition CBB_add_asn1_uint64 :: "allocator \<Rightarrow> nat \<Rightarrow> u64 \<Rightarrow> cbb \<Rightarrow> unit cbb_ret" where
  "CBB_add_asn1_uint64 mem d value s = CBB_add_asn1_uint64_with_tag mem d value CBS_ASN1_INTEGER s"

text \<open>The loop that skips the leading sign-extension bytes of the little-endian \<open>bytes\<close>.\<close>

fun asn1_int64_start :: "bytes \<Rightarrow> nat \<Rightarrow> nat" where
  "asn1_int64_start bs 0 = 0"
| "asn1_int64_start bs (Suc i) =
     (if bs ! Suc i = 0xff \<and> bs ! i AND 0x80 \<noteq> 0 then asn1_int64_start bs i else Suc i)"

text \<open>\<open>for (int i = start; i >= 0; i--)\<close> with \<open>n = i + 1\<close>.\<close>

fun asn1_int64_bytes :: "allocator \<Rightarrow> nat \<Rightarrow> bytes \<Rightarrow> nat \<Rightarrow> cbb \<Rightarrow> unit cbb_ret" where
  "asn1_int64_bytes mem c bs 0 s = Some (Some (), s)"
| "asn1_int64_bytes mem c bs (Suc i) s =
     cbb_bind (CBB_add_u8 mem c (bs ! i) s) (\<lambda>_ s. asn1_int64_bytes mem c bs i s)"

definition CBB_add_asn1_int64_with_tag :: "allocator \<Rightarrow> nat \<Rightarrow> u64 \<Rightarrow> u32 \<Rightarrow> cbb \<Rightarrow> unit cbb_ret" where
  "CBB_add_asn1_int64_with_tag mem d value tag s =
     (if 0 \<le> sint value then CBB_add_asn1_uint64_with_tag mem d value tag s
      else let bytes = map (\<lambda>i. ucast (drop_bit (8 * i) value)) [0..<8];
               start = asn1_int64_start bytes 7
        in cbb_bind (cbb_goto_err d (
             cbb_bind (CBB_add_asn1 mem d tag s) (\<lambda>_ s. asn1_int64_bytes mem (d + 1) bytes (Suc start) s)))
           (\<lambda>_ s. CBB_flush mem d s))"

definition CBB_add_asn1_int64 :: "allocator \<Rightarrow> nat \<Rightarrow> u64 \<Rightarrow> cbb \<Rightarrow> unit cbb_ret" where
  "CBB_add_asn1_int64 mem d value s = CBB_add_asn1_int64_with_tag mem d value CBS_ASN1_INTEGER s"

definition CBB_add_asn1_octet_string :: "allocator \<Rightarrow> nat \<Rightarrow> bytes \<Rightarrow> cbb \<Rightarrow> unit cbb_ret" where
  "CBB_add_asn1_octet_string mem d data s =
     cbb_goto_err d (
       cbb_bind (CBB_add_asn1 mem d CBS_ASN1_OCTETSTRING s) (\<lambda>_ s.
       cbb_bind (CBB_add_bytes mem (d + 1) data s) (\<lambda>_ s. CBB_flush mem d s)))"

definition CBB_add_asn1_bool :: "allocator \<Rightarrow> nat \<Rightarrow> bool \<Rightarrow> cbb \<Rightarrow> unit cbb_ret" where
  "CBB_add_asn1_bool mem d value s =
     cbb_goto_err d (
       cbb_bind (CBB_add_asn1 mem d CBS_ASN1_BOOLEAN s) (\<lambda>_ s.
       cbb_bind (CBB_add_u8 mem (d + 1) (if value then 0xff else 0) s) (\<lambda>_ s. CBB_flush mem d s)))"

section \<open>Object identifiers\<close>

definition parse_dotted_decimal :: "cbs \<Rightarrow> u64 cbs_ret" where
  "parse_dotted_decimal cbs = cbs_bind (CBS_get_u64_decimal cbs) (\<lambda>out cbs.
     case CBS_get_u8 cbs of
       (None, cbs) \<Rightarrow> (Some out, cbs)
     | (Some dot, cbs) \<Rightarrow> if dot = 0x2e \<and> CBS_len cbs > 0 then (Some out, cbs) else (None, cbs))"

lemma decimal_loop_length:
  "cbs_decimal_loop v seen cbs = (Some x, rest) \<Longrightarrow> length rest < length cbs \<or> seen \<and> rest = cbs"
proof (induction v seen cbs rule: cbs_decimal_loop.induct)
  case (2 v seen c cbs)
  then show ?case by (fastforce split: if_splits)
qed (auto split: if_splits)

lemma parse_dotted_decimal_length:
  "parse_dotted_decimal cbs = (Some x, rest) \<Longrightarrow> length rest < length cbs"
  by (auto simp: parse_dotted_decimal_def cbs_bind_Some CBS_get_u64_decimal_def CBS_get_u8_def cbs_get_def
      cbs_bind_def split: option.splits if_splits prod.splits dest!: decimal_loop_length)

text \<open>\<open>while (CBS_len(&cbs) > 0)\<close> over the remaining components.\<close>

function oid_text_loop :: "allocator \<Rightarrow> nat \<Rightarrow> cbs \<Rightarrow> cbb \<Rightarrow> unit cbb_ret" where
  "oid_text_loop mem d cbs s =
     (if CBS_len cbs > 0 then
        (case parse_dotted_decimal cbs of
           (None, _) \<Rightarrow> Some (None, s)
         | (Some a, cbs') \<Rightarrow>
             cbb_bind (add_base128_integer mem d a s) (\<lambda>_ s. oid_text_loop mem d cbs' s))
      else Some (Some (), s))"
  by pat_completeness auto
termination
  by (relation "measure (\<lambda>(mem, d, cbs, s). length cbs)") (auto dest: parse_dotted_decimal_length [OF sym])

declare oid_text_loop.simps [simp del]

definition CBB_add_asn1_oid_from_text :: "allocator \<Rightarrow> nat \<Rightarrow> bytes \<Rightarrow> cbb \<Rightarrow> unit cbb_ret" where
  "CBB_add_asn1_oid_from_text mem d text s = cbb_bind (CBB_flush mem d s) (\<lambda>_ s.
     case parse_dotted_decimal (CBS_init text) of (None, _) \<Rightarrow> Some (None, s) | (Some a, cbs) \<Rightarrow>
     case parse_dotted_decimal cbs of (None, _) \<Rightarrow> Some (None, s) | (Some b, cbs) \<Rightarrow>
     if a > 2 \<or> a < 2 \<and> b > 39 \<or> b > (- 1) - 80 then Some (None, s)
     else cbb_bind (add_base128_integer mem d (40 * a + b) s) (\<lambda>_ s. oid_text_loop mem d cbs s))"

text \<open>\<open>snprintf(buf, sizeof(buf), "%" PRIu64, v)\<close>\<close>

function print_u64 :: "u64 \<Rightarrow> bytes" where
  "print_u64 v = (if v < 10 then [0x30 + ucast v] else print_u64 (v div 10) @ [0x30 + ucast (v mod 10)])"
  by pat_completeness auto
termination
proof (relation "measure unat")
  fix v :: u64
  assume "\<not> v < 10"
  then have "unat v \<ge> 10" by (simp add: word_less_nat_alt not_less)
  then show "(v div 10, v) \<in> measure unat" by (simp add: unat_div_distrib)
qed simp

declare print_u64.simps [simp del]

definition add_decimal :: "allocator \<Rightarrow> nat \<Rightarrow> u64 \<Rightarrow> cbb \<Rightarrow> unit cbb_ret" where
  "add_decimal mem d v s = CBB_add_bytes mem d (print_u64 v) s"

lemma base128_loop_length: "parse_base128_loop v cbs = (Some x, rest) \<Longrightarrow> length rest < length cbs"
proof (induction v cbs rule: parse_base128_loop.induct)
  case (2 v b cbs)
  then show ?case by (fastforce simp: Let_def split: if_splits)
qed simp

lemma parse_base128_integer_length: "parse_base128_integer cbs = (Some x, rest) \<Longrightarrow> length rest < length cbs"
  unfolding parse_base128_integer_def by (rule base128_loop_length)

function oid_print_loop :: "allocator \<Rightarrow> cbs \<Rightarrow> cbb \<Rightarrow> unit cbb_ret" where
  "oid_print_loop mem copy s =
     (if CBS_len copy \<noteq> 0 then
        (case parse_base128_integer copy of
           (None, _) \<Rightarrow> Some (None, s)
         | (Some v, copy') \<Rightarrow>
             cbb_bind (CBB_add_u8 mem 0 0x2e s) (\<lambda>_ s.
             cbb_bind (add_decimal mem 0 v s) (\<lambda>_ s. oid_print_loop mem copy' s)))
      else Some (Some (), s))"
  by pat_completeness auto
termination
  by (relation "measure (\<lambda>(mem, copy, s). length copy)") (auto dest: parse_base128_integer_length [OF sym])

declare oid_print_loop.simps [simp del]

text \<open>The first component of the text, from the first integer of the encoding.\<close>

definition oid_print_first :: "allocator \<Rightarrow> u64 \<Rightarrow> cbb \<Rightarrow> unit cbb_ret" where
  "oid_print_first mem v cbb =
     (if v \<ge> 80 then
        cbb_bind (CBB_add_bytes mem 0 [0x32, 0x2e] cbb) (\<lambda>_ cbb. add_decimal mem 0 (v - 80) cbb)
      else
        cbb_bind (add_decimal mem 0 (v div 40) cbb) (\<lambda>_ cbb.
        cbb_bind (CBB_add_u8 mem 0 0x2e cbb) (\<lambda>_ cbb. add_decimal mem 0 (v mod 40) cbb)))"

text \<open>
  The inner option is the returned pointer, \<open>NULL\<close> on an error; the string is the bytes up
  to and including its terminator.
\<close>

definition CBS_asn1_oid_to_text :: "allocator \<Rightarrow> cbs \<Rightarrow> bytes option option" where
  "CBS_asn1_oid_to_text mem cbs =
     (case CBB_init mem 32 of None \<Rightarrow> Some None | Some cbb \<Rightarrow>
      case parse_base128_integer cbs of (None, _) \<Rightarrow> Some None | (Some v, copy) \<Rightarrow>
      map_option fst
        (cbb_bind (oid_print_first mem v cbb) (\<lambda>_ cbb. cbb_bind (oid_print_loop mem copy cbb) (\<lambda>_ cbb.
           cbb_bind (CBB_add_u8 mem 0 0 cbb) (\<lambda>_ cbb. CBB_finish mem 0 True cbb)))))"

section \<open>SET OF\<close>

fun OPENSSL_memcmp :: "bytes \<Rightarrow> bytes \<Rightarrow> int" where
  "OPENSSL_memcmp (x # xs) (y # ys) = (if x < y then - 1 else if y < x then 1 else OPENSSL_memcmp xs ys)"
| "OPENSSL_memcmp _ _ = 0"

definition compare_set_of_element :: "cbs \<Rightarrow> cbs \<Rightarrow> int" where
  "compare_set_of_element a b =
     (let a_len = CBS_len a; b_len = CBS_len b; min_len = (if a_len < b_len then a_len else b_len);
          ret = OPENSSL_memcmp (take min_len a) (take min_len b)
      in if ret \<noteq> 0 then ret else if a_len = b_len then 0 else if a_len < b_len then - 1 else 1)"

text \<open>The C library's \<open>qsort\<close>, as an insertion sort by the comparison function.\<close>

fun qsort_insert :: "('a \<Rightarrow> 'a \<Rightarrow> int) \<Rightarrow> 'a \<Rightarrow> 'a list \<Rightarrow> 'a list" where
  "qsort_insert cmp x [] = [x]"
| "qsort_insert cmp x (y # ys) = (if cmp x y \<le> 0 then x # y # ys else y # qsort_insert cmp x ys)"

definition qsort :: "('a \<Rightarrow> 'a \<Rightarrow> int) \<Rightarrow> 'a list \<Rightarrow> 'a list" where
  "qsort cmp xs = foldr (qsort_insert cmp) xs []"

lemma asn1_element_length:
  assumes "CBS_get_any_asn1_element cbs = (Some el, rest)"
  shows "length rest < length cbs"
proof -
  have "parse_asn1_tag [] = (None, [])" by (simp add: parse_asn1_tag_def)
  moreover have "CBS_get_u8 h = (Some lb, h') \<Longrightarrow> length h' < length h" for lb h h'
    by (cases h) auto
  moreover have "length h \<le> length cbs" if "parse_asn1_tag cbs = (Some t, h)" for t h
    using that parse_base128_integer_length
    by (cases cbs) (fastforce simp: parse_asn1_tag_def Let_def cbs_bind_Some split: if_splits)+
  ultimately show ?thesis
    using assms unfolding CBS_get_any_asn1_element_def cbs_get_any_asn1_element_def
    by (fastforce simp: Let_def CBS_get_bytes_eq CBS_len_def cbs_bind_Some split: prod.splits option.splits if_splits)
qed

text \<open>The two passes over the elements: counting them, then collecting \<open>num_children\<close> of them.\<close>

function set_of_count :: "nat \<Rightarrow> cbs \<Rightarrow> nat option" where
  "set_of_count num_children cbs =
     (if CBS_len cbs \<noteq> 0 then
        (case CBS_get_any_asn1_element cbs of
           (None, _) \<Rightarrow> None
         | (Some _, cbs') \<Rightarrow> set_of_count (num_children + 1) cbs')
      else Some num_children)"
  by pat_completeness auto
termination
  by (relation "measure (\<lambda>(n, cbs). length cbs)") (auto dest: asn1_element_length [OF sym])

declare set_of_count.simps [simp del]

fun set_of_children :: "nat \<Rightarrow> cbs \<Rightarrow> cbs list option" where
  "set_of_children 0 cbs = Some []"
| "set_of_children (Suc i) cbs =
     (case CBS_get_any_asn1_element cbs of
        (None, _) \<Rightarrow> None
      | (Some el, cbs) \<Rightarrow> map_option ((#) (out_cbs el)) (set_of_children i cbs))"

fun set_of_write :: "nat \<Rightarrow> cbs list \<Rightarrow> cbb_buffer \<Rightarrow> cbb_buffer option" where
  "set_of_write out [] b = Some b"
| "set_of_write out (c # cs) b =
     (case buf_write b out c of None \<Rightarrow> None | Some b \<Rightarrow> set_of_write (out + CBS_len c) cs b)"

definition OPENSSL_calloc_ok :: "allocator \<Rightarrow> nat \<Rightarrow> nat \<Rightarrow> bool" where
  "OPENSSL_calloc_ok mem num sz \<longleftrightarrow>
     (if sz \<noteq> 0 \<and> (of_nat num :: u64) > (- 1) div of_nat sz then False
      else OPENSSL_malloc mem (num * sz) \<noteq> None)"

text \<open>The rest of \<open>CBB_flush_asn1_set_of\<close> after its \<open>CBB_flush\<close>.\<close>

definition set_of_sort :: "allocator \<Rightarrow> nat \<Rightarrow> cbb \<Rightarrow> unit cbb_ret" where
  "set_of_sort mem d s =
     (case (CBB_data_offset d s, CBB_data d s, CBB_len d s) of
       (Some out, Some data, Some buf_len) \<Rightarrow>
         (case set_of_count 0 (CBS_init (take buf_len data)) of
            None \<Rightarrow> Some (None, s)
          | Some num_children \<Rightarrow>
              if num_children < 2 then Some (Some (), s)
              else
                (case OPENSSL_memdup (\<lambda>n. OPENSSL_malloc mem n \<noteq> None) (take buf_len data) of
                   None \<Rightarrow> Some (None, s)
                 | Some buf \<Rightarrow>
                     if \<not> OPENSSL_calloc_ok mem num_children 16 then Some (None, s)
                     else
                       (case set_of_children num_children (CBS_init buf) of
                          None \<Rightarrow> Some (None, s)
                        | Some els \<Rightarrow>
                            if length (concat els) \<noteq> buf_len then None
                            else map_option (\<lambda>b. (Some (), s\<lparr>cbb_base := b\<rparr>))
                              (set_of_write out (qsort compare_set_of_element els) (cbb_base s)))))
     | _ \<Rightarrow> None)"

definition CBB_flush_asn1_set_of :: "allocator \<Rightarrow> nat \<Rightarrow> cbb \<Rightarrow> unit cbb_ret" where
  "CBB_flush_asn1_set_of mem d s = cbb_bind (CBB_flush mem d s) (\<lambda>_ s. set_of_sort mem d s)"

section \<open>asn1\_compat.c\<close>

text \<open>
  \<open>CBB_finish_i2d\<close>: the outer option is a failed \<open>assert\<close>; the result is the returned
  length, \<open>-1\<close> on an error, and the bytes written for the caller.
\<close>

definition CBB_finish_i2d :: "allocator \<Rightarrow> nat \<Rightarrow> cbb \<Rightarrow> (int \<times> bytes) option" where
  "CBB_finish_i2d mem d s =
     (if d > 0 \<or> \<not> can_resize (cbb_base s) then None
      else case CBB_finish mem d True s of
          None \<Rightarrow> None
        | Some (None, _) \<Rightarrow> Some (- 1, [])
        | Some (Some der, _) \<Rightarrow>
            if (of_nat (length der) :: u64) > 0x7fffffff then Some (- 1, []) else Some (int (length der), der))"

end
