(* ===== verification/Cbb_Ops.thy ===== *)
theory Cbb_Ops
  imports Cbb_Refine
begin

text \<open>
  Every operation of the builder against its abstract counterpart: appending bytes and
  integers, opening, closing and discarding children, reserving space and finishing. Each
  lemma says that the behaviour is defined, that a failure locks the builder and has a
  reason, and what the output is. \<open>byte_sink\<close> is the interface through which encoders that
  write byte by byte use a builder.
\<close>

section \<open>Appending\<close>

definition a_add :: "nat \<Rightarrow> bytes \<Rightarrow> bytes \<times> frames \<Rightarrow> (bytes \<times> frames) option" where
  "a_add d e a = map_option (a_append e) (a_flush d a)"

text \<open>
  \<open>appends mem d f e\<close>: the operation \<open>f\<close> on the builder at depth \<open>d\<close> appends \<open>e\<close>,
  and it fails only where a child cannot be closed or there is no room for \<open>e\<close>.
\<close>

definition appends :: "allocator \<Rightarrow> nat \<Rightarrow> (cbb \<Rightarrow> unit cbb_ret) \<Rightarrow> bytes \<Rightarrow> bool" where
  "appends mem d f e \<longleftrightarrow> (alloc_ok mem \<longrightarrow> (\<forall>s a. cbb_rel2 s a \<longrightarrow> d \<le> length (snd a) \<longrightarrow>
     cbb_wp (f s)
       (\<lambda>s'. failed d s' \<and> (\<forall>a'. a_add d e a = Some a' \<longrightarrow> \<not> cbb_room mem (cbb_base s) (alen a')))
       (\<lambda>_ s'. \<exists>a'. a_add d e a = Some a' \<and> cbb_rel2 s' a' \<and> length (snd a') = d \<and>
          grows (cbb_base s) (cbb_base s'))))"

lemma appendsD:
  "appends mem d f e \<Longrightarrow> alloc_ok mem \<Longrightarrow> cbb_rel2 s a \<Longrightarrow> d \<le> length (snd a) \<Longrightarrow>
     cbb_wp (f s)
       (\<lambda>s'. failed d s' \<and> (\<forall>a'. a_add d e a = Some a' \<longrightarrow> \<not> cbb_room mem (cbb_base s) (alen a')))
       (\<lambda>_ s'. \<exists>a'. a_add d e a = Some a' \<and> cbb_rel2 s' a' \<and> length (snd a') = d \<and>
          grows (cbb_base s) (cbb_base s'))"
  unfolding appends_def by blast

lemma a_flush_len: "length (snd a) = d \<Longrightarrow> a_flush d a = Some a"
  by (simp add: a_flush_def)

lemma a_append_append: "a_append e2 (a_append e1 a) = a_append (e1 @ e2) a"
  by (cases a; cases "snd a") auto

lemma a_append_len: "length (snd (a_append e a)) = length (snd a)"
  by (cases a) (simp add: a_append_simps)

lemma a_add_add:
  assumes "a_add d e1 a = Some a'" "length (snd a') = d"
  shows "a_add d e2 a' = a_add d (e1 @ e2) a"
  using assms by (auto simp: a_add_def a_append_append a_flush_len)

lemma appends_seq:
  assumes "appends mem d f e1" "appends mem d g e2"
  shows "appends mem d (\<lambda>s. cbb_bind (f s) (\<lambda>_ s'. g s')) (e1 @ e2)"
  unfolding appends_def
proof (intro impI allI)
  fix s a assume h: "alloc_ok mem" "cbb_rel2 s a" "d \<le> length (snd a)"
  let ?E = "\<lambda>s'. failed d s' \<and> (\<forall>a'. a_add d (e1 @ e2) a = Some a' \<longrightarrow> \<not> cbb_room mem (cbb_base s) (alen a'))"
  let ?Q = "\<lambda>_ s'. \<exists>a'. a_add d (e1 @ e2) a = Some a' \<and> cbb_rel2 s' a' \<and> length (snd a') = d \<and>
          grows (cbb_base s) (cbb_base s')"
  show "cbb_wp (cbb_bind (f s) (\<lambda>_ s'. g s')) ?E ?Q"
    unfolding cbb_wp_bind
  proof (rule cbb_wp_mono [OF appendsD [OF assms(1) h]])
    fix s' assume E: "failed d s' \<and> (\<forall>a'. a_add d e1 a = Some a' \<longrightarrow> \<not> cbb_room mem (cbb_base s) (alen a'))"
    have "\<not> cbb_room mem (cbb_base s) (alen (a_append (e1 @ e2) b))" if "a_flush d a = Some b" for b
      using E that cbb_room_mono [of mem "cbb_base s" "alen (a_append (e1 @ e2) b)" "alen (a_append e1 b)"]
      by (auto simp: a_add_def)
    then show "?E s'" using E by (auto simp: a_add_def simp del: alen_append)
  next
    fix x s1 assume "\<exists>a'. a_add d e1 a = Some a' \<and> cbb_rel2 s1 a' \<and> length (snd a') = d \<and>
      grows (cbb_base s) (cbb_base s1)"
    then obtain a1 where a1: "a_add d e1 a = Some a1" "cbb_rel2 s1 a1" "length (snd a1) = d"
      "grows (cbb_base s) (cbb_base s1)" by blast
    show "cbb_wp (g s1) ?E ?Q"
      by (rule cbb_wp_mono [OF appendsD [OF assms(2) h(1) a1(2)]])
        (use a1 a_add_add [OF a1(1,3), of e2] cbb_room_grows [OF a1(4), of mem] grows_trans [OF a1(4)] in auto)
  qed
qed

text \<open>
  An operation that is a flush followed by a step on a builder without a pending child:
  it is enough to know the step.
\<close>

lemma appends_flushI:
  assumes "\<And>s. f s = cbb_bind (CBB_flush mem d s) (\<lambda>_ s'. g s')"
    and step: "\<And>s a. alloc_ok mem \<Longrightarrow> cbb_rel2 s a \<Longrightarrow> length (snd a) = d \<Longrightarrow>
      cbb_wp (g s) (\<lambda>s'. failed d s' \<and> \<not> cbb_room mem (cbb_base s) (alen (a_append e a)))
        (\<lambda>_ s'. cbb_rel2 s' (a_append e a) \<and> grows (cbb_base s) (cbb_base s'))"
  shows "appends mem d f e"
  unfolding appends_def assms(1) cbb_wp_bind
proof (intro impI allI)
  fix s a assume h: "alloc_ok mem" "cbb_rel2 s a" "d \<le> length (snd a)"
  let ?E = "\<lambda>s'. failed d s' \<and> (\<forall>a'. a_add d e a = Some a' \<longrightarrow> \<not> cbb_room mem (cbb_base s) (alen a'))"
  let ?Q = "\<lambda>_ s'. \<exists>a'. a_add d e a = Some a' \<and> cbb_rel2 s' a' \<and> length (snd a') = d \<and>
          grows (cbb_base s) (cbb_base s')"
  show "cbb_wp (CBB_flush mem d s) ?E (\<lambda>_ s'. cbb_wp (g s') ?E ?Q)"
  proof (rule cbb_wp_mono [OF CBB_flush_refines [OF h]])
    fix s' assume E: "failed d s' \<and> (\<forall>a'. a_flush d a = Some a' \<longrightarrow> \<not> cbb_room mem (cbb_base s) (alen a'))"
    have "\<not> cbb_room mem (cbb_base s) (alen (a_append e b))" if "a_flush d a = Some b" for b
      using E that cbb_room_mono [of mem "cbb_base s" "alen (a_append e b)" "alen b"] by auto
    then show "?E s'" using E by (auto simp: a_add_def simp del: alen_append)
  next
    fix x s1 assume "\<exists>a'. a_flush d a = Some a' \<and> cbb_rel2 s1 a' \<and> length (snd a') = d \<and>
      grows (cbb_base s) (cbb_base s1)"
    then obtain a1 where a1: "a_flush d a = Some a1" "cbb_rel2 s1 a1" "length (snd a1) = d"
      "grows (cbb_base s) (cbb_base s1)" by blast
    show "cbb_wp (g s1) ?E ?Q"
      by (rule cbb_wp_mono [OF step [OF h(1) a1(2,3)]])
        (use a1 cbb_room_grows [OF a1(4), of mem "alen (a_append e a1)"] grows_trans [OF a1(4)]
          in \<open>auto simp: a_add_def a_append_len simp del: alen_append\<close>)
  qed
qed

lemma length_contents_rel: "cbb_rel s root fs \<Longrightarrow> length (contents (cbb_base s)) = blen (cbb_base s)"
  by (rule length_contents) (simp add: cbb_rel_def)

lemma blen_rel: "cbb_rel2 s a \<Longrightarrow> blen (cbb_base s) = alen a"
  using length_contents_rel [of s "fst a" "snd a"] by (simp add: alen_def cbb_rel_def)

text \<open>The space that \<open>cbb_buffer_add\<close> makes is at the end of the output.\<close>

lemma add_space_step:
  assumes "alloc_ok mem" "cbb_rel2 s a" "n < 2 ^ 64" and d: "length (snd a) = d"
    and w: "\<And>b junk. buf_ok b \<Longrightarrow> contents b = contents (cbb_base s) @ junk \<Longrightarrow> length junk = n \<Longrightarrow>
      blen b = blen (cbb_base s) + n \<Longrightarrow> \<exists>b'. wr (blen (cbb_base s)) (s\<lparr>cbb_base := b\<rparr>) = Some (Some (), s\<lparr>cbb_base := b'\<rparr>) \<and>
        buf_ok b' \<and> contents b' = contents (cbb_base s) @ e \<and> berror b' = berror b \<and> blen b' = blen b \<and>
        bcap b' = bcap b \<and> can_resize b' = can_resize b"
    and n: "length e = n"
  shows "cbb_wp (case cbb_buffer_add mem (cbb_base s) n of
       (False, b) \<Rightarrow> Some (None, s\<lparr>cbb_base := b\<rparr>)
     | (True, b) \<Rightarrow> wr (blen (cbb_base s)) (s\<lparr>cbb_base := b\<rparr>))
     (\<lambda>s'. failed d s' \<and> \<not> cbb_room mem (cbb_base s) (alen (a_append e a)))
     (\<lambda>_ s'. cbb_rel2 s' (a_append e a) \<and> grows (cbb_base s) (cbb_base s'))"
proof (cases "cbb_buffer_add mem (cbb_base s) n")
  case (Pair ok b)
  have r: "buf_ok (cbb_base s)" "\<not> berror (cbb_base s)" "contents (cbb_base s) = flat (fst a) (snd a)"
    "children s = chain (fst a) (snd a)" "list_all (\<lambda>(k, _). kind_ok k) (snd a)"
    using assms(2) by (simp_all add: cbb_rel_def)
  show ?thesis
  proof (cases ok)
    case False
    then show ?thesis
      using Pair buffer_add_fail [of mem "cbb_base s" n b] buffer_add_live [OF r(1), of mem n] n
        blen_rel [OF assms(2)] r(4) d by (auto simp: failed_def)
  next
    case True
    from buffer_add_ok [OF assms(1) r(1) assms(3), of b] Pair True obtain junk where
      b: "buf_ok b" "blen b = blen (cbb_base s) + n" "contents b = contents (cbb_base s) @ junk"
        "length junk = n" "berror b = berror (cbb_base s)" "grows (cbb_base s) b" by auto
    from w [OF b(1,3,4,2)] obtain b' where
      b': "wr (blen (cbb_base s)) (s\<lparr>cbb_base := b\<rparr>) = Some (Some (), s\<lparr>cbb_base := b'\<rparr>)" "buf_ok b'"
        "contents b' = contents (cbb_base s) @ e" "berror b' = berror b" "blen b' = blen b"
        "bcap b' = bcap b" "can_resize b' = can_resize b" by blast
    have "grows (cbb_base s) b'" using b(6) b' by (simp add: grows_def)
    then show ?thesis
      using Pair True b b' r n cbb_rel_append [of "s\<lparr>cbb_base := b'\<rparr>" e "fst a" "snd a"] by simp
  qed
qed

lemma buf_write_end:
  assumes "buf_ok b" "contents b = xs @ junk" "length junk = length e"
  obtains b' where "buf_write b (length xs) e = Some b'" "buf_ok b'" "contents b' = xs @ e"
    "blen b' = blen b" "bcap b' = bcap b" "berror b' = berror b" "can_resize b' = can_resize b"
proof -
  have "contents b = xs @ junk @ []" using assms(2) by simp
  from buf_write_ok [OF assms(1) this, of e] assms(3) that show thesis by auto
qed

lemma CBB_add_space_bind:
  "cbb_bind (CBB_add_space mem d n s) f = cbb_bind (CBB_flush mem d s) (\<lambda>_ s.
     case cbb_buffer_add mem (cbb_base s) n of
       (False, b) \<Rightarrow> Some (None, s\<lparr>cbb_base := b\<rparr>)
     | (True, b) \<Rightarrow> f (blen (cbb_base s)) (s\<lparr>cbb_base := b\<rparr>))"
  by (simp add: CBB_add_space_def cbb_bind_def split: option.splits prod.splits bool.splits)

lemma appends_space_write:
  assumes "length e < 2 ^ 64"
  shows "appends mem d (\<lambda>s. cbb_bind (CBB_add_space mem d (length e) s) (\<lambda>out s. cbb_write out e s)) e"
proof (rule appends_flushI [OF CBB_add_space_bind])
  fix s a assume h: "alloc_ok mem" "cbb_rel2 s a" "length (snd a) = d"
  show "cbb_wp (case cbb_buffer_add mem (cbb_base s) (length e) of
       (True, b) \<Rightarrow> cbb_write (blen (cbb_base s)) e (s\<lparr>cbb_base := b\<rparr>)
     | (False, b) \<Rightarrow> Some (None, s\<lparr>cbb_base := b\<rparr>))
     (\<lambda>s'. failed d s' \<and> \<not> cbb_room mem (cbb_base s) (alen (a_append e a)))
     (\<lambda>_ s'. cbb_rel2 s' (a_append e a) \<and> grows (cbb_base s) (cbb_base s'))"
  proof (rule add_space_step [OF h(1,2) assms h(3), where wr = "\<lambda>out s. cbb_write out e s"])
    fix b junk assume b: "buf_ok b" "contents b = contents (cbb_base s) @ junk" "length junk = length e"
    note length_contents_rel [OF h(2)]
    then show "\<exists>b'. cbb_write (blen (cbb_base s)) e (s\<lparr>cbb_base := b\<rparr>) = Some (Some (), s\<lparr>cbb_base := b'\<rparr>) \<and>
        buf_ok b' \<and> contents b' = contents (cbb_base s) @ e \<and> berror b' = berror b \<and> blen b' = blen b \<and>
        bcap b' = bcap b \<and> can_resize b' = can_resize b"
      by (rule_tac buf_write_end [OF b]) (auto simp: cbb_write_def)
  qed simp
qed

lemma CBB_add_bytes_appends: "length data < 2 ^ 64 \<Longrightarrow> appends mem d (CBB_add_bytes mem d data) data"
  using appends_space_write [of data mem d] by (simp add: CBB_add_bytes_def [abs_def])

lemma CBB_add_zeros_appends: "n < 2 ^ 64 \<Longrightarrow> appends mem d (CBB_add_zeros mem d n) (replicate n 0)"
  using appends_space_write [of "replicate n 0" mem d] by (simp add: CBB_add_zeros_def [abs_def])

lemma cbb_add_u_appends:
  assumes "unat v < 256 ^ n" "n < 2 ^ 64"
  shows "appends mem d (cbb_add_u mem d v n) (be_bytes n (unat v))"
proof -
  define wr where "wr = (\<lambda>out s. case cbb_write_be n out v (cbb_base s) of
         None \<Rightarrow> None
       | Some (v, b) \<Rightarrow>
           let s = s\<lparr>cbb_base := b\<rparr>
           in if v \<noteq> 0 then Some (None, cbb_on_error d s) else Some (Some (), s))"
  have "appends mem d (\<lambda>s. cbb_bind (CBB_add_space mem d n s) wr) (be_bytes n (unat v))"
  proof (rule appends_flushI [OF CBB_add_space_bind])
    fix s a assume h: "alloc_ok mem" "cbb_rel2 s a" "length (snd a) = d"
    show "cbb_wp (case cbb_buffer_add mem (cbb_base s) n of
         (True, b) \<Rightarrow> wr (blen (cbb_base s)) (s\<lparr>cbb_base := b\<rparr>)
       | (False, b) \<Rightarrow> Some (None, s\<lparr>cbb_base := b\<rparr>))
       (\<lambda>s'. failed d s' \<and> \<not> cbb_room mem (cbb_base s) (alen (a_append (be_bytes n (unat v)) a)))
       (\<lambda>_ s'. cbb_rel2 s' (a_append (be_bytes n (unat v)) a) \<and> grows (cbb_base s) (cbb_base s'))"
    proof (rule add_space_step [OF h(1,2) assms(2) h(3)])
      fix b junk assume b: "buf_ok b" "contents b = contents (cbb_base s) @ junk" "length junk = n"
      have c: "contents b = contents (cbb_base s) @ junk @ []" using b(2) by simp
      note length_contents_rel [OF h(2)]
      moreover have "drop_bit (8 * n) v = 0" using drop_bytes_eq_0 [of n v] assms(1) by (simp add: mult.commute)
      ultimately show "\<exists>b'. wr (blen (cbb_base s)) (s\<lparr>cbb_base := b\<rparr>) = Some (Some (), s\<lparr>cbb_base := b'\<rparr>) \<and>
        buf_ok b' \<and> contents b' = contents (cbb_base s) @ be_bytes n (unat v) \<and> berror b' = berror b \<and>
        blen b' = blen b \<and> bcap b' = bcap b \<and> can_resize b' = can_resize b"
        using write_be_ok [OF b(1) c b(3), of v] by (auto simp: wr_def Let_def)
    qed simp
  qed
  then show ?thesis by (simp add: cbb_add_u_def [abs_def] wr_def)
qed

lemma unat_ucast_u64:
  "unat (ucast (x::u8) :: u64) = unat x" "unat (ucast (y::u16) :: u64) = unat y"
  "unat (ucast (z::u32) :: u64) = unat z"
  by (simp_all add: unat_ucast_le)

lemma CBB_add_u8_appends: "appends mem d (CBB_add_u8 mem d v) [v]"
proof -
  have "of_nat (unat v) = v" by simp
  then show ?thesis using cbb_add_u_appends [of "ucast v" 1 mem d]
    by (simp add: CBB_add_u8_def [abs_def] unat_ucast_u64 del: of_nat_unat)
qed

lemma CBB_add_u16_appends: "appends mem d (CBB_add_u16 mem d v) (be_bytes 2 (unat v))"
  using cbb_add_u_appends [of "ucast v" 2 mem d] unat_lt_power [of v]
  by (simp add: CBB_add_u16_def [abs_def] unat_ucast_u64)

lemma CBB_add_u24_appends: "unat v < 2 ^ 24 \<Longrightarrow> appends mem d (CBB_add_u24 mem d v) (be_bytes 3 (unat v))"
  using cbb_add_u_appends [of "ucast v" 3 mem d] by (simp add: CBB_add_u24_def [abs_def] unat_ucast_u64)

lemma CBB_add_u32_appends: "appends mem d (CBB_add_u32 mem d v) (be_bytes 4 (unat v))"
  using cbb_add_u_appends [of "ucast v" 4 mem d] unat_lt_power [of v]
  by (simp add: CBB_add_u32_def [abs_def] unat_ucast_u64)

lemma CBB_add_u64_appends: "appends mem d (CBB_add_u64 mem d v) (be_bytes 8 (unat v))"
  using cbb_add_u_appends [of v 8 mem d] unat_lt_power [of v] by (simp add: CBB_add_u64_def [abs_def])

section \<open>Opening, discarding and reading children\<close>

text \<open>
  \<open>opens mem d f e k\<close>: the operation \<open>f\<close> on the builder at depth \<open>d\<close> appends \<open>e\<close>
  and then opens an empty child of kind \<open>k\<close> at depth \<open>d + 1\<close>.
\<close>

definition opens :: "allocator \<Rightarrow> nat \<Rightarrow> (cbb \<Rightarrow> unit cbb_ret) \<Rightarrow> bytes \<Rightarrow> frame_kind \<Rightarrow> bool" where
  "opens mem d f e k \<longleftrightarrow> (alloc_ok mem \<longrightarrow> (\<forall>s a. cbb_rel2 s a \<longrightarrow> d \<le> length (snd a) \<longrightarrow>
     cbb_wp (f s)
       (\<lambda>s'. failed d s' \<and> (\<forall>a'. a_add d e a = Some a' \<longrightarrow> \<not> cbb_room mem (cbb_base s) (alen a' + plen k)))
       (\<lambda>_ s'. \<exists>a'. a_add d e a = Some a' \<and> cbb_rel s' (fst a') ((k, []) # snd a') \<and> length (snd a') = d \<and>
          grows (cbb_base s) (cbb_base s'))))"

lemma add_child_ok:
  assumes "alloc_ok mem" "cbb_rel2 s a" "length (snd a) = d" "kind_ok k"
  shows "cbb_wp (cbb_add_child mem d (plen k) (k = Asn1) s)
    (\<lambda>s'. failed d s' \<and> \<not> cbb_room mem (cbb_base s) (alen a + plen k))
    (\<lambda>_ s'. cbb_rel s' (fst a) ((k, []) # snd a) \<and> grows (cbb_base s) (cbb_base s'))"
proof (cases "cbb_buffer_add mem (cbb_base s) (plen k)")
  case (Pair ok b)
  have r: "buf_ok (cbb_base s)" "\<not> berror (cbb_base s)" "contents (cbb_base s) = flat (fst a) (snd a)"
    "children s = chain (fst a) (snd a)" "list_all (\<lambda>(k, _). kind_ok k) (snd a)"
    using assms(2) by (simp_all add: cbb_rel_def)
  have p: "plen k < 2 ^ 64" using plen_le [OF assms(4)] by simp
  have nk: "\<not> (d \<noteq> length (children s) \<or> k = Asn1 \<and> plen k \<noteq> 1)"
    using assms(3) r(4) by auto
  have u: "cbb_add_child mem d (plen k) (k = Asn1) s =
      (let off = blen (cbb_base s)
        in case cbb_buffer_add mem (cbb_base s) (plen k) of
             (False, b) \<Rightarrow> Some (None, s\<lparr>cbb_base := b\<rparr>)
           | (True, b) \<Rightarrow>
               map_option (\<lambda>b. (Some (), s\<lparr>cbb_base := b, children := children s @
                   [\<lparr>c_offset = off, pending_len_len = plen k, pending_is_asn1 = (k = Asn1)\<rparr>]\<rparr>))
                 (buf_write b off (replicate (plen k) 0)))"
    unfolding cbb_add_child_def by (rule if_not_P [OF nk])
  show ?thesis
  proof (cases ok)
    case False
    then show ?thesis
      using u Pair buffer_add_fail [of mem "cbb_base s" "plen k" b] buffer_add_live [OF r(1), of mem "plen k"]
        blen_rel [OF assms(2)] r(4) assms(3) by (auto simp: failed_def)
  next
    case True
    from buffer_add_ok [OF assms(1) r(1) p, of b] Pair True obtain junk where
      b: "buf_ok b" "blen b = blen (cbb_base s) + plen k" "contents b = contents (cbb_base s) @ junk"
        "length junk = plen k" "berror b = berror (cbb_base s)" "grows (cbb_base s) b" by auto
    from buf_write_end [OF b(1,3), of "replicate (plen k) 0"] b(4) obtain b' where
      w: "buf_write b (length (contents (cbb_base s))) (replicate (plen k) 0) = Some b'" "buf_ok b'"
        "contents b' = contents (cbb_base s) @ replicate (plen k) 0" "blen b' = blen b" "bcap b' = bcap b"
        "berror b' = berror b" "can_resize b' = can_resize b" by auto
    have "grows (cbb_base s) b'" using b(6) w by (simp add: grows_def)
    then show ?thesis
      using u Pair True b w r length_contents_rel [OF assms(2)] assms(4) by (simp add: cbb_rel_def Let_def)
  qed
qed

lemma a_add_Nil: "a_add d [] a = a_flush d a"
proof -
  have "a_append [] b = b" for b by (cases b; cases "snd b") auto
  then show ?thesis by (simp add: a_add_def option.map_ident_strong)
qed

lemma CBB_flush_appends: "appends mem d (CBB_flush mem d) []"
  unfolding appends_def a_add_Nil using CBB_flush_refines by blast

lemma opens_child:
  assumes f: "appends mem d f e" and k: "kind_ok k"
  shows "opens mem d (\<lambda>s. cbb_bind (f s) (\<lambda>_ s'. cbb_add_child mem d (plen k) (k = Asn1) s')) e k"
  unfolding opens_def cbb_wp_bind
proof (intro impI allI)
  fix s a assume h: "alloc_ok mem" "cbb_rel2 s a" "d \<le> length (snd a)"
  let ?E = "\<lambda>s'. failed d s' \<and> (\<forall>a'. a_add d e a = Some a' \<longrightarrow> \<not> cbb_room mem (cbb_base s) (alen a' + plen k))"
  let ?Q = "\<lambda>_ s'. \<exists>a'. a_add d e a = Some a' \<and> cbb_rel s' (fst a') ((k, []) # snd a') \<and>
          length (snd a') = d \<and> grows (cbb_base s) (cbb_base s')"
  show "cbb_wp (f s) ?E (\<lambda>_ s'. cbb_wp (cbb_add_child mem d (plen k) (k = Asn1) s') ?E ?Q)"
  proof (rule cbb_wp_mono [OF appendsD [OF f h]])
    fix s' assume "failed d s' \<and> (\<forall>a'. a_add d e a = Some a' \<longrightarrow> \<not> cbb_room mem (cbb_base s) (alen a'))"
    then show "?E s'" using cbb_room_mono [of mem "cbb_base s"] by (metis le_add1)
  next
    fix x s1 assume "\<exists>a'. a_add d e a = Some a' \<and> cbb_rel2 s1 a' \<and> length (snd a') = d \<and>
      grows (cbb_base s) (cbb_base s1)"
    then obtain a1 where a1: "a_add d e a = Some a1" "cbb_rel2 s1 a1" "length (snd a1) = d"
      "grows (cbb_base s) (cbb_base s1)" by blast
    show "cbb_wp (cbb_add_child mem d (plen k) (k = Asn1) s1) ?E ?Q"
      by (rule cbb_wp_mono [OF add_child_ok [OF h(1) a1(2,3) k]])
        (use a1 cbb_room_grows [OF a1(4), of mem] grows_trans [OF a1(4)] in auto)
  qed
qed

lemma cbb_add_length_prefixed_opens:
  assumes "n \<le> 8"
  shows "opens mem d (cbb_add_length_prefixed mem d n) [] (Prefix n)"
  using opens_child [OF CBB_flush_appends, of "Prefix n"] assms
  by (simp add: cbb_add_length_prefixed_def [abs_def])

text \<open>Opening a child, writing its body and flushing the parent appends the closed child.\<close>

lemma a_add_top: "length fs = d \<Longrightarrow> a_add (Suc d) body (root, (k, b) # fs) = Some (root, (k, b @ body) # fs)"
  by (simp add: a_add_def a_flush_def)

lemma a_flush_top: "length fs = d \<Longrightarrow> a_close k b = Some c \<Longrightarrow>
    a_flush d (root, (k, b) # fs) = Some (a_append c (root, fs))"
  by (simp add: a_flush_Suc a_flush_len)

lemma appends_nested:
  assumes f: "opens mem d f e k" and g: "appends mem (Suc d) g body" and c: "a_close k body = Some c"
  shows "appends mem d (\<lambda>s. cbb_bind (f s) (\<lambda>_ s. cbb_bind (g s) (\<lambda>_ s. CBB_flush mem d s))) (e @ c)"
  unfolding appends_def cbb_wp_bind
proof (intro impI allI)
  fix s a assume h: "alloc_ok mem" "cbb_rel2 s a" "d \<le> length (snd a)"
  let ?E = "\<lambda>s'. failed d s' \<and> (\<forall>a'. a_add d (e @ c) a = Some a' \<longrightarrow> \<not> cbb_room mem (cbb_base s) (alen a'))"
  let ?Q = "\<lambda>_ s'. \<exists>a'. a_add d (e @ c) a = Some a' \<and> cbb_rel2 s' a' \<and> length (snd a') = d \<and>
          grows (cbb_base s) (cbb_base s')"
  have tot: "a_add d (e @ c) a = Some (a_append c a1) \<and> plen k + length body \<le> length c" if "a_add d e a = Some a1" for a1
    using that a_close_length [OF c] by (auto simp: a_add_def a_append_append)
  note room = cbb_room_mono [of mem "cbb_base s"]
  have flush: "cbb_wp (CBB_flush mem d s2) ?E ?Q"
    if a1: "a_add d e a = Some a1" "length (snd a1) = d" and r: "cbb_rel s2 (fst a1) ((k, body) # snd a1)"
      and gr: "grows (cbb_base s) (cbb_base s2)" for a1 s2
    by (rule cbb_wp_mono [OF CBB_flush_refines [OF h(1), of s2 "(fst a1, (k, body) # snd a1)" d]])
      (use r a1 a_flush_top [OF a1(2) c, of "fst a1"] tot [OF a1(1)] cbb_room_grows [OF gr] grows_trans [OF gr]
        in \<open>auto simp del: alen_append\<close>)
  have body: "cbb_wp (g s1) ?E (\<lambda>_ s2. cbb_wp (CBB_flush mem d s2) ?E ?Q)"
    if a1: "a_add d e a = Some a1" "length (snd a1) = d" and r: "cbb_rel s1 (fst a1) ((k, []) # snd a1)"
      and gr: "grows (cbb_base s) (cbb_base s1)" for a1 s1
  proof (rule cbb_wp_mono [OF appendsD [OF g h(1), of s1 "(fst a1, (k, []) # snd a1)"]])
    fix s' assume "failed (Suc d) s' \<and> (\<forall>a'. a_add (Suc d) body (fst a1, (k, []) # snd a1) = Some a' \<longrightarrow>
      \<not> cbb_room mem (cbb_base s1) (alen a'))"
    then have "failed d s'" "\<not> cbb_room mem (cbb_base s1) (alen a1 + plen k + length body)"
      using a_add_top [OF a1(2)] by (auto simp: failed_def alen_def add.assoc)
    then show "?E s'"
      using tot [OF a1(1)] room [of "alen (a_append c a1)" "alen a1 + plen k + length body"]
        cbb_room_grows [OF gr] by auto
  next
    fix x s2 assume "\<exists>a'. a_add (Suc d) body (fst a1, (k, []) # snd a1) = Some a' \<and> cbb_rel2 s2 a' \<and>
      length (snd a') = Suc d \<and> grows (cbb_base s1) (cbb_base s2)"
    then show "cbb_wp (CBB_flush mem d s2) ?E ?Q"
      using flush [OF a1, of s2] a_add_top [OF a1(2)] grows_trans [OF gr] by auto
  qed (use r a1 in auto)
  show "cbb_wp (f s) ?E (\<lambda>_ s1. cbb_wp (g s1) ?E (\<lambda>_ s2. cbb_wp (CBB_flush mem d s2) ?E ?Q))"
  proof (rule cbb_wp_mono [OF f [unfolded opens_def, rule_format, OF h]])
    fix s' assume E: "failed d s' \<and> (\<forall>a'. a_add d e a = Some a' \<longrightarrow> \<not> cbb_room mem (cbb_base s) (alen a' + plen k))"
    have "\<not> cbb_room mem (cbb_base s) (alen (a_append c a1))" if "a_add d e a = Some a1" for a1
      using E that tot [OF that] room [of "alen (a_append c a1)" "alen a1 + plen k"] by auto
    then show "?E s'" using E tot by (cases "a_flush d a") (auto simp: a_add_def simp del: alen_append)
  qed (use body in blast)
qed

text \<open>Discarding the child of the builder at depth \<open>d\<close> drops it and everything below it.\<close>

lemma flat_chain_drop:
  "m \<le> length fs \<Longrightarrow> chain root (drop m fs) = take (length fs - m) (chain root fs) \<and>
     (\<exists>rest. flat root fs = flat root (drop m fs) @ rest) \<and>
     (0 < m \<longrightarrow> c_offset (chain root fs ! (length fs - m)) = length (flat root (drop m fs)))"
proof (induction m arbitrary: fs)
  case (Suc m)
  then obtain f fs' where fs: "fs = f # fs'" by (cases fs) auto
  obtain k b where f: "f = (k, b)" by (cases f)
  have m: "m \<le> length fs'" using Suc.prems fs by simp
  show ?case
  proof (cases "m = 0")
    case True
    then show ?thesis using fs f by (simp add: nth_append)
  next
    case False
    then show ?thesis using Suc.IH [OF m] fs f m by (auto simp: nth_append)
  qed
qed simp

lemma CBB_discard_child_refines:
  assumes "cbb_rel s root fs" "d \<le> length fs"
  shows "cbb_rel (CBB_discard_child d s) root (drop (length fs - d) fs)"
proof (cases "d = length fs")
  case True
  then show ?thesis using assms by (simp add: CBB_discard_child_def cbb_rel_def)
next
  case False
  let ?m = "length fs - d" and ?b = "cbb_base s"
  have r: "buf_ok ?b" "\<not> berror ?b" "contents ?b = flat root fs" "children s = chain root fs"
    "list_all (\<lambda>(k, _). kind_ok k) fs"
    using assms by (simp_all add: cbb_rel_def)
  from flat_chain_drop [of ?m fs root] obtain rest where
    c: "chain root (drop ?m fs) = take d (chain root fs)" "flat root fs = flat root (drop ?m fs) @ rest"
      "c_offset (chain root fs ! d) = length (flat root (drop ?m fs))"
    using False assms(2) by auto
  have "blen ?b = length (flat root (drop ?m fs)) + length rest"
    using length_contents [OF r(1)] r(3) c(2) by (metis length_append)
  moreover have "take (length (flat root (drop ?m fs))) (take (blen ?b) (bbuf ?b)) = flat root (drop ?m fs)"
    using r(3) c(2) unfolding contents_def by simp
  moreover have "list_all (\<lambda>(k, _). kind_ok k) (drop ?m fs)"
    using r(5) by (metis append_take_drop_id list_all_append)
  ultimately show ?thesis
    using r c False assms(2) by (simp add: CBB_discard_child_def cbb_rel_def buf_ok_def contents_def min_absorb1)
qed

text \<open>\<open>CBB_len\<close> and \<open>CBB_data\<close> read the body of the innermost open builder.\<close>

fun a_top :: "bytes \<times> frames \<Rightarrow> bytes" where
  "a_top (root, []) = root"
| "a_top (root, (k, b) # fs) = b"

lemma CBB_len_data:
  assumes "cbb_rel2 s a"
  shows "CBB_len (length (snd a)) s = Some (length (a_top a)) \<and>
    (\<exists>junk. CBB_data (length (snd a)) s = Some (a_top a @ junk))"
proof -
  let ?b = "cbb_base s"
  have r: "contents ?b = flat (fst a) (snd a)" "children s = chain (fst a) (snd a)"
    using assms by (simp_all add: cbb_rel_def)
  have l: "blen ?b = length (flat (fst a) (snd a))" using length_contents_rel [OF assms] r(1) by simp
  obtain z where z: "bbuf ?b = flat (fst a) (snd a) @ z"
    using r(1) append_take_drop_id [of "blen ?b" "bbuf ?b"] unfolding contents_def by metis
  show ?thesis
  proof (cases a rule: a_top.cases)
    case (1 root)
    then show ?thesis using r l z by (simp add: CBB_len_def CBB_data_def CBB_data_offset_def)
  next
    case (2 root k b fs)
    then show ?thesis using r l z by (simp add: CBB_len_def CBB_data_def CBB_data_offset_def Let_def)
  qed
qed

section \<open>Finishing and failing\<close>

lemma a_flush_0_root: "length (snd a) = 0 \<Longrightarrow> a = (fst a, [])"
  by (cases a) auto

lemma CBB_finish_refines:
  assumes "alloc_ok mem" "cbb_rel2 s a" "out_given \<or> \<not> can_resize (cbb_base s)"
  shows "cbb_wp (CBB_finish mem 0 out_given s)
    (\<lambda>s'. failed 0 s' \<and> (\<forall>a'. a_flush 0 a = Some a' \<longrightarrow> \<not> cbb_room mem (cbb_base s) (alen a')))
    (\<lambda>out _. a_flush 0 a = Some (out, []))"
proof -
  have "cbb_wp (CBB_flush mem 0 s)
      (\<lambda>s'. failed 0 s' \<and> (\<forall>a'. a_flush 0 a = Some a' \<longrightarrow> \<not> cbb_room mem (cbb_base s) (alen a')))
      (\<lambda>_ s'. a_flush 0 a = Some (contents (cbb_base s'), []) \<and>
         can_resize (cbb_base s') = can_resize (cbb_base s))"
    using CBB_flush_refines [OF assms(1,2), of 0]
    by (rule cbb_wp_mono [OF _]) (auto simp: cbb_rel_def grows_def)
  then show ?thesis
    unfolding CBB_finish_def using assms(3)
    by (simp add: contents_def) (erule cbb_wp_mono; auto)
qed

text \<open>An operation is sticky if it fails and changes nothing once the builder is locked.\<close>

definition sticky :: "(cbb \<Rightarrow> 'a cbb_ret) \<Rightarrow> bool" where
  "sticky f \<longleftrightarrow> (\<forall>s. locked s \<longrightarrow> f s = Some (None, s))"

lemma CBB_flush_sticky: "sticky (CBB_flush mem d)"
  unfolding sticky_def by (subst CBB_flush.simps) simp

lemma sticky_bind: "sticky f \<Longrightarrow> sticky (\<lambda>s. cbb_bind (f s) g)"
  by (simp add: sticky_def)

lemma CBB_add_space_sticky: "sticky (CBB_add_space mem d n)"
  unfolding CBB_add_space_def by (intro sticky_bind CBB_flush_sticky)

lemmas sticky_intros = sticky_bind CBB_flush_sticky CBB_add_space_sticky

lemma CBB_add_sticky:
  "sticky (CBB_add_bytes mem d data)" "sticky (CBB_add_zeros mem d n)" "sticky (cbb_add_u mem d v n)"
  "sticky (cbb_add_length_prefixed mem d n)" "sticky (CBB_reserve mem d n)"
  unfolding CBB_add_bytes_def CBB_add_zeros_def cbb_add_u_def cbb_add_length_prefixed_def CBB_reserve_def
  by (intro sticky_intros)+

section \<open>Reserving space\<close>

text \<open>
  Reserving \<open>n\<close> bytes, writing at most \<open>n\<close> bytes there and calling \<open>CBB_did_write\<close> is an
  append.
\<close>

definition cbb_reserve_write :: "allocator \<Rightarrow> nat \<Rightarrow> nat \<Rightarrow> bytes \<Rightarrow> cbb \<Rightarrow> unit cbb_ret" where
  "cbb_reserve_write mem d n e s = cbb_bind (CBB_reserve mem d n s) (\<lambda>out s.
     cbb_bind (cbb_write out e s) (\<lambda>_ s. CBB_did_write d (length e) s))"

lemma reserve_write_step:
  assumes "alloc_ok mem" "cbb_rel2 s a" "length (snd a) = d" "n < 2 ^ 64" "length e \<le> n"
    and "cbb_buffer_reserve mem (cbb_base s) n = (True, b)"
  shows "cbb_wp (cbb_bind (cbb_write (blen (cbb_base s)) e (s\<lparr>cbb_base := b\<rparr>)) (\<lambda>_ s. CBB_did_write d (length e) s))
    E (\<lambda>_ s'. cbb_rel2 s' (a_append e a))"
proof -
  have r: "buf_ok (cbb_base s)" "\<not> berror (cbb_base s)" "contents (cbb_base s) = flat (fst a) (snd a)"
    "children s = chain (fst a) (snd a)" "list_all (\<lambda>(k, _). kind_ok k) (snd a)"
    using assms(2) by (simp_all add: cbb_rel_def)
  from reserve_ok [OF assms(1) r(1) assms(4,6)] have
    b: "buf_ok b" "blen b = blen (cbb_base s)" "blen b + n \<le> bcap b" "contents b = contents (cbb_base s)"
      "berror b = berror (cbb_base s)" by auto
  let ?l = "blen b + length e"
  have l: "?l \<le> bcap b" "bcap b < 2 ^ 64" "length (bbuf b) = bcap b" using b assms(5) by (auto simp: buf_ok_def)
  then have sz: "size_add (blen b) (length e) = ?l" by (intro size_add_small) linarith
  have "take ?l (take (blen b) (bbuf b) @ e @ drop ?l (bbuf b)) = contents b @ e"
    using b(1) by (simp add: contents_def buf_ok_def)
  then show ?thesis
    using l sz b r assms(3) length_contents_rel [OF assms(2)] cbb_rel_append [of _ e "fst a" "snd a"]
    by (simp add: cbb_write_def buf_write_def CBB_did_write_def buf_ok_def contents_def Let_def)
qed

lemma cbb_reserve_write_refines:
  assumes "alloc_ok mem" "cbb_rel2 s a" "d \<le> length (snd a)" "n < 2 ^ 64" "length e \<le> n"
  shows "cbb_wp (cbb_reserve_write mem d n e s) locked
    (\<lambda>_ s'. \<exists>a'. a_add d e a = Some a' \<and> cbb_rel2 s' a')"
  unfolding cbb_reserve_write_def CBB_reserve_def cbb_wp_bind
proof (rule cbb_wp_mono [OF CBB_flush_refines [OF assms(1-3)]])
  fix x s1 assume "\<exists>a'. a_flush d a = Some a' \<and> cbb_rel2 s1 a' \<and> length (snd a') = d \<and>
      grows (cbb_base s) (cbb_base s1)"
  then obtain a1 where a1: "a_flush d a = Some a1" "cbb_rel2 s1 a1" "length (snd a1) = d" by blast
  then show "cbb_wp (case cbb_buffer_reserve mem (cbb_base s1) n of
          (True, b) \<Rightarrow> Some (Some (blen (cbb_base s1)), s1\<lparr>cbb_base := b\<rparr>)
        | (False, b) \<Rightarrow> Some (None, s1\<lparr>cbb_base := b\<rparr>)) locked
     (\<lambda>out s. cbb_wp (cbb_write out e s) locked
        (\<lambda>_ s. cbb_wp (CBB_did_write d (length e) s) locked
           (\<lambda>_ s'. \<exists>a'. a_add d e a = Some a' \<and> cbb_rel2 s' a')))"
    using reserve_write_step [OF assms(1) a1(2,3) assms(4,5), where E = locked]
      reserve_fail [of mem "cbb_base s1" n]
    by (auto simp: a_add_def split: prod.splits bool.splits)
qed (simp add: failed_def)

section \<open>Byte sinks\<close>

text \<open>
  What an encoder that writes byte by byte needs of its output: \<open>emits f e\<close> says that the
  operation \<open>f\<close> writes \<open>e\<close>.
\<close>

fun sink_all :: "(u8 \<Rightarrow> cbb \<Rightarrow> unit cbb_ret) \<Rightarrow> bytes \<Rightarrow> cbb \<Rightarrow> unit cbb_ret" where
  "sink_all put [] s = Some (Some (), s)"
| "sink_all put (b # bs) s = cbb_bind (put b s) (\<lambda>_ s'. sink_all put bs s')"

locale byte_sink =
  fixes emits :: "(cbb \<Rightarrow> unit cbb_ret) \<Rightarrow> bytes \<Rightarrow> bool" and put :: "u8 \<Rightarrow> cbb \<Rightarrow> unit cbb_ret"
  assumes emits_put: "emits (put b) [b]"
    and emits_seq: "emits f e1 \<Longrightarrow> emits g e2 \<Longrightarrow> emits (\<lambda>s. cbb_bind (f s) (\<lambda>_ s'. g s')) (e1 @ e2)"
begin

text \<open>A chain of writes ended by \<open>return 1\<close> writes the concatenation.\<close>

lemma emits_put_seq: "emits g e \<Longrightarrow> emits (\<lambda>s. cbb_bind (put b s) (\<lambda>_ s'. g s')) (b # e)"
  using emits_seq [OF emits_put, of g e b] by simp

lemma emits_all: "bs \<noteq> [] \<Longrightarrow> emits (sink_all put bs) bs"
proof (induction bs)
  case (Cons b bs)
  show ?case
  proof (cases "bs = []")
    case True
    have "sink_all put [b] = put b"
      by (rule ext) (simp add: cbb_bind_def split: option.splits prod.splits)
    then show ?thesis using True emits_put by simp
  next
    case False
    then show ?thesis using emits_put_seq [OF Cons.IH, of b] by simp
  qed
qed simp

end

interpretation cbb_sink: byte_sink "appends mem d" "CBB_add_u8 mem d" for mem d
  by unfold_locales (fact CBB_add_u8_appends, fact appends_seq)

end
