(* ===== verification/Asn1_Write.thy ===== *)
theory Asn1_Write
  imports Cbb_Asn1 Cbb_Ops
begin

text \<open>
  The ASN.1 writers produce DER: each writer of \<open>Cbb_Asn1\<close> appends exactly the encoding that
  \<open>Der\<close> specifies, so that the readers of \<open>Cbs_Asn1\<close> return what was written.
\<close>

section \<open>Base-128 integers and tags\<close>

lemma base128_len_loop_props:
  "\<exists>k. base128_len_loop l v = l + k \<and> unat v < 128 ^ k \<and> (k = 0 \<or> 128 ^ (k - 1) \<le> unat v)"
proof (induction l v rule: base128_len_loop.induct)
  case (1 l v)
  show ?case
  proof (cases "v > 0")
    case False
    then have "v = 0" using word_neq_0_conv by blast
    then show ?thesis by (subst base128_len_loop.simps) simp
  next
    case True
    with 1 obtain k where k: "base128_len_loop (l + 1) (drop_bit 7 v) = l + 1 + k"
      "unat v div 128 < 128 ^ k" "k = 0 \<or> 128 ^ (k - 1) \<le> unat v div 128"
      by (auto simp: unat_drop_bit)
    have "unat v < 128 ^ Suc k" using k(2) by (simp add: div_less_iff_less_mult mult.commute)
    moreover have "128 ^ k \<le> unat v"
    proof (cases "k = 0")
      case True
      then show ?thesis using \<open>v > 0\<close> by (simp add: word_less_nat_alt)
    next
      case False
      then have "128 ^ (k - 1) * 128 \<le> unat v" using k(3) by (simp add: less_eq_div_iff_mult_less_eq)
      then show ?thesis using False by (cases k) (simp_all add: mult.commute)
    qed
    ultimately show ?thesis
      using k(1) True by (subst base128_len_loop.simps) (intro exI [of _ "Suc k"], simp)
  qed
qed

definition base128_byte :: "u64 \<Rightarrow> nat \<Rightarrow> u8" where
  "base128_byte v i = (let byte = ucast (drop_bit (7 * i) v AND 0x7f) in if i \<noteq> 0 then byte OR 0x80 else byte)"

fun base128_bytes :: "u64 \<Rightarrow> nat \<Rightarrow> bytes" where
  "base128_bytes v 0 = []"
| "base128_bytes v (Suc i) = base128_byte v i # base128_bytes v i"

lemma add_base128_loop_appends:
  "appends mem d (add_base128_loop mem d v (Suc i)) (base128_bytes v (Suc i))"
proof (induction i)
  case 0
  have "add_base128_loop mem d v (Suc 0) = CBB_add_u8 mem d (base128_byte v 0)"
    by (rule ext) (simp add: base128_byte_def Let_def cbb_bind_def split: option.splits prod.splits)
  then show ?case using CBB_add_u8_appends [of mem d "base128_byte v 0"] by simp
next
  case (Suc i)
  then show ?case
    using cbb_sink.emits_put_seq [OF Suc, of "base128_byte v (Suc i)"]
    by (simp add: base128_byte_def Let_def del: add_base128_loop.simps(2) base128_bytes.simps(2)
        add: add_base128_loop.simps(2) [of mem d v "Suc i", abs_def] base128_bytes.simps(2) [of v "Suc i"])
qed

lemma unat_base128_byte:
  "unat (base128_byte v i) = (if i \<noteq> 0 then 128 else 0) + unat v div 128 ^ i mod 128"
proof -
  let ?n = "unat v div 128 ^ i mod 128"
  have "unat (drop_bit (7 * i) v AND 0x7f) = ?n"
    using unat_and_mask [of "drop_bit (7 * i) v" 7] by (simp add: mask_eq_exp_minus_1 unat_drop_bit power_mult)
  then have "unat (ucast (drop_bit (7 * i) v AND 0x7f) :: u8) = ?n" by (simp add: unat_ucast_mod)
  then have b: "(ucast (drop_bit (7 * i) v AND 0x7f) :: u8) = of_nat ?n"
    by (intro word_eq_unatI) (simp add: unat_of_nat_mod)
  show ?thesis
    using unat_or_80 [of ?n] unat_low_byte [of ?n] unfolding base128_byte_def Let_def b
    by (cases "i = 0") (simp_all add: or.commute)
qed

lemma base128_bytes_parse:
  "i = 0 \<or> unat v div 128 ^ i \<noteq> 0 \<Longrightarrow>
   parse_base128_loop (of_nat (unat v div 128 ^ Suc i)) (base128_bytes v (Suc i) @ rest) = (Some v, rest)"
proof (induction i)
  case 0
  have n: "unat v div 128 < 2 ^ 57" using unat_lt_power [of v] by simp
  have "unat (base128_byte v 0) = unat v mod 128" by (simp add: unat_base128_byte)
  moreover from this have "base128_byte v 0 \<noteq> 0x80" by (auto simp: word_unat_eq_iff)
  moreover have "\<not> 128 \<le> unat v mod 128" by (simp add: not_le)
  ultimately show ?case
    using base128_step [OF n, of "base128_byte v 0" rest]
    by (simp del: parse_base128_loop.simps of_nat_add of_nat_mult)
next
  case (Suc i)
  let ?n = "unat v div 128 ^ Suc (Suc i)" and ?b = "base128_byte v (Suc i)"
  have "unat v div 128 ^ Suc (Suc i) = unat v div 128 div 128 ^ Suc i" by (simp only: power_Suc div_mult2_eq)
  also have "\<dots> \<le> unat v div 128" by simp
  also have "\<dots> < 2 ^ 57" using unat_lt_power [of v] by simp
  finally have n: "?n < 2 ^ 57" .
  have ub: "unat ?b = 128 + unat v div 128 ^ Suc i mod 128" by (simp add: unat_base128_byte)
  have dm: "?n * 128 + unat v div 128 ^ Suc i mod 128 = unat v div 128 ^ Suc i"
    using div_mult_mod_eq [of "unat v div 128 ^ Suc i" 128] by (simp add: div_mult2_eq [symmetric] mult.commute)
  have nz: "?n \<noteq> 0 \<or> ?b \<noteq> 0x80"
  proof (rule ccontr)
    assume "\<not> ?thesis"
    then have "unat v div 128 ^ Suc i mod 128 = 0" "?n = 0" using ub by auto
    with dm Suc.prems show False by simp
  qed
  have "unat ?b mod 128 = unat v div 128 ^ Suc i mod 128" "128 \<le> unat ?b" using ub by simp_all
  moreover have "i = 0 \<or> unat v div 128 ^ i \<noteq> 0"
    using Suc.prems div_le_mono2 [of "128 ^ i" "128 ^ Suc i" "unat v"] by simp
  ultimately show ?case
    using base128_step [OF n nz, of "base128_bytes v (Suc i) @ rest"] Suc.IH dm
    by (simp del: parse_base128_loop.simps of_nat_add of_nat_mult base128_bytes.simps
        add: base128_bytes.simps(2) [of v "Suc i"])
qed

text \<open>What \<open>add_base128_integer\<close> writes is what \<open>parse_base128_integer\<close> reads.\<close>

lemma add_base128_integer_appends: "appends mem d (add_base128_integer mem d v) (base128 (unat v))"
proof -
  from base128_len_loop_props [of 0 v] obtain k where
    k: "base128_len_loop 0 v = k" "unat v < 128 ^ k" "k = 0 \<or> 128 ^ (k - 1) \<le> unat v" by auto
  define i where "i = k - 1"
  have ll: "(if k = 0 then 1 else k) = Suc i" by (simp add: i_def)
  have "unat v < 128 ^ Suc i" using k(2) by (cases k) (simp_all add: i_def)
  then have z: "unat v div 128 ^ Suc i = 0" by (rule div_less)
  have "i = 0 \<or> unat v div 128 ^ i \<noteq> 0" using k(3) by (auto simp: i_def div_eq_0_iff)
  from base128_bytes_parse [OF this, of "[]"] have "parse_base128_integer (base128_bytes v (Suc i)) = (Some v, [])"
    unfolding z parse_base128_integer_def by simp
  then have "base128_bytes v (Suc i) = base128 (unat v)" by (simp add: parse_base128_Some_iff)
  then show ?thesis
    using add_base128_loop_appends [of mem d v i]
    unfolding add_base128_integer_def [abs_def] Let_def k(1) ll by (simp only:)
qed

lemma add_asn1_tag_bytes:
  defines "tag_bits tag \<equiv> ucast (drop_bit CBS_ASN1_TAG_SHIFT (tag::u32) AND 0xe0) :: u8"
  shows "der_tag tag = (if tag AND CBS_ASN1_TAG_NUMBER_MASK \<ge> 0x1f
    then (tag_bits tag OR 0x1f) # base128 (unat (tag AND CBS_ASN1_TAG_NUMBER_MASK))
    else [tag_bits tag OR ucast (tag AND CBS_ASN1_TAG_NUMBER_MASK)])"
proof -
  let ?n = "tag AND CBS_ASN1_TAG_NUMBER_MASK" and ?c = "unat tag div 2 ^ 29"
  have n: "unat ?n = unat tag mod 2 ^ 29"
    using unat_and_mask [of tag 29] by (simp add: mask_eq_exp_minus_1)
  have c: "?c < 8" using unat_lt_power [of tag] by (simp add: div_less_iff_less_mult)
  have "drop_bit 24 tag AND 0xe0 = push_bit 5 (drop_bit 29 tag)"
  proof -
    have "(0xe0 :: u32) = push_bit 5 (mask 3)" by (simp add: mask_eq_exp_minus_1)
    then have "drop_bit 24 tag AND 0xe0 = drop_bit 24 tag AND push_bit 5 (mask 3)" by simp
    also have "\<dots> = push_bit 5 (drop_bit 29 tag)"
      by (rule bit_eqI) (auto simp: bit_simps dest: bit_imp_le_length)
    finally show ?thesis .
  qed
  moreover have "unat (push_bit 5 (drop_bit 29 tag) OR 0) = ?c * 32"
    using unat_push_or [of "0::u32" 5 "drop_bit 29 tag"] c by (simp add: unat_drop_bit)
  ultimately have "unat (tag_bits tag) = ?c * 32"
    using c by (simp add: tag_bits_def unat_ucast_mod)
  moreover have "unat (of_nat ?c :: u8) = ?c" using c by (intro unat_of_nat_less) simp
  ultimately have tb: "tag_bits tag = push_bit 5 (of_nat ?c)"
    using unat_push_or [of "0::u8" 5 "of_nat ?c"] c by (intro word_eq_unatI) simp
  have lo: "tag_bits tag OR w = of_nat (?c * 32 + unat w)" if "unat w < 32" for w :: u8
    using push_bit_or_of_nat [of w 5 ?c] that tb by simp
  have ge: "?n \<ge> 0x1f \<longleftrightarrow> \<not> unat tag mod 2 ^ 29 < 31" unfolding word_le_nat_alt n by auto
  have "unat (ucast ?n :: u8) = unat tag mod 2 ^ 29" if "unat tag mod 2 ^ 29 < 31"
    using that by (simp add: unat_ucast_mod n)
  then show ?thesis
    using lo [of "ucast ?n"] lo [of "0x1f"] ge n unfolding der_tag_def Let_def
    by (auto simp del: of_nat_add of_nat_mult)
qed

lemma CBB_add_asn1_opens: "opens mem d (CBB_add_asn1 mem d tag) (der_tag tag) Asn1"
proof -
  let ?b = "ucast (drop_bit CBS_ASN1_TAG_SHIFT tag AND 0xe0) :: u8" and ?n = "tag AND CBS_ASN1_TAG_NUMBER_MASK"
  have un: "unat (ucast ?n :: u64) = unat ?n" by (simp add: unat_ucast_le)
  define w where "w = (\<lambda>s. if ?n \<ge> 0x1f then
             cbb_bind (CBB_add_u8 mem d (?b OR 0x1f) s) (\<lambda>_ s. add_base128_integer mem d (ucast ?n) s)
           else CBB_add_u8 mem d (?b OR ucast ?n) s)"
  have "appends mem d w (der_tag tag)"
    using cbb_sink.emits_put_seq [OF add_base128_integer_appends, of mem d "?b OR 0x1f" "ucast ?n"]
      CBB_add_u8_appends [of mem d "?b OR ucast ?n"] un
    by (cases "?n \<ge> 0x1f") (simp_all add: w_def add_asn1_tag_bytes [of tag])
  from appends_seq [OF CBB_flush_appends this]
  have "opens mem d (\<lambda>s. cbb_bind (cbb_bind (CBB_flush mem d s) (\<lambda>_ s. w s))
      (\<lambda>_ s'. cbb_add_child mem d (plen Asn1) (Asn1 = Asn1) s')) (der_tag tag) Asn1"
    by (intro opens_child) simp_all
  moreover have "cbb_bind (cbb_bind m f) g = cbb_bind m (\<lambda>x s. cbb_bind (f x s) g)" for m :: "unit cbb_ret" and f and g :: "unit \<Rightarrow> cbb \<Rightarrow> unit cbb_ret"
    by (auto simp: cbb_bind_def split: option.splits prod.splits)
  ultimately show ?thesis
    by (simp add: CBB_add_asn1_def [abs_def] w_def Let_def)
qed

section \<open>Values\<close>

lemma cbb_bind_assoc: "cbb_bind (cbb_bind m f) g = cbb_bind m (\<lambda>x s. cbb_bind (f x s) g)"
  by (auto simp: cbb_bind_def split: option.splits prod.splits)

lemma cbb_bind_cong: "(\<And>x s. f x s = g x s) \<Longrightarrow> cbb_bind m f = cbb_bind m g"
  by (auto simp: cbb_bind_def split: option.splits prod.splits)

lemma cbb_bind_unit: "cbb_bind m (\<lambda>_ s. Some (Some (), s)) = (m :: unit cbb_ret)"
  by (auto simp: cbb_bind_def split: option.splits prod.splits)

text \<open>The error handler of the writers changes nothing of what the builder promises.\<close>

lemma goto_err_wp:
  assumes "cbb_wp m (\<lambda>s. failed d s \<and> P) Q"
  shows "cbb_wp (cbb_goto_err d m) (\<lambda>s. failed d s \<and> P) Q"
  using assms by (auto simp: cbb_wp_def cbb_goto_err_def failed_def cbb_on_error_def split: option.splits prod.splits)

lemma appends_goto_err:
  assumes "appends mem d (\<lambda>s. cbb_bind (f s) (\<lambda>_ s. g s)) e"
  shows "appends mem d (\<lambda>s. cbb_bind (cbb_goto_err d (f s)) (\<lambda>_ s. g s)) e"
  using assms unfolding appends_def cbb_wp_bind by (intro impI allI goto_err_wp) auto

lemma appends_goto_err_all:
  assumes "appends mem d f e"
  shows "appends mem d (\<lambda>s. cbb_goto_err d (f s)) e"
  using assms unfolding appends_def by (intro impI allI goto_err_wp) auto

lemma be_bytes_Cons: "be_bytes (Suc i) v = of_nat (v div 256 ^ i) # be_bytes i v"
proof (induction i arbitrary: v)
  case (Suc i)
  then show ?case using be_bytes.simps(2) [of "Suc i" v] by (simp add: div_mult2_eq)
qed simp

lemma sink_all_Nil: "sink_all put [] = (\<lambda>s. Some (Some (), s))"
  by (rule ext) simp

lemma u8_of_nat_eq_0: "of_nat m = (0::u8) \<longleftrightarrow> m mod 256 = 0"
  by (simp add: word_of_nat_eq_0_iff dvd_eq_mod_eq_0)

lemma value_byte: "ucast (drop_bit (8 * i) (v::u64) AND 0xff) = (of_nat (unat v div 256 ^ i) :: u8)"
proof (rule word_eq_unatI)
  have "unat (drop_bit (8 * i) v AND 0xff) = unat v div 256 ^ i mod 256"
    using unat_and_mask [of "drop_bit (8 * i) v" 8] by (simp add: mask_eq_exp_minus_1 unat_drop_bit power_mult)
  then show "unat (ucast (drop_bit (8 * i) v AND 0xff) :: u8) = unat (of_nat (unat v div 256 ^ i) :: u8)"
    by (simp add: unat_ucast_mod unat_of_nat_mod)
qed

lemma uint64_bytes_started:
  "asn1_uint64_bytes mem c v i True s =
     cbb_bind (sink_all (CBB_add_u8 mem c) (be_bytes i (unat v)) s) (\<lambda>_ s. Some (Some True, s))"
proof (induction i arbitrary: s)
  case (Suc i)
  show ?case
    unfolding asn1_uint64_bytes.simps value_byte be_bytes_Cons Let_def
    by (simp add: cbb_bind_assoc ext [OF Suc] del: be_bytes.simps)
qed simp

lemma der_uint_body_leading:
  assumes "of_nat (n div 256 ^ i) \<noteq> (0::u8)"
  shows "der_uint_body (n mod 256 ^ Suc i) =
    (if of_nat (n div 256 ^ i) AND 0x80 \<noteq> (0::u8) then [0] else []) @ be_bytes (Suc i) n"
proof -
  have "min_be (n mod 256 ^ Suc i) = be_bytes (Suc i) n"
    using min_be_be_nat [of "be_bytes (Suc i) n"] assms
    by (simp add: be_bytes_Cons be_nat_be_bytes [of "Suc i", symmetric] del: be_bytes.simps power_Suc)
  then show ?thesis by (simp add: der_uint_body_def be_bytes_Cons del: be_bytes.simps power_Suc)
qed

lemma uint64_bytes_leading:
  "asn1_uint64_bytes mem c v i False s =
     (let n = unat v mod 256 ^ i
      in if n = 0 then Some (Some False, s)
         else cbb_bind (sink_all (CBB_add_u8 mem c) (der_uint_body n) s) (\<lambda>_ s. Some (Some True, s)))"
proof (induction i arbitrary: s)
  case (Suc i)
  let ?b = "of_nat (unat v div 256 ^ i) :: u8"
  have m: "unat v mod 256 ^ Suc i = 256 ^ i * (unat v div 256 ^ i mod 256) + unat v mod 256 ^ i"
    using mod_mult2_eq [of "unat v" "256 ^ i" 256] by (simp add: mult.commute)
  show ?case
  proof (cases "?b = 0")
    case True
    then have "unat v div 256 ^ i mod 256 = 0" by (simp only: u8_of_nat_eq_0)
    then have "unat v mod 256 ^ Suc i = unat v mod 256 ^ i" unfolding m by simp
    then show ?thesis using True Suc unfolding asn1_uint64_bytes.simps value_byte Let_def by simp
  next
    case False
    then have "unat v div 256 ^ i mod 256 \<noteq> 0" using u8_of_nat_eq_0 by blast
    then have "unat v mod 256 ^ Suc i \<noteq> 0" unfolding m by simp
    then show ?thesis
      using False der_uint_body_leading [OF False]
      unfolding asn1_uint64_bytes.simps value_byte Let_def
      by (simp add: ext [OF uint64_bytes_started] be_bytes_Cons cbb_bind_assoc del: be_bytes.simps power_Suc)
  qed
qed simp

lemma der_uint_body_0: "der_uint_body 0 = [0]"
  by (simp add: der_uint_body_def)

lemma a_close_der: "length body \<le> 0xfffffffe \<Longrightarrow>
    der_tag tag @ the (a_close Asn1 body) = der_element tag body \<and> a_close Asn1 body \<noteq> None"
  by (simp add: der_element_def)

text \<open>A tag, a body written to the child, and the closing flush: one DER element.\<close>

lemma appends_element:
  assumes "appends mem (Suc d) g body" "length body \<le> 0xfffffffe"
  shows "appends mem d (\<lambda>s. cbb_bind (CBB_add_asn1 mem d tag s) (\<lambda>_ s. cbb_bind (g s) (\<lambda>_ s. CBB_flush mem d s)))
    (der_element tag body)"
  using appends_nested [OF CBB_add_asn1_opens assms(1)] assms(2) by (simp add: der_element_def)

lemma appends_element_goto:
  assumes "appends mem (Suc d) g body" "length body \<le> 0xfffffffe"
  shows "appends mem d (\<lambda>s. cbb_bind (cbb_goto_err d (cbb_bind (CBB_add_asn1 mem d tag s) (\<lambda>_ s. g s)))
    (\<lambda>_ s. CBB_flush mem d s)) (der_element tag body)"
  by (rule appends_goto_err) (simp add: cbb_bind_assoc appends_element [OF assms])

lemma CBB_add_asn1_uint64_with_tag_appends:
  "appends mem d (CBB_add_asn1_uint64_with_tag mem d v tag) (der_element tag (der_uint_body (unat v)))"
proof -
  let ?put = "CBB_add_u8 mem (d + 1)"
  have u: "unat v mod 256 ^ 8 = unat v" using unat_lt_power [of v] by simp
  have w: "cbb_bind (asn1_uint64_bytes mem (d + 1) v 8 False s) (\<lambda>started s.
         if \<not> started then ?put 0 s else Some (Some (), s)) = sink_all ?put (der_uint_body (unat v)) s" for s
    unfolding uint64_bytes_leading u Let_def
    by (cases "unat v = 0") (simp_all add: der_uint_body_0 cbb_bind_assoc cbb_bind_unit sink_all_Nil)
  have "appends mem (Suc d) (sink_all ?put (der_uint_body (unat v))) (der_uint_body (unat v))"
    using cbb_sink.emits_all [of "der_uint_body (unat v)" mem "Suc d"] der_uint_body_props by simp
  moreover have "length (der_uint_body (unat v)) \<le> 0xfffffffe"
    using length_der_uint_body [of "unat v"] unat_lt_power [of v] by simp
  ultimately show ?thesis
    unfolding CBB_add_asn1_uint64_with_tag_def [abs_def] w
    using appends_element_goto [of mem d _ "der_uint_body (unat v)" tag] by simp
qed

lemma CBB_add_asn1_bool_appends:
  "appends mem d (CBB_add_asn1_bool mem d b) (der_element CBS_ASN1_BOOLEAN [if b then 0xff else 0])"
  unfolding CBB_add_asn1_bool_def [abs_def]
  using appends_goto_err_all [OF appends_element [OF CBB_add_u8_appends]] by simp

lemma CBB_add_asn1_octet_string_appends:
  "length data \<le> 0xfffffffe \<Longrightarrow>
   appends mem d (CBB_add_asn1_octet_string mem d data) (der_element CBS_ASN1_OCTETSTRING data)"
  unfolding CBB_add_asn1_octet_string_def [abs_def]
  using appends_goto_err_all [OF appends_element [OF CBB_add_bytes_appends]] by simp

text \<open>Signed integers: stripping redundant sign bytes from the front of a big-endian string.\<close>

fun strip_sign :: "u8 \<Rightarrow> bytes \<Rightarrow> bytes" where
  "strip_sign z (x # y # ys) = (if x = z \<and> (y AND 0x80 = z AND 0x80) then strip_sign z (y # ys) else x # y # ys)"
| "strip_sign z [] = []"
| "strip_sign z [x] = [x]"

lemma strip_sign_0:
  "bs \<noteq> [] \<Longrightarrow> hd bs AND 0x80 = 0 \<Longrightarrow> strip_sign 0 bs = der_uint_body (be_nat bs)"
proof (induction "0::u8" bs rule: strip_sign.induct)
  case (1 x y ys)
  show ?case
  proof (cases "x = 0 \<and> y AND 0x80 = 0")
    case True
    then have "be_nat (x # y # ys) = be_nat (y # ys)" using be_nat_Cons [of x "y # ys"] by simp
    then show ?thesis using 1(1) True by simp
  next
    case False
    then have "CBS_is_unsigned_asn1_integer (x # y # ys)"
      using 1(3) by (auto simp: CBS_is_unsigned_asn1_integer_def CBS_is_valid_asn1_integer_def)
    then have "x # y # ys = der_uint_body (be_nat (x # y # ys))" by (simp add: valid_integer_unsigned_iff)
    moreover have "strip_sign 0 (x # y # ys) = x # y # ys" using False by auto
    ultimately show ?thesis by simp
  qed
next
  case (3 x)
  then have "CBS_is_unsigned_asn1_integer [x]"
    by (simp add: CBS_is_unsigned_asn1_integer_def CBS_is_valid_asn1_integer_def)
  then have "[x] = der_uint_body (be_nat [x])" by (simp add: valid_integer_unsigned_iff)
  then show ?case by simp
qed simp

lemma u8_sign_not: "NOT (y::u8) AND 0x80 = 0 \<longleftrightarrow> y AND 0x80 = 0x80" "y AND 0x80 \<noteq> 0 \<longleftrightarrow> y AND 0x80 = 0x80"
proof -
  have "\<forall>y::u8. (NOT y AND 0x80 = 0 \<longleftrightarrow> y AND 0x80 = 0x80) \<and> (y AND 0x80 \<noteq> 0 \<longleftrightarrow> y AND 0x80 = 0x80)"
    unfolding u8_all by code_simp
  then show "NOT y AND 0x80 = 0 \<longleftrightarrow> y AND 0x80 = 0x80" "y AND 0x80 \<noteq> 0 \<longleftrightarrow> y AND 0x80 = 0x80" by blast+
qed

lemma strip_sign_ff: "strip_sign 0xff bs = map NOT (strip_sign 0 (map NOT bs))"
proof (induction "0xff::u8" bs rule: strip_sign.induct)
  case (1 x y ys)
  show ?case using 1 u8_sign_not [of y] not_u8_tests(2) [of x] by (auto simp: map_not_not [unfolded map_map])
qed simp_all

lemma int64_start_strip:
  "n < length bs \<Longrightarrow> rev (take (Suc (asn1_int64_start bs n)) bs) = strip_sign 0xff (rev (take (Suc n) bs))"
proof (induction n)
  case 0
  then show ?case by (cases bs) simp_all
next
  case (Suc n)
  have t: "rev (take (Suc (Suc n)) bs) = bs ! Suc n # bs ! n # rev (take n bs)"
    "rev (take (Suc n) bs) = bs ! n # rev (take n bs)"
    using Suc.prems by (simp_all add: take_Suc_conv_app_nth)
  show ?case
  proof (cases "bs ! Suc n = 0xff \<and> bs ! n AND 0x80 \<noteq> 0")
    case True
    then show ?thesis using Suc u8_sign_not(2) [of "bs ! n"] unfolding t by simp
  next
    case False
    then have "asn1_int64_start bs (Suc n) = Suc n" by (simp only: asn1_int64_start.simps if_False)
    then show ?thesis using False u8_sign_not(2) [of "bs ! n"] unfolding t(1) [symmetric]
      by (simp only: t(1)) auto
  qed
qed

lemma int64_bytes_sink: "n \<le> length bs \<Longrightarrow>
    asn1_int64_bytes mem c bs n s = sink_all (CBB_add_u8 mem c) (rev (take n bs)) s"
proof (induction n arbitrary: s)
  case (Suc n)
  then have "asn1_int64_bytes mem c bs n = sink_all (CBB_add_u8 mem c) (rev (take n bs))" by auto
  then show ?case using Suc.prems by (simp add: take_Suc_conv_app_nth)
qed simp

lemma le_bytes_be: "rev (map (\<lambda>i. ucast (drop_bit (8 * i) (v::u64)) :: u8) [0..<n]) = be_bytes n (unat v)"
proof (induction n)
  case (Suc n)
  have "(ucast (drop_bit (8 * n) v) :: u8) = of_nat (unat v div 256 ^ n)"
    by (rule word_eq_unatI) (simp add: unat_ucast_mod unat_drop_bit unat_of_nat_mod power_mult)
  then show ?case using Suc by (simp add: be_bytes_Cons del: be_bytes.simps)
qed simp

lemma sint_unat_64:
  assumes "unat (v::u64) = n"
  shows "sint v = (if n < 2 ^ 63 then int n else int n - 2 ^ 64)"
proof -
  have n: "n < 2 ^ 64" using unat_lt_power [of v] assms by simp
  have "v = of_nat n" using assms by (metis of_nat_unat ucast_id)
  then have v: "word_of_int (int n) = v" by simp
  have w: "word_of_int (int n - 2 ^ 64) = v" using v by (simp only: of_int_diff) simp
  show ?thesis
  proof (cases "n < 2 ^ 63")
    case True
    then show ?thesis using sint_of_int_64 [of "int n"] v by simp
  next
    case False
    then have "- (2 ^ 63) \<le> int n - 2 ^ 64" "int n - 2 ^ 64 < 2 ^ 63" using n by simp_all
    from sint_of_int_64 [OF this] show ?thesis unfolding w using False by simp
  qed
qed

lemma int64_negative_body:
  assumes neg: "sint (v::u64) < 0"
  shows "strip_sign 0xff (be_bytes 8 (unat v)) = der_int_body (sint v)"
proof -
  let ?b = "be_bytes 8 (unat v)"
  have u: "int (unat v) = sint v + 2 ^ 64" and n: "2 ^ 63 \<le> unat v"
    using neg sint_unat_64 [OF refl, of v] unfolding not_less [symmetric] by (metis add.commute diff_add_cancel not_less of_nat_0_le_iff)+
  have "unat v < 2 ^ 64" using unat_lt_power [of v] by simp
  then have "unat v mod 256 ^ 8 = unat v" by simp
  then have b: "be_nat ?b = unat v" by (simp only: be_nat_be_bytes)
  have "unat v div 256 ^ 7 \<ge> 128" using n by simp
  moreover have "unat v div 256 ^ 7 < 256" using unat_lt_power [of v] by simp
  ultimately have "128 \<le> unat (hd ?b)" "?b \<noteq> []"
    using be_bytes_Cons [of 7 "unat v"] by (simp_all add: unat_of_nat_mod del: be_bytes.simps)
  then have h: "hd (map NOT ?b) AND 0x80 = 0" "map NOT ?b \<noteq> []"
    by (simp_all add: hd_map not_u8_tests(1)) (simp add: u8_and_80)
  have "be_nat (map NOT ?b) = 256 ^ 8 - 1 - unat v" using be_nat_map_not [of ?b] b by simp
  moreover have "256 ^ 8 - 1 - m = nat (- (int m - 2 ^ 64) - 1)" for m by simp
  moreover have "sint v = int (unat v) - 2 ^ 64" using u by simp
  ultimately have "be_nat (map NOT ?b) = nat (- sint v - 1)" by (simp only:)
  then show ?thesis
    using strip_sign_0 [OF h(2,1)] neg by (simp add: strip_sign_ff der_int_body_def)
qed

lemma CBB_add_asn1_int64_with_tag_appends:
  "appends mem d (CBB_add_asn1_int64_with_tag mem d v tag) (der_element tag (der_int_body (sint v)))"
proof (cases "0 \<le> sint v")
  case True
  obtain n where n: "unat v = n" by blast
  then have "n < 2 ^ 64" using unat_lt_power [of v] by simp
  with True sint_unat_64 [OF n] have "nat (sint v) = unat v"
    unfolding n by (simp split: if_splits)
  then show ?thesis
    using True CBB_add_asn1_uint64_with_tag_appends [of mem d v tag]
    by (simp add: CBB_add_asn1_int64_with_tag_def [abs_def] der_int_body_def)
next
  case False
  let ?le = "map (\<lambda>i. ucast (drop_bit (8 * i) v) :: u8) [0..<8]" and ?body = "der_int_body (sint v)"
  let ?n = "Suc (asn1_int64_start ?le 7)"
  have "asn1_int64_start bs n \<le> n" for bs n by (induction n) auto
  from this [of ?le 7] have le: "?n \<le> length ?le" by simp
  have "rev (take ?n ?le) = strip_sign 0xff (rev ?le)" using int64_start_strip [of 7 ?le] by simp
  then have b: "rev (take ?n ?le) = ?body"
    using int64_negative_body [of v] False unfolding le_bytes_be by simp
  have "?body \<noteq> []" using b by auto
  then have "appends mem (Suc d) (sink_all (CBB_add_u8 mem (Suc d)) ?body) ?body"
    by (rule cbb_sink.emits_all)
  moreover have "asn1_int64_bytes mem (Suc d) ?le ?n = sink_all (CBB_add_u8 mem (Suc d)) ?body"
    using int64_bytes_sink [OF le] b by (intro ext) simp
  ultimately have "appends mem (Suc d) (asn1_int64_bytes mem (Suc d) ?le ?n) ?body" by simp
  moreover have "length ?body \<le> 0xfffffffe" using length_der_int_body [of v] by simp
  ultimately show ?thesis
    using False appends_element_goto [of mem d _ ?body tag]
    by (simp add: CBB_add_asn1_int64_with_tag_def [abs_def] Let_def del: asn1_int64_bytes.simps)
qed

end
