(* ===== verification/Codec.thy ===== *)
theory Codec
  imports Der
begin

text \<open>
  The interface between an encoding and the code that reads a sequence of its items. An item
  encoding is self-delimiting for a reader when the reader accepts exactly an encoding followed
  by anything and consumes exactly the encoding. The laws give that the encoding is injective and
  prefix free, that a concatenation of items decodes in one way only, and what the loops
  \<open>while (CBS_len(&cbs) != 0) { if (!get(&cbs, &item)) return 0; ... }\<close> of the C code compute.
\<close>

text \<open>The items that such a loop reads, or \<open>None\<close> where it returns 0.\<close>

function cbs_many :: "(cbs \<Rightarrow> 'a cbs_ret) \<Rightarrow> cbs \<Rightarrow> 'a list option" where
  "cbs_many p cbs =
     (if CBS_len cbs = 0 then Some []
      else case p cbs of
          (None, _) \<Rightarrow> None
        | (Some x, rest) \<Rightarrow>
            if length rest < length cbs then map_option ((#) x) (cbs_many p rest) else None)"
  by pat_completeness auto
termination
  by (relation "measure (\<lambda>(p, cbs). length cbs)") auto

declare cbs_many.simps [simp del]

lemma cbs_many_Nil [simp]: "cbs_many p [] = Some []"
  by (simp add: cbs_many.simps CBS_len_def)

locale self_delimiting =
  fixes enc :: "'a \<Rightarrow> bytes" and dec :: "cbs \<Rightarrow> 'a cbs_ret" and valid :: "'a \<Rightarrow> bool"
  assumes dec_iff: "dec cbs = (Some x, rest) \<longleftrightarrow> valid x \<and> cbs = enc x @ rest"
    and enc_nonempty: "valid x \<Longrightarrow> enc x \<noteq> []"
begin

lemma dec_enc: "valid x \<Longrightarrow> dec (enc x @ rest) = (Some x, rest)"
  by (simp add: dec_iff)

lemma enc_prefix_free:
  assumes "valid x" "valid y" "enc x @ r = enc y @ s"
  shows "x = y \<and> r = s"
  using dec_enc [OF assms(1), of r] dec_enc [OF assms(2), of s] unfolding assms(3) by simp

lemma enc_inject: "valid x \<Longrightarrow> valid y \<Longrightarrow> enc x = enc y \<Longrightarrow> x = y"
  using enc_prefix_free [of x y "[]" "[]"] by simp

lemma dec_shorter: "dec cbs = (Some x, rest) \<Longrightarrow> length rest < length cbs"
  using enc_nonempty by (auto simp: dec_iff)

lemma many_step:
  "cbs \<noteq> [] \<Longrightarrow> cbs_many dec cbs = (case dec cbs of
     (None, _) \<Rightarrow> None | (Some x, rest) \<Rightarrow> map_option ((#) x) (cbs_many dec rest))"
  by (subst cbs_many.simps) (auto simp: CBS_len_def dest: dec_shorter split: option.splits prod.splits)

lemma many_iff: "cbs_many dec cbs = Some xs \<longleftrightarrow> (\<forall>x\<in>set xs. valid x) \<and> cbs = concat (map enc xs)"
proof (induction "length cbs" arbitrary: cbs xs rule: less_induct)
  case less
  show ?case
  proof (cases "cbs = []")
    case True
    then show ?thesis using enc_nonempty by (cases xs) auto
  next
    case False
    show ?thesis
    proof (cases "fst (dec cbs)")
      case None
      have "cbs_many dec cbs = None" using False None by (cases "dec cbs") (simp add: many_step)
      moreover have "\<not> ((\<forall>x\<in>set xs. valid x) \<and> cbs = concat (map enc xs))"
        using False None dec_enc by (cases xs) auto
      ultimately show ?thesis by simp
    next
      case (Some x)
      then obtain rest where d: "dec cbs = (Some x, rest)" by (cases "dec cbs") auto
      then have x: "valid x" "cbs = enc x @ rest" by (simp_all add: dec_iff)
      show ?thesis
      proof (cases xs)
        case Nil
        then show ?thesis using False d by (simp add: many_step)
      next
        case (Cons y ys)
        have "cbs_many dec cbs = Some xs \<longleftrightarrow> y = x \<and> cbs_many dec rest = Some ys"
          using False d Cons by (auto simp: many_step)
        also have "\<dots> \<longleftrightarrow> y = x \<and> (\<forall>x\<in>set ys. valid x) \<and> rest = concat (map enc ys)"
          using less [OF dec_shorter [OF d]] by simp
        also have "\<dots> \<longleftrightarrow> (\<forall>x\<in>set xs. valid x) \<and> cbs = concat (map enc xs)"
          using x Cons enc_prefix_free [of x y] by auto
        finally show ?thesis .
      qed
    qed
  qed
qed

lemma concat_unique:
  assumes "\<forall>x\<in>set xs. valid x" "\<forall>y\<in>set ys. valid y" "concat (map enc xs) = concat (map enc ys)"
  shows "xs = ys"
  using assms many_iff [of "concat (map enc xs)" xs] many_iff [of "concat (map enc ys)" ys] by simp

end

section \<open>The encodings of the readers\<close>

interpretation base128_codec: self_delimiting "\<lambda>v. base128 (unat v)" parse_base128_integer "\<lambda>_. True"
  by unfold_locales (simp_all add: parse_base128_Some_iff base128_def)

lemma der_tag_nonempty: "der_tag tag \<noteq> []"
  by (simp add: der_tag_def Let_def)

interpretation der_codec: self_delimiting "\<lambda>(body, tag). der_element tag body" CBS_get_any_asn1
    "\<lambda>(body, tag). asn1_valid_tag tag \<and> length body < 2 ^ 32"
  by unfold_locales (auto simp: CBS_get_any_asn1_iff der_element_def der_tag_nonempty)

interpretation uint64_codec: self_delimiting "\<lambda>v. der_element CBS_ASN1_INTEGER (der_uint_body (unat v))"
    CBS_get_asn1_uint64 "\<lambda>_. True"
  by unfold_locales (simp_all add: CBS_get_asn1_uint64_iff der_element_def der_tag_nonempty)

interpretation int64_codec: self_delimiting "\<lambda>v. der_element CBS_ASN1_INTEGER (der_int_body (sint v))"
    CBS_get_asn1_int64 "\<lambda>_. True"
  by unfold_locales (simp_all add: CBS_get_asn1_int64_iff der_element_def der_tag_nonempty)

interpretation bool_codec: self_delimiting "\<lambda>b. der_element CBS_ASN1_BOOLEAN [if b then 0xff else 0]"
    CBS_get_asn1_bool "\<lambda>_. True"
  by unfold_locales (simp_all add: CBS_get_asn1_bool_iff der_element_def der_tag_nonempty)

interpretation u16_prefixed_codec: self_delimiting "\<lambda>body. be_bytes 2 (length body) @ body"
    "\<lambda>cbs. the (CBS_get_u16_length_prefixed cbs)" "\<lambda>body. length body < 256 ^ 2"
proof unfold_locales
  show "the (CBS_get_u16_length_prefixed cbs) = (Some x, rest) \<longleftrightarrow>
      length x < 256 ^ 2 \<and> cbs = (be_bytes 2 (length x) @ x) @ rest" for cbs x rest
    using cbs_get_length_prefixed_iff [of 2 cbs x rest] by (simp add: CBS_get_u16_length_prefixed_def cbs_get_length_prefixed_eq)
  show "be_bytes 2 (length x) @ x \<noteq> []" for x
    using length_be_bytes [of 2 "length x"] by (metis append_is_Nil_conv list.size(3) zero_neq_numeral)
qed

text \<open>Elements as \<open>CBS_get_any_asn1_element\<close> returns them, header included.\<close>

definition get_der_element :: "cbs \<Rightarrow> bytes cbs_ret" where
  "get_der_element cbs = cbs_bind (CBS_get_any_asn1_element cbs) (\<lambda>el cbs. (Some (out_cbs el), cbs))"

definition is_der_element :: "bytes \<Rightarrow> bool" where
  "is_der_element e \<longleftrightarrow> (\<exists>tag body. asn1_valid_tag tag \<and> length body < 2 ^ 32 \<and> e = der_element tag body)"

interpretation element_codec: self_delimiting "\<lambda>e. e" get_der_element is_der_element
proof unfold_locales
  show "get_der_element cbs = (Some x, rest) \<longleftrightarrow> is_der_element x \<and> cbs = x @ rest" for cbs x rest
    unfolding get_der_element_def is_der_element_def cbs_bind_Some der_parse_iff by force
  show "is_der_element x \<Longrightarrow> x \<noteq> []" for x
    by (auto simp: is_der_element_def der_element_def der_tag_nonempty)
qed

end
