(* ===== verification/Oid.thy ===== *)
theory Oid
  imports Asn1_Write Codec
begin

text \<open>
  Object identifiers: the validity check of \<open>cbs.c\<close> accepts exactly the non-empty
  concatenations of base-128 integers, \<open>CBB_add_asn1_oid_from_text\<close> accepts exactly the dotted
  decimal texts of the specification \<open>oid_text\<close> and writes their encoding, and
  \<open>CBS_asn1_oid_to_text\<close> prints them back.
\<close>

section \<open>Validity\<close>

lemma base128_hi_bytes: "\<forall>b\<in>set (base128_hi n). b AND 0x80 \<noteq> 0"
proof (induction n rule: base128_hi.induct)
  case (1 n)
  have "unat (0x80 OR of_nat (n mod 128) :: u8) \<ge> 128" by (simp add: unat_or_80)
  then have "(0x80 OR of_nat (n mod 128) :: u8) AND 0x80 \<noteq> 0" unfolding u8_and_80 by simp
  then show ?case using 1 by (subst base128_hi.simps) auto
qed

lemma base128_last: "(of_nat (n mod 128) :: u8) AND 0x80 = 0"
  unfolding u8_and_80 using unat_low_byte [of "n mod 128"] by simp

lemma base128_hd: "base128_hi n \<noteq> [] \<Longrightarrow> hd (base128_hi n) \<noteq> 0x80"
proof (induction n rule: base128_hi.induct)
  case (1 n)
  then have n: "n \<noteq> 0" by (metis base128_hi.simps)
  show ?case
  proof (cases "n div 128 = 0")
    case True
    then have "n < 128" by simp
    then have "unat (0x80 OR of_nat (n mod 128) :: u8) = 128 + n" by (simp add: unat_or_80)
    then have "(0x80 OR of_nat (n mod 128) :: u8) \<noteq> 0x80" using n by force
    then show ?thesis using True n by (subst base128_hi.simps) (simp add: base128_hi.simps [of 0])
  next
    case False
    have "base128_hi (n div 128) \<noteq> []" using False by (subst base128_hi.simps) simp
    then show ?thesis using 1 n by (subst base128_hi.simps) simp
  qed
qed

text \<open>The loop of the validity check between two integers, and inside one.\<close>

lemma oid_loop_hi:
  "\<forall>b\<in>set bs. b AND 0x80 \<noteq> 0 \<Longrightarrow> prev AND 0x80 \<noteq> 0 \<Longrightarrow> c AND 0x80 = 0 \<Longrightarrow>
   cbs_oid_loop prev (bs @ c # rest) = cbs_oid_loop c rest"
  by (induction bs arbitrary: prev) auto

lemma oid_loop_base128:
  assumes "prev AND 0x80 = 0"
  shows "\<exists>c. c AND 0x80 = 0 \<and> cbs_oid_loop prev (base128 n @ rest) = cbs_oid_loop c rest"
proof -
  let ?c = "of_nat (n mod 128) :: u8"
  have c: "?c AND 0x80 = 0" "?c \<noteq> 0x80" using base128_last [of n] by auto
  show ?thesis
  proof (cases "base128_hi (n div 128)")
    case Nil
    then show ?thesis using c by (intro exI [of _ ?c]) (simp add: base128_def)
  next
    case (Cons b bs)
    have "b \<noteq> 0x80" "b AND 0x80 \<noteq> 0" "\<forall>b\<in>set bs. b AND 0x80 \<noteq> 0"
      using base128_hd [of "n div 128"] base128_hi_bytes [of "n div 128"] Cons by auto
    then show ?thesis
      using c oid_loop_hi [of bs b ?c rest] Cons by (intro exI [of _ ?c]) (simp add: base128_def)
  qed
qed

lemma oid_loop_concat:
  "prev AND 0x80 = 0 \<Longrightarrow> cbs_oid_loop prev (concat (map base128 ns)) = True"
proof (induction ns arbitrary: prev)
  case (Cons n ns)
  then show ?case using oid_loop_base128 [of prev n "concat (map base128 ns)"] by auto
qed simp

lemma base128_hi_surj:
  "\<forall>b\<in>set hs. b AND 0x80 \<noteq> 0 \<Longrightarrow> hs = [] \<or> hd hs \<noteq> 0x80 \<Longrightarrow> \<exists>m. hs = base128_hi m"
proof (induction hs rule: rev_induct)
  case Nil
  show ?case by (rule exI [of _ 0]) (simp add: base128_hi.simps)
next
  case (snoc h hs)
  then have "hs = [] \<or> hd hs \<noteq> 0x80" by (cases hs) auto
  with snoc obtain m where m: "hs = base128_hi m" by auto
  have h: "128 \<le> unat h" using snoc.prems by (simp add: u8_and_80 not_less)
  let ?n = "m * 128 + unat h mod 128"
  have "?n \<noteq> 0"
  proof
    assume z: "?n = 0"
    then have "hs = []" using m by (simp add: base128_hi.simps)
    moreover have "h = 0x80" using z h hi_byte_cases [OF h] by simp
    ultimately show False using snoc.prems by simp
  qed
  moreover have "?n div 128 = m" "?n mod 128 = unat h mod 128" by simp_all
  ultimately have "hs @ [h] = base128_hi ?n"
    using m hi_byte_cases [OF h] by (subst base128_hi.simps) simp
  then show ?case ..
qed

lemma oid_loop_surj:
  "prev AND 0x80 = 0 \<Longrightarrow> cbs_oid_loop prev bs \<Longrightarrow> \<exists>ns. bs = concat (map base128 ns)"
proof (induction "length bs" arbitrary: prev bs rule: less_induct)
  case less
  show ?case
  proof (cases "bs = []")
    case True
    then show ?thesis by (intro exI [of _ "[]"]) simp
  next
    case False
    let ?hi = "\<lambda>b::u8. b AND 0x80 \<noteq> 0"
    let ?hs = "takeWhile ?hi bs"
    have fail: "\<not> cbs_oid_loop p xs" if "p AND 0x80 \<noteq> 0" "\<forall>b\<in>set xs. b AND 0x80 \<noteq> 0" for p xs
      using that by (induction xs arbitrary: p) auto
    have "dropWhile ?hi bs \<noteq> []"
    proof
      assume "dropWhile ?hi bs = []"
      then have "\<forall>b\<in>set bs. ?hi b" by (simp add: dropWhile_eq_Nil_conv)
      then show False using less.prems False fail by (cases bs) (auto split: if_splits)
    qed
    then obtain c rest where c: "dropWhile ?hi bs = c # rest" "c AND 0x80 = 0"
      using hd_dropWhile [of ?hi bs] by (cases "dropWhile ?hi bs") auto
    have bs: "bs = ?hs @ c # rest" using c(1) takeWhile_dropWhile_id [of ?hi bs] by simp
    have hs: "\<forall>b\<in>set ?hs. ?hi b" by (auto dest: set_takeWhileD)
    have hd: "?hs = [] \<or> hd ?hs \<noteq> 0x80" using less.prems by (cases bs) (auto split: if_splits)
    from base128_hi_surj [OF hs hd] obtain m where m: "?hs = base128_hi m" by blast
    have "unat c < 128" using c(2) by (simp add: u8_and_80)
    then have "base128 (m * 128 + unat c) = ?hs @ [c]" using m by (simp add: base128_def)
    then have e: "bs = base128 (m * 128 + unat c) @ rest" using bs by simp
    have "cbs_oid_loop c rest"
    proof (cases ?hs)
      case Nil
      then show ?thesis using less.prems bs by (auto split: if_splits)
    next
      case (Cons b xs)
      then have "cbs_oid_loop b (xs @ c # rest)" using less.prems bs by (metis (no_types) append_Cons cbs_oid_loop.simps(2))
      then show ?thesis using oid_loop_hi [of xs b c rest] hs Cons c(2) by simp
    qed
    moreover have "length rest < length bs" using arg_cong [OF bs, of length] by simp
    ultimately obtain ns where "rest = concat (map base128 ns)" using less.hyps [of rest c] c(2) by blast
    then show ?thesis using e by (intro exI [of _ "(m * 128 + unat c) # ns"]) simp
  qed
qed

lemma CBS_is_valid_asn1_oid_iff:
  "CBS_is_valid_asn1_oid bs \<longleftrightarrow> (\<exists>ns. ns \<noteq> [] \<and> bs = concat (map base128 ns))"
proof
  assume "CBS_is_valid_asn1_oid bs"
  then have "bs \<noteq> []" "cbs_oid_loop 0 bs" by (auto simp: CBS_is_valid_asn1_oid_def CBS_len_def split: if_splits)
  then obtain ns where "bs = concat (map base128 ns)" using oid_loop_surj [of 0 bs] by auto
  moreover from this have "ns \<noteq> []" using \<open>bs \<noteq> []\<close> by auto
  ultimately show "\<exists>ns. ns \<noteq> [] \<and> bs = concat (map base128 ns)" by blast
next
  assume "\<exists>ns. ns \<noteq> [] \<and> bs = concat (map base128 ns)"
  then obtain ns where "ns \<noteq> []" "bs = concat (map base128 ns)" by blast
  then show "CBS_is_valid_asn1_oid bs"
    using oid_loop_concat [of 0 ns] by (cases ns) (auto simp: CBS_is_valid_asn1_oid_def CBS_len_def base128_def)
qed

section \<open>Decimal numbers\<close>

fun decimal :: "nat \<Rightarrow> bytes" where
  "decimal n = (if n < 10 then [of_nat (48 + n)] else decimal (n div 10) @ [of_nat (48 + n mod 10)])"

declare decimal.simps [simp del]

lemma digit_byte: "k < 10 \<Longrightarrow> OPENSSL_isdigit (of_nat (48 + k)) \<and> unat (of_nat (48 + k) :: u8) = 48 + k"
proof -
  assume k: "k < 10"
  then have "unat (of_nat (48 + k) :: u8) = 48 + k" by (intro unat_of_nat_less) simp
  then show ?thesis using k by (simp add: OPENSSL_isdigit_unat)
qed

lemma decimal_props:
  "decimal n \<noteq> []" "list_all OPENSSL_isdigit (decimal n)" "dec_from 0 (decimal n) = n"
  "hd (decimal n) = 0x30 \<Longrightarrow> n = 0"
proof (induction n rule: decimal.induct)
  case (1 n)
  { case 1
    show ?case by (subst decimal.simps) simp }
  { case 2
    show ?case using "1.IH"(2) digit_byte [of n] digit_byte [of "n mod 10"]
      by (subst decimal.simps) (simp del: of_nat_add) }
  { case 3
    show ?case using "1.IH"(3) digit_byte [of n] digit_byte [of "n mod 10"]
      by (subst decimal.simps) (simp add: dec_from_def del: of_nat_add) }
  { case 4
    show ?case
    proof (cases "n < 10")
      case True
      then have "decimal n = [of_nat (48 + n)]" by (subst decimal.simps) simp
      then have "unat (of_nat (48 + n) :: u8) = unat (0x30 :: u8)" using 4 by simp
      then show ?thesis using digit_byte [OF True] by simp
    next
      case False
      then have "hd (decimal (n div 10)) = 0x30" using 4 "1.IH"(1) by (subst (asm) decimal.simps) simp
      then show ?thesis using "1.IH"(4) False by simp
    qed }
qed

lemma dec_from_snoc: "dec_from n (ds @ [c]) = dec_from n ds * 10 + (unat c - 48)"
  by (simp add: dec_from_def)

lemma decimal_dec_from:
  "list_all OPENSSL_isdigit ds \<Longrightarrow> ds \<noteq> [] \<Longrightarrow> hd ds \<noteq> 0x30 \<or> tl ds = [] \<Longrightarrow> decimal (dec_from 0 ds) = ds"
proof (induction ds rule: rev_induct)
  case (snoc c ds)
  have d: "48 \<le> unat c" "unat c < 58" using snoc.prems by (auto simp: OPENSSL_isdigit_unat)
  then have b: "of_nat (48 + (unat c - 48)) = c" by simp
  let ?n = "dec_from 0 ds * 10 + (unat c - 48)"
  have "unat c - 48 < 10" using d by simp
  then have dm: "?n div 10 = dec_from 0 ds" "?n mod 10 = unat c - 48" by (simp_all del: diff_is_0_eq')
  show ?case
  proof (cases "ds = []")
    case True
    have "unat c - 48 < 10" using d by simp
    then have "decimal (unat c - 48) = [of_nat (48 + (unat c - 48))]" by (subst decimal.simps) simp
    then show ?thesis using b True by (simp add: dec_from_def del: of_nat_add)
  next
    case False
    then have h: "hd ds \<noteq> 0x30" using snoc.prems by (cases ds) auto
    with False snoc have IH: "decimal (dec_from 0 ds) = ds" by simp
    moreover have "decimal 0 = [0x30]" by (subst decimal.simps) simp
    ultimately have "dec_from 0 ds \<noteq> 0" using h by (metis list.sel(1))
    then have "decimal ?n = decimal (dec_from 0 ds) @ [c]"
      using dm b by (subst decimal.simps) simp
    then show ?thesis using IH by (simp add: dec_from_snoc)
  qed
qed simp

lemma print_u64_decimal: "print_u64 v = decimal (unat v)"
proof (induction v rule: print_u64.induct)
  case (1 v)
  have lt: "v < 10 \<longleftrightarrow> unat v < 10" by (simp add: word_less_nat_alt)
  have dig: "0x30 + ucast w = (of_nat (48 + unat w) :: u8)" if "unat w < 10" for w :: u64
    using that by (simp add: unat_ucast_mod word_eq_unatI unat_of_nat_mod)
  have m: "unat (v mod 10) = unat v mod 10" "unat (v div 10) = unat v div 10"
    by (simp_all add: unat_mod_distrib unat_div_distrib)
  show ?case
    using 1 dig [of v] dig [of "v mod 10"] m lt
    by (subst print_u64.simps, subst decimal.simps) (simp del: of_nat_add)
qed

lemma decimal_inject: "decimal m = decimal n \<Longrightarrow> m = n"
  by (metis decimal_props(3))

lemma CBS_get_u64_decimal_decimal:
  "CBS_get_u64_decimal cbs = (Some v, rest) \<longleftrightarrow>
     cbs = decimal (unat v) @ rest \<and> (rest = [] \<or> \<not> OPENSSL_isdigit (hd rest))"
proof
  assume g: "CBS_get_u64_decimal cbs = (Some v, rest)"
  define ds where "ds = takeWhile OPENSSL_isdigit cbs"
  define r where "r = dropWhile OPENSSL_isdigit cbs"
  have c: "cbs = ds @ r" by (simp add: ds_def r_def)
  have d: "list_all OPENSSL_isdigit ds" by (auto simp: ds_def list_all_iff dest: set_takeWhileD)
  have r: "r = [] \<or> \<not> OPENSSL_isdigit (hd r)" using hd_dropWhile [of OPENSSL_isdigit cbs] by (auto simp: r_def)
  from g have h: "ds \<noteq> []" "hd ds \<noteq> 0x30 \<or> tl ds = []" "dec_from 0 ds < 2 ^ 64"
    "v = of_nat (dec_from 0 ds)" "rest = r"
    unfolding c CBS_get_u64_decimal_iff [OF d r] by auto
  then have "unat v = dec_from 0 ds" by (simp add: unat_of_nat_less)
  then show "cbs = decimal (unat v) @ rest \<and> (rest = [] \<or> \<not> OPENSSL_isdigit (hd rest))"
    using decimal_dec_from [OF d h(1,2)] h(5) c r by simp
next
  assume a: "cbs = decimal (unat v) @ rest \<and> (rest = [] \<or> \<not> OPENSSL_isdigit (hd rest))"
  have z: "hd (decimal (unat v)) = 0x30 \<Longrightarrow> tl (decimal (unat v)) = []"
    using decimal_props(4) [of "unat v"] by (auto simp: decimal.simps [of 0])
  have "unat v < 2 ^ 64" using unat_lt_power [of v] by simp
  then show "CBS_get_u64_decimal cbs = (Some v, rest)"
    using a z CBS_get_u64_decimal_iff [OF decimal_props(2), of rest "unat v" v rest]
    by (auto simp: decimal_props)
qed

lemma dot_not_digit: "\<not> OPENSSL_isdigit 0x2e"
  by (simp add: OPENSSL_isdigit_def)

lemma parse_dotted_decimal_iff:
  "parse_dotted_decimal cbs = (Some v, rest) \<longleftrightarrow>
     cbs = decimal (unat v) @ (if rest = [] then [] else 0x2e # rest)"
proof
  assume "parse_dotted_decimal cbs = (Some v, rest)"
  then obtain x r where r: "CBS_get_u64_decimal cbs = (Some x, r)"
    "(case CBS_get_u8 r of (None, cbs) \<Rightarrow> (Some x, cbs)
      | (Some dot, cbs) \<Rightarrow> if dot = 0x2e \<and> CBS_len cbs > 0 then (Some x, cbs) else (None, cbs)) = (Some v, rest)"
    unfolding parse_dotted_decimal_def cbs_bind_Some by blast
  moreover from r(2) have "x = v \<and> ((r = [] \<and> rest = []) \<or> (r = 0x2e # rest \<and> rest \<noteq> []))"
    by (cases r) (auto simp: CBS_len_def split: if_splits)
  ultimately show "cbs = decimal (unat v) @ (if rest = [] then [] else 0x2e # rest)"
    by (auto simp: CBS_get_u64_decimal_decimal)
next
  assume a: "cbs = decimal (unat v) @ (if rest = [] then [] else 0x2e # rest)"
  then have "CBS_get_u64_decimal cbs = (Some v, if rest = [] then [] else 0x2e # rest)"
    by (auto simp: CBS_get_u64_decimal_decimal dot_not_digit)
  then show "parse_dotted_decimal cbs = (Some v, rest)"
    by (simp add: parse_dotted_decimal_def CBS_len_def)
qed

section \<open>Reading the text form\<close>

fun oid_text :: "nat list \<Rightarrow> bytes" where
  "oid_text [] = []"
| "oid_text [n] = decimal n"
| "oid_text (n # m # ns) = decimal n @ 0x2e # oid_text (m # ns)"

fun oid_der :: "nat list \<Rightarrow> bytes" where
  "oid_der (a # b # ns) = base128 (40 * a + b) @ concat (map base128 ns)"
| "oid_der _ = []"

text \<open>The components that fit the encoding and the 64-bit arithmetic of the code.\<close>

fun oid_ok :: "nat list \<Rightarrow> bool" where
  "oid_ok (a # b # ns) = (a \<le> 2 \<and> (a < 2 \<longrightarrow> b \<le> 39) \<and> b \<le> 2 ^ 64 - 81 \<and> (\<forall>n\<in>set ns. n < 2 ^ 64))"
| "oid_ok _ = False"

lemma oid_text_Cons: "oid_text (n # ns) = decimal n @ (if ns = [] then [] else 0x2e # oid_text ns)"
  by (cases ns) simp_all

lemma oid_text_Nil_iff: "oid_text ns = [] \<longleftrightarrow> ns = []"
  by (cases ns) (simp_all add: oid_text_Cons decimal_props)

lemma dotted_many_iff: "cbs_many parse_dotted_decimal cbs = Some vs \<longleftrightarrow> cbs = oid_text (map unat vs)"
proof (induction "length cbs" arbitrary: cbs vs rule: less_induct)
  case less
  show ?case
  proof (cases "cbs = []")
    case True
    then show ?thesis using oid_text_Nil_iff [of "map unat vs"] by auto
  next
    case False
    then have u: "cbs_many parse_dotted_decimal cbs = (case parse_dotted_decimal cbs of (None, _) \<Rightarrow> None
        | (Some x, rest) \<Rightarrow> map_option ((#) x) (cbs_many parse_dotted_decimal rest))"
      by (subst cbs_many.simps)
        (auto simp: CBS_len_def dest: parse_dotted_decimal_length split: option.splits prod.splits)
    show ?thesis
    proof (cases vs)
      case Nil
      then show ?thesis using False u by (auto split: option.splits prod.splits)
    next
      case (Cons v ws)
      have "cbs_many parse_dotted_decimal cbs = Some vs \<longleftrightarrow>
          (\<exists>rest. parse_dotted_decimal cbs = (Some v, rest) \<and> cbs_many parse_dotted_decimal rest = Some ws)"
        unfolding u Cons by (auto split: option.splits prod.splits)
      also have "\<dots> \<longleftrightarrow> (\<exists>rest. parse_dotted_decimal cbs = (Some v, rest) \<and> rest = oid_text (map unat ws))"
        using less parse_dotted_decimal_length by blast
      also have "\<dots> \<longleftrightarrow> cbs = oid_text (map unat vs)"
        using Cons by (simp add: parse_dotted_decimal_iff oid_text_Cons oid_text_Nil_iff)
      finally show ?thesis .
    qed
  qed
qed

text \<open>An operation that returns 0 on every builder.\<close>

definition rejects :: "allocator \<Rightarrow> nat \<Rightarrow> (cbb \<Rightarrow> unit cbb_ret) \<Rightarrow> bool" where
  "rejects mem d f \<longleftrightarrow> (alloc_ok mem \<longrightarrow> (\<forall>s a. cbb_rel2 s a \<longrightarrow> d \<le> length (snd a) \<longrightarrow>
     cbb_wp (f s) (\<lambda>_. True) (\<lambda>_ _. False)))"

lemma rejects_seq:
  assumes "appends mem d f e" "rejects mem d g"
  shows "rejects mem d (\<lambda>s. cbb_bind (f s) (\<lambda>_ s. g s))"
  unfolding rejects_def cbb_wp_bind
proof (intro impI allI)
  fix s a assume h: "alloc_ok mem" "cbb_rel2 s a" "d \<le> length (snd a)"
  show "cbb_wp (f s) (\<lambda>_. True) (\<lambda>_ s. cbb_wp (g s) (\<lambda>_. True) (\<lambda>_ _. False))"
    by (rule cbb_wp_mono [OF appendsD [OF assms(1) h]])
      (use assms(2) h(1) in \<open>auto simp: rejects_def\<close>)
qed

lemma rejects_return: "rejects mem d (\<lambda>s. Some (None, s))"
  by (simp add: rejects_def)

lemma oid_text_loop_step:
  "cbs \<noteq> [] \<Longrightarrow> oid_text_loop mem d cbs = (\<lambda>s. case parse_dotted_decimal cbs of
      (None, _) \<Rightarrow> Some (None, s)
    | (Some a, cbs') \<Rightarrow> cbb_bind (add_base128_integer mem d a s) (\<lambda>_ s. oid_text_loop mem d cbs' s))"
  by (rule ext) (subst oid_text_loop.simps, simp add: CBS_len_def)

lemma oid_text_loop_Nil: "oid_text_loop mem d [] = (\<lambda>s. Some (Some (), s))"
  by (rule ext) (simp add: oid_text_loop.simps CBS_len_def)

lemma oid_text_loop_ok:
  fixes vs :: "u64 list"
  shows "vs \<noteq> [] \<Longrightarrow> appends mem d (oid_text_loop mem d (oid_text (map unat vs))) (concat (map (\<lambda>v. base128 (unat v)) vs))"
proof (induction vs)
  case (Cons v vs)
  have p: "parse_dotted_decimal (oid_text (map unat (v # vs))) = (Some v, oid_text (map unat vs))"
    by (simp add: parse_dotted_decimal_iff oid_text_Cons oid_text_Nil_iff)
  have u: "oid_text_loop mem d (oid_text (map unat (v # vs))) =
      (\<lambda>s. cbb_bind (add_base128_integer mem d v s) (\<lambda>_ s. oid_text_loop mem d (oid_text (map unat vs)) s))"
    using oid_text_loop_step [of "oid_text (map unat (v # vs))" mem d] p oid_text_Nil_iff [of "map unat (v # vs)"] by simp
  show ?case
  proof (cases "vs = []")
    case True
    then show ?thesis
      unfolding u using add_base128_integer_appends [of mem d v] by (simp add: oid_text_loop_Nil cbb_bind_unit)
  next
    case False
    then show ?thesis
      unfolding u using appends_seq [OF add_base128_integer_appends Cons.IH] by simp
  qed
qed simp

lemma oid_text_loop_bad:
  "cbs_many parse_dotted_decimal cbs = None \<Longrightarrow> rejects mem d (oid_text_loop mem d cbs)"
proof (induction "length cbs" arbitrary: cbs rule: less_induct)
  case less
  then have n: "cbs \<noteq> []" by auto
  show ?case
  proof (cases "parse_dotted_decimal cbs")
    case (Pair v rest)
    show ?thesis
    proof (cases v)
      case None
      then show ?thesis using Pair n by (simp add: oid_text_loop_step rejects_return)
    next
      case (Some a)
      have l: "length rest < length cbs" using Pair Some parse_dotted_decimal_length by simp
      then have "cbs_many parse_dotted_decimal rest = None"
        using less.prems n Pair Some by (subst (asm) cbs_many.simps) (simp add: CBS_len_def)
      from rejects_seq [OF add_base128_integer_appends less.hyps [OF l this]]
      show ?thesis using Pair Some n by (simp add: oid_text_loop_step)
    qed
  qed
qed

lemma cbs_many_parse_Cons:
  "cbs_many parse_dotted_decimal cbs = Some (v # vs) \<longleftrightarrow>
     (\<exists>rest. parse_dotted_decimal cbs = (Some v, rest) \<and> cbs_many parse_dotted_decimal rest = Some vs)"
  by (auto simp: dotted_many_iff parse_dotted_decimal_iff oid_text_Cons oid_text_Nil_iff)

lemma oid_first_test:
  "\<not> (a > 2 \<or> a < 2 \<and> b > 39 \<or> b > (- 1) - 80) \<longleftrightarrow>
     unat (a::u64) \<le> 2 \<and> (unat a < 2 \<longrightarrow> unat (b::u64) \<le> 39) \<and> unat b \<le> 2 ^ 64 - 81"
  by (auto simp: word_less_nat_alt)

lemma oid_first_value:
  assumes "unat (a::u64) \<le> 2" "unat (b::u64) \<le> 2 ^ 64 - 81"
  shows "unat (40 * a + b) = 40 * unat a + unat b"
proof -
  have "40 * a + b = of_nat (40 * unat a + unat b)" by simp
  moreover have "40 * unat a + unat b < 2 ^ LENGTH(64)" using assms by simp
  ultimately show ?thesis by (simp only: unat_of_nat_less)
qed

lemma oid_parse_text:
  "n < 2 ^ 64 \<Longrightarrow> parse_dotted_decimal (oid_text (n # ns)) = (Some (of_nat n), oid_text ns)"
  by (simp add: parse_dotted_decimal_iff unat_of_nat_less oid_text_Cons oid_text_Nil_iff)

lemma oid_from_text_eq:
  assumes "parse_dotted_decimal text = (Some a, r1)" "parse_dotted_decimal r1 = (Some b, r2)"
  shows "CBB_add_asn1_oid_from_text mem d text =
    (\<lambda>s. cbb_bind (CBB_flush mem d s) (\<lambda>_ s.
       (if a > 2 \<or> a < 2 \<and> b > 39 \<or> b > (- 1) - 80 then (\<lambda>s. Some (None, s))
        else (\<lambda>s. cbb_bind (add_base128_integer mem d (40 * a + b) s) (\<lambda>_ s. oid_text_loop mem d r2 s))) s))"
  using assms by (intro ext) (simp add: CBB_add_asn1_oid_from_text_def CBS_init_def if_distribR)

lemma CBB_add_asn1_oid_from_text_appends:
  assumes "oid_ok ns"
  shows "appends mem d (CBB_add_asn1_oid_from_text mem d (oid_text ns)) (oid_der ns)"
proof -
  from assms obtain x y cs where ns: "ns = x # y # cs" by (cases ns rule: oid_ok.cases) auto
  let ?a = "of_nat x :: u64" and ?b = "of_nat y :: u64" and ?vs = "map of_nat cs :: u64 list"
  have ok: "x \<le> 2" "x < 2 \<longrightarrow> y \<le> 39" "y \<le> 2 ^ 64 - 81" "\<forall>n\<in>set cs. n < 2 ^ 64"
    using assms ns by simp_all
  have y: "y < 2 ^ 64" and x: "x < 2 ^ 64" using ok(1,3) by simp_all
  then have u: "unat ?a = x" "unat ?b = y" by (simp_all add: unat_of_nat_less)
  have vs: "map unat ?vs = cs" using ok(4) by (auto simp: map_idI unat_of_nat_less)
  have test: "\<not> (?a > 2 \<or> ?a < 2 \<and> ?b > 39 \<or> ?b > (- 1) - 80)"
    unfolding oid_first_test u using ok by simp
  have first: "unat (40 * ?a + ?b) = 40 * x + y" using oid_first_value [of ?a ?b] u ok by simp
  have "appends mem d (\<lambda>s. cbb_bind (add_base128_integer mem d (40 * ?a + ?b) s)
      (\<lambda>_ s. oid_text_loop mem d (oid_text cs) s)) (oid_der ns)"
  proof (cases "cs = []")
    case True
    then show ?thesis
      using add_base128_integer_appends [of mem d "40 * ?a + ?b"] first ns
      by (simp add: oid_text_loop_Nil cbb_bind_unit)
  next
    case False
    have "concat (map (\<lambda>v. base128 (unat v)) ?vs) = concat (map base128 cs)"
      using arg_cong [OF vs, of "\<lambda>ns. concat (map base128 ns)"] by (simp add: comp_def)
    then show ?thesis
      using appends_seq [OF add_base128_integer_appends [of mem d "40 * ?a + ?b"] oid_text_loop_ok [of ?vs mem d]] False first ns
      unfolding vs by simp
  qed
  from appends_seq [OF CBB_flush_appends this] show ?thesis
    unfolding ns oid_from_text_eq [OF oid_parse_text [OF x] oid_parse_text [OF y]] if_not_P [OF test] by simp
qed

lemma CBB_add_asn1_oid_from_text_rejects:
  assumes "\<nexists>ns. oid_ok ns \<and> text = oid_text ns"
  shows "rejects mem d (CBB_add_asn1_oid_from_text mem d text)"
proof -
  note fail = rejects_seq [OF CBB_flush_appends rejects_return]
  show ?thesis
  proof (cases "parse_dotted_decimal text")
    case p1: (Pair v1 r1)
    show ?thesis
    proof (cases v1)
      case None
      then show ?thesis using p1 fail by (simp add: CBB_add_asn1_oid_from_text_def [abs_def] CBS_init_def)
    next
      case a: (Some a)
      show ?thesis
      proof (cases "parse_dotted_decimal r1")
        case p2: (Pair v2 r2)
        show ?thesis
        proof (cases v2)
          case None
          then show ?thesis using p1 p2 a fail by (simp add: CBB_add_asn1_oid_from_text_def [abs_def] CBS_init_def)
        next
          case b: (Some b)
          let ?test = "a > 2 \<or> a < 2 \<and> b > 39 \<or> b > (- 1) - 80"
          have "cbs_many parse_dotted_decimal r2 = None" if t: "\<not> ?test"
          proof (rule ccontr)
            assume "cbs_many parse_dotted_decimal r2 \<noteq> None"
            then obtain vs where "cbs_many parse_dotted_decimal r2 = Some vs" by blast
            then have "cbs_many parse_dotted_decimal text = Some (a # b # vs)"
              using p1 p2 a b by (auto simp: cbs_many_parse_Cons)
            then have "text = oid_text (unat a # unat b # map unat vs)" by (simp add: dotted_many_iff)
            moreover have "\<forall>n\<in>set (map unat vs). n < 2 ^ 64" using unat_lt_power [where 'a = 64] by auto
            ultimately show False using assms t unfolding oid_first_test by (metis oid_ok.simps(1))
          qed
          then have "rejects mem d (if ?test then (\<lambda>s. Some (None, s))
              else (\<lambda>s. cbb_bind (add_base128_integer mem d (40 * a + b) s) (\<lambda>_ s. oid_text_loop mem d r2 s)))"
            using rejects_return rejects_seq [OF add_base128_integer_appends oid_text_loop_bad] by simp
          from rejects_seq [OF CBB_flush_appends this] show ?thesis
            unfolding oid_from_text_eq [OF p1 [unfolded a] p2 [unfolded b]] .
        qed
      qed
    qed
  qed
qed

section \<open>Printing\<close>

lemma add_decimal_appends: "appends mem d (add_decimal mem d v) (decimal (unat v))"
proof -
  have "length (decimal n) \<le> k" if "n < 10 ^ k" "0 < k" for n k
    using that
  proof (induction k arbitrary: n)
    case (Suc k)
    show ?case
    proof (cases "n < 10")
      case True
      then show ?thesis by (subst decimal.simps) simp
    next
      case False
      then have "0 < k" using Suc.prems by (cases k) auto
      moreover have "n div 10 < 10 ^ k" using Suc.prems by (simp add: div_less_iff_less_mult mult.commute)
      ultimately show ?thesis using Suc.IH False by (subst decimal.simps) simp
    qed
  qed simp
  from this [of "unat v" 20] have "length (decimal (unat v)) \<le> 20" using unat_lt_power [of v] by simp
  then show ?thesis
    unfolding add_decimal_def [abs_def] print_u64_decimal by (intro CBB_add_bytes_appends) simp
qed

lemma CBB_init_rel:
  assumes "alloc_ok mem" "n < 2 ^ 64" "CBB_init mem n = Some s"
  shows "cbb_rel s [] [] \<and> can_resize (cbb_base s)"
  using assms OPENSSL_malloc_length [of mem n]
  by (auto simp: CBB_init_def cbb_init_def cbb_rel_def buf_ok_def contents_def split: option.splits if_splits)

lemma CBB_init_live: "(\<forall>m. mem m \<noteq> None) \<Longrightarrow> n \<le> 2 ^ 62 \<Longrightarrow> \<exists>s. CBB_init mem n = Some s"
  using OPENSSL_malloc_live [of mem n] by (auto simp: CBB_init_def)

lemma CBB_init_fixed_rel: "length b < 2 ^ 64 \<Longrightarrow> cbb_rel (CBB_init_fixed b) [] []"
  by (simp add: CBB_init_fixed_def cbb_init_def cbb_rel_def buf_ok_def contents_def)

text \<open>A complete run: start, append \<open>e\<close> to the root, finish.\<close>

lemma append_finish:
  assumes f: "appends mem 0 f e" and m: "alloc_ok mem" and i: "CBB_init mem n = Some s" "n < 2 ^ 64"
  shows "cbb_wp (cbb_bind (f s) (\<lambda>_ s. CBB_finish mem 0 True s))
    (\<lambda>_. \<not> ((\<forall>m. mem m \<noteq> None) \<and> length e \<le> 2 ^ 61)) (\<lambda>out _. out = e)"
proof -
  have r: "cbb_rel2 s ([], [])" "can_resize (cbb_base s)" using CBB_init_rel [OF m i(2,1)] by simp_all
  have a: "a_add 0 e ([], []) = Some (e, [])" by (simp add: a_add_def a_flush_def)
  have al: "alen (e, []) = length e" by (simp add: alen_def)
  show ?thesis unfolding cbb_wp_bind
  proof (rule cbb_wp_mono [OF appendsD [OF f m r(1)]])
    fix s' assume "failed 0 s' \<and> (\<forall>a'. a_add 0 e ([], []) = Some a' \<longrightarrow> \<not> cbb_room mem (cbb_base s) (alen a'))"
    then show "\<not> ((\<forall>m. mem m \<noteq> None) \<and> length e \<le> 2 ^ 61)"
      using r(2) a al by (auto simp: cbb_room_def)
  next
    fix x s1 assume "\<exists>a'. a_add 0 e ([], []) = Some a' \<and> cbb_rel2 s1 a' \<and> length (snd a') = 0 \<and>
      grows (cbb_base s) (cbb_base s1)"
    then have r1: "cbb_rel2 s1 (e, [])" "can_resize (cbb_base s1)" using a r(2) by (auto simp: grows_def)
    show "cbb_wp (CBB_finish mem 0 True s1) (\<lambda>_. \<not> ((\<forall>m. mem m \<noteq> None) \<and> length e \<le> 2 ^ 61)) (\<lambda>out _. out = e)"
      by (rule cbb_wp_mono [OF CBB_finish_refines [OF m r1(1)]])
        (use r1(2) al in \<open>auto simp: a_flush_def cbb_room_def\<close>)
  qed simp
qed

lemma cbb_result_cases:
  obtains "m = None" | s where "m = Some (None, s)" | x s where "m = Some (Some x, s)"
  by (metis option.exhaust surj_pair)

text \<open>A run that writes one element and finishes without flushing it first.\<close>

lemma finish_flush:
  assumes "alloc_ok mem" "cbb_rel2 s a" "0 < length (snd a)"
  shows "CBB_finish mem 0 True s = cbb_bind (CBB_flush mem 0 s) (\<lambda>_ s. CBB_finish mem 0 True s)"
proof -
  have "CBB_flush mem 0 s1 = Some (Some (), s1)" if "CBB_flush mem 0 s = Some (Some x, s1)" for x s1
  proof -
    have "\<exists>a'. cbb_rel2 s1 a' \<and> length (snd a') = 0"
      using CBB_flush_refines [OF assms(1,2), of 0] that by auto
    then show ?thesis by (subst CBB_flush.simps) (auto simp: cbb_rel_def)
  qed
  then show ?thesis
    by (cases "CBB_flush mem 0 s" rule: cbb_result_cases) (simp_all add: CBB_finish_def)
qed

lemma cbb_bind_cong_wp:
  "cbb_wp m E P \<Longrightarrow> (\<And>x s. P x s \<Longrightarrow> f x s = g x s) \<Longrightarrow> cbb_bind m f = cbb_bind m g"
  by (cases m rule: cbb_result_cases) simp_all

lemma build_child:
  assumes m: "alloc_ok mem" and f: "opens mem 0 f e k" and b: "length body < 2 ^ 64" and i: "CBB_init mem n = Some s" "n < 2 ^ 64"
  shows "cbb_wp (cbb_bind (f s) (\<lambda>_ s. cbb_bind (CBB_add_bytes mem 1 body s) (\<lambda>_ s. CBB_finish mem 0 True s)))
    (\<lambda>_. \<not> ((\<forall>m. mem m \<noteq> None) \<and> (\<exists>c. a_close k body = Some c \<and> length (e @ c) \<le> 2 ^ 61))) (\<lambda>out _. \<exists>c. a_close k body = Some c \<and> out = e @ c)"
proof -
  note b = CBB_add_bytes_appends [OF b, of mem 1]
  have r: "cbb_rel2 s ([], [])" using CBB_init_rel [OF m i(2,1)] by simp
  let ?w = "cbb_bind (f s) (\<lambda>_ s. CBB_add_bytes mem 1 body s)"
  let ?one = "\<lambda>_ s1. \<exists>root b. cbb_rel s1 root [(k, b)]"
  have open1: "cbb_wp (f s) (\<lambda>_. True) (\<lambda>_ s1. \<exists>root. cbb_rel s1 root [(k, [])])"
    by (rule cbb_wp_mono [OF f [unfolded opens_def, rule_format, OF m r]]) auto
  have write1: "cbb_wp (CBB_add_bytes mem 1 body s1) (\<lambda>_. True) (\<lambda>_ s2. \<exists>root. cbb_rel s2 root [(k, body)])" if "cbb_rel s1 root [(k, [])]" for s1 root
    by (rule cbb_wp_mono [OF appendsD [OF b m, of s1 "(root, [(k, [])])"]]) (use that a_add_top [of "[]" 0 body root k "[]"] in auto)
  have w: "cbb_wp ?w (\<lambda>_. True) (\<lambda>_ s2. \<exists>root. cbb_rel s2 root [(k, body)])"
    unfolding cbb_wp_bind by (rule cbb_wp_mono [OF open1]) (use write1 in blast)+
  have e: "cbb_bind ?w (\<lambda>_ s. CBB_finish mem 0 True s) =
      cbb_bind ?w (\<lambda>_ s. cbb_bind (CBB_flush mem 0 s) (\<lambda>_ s. CBB_finish mem 0 True s))"
    by (rule cbb_bind_cong_wp [OF w]) (use finish_flush [OF m] in fastforce)
  show ?thesis
  proof (cases "a_close k body")
    case None
    have "cbb_wp (cbb_bind ?w (\<lambda>_ s. CBB_finish mem 0 True s)) (\<lambda>_. True) (\<lambda>_ _. False)" unfolding e cbb_wp_bind
    proof (rule cbb_wp_mono [OF w [unfolded cbb_wp_bind]])
      fix x s1 assume "cbb_wp (CBB_add_bytes mem 1 body s1) (\<lambda>_. True) (\<lambda>_ s2. \<exists>root. cbb_rel s2 root [(k, body)])"
      then show "cbb_wp (CBB_add_bytes mem 1 body s1) (\<lambda>_. True) (\<lambda>_ s. cbb_wp (CBB_flush mem 0 s) (\<lambda>_. True) (\<lambda>_ s. cbb_wp (CBB_finish mem 0 True s) (\<lambda>_. True) (\<lambda>_ _. False)))"
      proof (rule cbb_wp_mono)
        fix x s2 assume "\<exists>root. cbb_rel s2 root [(k, body)]"
        then obtain root where "cbb_rel2 s2 (root, [(k, body)])" by auto
        then show "cbb_wp (CBB_flush mem 0 s2) (\<lambda>_. True) (\<lambda>_ s. cbb_wp (CBB_finish mem 0 True s) (\<lambda>_. True) (\<lambda>_ _. False))"
          by (intro cbb_wp_mono [OF CBB_flush_refines [OF m, of s2 "(root, [(k, body)])" 0]]) (auto simp: a_flush_def None)
      qed simp
    qed simp
    then show ?thesis unfolding cbb_bind_assoc by (rule cbb_wp_mono) (simp_all add: None)
  next
    case (Some c)
    have "cbb_wp (cbb_bind ?w (\<lambda>_ s. cbb_bind (CBB_flush mem 0 s) (\<lambda>_ s. CBB_finish mem 0 True s)))
        (\<lambda>_. \<not> ((\<forall>m. mem m \<noteq> None) \<and> length (e @ c) \<le> 2 ^ 61)) (\<lambda>out _. out = e @ c)"
      using append_finish [OF appends_nested [OF f b [simplified] Some] m i] by (simp only: cbb_bind_assoc One_nat_def)
    then have "cbb_wp (cbb_bind ?w (\<lambda>_ s. CBB_finish mem 0 True s)) (\<lambda>_. \<not> ((\<forall>m. mem m \<noteq> None) \<and> length (e @ c) \<le> 2 ^ 61)) (\<lambda>out _. out = e @ c)" unfolding e .
    then show ?thesis unfolding cbb_bind_assoc by (rule cbb_wp_mono) (auto simp: Some)
  qed
qed

lemma build_element:
  assumes m: "alloc_ok mem" "\<forall>m. mem m \<noteq> None" and l: "length body \<le> 0xfffffffe"
    and i: "CBB_init mem n = Some s" "n < 2 ^ 64"
  shows "\<exists>s'. cbb_bind (CBB_add_asn1 mem 0 tag s) (\<lambda>_ s. cbb_bind (CBB_add_bytes mem 1 body s) (\<lambda>_ s.
       CBB_finish mem 0 True s)) = Some (Some (der_element tag body), s')"
proof -
  have "length (der_element tag body) \<le> 2 ^ 61" "length body < 2 ^ 64"
    using length_der_tag [of tag] l by (simp_all add: der_element_def der_length_def Let_def)
  then show ?thesis using build_child [OF m(1) CBB_add_asn1_opens _ i, of body tag] m(2) l
    by (auto simp: cbb_wp_def der_element_def split: option.splits prod.splits)
qed

text \<open>The same for a length prefix: a body that is too long for it makes \<open>CBB_finish\<close> fail.\<close>

lemma build_prefixed:
  assumes m: "alloc_ok mem" "\<forall>m. mem m \<noteq> None" and l: "length body < 2 ^ 64" "k \<le> 3"
    and i: "CBB_init mem n = Some s" "n < 2 ^ 64"
  shows "\<exists>s'. cbb_bind (cbb_add_length_prefixed mem 0 k s) (\<lambda>_ s. cbb_bind (CBB_add_bytes mem 1 body s) (\<lambda>_ s. CBB_finish mem 0 True s)) =
    Some (if length body < 256 ^ k then Some (be_bytes k (length body) @ body) else None, s')"
proof -
  have "length body + k \<le> 2 ^ 61" if "length body < 256 ^ k"
    using that l(2) power_increasing [of k 3 "256 :: nat"] by simp
  moreover have "opens mem 0 (cbb_add_length_prefixed mem 0 k) [] (Prefix k)" using l(2) by (intro cbb_add_length_prefixed_opens) simp
  ultimately show ?thesis using build_child [OF m(1) _ l(1) i, of "cbb_add_length_prefixed mem 0 k" "[]" "Prefix k"] m(2)
    by (auto simp: cbb_wp_def split: option.splits prod.splits if_splits)
qed

lemma oid_print_loop_step:
  "cbs \<noteq> [] \<Longrightarrow> oid_print_loop mem cbs = (\<lambda>s. case parse_base128_integer cbs of
      (None, _) \<Rightarrow> Some (None, s)
    | (Some v, cbs') \<Rightarrow> cbb_bind (CBB_add_u8 mem 0 0x2e s) (\<lambda>_ s.
        cbb_bind (add_decimal mem 0 v s) (\<lambda>_ s. oid_print_loop mem cbs' s)))"
  by (rule ext) (subst oid_print_loop.simps, simp add: CBS_len_def)

lemma oid_print_loop_Nil: "oid_print_loop mem [] = (\<lambda>s. Some (Some (), s))"
  by (rule ext) (simp add: oid_print_loop.simps CBS_len_def)

lemma appends_dot_decimal:
  "appends mem 0 (\<lambda>s. cbb_bind (CBB_add_u8 mem 0 0x2e s) (\<lambda>_ s. add_decimal mem 0 v s)) (0x2e # decimal (unat v))"
  by (rule cbb_sink.emits_put_seq [OF add_decimal_appends])

lemma oid_print_loop_ok:
  "vs \<noteq> [] \<Longrightarrow> appends mem 0 (oid_print_loop mem (concat (map (\<lambda>v. base128 (unat v)) vs)))
     (concat (map (\<lambda>v. 0x2e # decimal (unat (v::u64))) vs))"
proof (induction vs)
  case (Cons v vs)
  let ?c = "\<lambda>vs. concat (map (\<lambda>v::u64. base128 (unat v)) vs)"
  have p: "parse_base128_integer (?c (v # vs)) = (Some v, ?c vs)" by (simp add: parse_base128_Some_iff)
  have u: "oid_print_loop mem (?c (v # vs)) = (\<lambda>s. cbb_bind (cbb_bind (CBB_add_u8 mem 0 0x2e s)
      (\<lambda>_ s. add_decimal mem 0 v s)) (\<lambda>_ s. oid_print_loop mem (?c vs) s))"
    using oid_print_loop_step [of "?c (v # vs)" mem] p by (simp add: cbb_bind_assoc base128_def)
  show ?case
  proof (cases "vs = []")
    case True
    then show ?thesis unfolding u using appends_dot_decimal [of mem v] by (simp add: oid_print_loop_Nil cbb_bind_unit)
  next
    case False
    then show ?thesis unfolding u using appends_seq [OF appends_dot_decimal Cons.IH, of v] by simp
  qed
qed simp

lemma oid_print_loop_bad:
  "cbs_many parse_base128_integer cbs = None \<Longrightarrow> rejects mem 0 (oid_print_loop mem cbs)"
proof (induction "length cbs" arbitrary: cbs rule: less_induct)
  case less
  then have n: "cbs \<noteq> []" by auto
  show ?case
  proof (cases "parse_base128_integer cbs")
    case (Pair v rest)
    show ?thesis
    proof (cases v)
      case None
      then show ?thesis using Pair n by (simp add: oid_print_loop_step rejects_return)
    next
      case (Some a)
      have l: "length rest < length cbs" using Pair Some parse_base128_integer_length by simp
      have "cbs_many parse_base128_integer rest = None"
        using less.prems n Pair Some by (simp add: base128_codec.many_step)
      from rejects_seq [OF appends_dot_decimal less.hyps [OF l this]]
      show ?thesis using Pair Some n by (simp add: oid_print_loop_step cbb_bind_assoc)
    qed
  qed
qed

text \<open>The first two components of the text, from the first integer of the encoding.\<close>

definition oid_head :: "nat \<Rightarrow> nat list" where
  "oid_head n = (if n \<ge> 80 then [2, n - 80] else [n div 40, n mod 40])"

lemma oid_head_text: "oid_text (oid_head n @ ns) =
    (if n \<ge> 80 then [0x32, 0x2e] @ decimal (n - 80) else decimal (n div 40) @ 0x2e # decimal (n mod 40)) @
    concat (map (\<lambda>m. 0x2e # decimal m) ns)"
proof -
  have "oid_text (m # ns) = decimal m @ concat (map (\<lambda>m. 0x2e # decimal m) ns)" for m
    by (induction ns arbitrary: m) simp_all
  moreover have "decimal 2 = [0x32]" by (subst decimal.simps) simp
  ultimately show ?thesis by (simp add: oid_head_def)
qed

lemma oid_head_ok: "n < 2 ^ 64 \<Longrightarrow> \<forall>m\<in>set ns. m < 2 ^ 64 \<Longrightarrow>
    oid_ok (oid_head n @ ns) \<and> oid_der (oid_head n @ ns) = base128 n @ concat (map base128 ns)"
  by (auto simp: oid_head_def)

lemma oid_head_inverse: "oid_ok (a # b # ns) \<Longrightarrow> oid_head (40 * a + b) = [a, b]"
proof -
  assume o: "oid_ok (a # b # ns)"
  show ?thesis
  proof (cases "a = 2")
    case False
    then have a: "a < 2" "b < 40" using o by auto
    then have "40 * a + b < 80" by simp
    then show ?thesis using a by (simp add: oid_head_def)
  qed (simp add: oid_head_def)
qed

lemma oid_print_first_appends:
  "appends mem 0 (oid_print_first mem v) (let n = unat v in if n \<ge> 80 then [0x32, 0x2e] @ decimal (n - 80)
    else decimal (n div 40) @ 0x2e # decimal (n mod 40))"
proof (cases "v \<ge> 80")
  case True
  then have "unat (v - 80) = unat v - 80" "unat v \<ge> 80" by (simp_all add: unat_sub word_le_nat_alt)
  then show ?thesis
    using True appends_seq [OF CBB_add_bytes_appends [of "[0x32, 0x2e]" mem 0] add_decimal_appends [of mem 0 "v - 80"]]
    by (simp add: oid_print_first_def [abs_def])
next
  case False
  then have "unat (v div 40) = unat v div 40" "unat (v mod 40) = unat v mod 40" "\<not> unat v \<ge> 80"
    by (simp_all add: unat_div_distrib unat_mod_distrib word_le_nat_alt)
  then show ?thesis
    using False appends_seq [OF add_decimal_appends [of mem 0 "v div 40"] appends_dot_decimal [of mem "v mod 40"]]
    by (simp add: oid_print_first_def [abs_def] Let_def)
qed

lemma oid_print_body:
  assumes m: "alloc_ok mem" and vs: "cbs_many parse_base128_integer copy = Some vs" and i: "CBB_init mem 32 = Some s"
  shows "cbb_wp (cbb_bind (oid_print_first mem v s) (\<lambda>_ cbb. cbb_bind (oid_print_loop mem copy cbb) (\<lambda>_ cbb.
           cbb_bind (CBB_add_u8 mem 0 0 cbb) (\<lambda>_ cbb. CBB_finish mem 0 True cbb))))
     (\<lambda>_. \<not> ((\<forall>m. mem m \<noteq> None) \<and> length (oid_text (oid_head (unat (v::u64)) @ map unat vs)) < 2 ^ 61))
     (\<lambda>out _. out = oid_text (oid_head (unat v) @ map unat vs) @ [0])"
proof -
  let ?h = "let n = unat v in if n \<ge> 80 then [0x32, 0x2e] @ decimal (n - 80)
    else decimal (n div 40) @ 0x2e # decimal (n mod 40)"
  let ?t = "concat (map (\<lambda>w. 0x2e # decimal (unat w)) vs)"
  have copy: "copy = concat (map (\<lambda>w. base128 (unat w)) vs)" using vs base128_codec.many_iff by blast
  have l: "appends mem 0 (\<lambda>s. cbb_bind (oid_print_loop mem copy s) (\<lambda>_ s. CBB_add_u8 mem 0 0 s)) (?t @ [0])"
  proof (cases "vs = []")
    case True
    then show ?thesis using CBB_add_u8_appends [of mem 0 0] copy by (simp add: oid_print_loop_Nil)
  next
    case False
    then show ?thesis using appends_seq [OF oid_print_loop_ok CBB_add_u8_appends] copy by simp
  qed
  have t: "oid_text (oid_head (unat v) @ map unat vs) = ?h @ ?t"
    unfolding oid_head_text by (simp add: comp_def Let_def)
  have "cbb_wp (cbb_bind (cbb_bind (oid_print_first mem v s)
      (\<lambda>_ s. cbb_bind (oid_print_loop mem copy s) (\<lambda>_ s. CBB_add_u8 mem 0 0 s))) (\<lambda>_ s. CBB_finish mem 0 True s))
      (\<lambda>_. \<not> ((\<forall>m. mem m \<noteq> None) \<and> length (?h @ ?t @ [0]) \<le> 2 ^ 61)) (\<lambda>out _. out = ?h @ ?t @ [0])"
    using append_finish [OF appends_seq [OF oid_print_first_appends l] m i] by simp
  then show ?thesis
    unfolding t cbb_bind_assoc append_assoc by (rule cbb_wp_mono) auto
qed

lemma oid_print_reject:
  assumes m: "alloc_ok mem" and vs: "cbs_many parse_base128_integer copy = None" and i: "CBB_init mem 32 = Some s"
  shows "cbb_wp (cbb_bind (oid_print_first mem v s) (\<lambda>_ cbb. cbb_bind (oid_print_loop mem copy cbb) f))
    (\<lambda>_. True) (\<lambda>_ _. False)"
proof -
  have "cbb_rel2 s ([], [])" using CBB_init_rel [OF m _ i] by simp
  with rejects_seq [OF oid_print_first_appends oid_print_loop_bad [OF vs], of mem v] m
  have "cbb_wp (cbb_bind (oid_print_first mem v s) (\<lambda>_ cbb. oid_print_loop mem copy cbb)) (\<lambda>_. True) (\<lambda>_ _. False)"
    unfolding rejects_def by fastforce
  then show ?thesis by simp (erule cbb_wp_mono; auto elim: cbb_wp_mono)
qed

text \<open>What the printer returns is the text of the identifier it was given.\<close>

lemma CBS_asn1_oid_to_text_sound:
  assumes m: "alloc_ok mem"
  shows "\<exists>r. CBS_asn1_oid_to_text mem der = Some r \<and>
    (\<forall>t. r = Some t \<longrightarrow> (\<exists>ns. oid_ok ns \<and> der = oid_der ns \<and> t = oid_text ns @ [0]))"
proof -
  consider (fail) "CBS_asn1_oid_to_text mem der = Some None"
    | (go) s v copy where "CBB_init mem 32 = Some s" "parse_base128_integer der = (Some v, copy)"
    by (cases "CBB_init mem 32"; cases "parse_base128_integer der"; cases "fst (parse_base128_integer der)")
      (auto simp: CBS_asn1_oid_to_text_def)
  then show ?thesis
  proof cases
    case go
    show ?thesis
    proof (cases "cbs_many parse_base128_integer copy")
      case None
      then show ?thesis
        using oid_print_reject [OF m None go(1), of v "\<lambda>_ cbb.
           cbb_bind (CBB_add_u8 mem 0 0 cbb) (\<lambda>_ cbb. CBB_finish mem 0 True cbb)"] go
        unfolding CBS_asn1_oid_to_text_def by (auto simp: cbb_wp_def split: option.splits prod.splits)
    next
      case (Some vs)
      have copy: "copy = concat (map (\<lambda>w. base128 (unat w)) vs)" using Some base128_codec.many_iff by blast
      have n: "unat v < 2 ^ 64" "\<forall>m\<in>set (map unat vs). m < 2 ^ 64"
        using unat_lt_power [where 'a = 64] by auto
      have "der = oid_der (oid_head (unat v) @ map unat vs)" "oid_ok (oid_head (unat v) @ map unat vs)"
        using oid_head_ok [OF n] go(2) copy by (simp_all add: parse_base128_Some_iff comp_def)
      then show ?thesis
        using oid_print_body [OF m Some go(1), of v] go
        unfolding CBS_asn1_oid_to_text_def by (auto simp: cbb_wp_def split: option.splits prod.splits)
    qed
  qed auto
qed

lemma CBS_asn1_oid_to_text_complete:
  assumes m: "alloc_ok mem" "\<forall>m. mem m \<noteq> None" and ok: "oid_ok ns" and l: "length (oid_text ns) < 2 ^ 61"
  shows "CBS_asn1_oid_to_text mem (oid_der ns) = Some (Some (oid_text ns @ [0]))"
proof -
  from ok obtain a b cs where ns: "ns = a # b # cs" by (cases ns rule: oid_ok.cases) auto
  let ?v = "of_nat (40 * a + b) :: u64" and ?vs = "map of_nat cs :: u64 list"
  have "40 * a + b < 2 ^ 64" "\<forall>n\<in>set cs. n < 2 ^ 64" using ok ns by auto
  then have u: "unat ?v = 40 * a + b" and vs: "map unat ?vs = cs"
    by (auto simp: map_idI unat_of_nat_less simp del: of_nat_add of_nat_mult)
  let ?copy = "concat (map base128 cs)"
  have c: "?copy = concat (map (\<lambda>w. base128 (unat w)) ?vs)"
    using arg_cong [OF vs, of "\<lambda>ns. concat (map base128 ns)"] by (simp add: comp_def)
  have p: "parse_base128_integer (oid_der ns) = (Some ?v, ?copy)"
    unfolding parse_base128_Some_iff u ns by simp
  have many: "cbs_many parse_base128_integer ?copy = Some ?vs" using base128_codec.many_iff c by blast
  have h: "oid_head (unat ?v) @ map unat ?vs = ns"
    unfolding u vs using oid_head_inverse [of a b cs] ok ns by simp
  from CBB_init_live [OF m(2), of 32] obtain s where i: "CBB_init mem 32 = Some s" by auto
  show ?thesis
    using oid_print_body [OF m(1) many i, of ?v, unfolded h] i p m(2) l
    unfolding CBS_asn1_oid_to_text_def
    by (auto simp: cbb_wp_def simp del: of_nat_add of_nat_mult split: option.splits prod.splits)
qed

end
