(* ===== verification/Set_Of.thy ===== *)
theory Set_Of
  imports Oid "HOL-Library.Multiset"
begin

text \<open>
  \<open>CBB_flush_asn1_set_of\<close>: the elements written so far are put in the order that DER requires
  of a \<open>SET OF\<close>. The comparison function is the lexicographic order on bytes, the sort
  returns a sorted permutation, and the body of the builder becomes the concatenation of the sorted
  elements.
\<close>

section \<open>Sorting by a comparison function\<close>

text \<open>What \<open>qsort\<close> relies on: the comparison is a total preorder.\<close>

locale qsort_comparison =
  fixes cmp :: "'a \<Rightarrow> 'a \<Rightarrow> int"
  assumes cmp_total: "cmp x y \<le> 0 \<or> cmp y x \<le> 0"
    and cmp_trans: "cmp x y \<le> 0 \<Longrightarrow> cmp y z \<le> 0 \<Longrightarrow> cmp x z \<le> 0"
begin

lemma mset_insert: "mset (qsort_insert cmp x ys) = add_mset x (mset ys)"
  by (induction ys) auto

lemma sorted_insert:
  "sorted_wrt (\<lambda>x y. cmp x y \<le> 0) ys \<Longrightarrow> sorted_wrt (\<lambda>x y. cmp x y \<le> 0) (qsort_insert cmp x ys)"
proof (induction ys)
  case (Cons y ys)
  have s: "set (qsort_insert cmp x ys) = insert x (set ys)"
    using mset_insert [of x ys] by (metis set_mset_add_mset_insert set_mset_mset)
  show ?case
  proof (cases "cmp x y \<le> 0")
    case True
    then show ?thesis using Cons cmp_trans by auto
  next
    case False
    then show ?thesis using Cons s cmp_total [of x y] by auto
  qed
qed simp

lemma mset_qsort: "mset (qsort cmp xs) = mset xs"
  by (induction xs) (simp_all add: qsort_def mset_insert)

lemma sorted_qsort: "sorted_wrt (\<lambda>x y. cmp x y \<le> 0) (qsort cmp xs)"
  by (induction xs) (simp_all add: qsort_def sorted_insert)

end

lemma compare_set_of_Cons:
  "compare_set_of_element (x # a) (y # b) =
     (if x < y then - 1 else if y < x then 1 else compare_set_of_element a b)"
  by (simp add: compare_set_of_element_def CBS_len_def Let_def)

lemma compare_set_of_lex: "compare_set_of_element a b \<le> 0 \<longleftrightarrow> lexordp_eq a b"
proof (induction a arbitrary: b)
  case Nil
  show ?case by (cases b) (simp_all add: compare_set_of_element_def CBS_len_def Let_def)
next
  case (Cons x a)
  show ?case
  proof (cases b)
    case Nil
    then show ?thesis by (simp add: compare_set_of_element_def CBS_len_def Let_def)
  next
    case (Cons y b')
    then show ?thesis using Cons.IH [of b'] by (simp add: compare_set_of_Cons) (metis linorder_neqE)
  qed
qed

interpretation set_of_order: qsort_comparison compare_set_of_element
proof unfold_locales
  show "compare_set_of_element x y \<le> 0 \<or> compare_set_of_element y x \<le> 0" for x y
    unfolding compare_set_of_lex by (rule lexordp_eq_linear)
  show "compare_set_of_element x y \<le> 0 \<Longrightarrow> compare_set_of_element y z \<le> 0 \<Longrightarrow>
      compare_set_of_element x z \<le> 0" for x y z
    unfolding compare_set_of_lex by (rule lexordp_eq_trans)
qed

section \<open>Reading the elements\<close>

lemma element_many_step:
  "cbs \<noteq> [] \<Longrightarrow> cbs_many get_der_element cbs = (case CBS_get_any_asn1_element cbs of
     (None, _) \<Rightarrow> None | (Some el, rest) \<Rightarrow> map_option ((#) (out_cbs el)) (cbs_many get_der_element rest))"
  by (subst element_codec.many_step)
    (auto simp: get_der_element_def [of cbs] cbs_bind_def split: option.splits prod.splits)

lemma length_concat_ge: "\<forall>e\<in>set els. e \<noteq> [] \<Longrightarrow> length els \<le> length (concat els)"
proof (induction els)
  case (Cons e els)
  moreover from this have "1 \<le> length e" by (simp add: Suc_le_eq)
  ultimately show ?case using add_mono [of 1 "length e" "length els" "length (concat els)"] by simp
qed simp

lemma set_of_count_many:
  "set_of_count n cbs = map_option (\<lambda>els. n + length els) (cbs_many get_der_element cbs)"
proof (induction n cbs rule: set_of_count.induct)
  case (1 n cbs)
  show ?case
  proof (cases "cbs = []")
    case False
    then show ?thesis
      using 1 by (subst set_of_count.simps)
        (auto simp: CBS_len_def element_many_step option.map_comp comp_def
          split: prod.splits option.splits)
  qed (simp add: set_of_count.simps CBS_len_def)
qed

lemma set_of_children_many: "cbs_many get_der_element cbs = Some els \<Longrightarrow> set_of_children (length els) cbs = Some els"
proof (induction els arbitrary: cbs)
  case (Cons e els)
  then have n: "cbs \<noteq> []" by auto
  with Cons.prems obtain el rest where "CBS_get_any_asn1_element cbs = (Some el, rest)" "out_cbs el = e"
    "cbs_many get_der_element rest = Some els"
    by (auto simp: element_many_step split: prod.splits option.splits)
  then show ?case using Cons.IH by simp
qed simp

section \<open>Writing them back\<close>

fun a_set_top :: "bytes \<Rightarrow> bytes \<times> frames \<Rightarrow> bytes \<times> frames" where
  "a_set_top b (root, []) = (b, [])"
| "a_set_top b (root, (k, b') # fs) = (root, (k, b) # fs)"

lemma set_of_write_ok:
  "buf_ok b \<Longrightarrow> contents b = xs @ old \<Longrightarrow> length old = length (concat cs) \<Longrightarrow>
   \<exists>b'. set_of_write (length xs) cs b = Some b' \<and> buf_ok b' \<and> contents b' = xs @ concat cs \<and>
     berror b' = berror b"
proof (induction cs arbitrary: b xs old)
  case (Cons c cs)
  have "contents b = xs @ take (length c) old @ drop (length c) old" using Cons.prems by simp
  from buf_write_ok [OF Cons.prems(1) this, of c] obtain b1 where
    b1: "buf_write b (length xs) c = Some b1" "buf_ok b1" "contents b1 = (xs @ c) @ drop (length c) old"
      "berror b1 = berror b" using Cons.prems(3) by auto
  from Cons.IH [OF b1(2,3)] b1 Cons.prems(3) show ?case by (auto simp: CBS_len_def)
qed simp

lemma a_top_split:
  obtains pre where "flat (fst a) (snd a) = pre @ a_top a"
    "\<And>b. flat (fst (a_set_top b a)) (snd (a_set_top b a)) = pre @ b"
    "\<And>b. chain (fst (a_set_top b a)) (snd (a_set_top b a)) = chain (fst a) (snd a)"
    "\<And>b. list_all (\<lambda>(k, _). kind_ok k) (snd (a_set_top b a)) = list_all (\<lambda>(k, _). kind_ok k) (snd a)"
    "\<And>s. children s = chain (fst a) (snd a) \<Longrightarrow> CBB_data_offset (length (snd a)) s = Some (length pre)"
proof (cases a rule: a_top.cases)
  case (1 root)
  then show thesis using that [of "[]"] by (simp add: CBB_data_offset_def)
next
  case (2 root k b fs)
  then show thesis
    using that [of "flat root fs @ replicate (plen k) 0"] by (simp add: CBB_data_offset_def Let_def)
qed

text \<open>The step after the flush, on a builder without a pending child.\<close>

lemma set_of_alloc:
  assumes "\<forall>m. mem m \<noteq> None" "n < 2 ^ 58"
  shows "OPENSSL_calloc_ok mem n 16 \<and> OPENSSL_malloc mem n \<noteq> None"
proof -
  have "(of_nat n :: u64) \<le> (- 1) div of_nat 16"
    using assms(2) by (simp add: word_le_nat_alt unat_of_nat_mod unat_div_distrib)
  then have "\<not> (of_nat n :: u64) > (- 1) div of_nat 16" by (simp only: not_less)
  then show ?thesis
    using OPENSSL_malloc_live [OF assms(1), of "n * 16"] OPENSSL_malloc_live [OF assms(1), of n] assms(2)
    by (auto simp: OPENSSL_calloc_ok_def)
qed

lemma set_of_sort_eq:
  assumes "cbb_rel2 s a" "length (snd a) = d"
  obtains pre where "flat (fst a) (snd a) = pre @ a_top a"
    "set_of_sort mem d s =
      (case cbs_many get_der_element (a_top a) of
         None \<Rightarrow> Some (None, s)
       | Some els \<Rightarrow>
           if length els < 2 then Some (Some (), s)
           else if OPENSSL_malloc mem (length (a_top a)) = None \<or> \<not> OPENSSL_calloc_ok mem (length els) 16
           then Some (None, s)
           else map_option (\<lambda>b. (Some (), s\<lparr>cbb_base := b\<rparr>))
             (set_of_write (length pre) (qsort compare_set_of_element els) (cbb_base s)))"
proof -
  obtain pre where pre: "flat (fst a) (snd a) = pre @ a_top a" "CBB_data_offset d s = Some (length pre)"
    using a_top_split [of a] assms by (metis cbb_rel_def)
  from CBB_len_data [OF assms(1)] assms(2) obtain junk where
    ld: "CBB_len d s = Some (length (a_top a))" "CBB_data d s = Some (a_top a @ junk)" by auto
  have ne: "a_top a \<noteq> []" if "cbs_many get_der_element (a_top a) = Some els" "\<not> length els < 2" for els
    using that by auto
  show thesis
  proof (rule that [OF pre(1)], cases "cbs_many get_der_element (a_top a)")
    case None
    then show "set_of_sort mem d s = (case cbs_many get_der_element (a_top a) of None \<Rightarrow> Some (None, s) | Some els \<Rightarrow>
        if length els < 2 then Some (Some (), s)
        else if OPENSSL_malloc mem (length (a_top a)) = None \<or> \<not> OPENSSL_calloc_ok mem (length els) 16
        then Some (None, s)
        else map_option (\<lambda>b. (Some (), s\<lparr>cbb_base := b\<rparr>))
          (set_of_write (length pre) (qsort compare_set_of_element els) (cbb_base s)))"
      using pre(2) ld by (simp add: set_of_sort_def CBS_init_def set_of_count_many)
  next
    case (Some els)
    then show "set_of_sort mem d s = (case cbs_many get_der_element (a_top a) of None \<Rightarrow> Some (None, s) | Some els \<Rightarrow>
        if length els < 2 then Some (Some (), s)
        else if OPENSSL_malloc mem (length (a_top a)) = None \<or> \<not> OPENSSL_calloc_ok mem (length els) 16
        then Some (None, s)
        else map_option (\<lambda>b. (Some (), s\<lparr>cbb_base := b\<rparr>))
          (set_of_write (length pre) (qsort compare_set_of_element els) (cbb_base s)))"
      using pre(2) ld set_of_children_many [OF Some] ne [OF Some] element_codec.many_iff [of "a_top a" els] Some
      by (auto simp: set_of_sort_def CBS_init_def set_of_count_many OPENSSL_memdup_def)
  qed
qed

lemma set_of_rewrite:
  assumes "cbb_rel2 s a" "flat (fst a) (snd a) = pre @ a_top a" "a_top a = concat els"
  shows "\<exists>b. set_of_write (length pre) (qsort compare_set_of_element els) (cbb_base s) = Some b \<and>
    cbb_rel2 (s\<lparr>cbb_base := b\<rparr>) (a_set_top (concat (qsort compare_set_of_element els)) a)"
proof -
  let ?q = "qsort compare_set_of_element els"
  have r: "buf_ok (cbb_base s)" "contents (cbb_base s) = pre @ a_top a"
    using assms by (simp_all add: cbb_rel_def)
  obtain pre' where pre': "flat (fst a) (snd a) = pre' @ a_top a"
    "\<And>b. flat (fst (a_set_top b a)) (snd (a_set_top b a)) = pre' @ b"
    "\<And>b. chain (fst (a_set_top b a)) (snd (a_set_top b a)) = chain (fst a) (snd a)"
    "\<And>b. list_all (\<lambda>(k, _). kind_ok k) (snd (a_set_top b a)) = list_all (\<lambda>(k, _). kind_ok k) (snd a)"
    using a_top_split [of a] by metis
  then have p: "pre' = pre" using assms(2) by simp
  have "length (concat ?q) = length (a_top a)"
    using arg_cong [OF set_of_order.mset_qsort [of els], of "\<lambda>m. sum_mset (image_mset length m)"] assms(3)
    by (simp add: length_concat sum_mset_sum_list flip: mset_map)
  with set_of_write_ok [OF r, of ?q] show ?thesis
    using assms(1) pre' p by (auto simp: cbb_rel_def)
qed

lemma set_of_sort_refines:
  assumes "cbb_rel2 s a" "length (snd a) = d"
  shows "cbb_wp (set_of_sort mem d s)
    (\<lambda>_. \<nexists>els. alen a < 2 ^ 58 \<and> (\<forall>m. mem m \<noteq> None) \<and> (\<forall>e\<in>set els. is_der_element e) \<and> a_top a = concat els)
    (\<lambda>_ s'. \<exists>els. (\<forall>e\<in>set els. is_der_element e) \<and> a_top a = concat els \<and>
       cbb_rel2 s' (a_set_top (concat (qsort compare_set_of_element els)) a))"
proof -
  obtain pre where pre: "flat (fst a) (snd a) = pre @ a_top a" and eq: "set_of_sort mem d s =
      (case cbs_many get_der_element (a_top a) of
         None \<Rightarrow> Some (None, s)
       | Some els \<Rightarrow>
           if length els < 2 then Some (Some (), s)
           else if OPENSSL_malloc mem (length (a_top a)) = None \<or> \<not> OPENSSL_calloc_ok mem (length els) 16
           then Some (None, s)
           else map_option (\<lambda>b. (Some (), s\<lparr>cbb_base := b\<rparr>))
             (set_of_write (length pre) (qsort compare_set_of_element els) (cbb_base s)))"
    by (rule set_of_sort_eq [OF assms])
  have many: "cbs_many get_der_element (a_top a) = Some els \<longleftrightarrow>
      (\<forall>e\<in>set els. is_der_element e) \<and> a_top a = concat els" for els
    using element_codec.many_iff [of "a_top a" els] by simp
  show ?thesis
  proof (cases "cbs_many get_der_element (a_top a)")
    case None
    then show ?thesis unfolding eq using many by auto
  next
    case (Some els)
    then have els: "\<forall>e\<in>set els. is_der_element e" "a_top a = concat els" using many by auto
    let ?oom = "OPENSSL_malloc mem (length (a_top a)) = None \<or> \<not> OPENSSL_calloc_ok mem (length els) 16"
    have short: "cbb_rel2 s (a_set_top (concat (qsort compare_set_of_element els)) a)" if "length els < 2"
    proof -
      have "qsort compare_set_of_element els = els"
        using that by (cases els; cases "tl els") (simp_all add: qsort_def)
      moreover have "a_set_top (a_top a) a = a" by (cases a rule: a_top.cases) simp_all
      ultimately show ?thesis using assms(1) els(2) by metis
    qed
    have "\<forall>e\<in>set els. e \<noteq> []" using els(1) element_codec.enc_nonempty by blast
    then have "length els \<le> length (a_top a)" using length_concat_ge els(2) by metis
    moreover have "length (a_top a) \<le> alen a" using pre by (simp add: alen_def)
    ultimately have oom: "\<not> (alen a < 2 ^ 58 \<and> (\<forall>m. mem m \<noteq> None))" if ?oom
      using that set_of_alloc [of mem "length (a_top a)"] set_of_alloc [of mem "length els"] by (metis le_less_trans)
    from set_of_rewrite [OF assms(1) pre els(2)] obtain b where
      "set_of_write (length pre) (qsort compare_set_of_element els) (cbb_base s) = Some b"
      "cbb_rel2 (s\<lparr>cbb_base := b\<rparr>) (a_set_top (concat (qsort compare_set_of_element els)) a)" by blast
    then show ?thesis unfolding eq Some using els short oom by auto
  qed
qed

lemma CBB_flush_asn1_set_of_refines:
  assumes "alloc_ok mem" "cbb_rel2 s a" "d \<le> length (snd a)"
  shows "cbb_wp (CBB_flush_asn1_set_of mem d s)
    (\<lambda>_. \<nexists>a' els. a_flush d a = Some a' \<and> cbb_room mem (cbb_base s) (alen a') \<and> alen a' < 2 ^ 58 \<and>
       (\<forall>m. mem m \<noteq> None) \<and> (\<forall>e\<in>set els. is_der_element e) \<and> a_top a' = concat els)
    (\<lambda>_ s'. \<exists>a' els. a_flush d a = Some a' \<and> (\<forall>e\<in>set els. is_der_element e) \<and> a_top a' = concat els \<and>
       cbb_rel2 s' (a_set_top (concat (qsort compare_set_of_element els)) a'))"
    (is "cbb_wp _ ?E ?Q")
  unfolding CBB_flush_asn1_set_of_def cbb_wp_bind
proof (rule cbb_wp_mono [OF CBB_flush_refines [OF assms]])
  fix s' assume "failed d s' \<and> (\<forall>a'. a_flush d a = Some a' \<longrightarrow> \<not> cbb_room mem (cbb_base s) (alen a'))"
  then show "?E s'" by blast
next
  fix x s1 assume "\<exists>a'. a_flush d a = Some a' \<and> cbb_rel2 s1 a' \<and> length (snd a') = d \<and>
      grows (cbb_base s) (cbb_base s1)"
  then obtain a1 where a1: "a_flush d a = Some a1" "cbb_rel2 s1 a1" "length (snd a1) = d" by blast
  show "cbb_wp (set_of_sort mem d s1) ?E ?Q"
    by (rule cbb_wp_mono [OF set_of_sort_refines [OF a1(2,3)]]) (use a1(1) in auto)
qed

end
