(* ===== verification/Ber.thy ===== *)
theory Ber
  imports Codec Oid
begin

text \<open>
  BER to DER conversion of \<open>crypto/bytestring/ber.c\<close>: a scan that looks for the features of BER
  that need conversion, the converter, and the reader of implicitly tagged strings. The scan and the
  converter are recursive over nested elements with a depth limit and loop over sibling elements; both
  are total because every call works on a shorter input.
\<close>

section \<open>The model\<close>

abbreviation kMaxDepth :: u32 where "kMaxDepth \<equiv> 2048"

abbreviation CBS_ASN1_UTF8STRING :: u32 where "CBS_ASN1_UTF8STRING \<equiv> 0xc"
abbreviation CBS_ASN1_NUMERICSTRING :: u32 where "CBS_ASN1_NUMERICSTRING \<equiv> 0x12"
abbreviation CBS_ASN1_PRINTABLESTRING :: u32 where "CBS_ASN1_PRINTABLESTRING \<equiv> 0x13"
abbreviation CBS_ASN1_T61STRING :: u32 where "CBS_ASN1_T61STRING \<equiv> 0x14"
abbreviation CBS_ASN1_VIDEOTEXSTRING :: u32 where "CBS_ASN1_VIDEOTEXSTRING \<equiv> 0x15"
abbreviation CBS_ASN1_IA5STRING :: u32 where "CBS_ASN1_IA5STRING \<equiv> 0x16"
abbreviation CBS_ASN1_GRAPHICSTRING :: u32 where "CBS_ASN1_GRAPHICSTRING \<equiv> 0x19"
abbreviation CBS_ASN1_VISIBLESTRING :: u32 where "CBS_ASN1_VISIBLESTRING \<equiv> 0x1a"
abbreviation CBS_ASN1_GENERALSTRING :: u32 where "CBS_ASN1_GENERALSTRING \<equiv> 0x1b"
abbreviation CBS_ASN1_UNIVERSALSTRING :: u32 where "CBS_ASN1_UNIVERSALSTRING \<equiv> 0x1c"
abbreviation CBS_ASN1_BMPSTRING :: u32 where "CBS_ASN1_BMPSTRING \<equiv> 0x1e"

definition is_string_type :: "u32 \<Rightarrow> bool" where
  "is_string_type tag \<longleftrightarrow>
     tag AND NOT CBS_ASN1_CONSTRUCTED \<in> set
       [CBS_ASN1_OCTETSTRING, CBS_ASN1_UTF8STRING, CBS_ASN1_NUMERICSTRING, CBS_ASN1_PRINTABLESTRING,
        CBS_ASN1_T61STRING, CBS_ASN1_VIDEOTEXSTRING, CBS_ASN1_IA5STRING, CBS_ASN1_GRAPHICSTRING,
        CBS_ASN1_VISIBLESTRING, CBS_ASN1_GENERALSTRING, CBS_ASN1_UNIVERSALSTRING, CBS_ASN1_BMPSTRING]"

definition is_constructed :: "u32 \<Rightarrow> bool" where
  "is_constructed tag \<longleftrightarrow> tag AND CBS_ASN1_CONSTRUCTED \<noteq> 0"

text \<open>An element that the BER reader returns is a non-empty part of the input.\<close>

lemma ber_element_split:
  assumes "CBS_get_any_ber_asn1_element cbs = (Some el, rest)"
  shows "cbs = out_cbs el @ rest \<and> 0 < out_header_len el \<and> out_header_len el \<le> length (out_cbs el) \<and>
    asn1_valid_tag (out_tag el)"
proof -
  from assms have e: "cbs_get_any_asn1_element cbs True = (Some el, rest)" by (simp add: CBS_get_any_ber_asn1_element_def)
  then obtain tag lb h where c: "asn1_valid_tag tag" "cbs = der_tag tag @ lb # h" by (rule asn1_element_SomeE)
  show ?thesis using e unfolding asn1_element_eq [OF c]
    by (auto simp: Let_def asn1_take_Some c(1) split: if_splits)
qed

lemma ber_rest_shorter:
  assumes "CBS_get_any_ber_asn1_element cbs = (Some el, rest)"
  shows "length rest < length cbs"
proof -
  have h: "cbs = out_cbs el @ rest" "0 < out_header_len el" "out_header_len el \<le> length (out_cbs el)"
    using ber_element_split [OF assms] by auto
  have "length cbs = length (out_cbs el) + length rest" by (subst h(1)) simp
  then show ?thesis using h(2,3) by linarith
qed

lemma ber_contents_shorter:
  "CBS_get_any_ber_asn1_element cbs = (Some el, rest) \<Longrightarrow> CBS_skip (out_cbs el) (out_header_len el) = (Some u, body) \<Longrightarrow>
   length body < length cbs"
proof -
  assume e: "CBS_get_any_ber_asn1_element cbs = (Some el, rest)" and
    s: "CBS_skip (out_cbs el) (out_header_len el) = (Some u, body)"
  have h: "cbs = out_cbs el @ rest" "0 < out_header_len el" "out_header_len el \<le> length (out_cbs el)"
    using ber_element_split [OF e] by auto
  have "length cbs = length (out_cbs el) + length rest" by (subst h(1)) simp
  then show ?thesis using h(2,3) s by (auto simp: CBS_skip_eq split: if_splits)
qed

lemmas ber_shorter = ber_rest_shorter [OF sym] ber_contents_shorter [OF sym sym]

text \<open>
  \<open>cbs_find_ber\<close>: the loop with the current value of \<open>*ber_found\<close>. The result is
  \<open>None\<close> where the C function returns 0 and the final \<open>*ber_found\<close> otherwise.
\<close>

function cbs_find_ber_loop :: "u32 \<Rightarrow> bool \<Rightarrow> cbs \<Rightarrow> bool option" where
  "cbs_find_ber_loop depth ber_found inp =
     (if CBS_len inp = 0 then Some ber_found
      else case CBS_get_any_ber_asn1_element inp of
          (None, _) \<Rightarrow> None
        | (Some el, rest) \<Rightarrow>
            if out_ber_found el then Some True
            else if is_constructed (out_tag el) then
              if is_string_type (out_tag el) then Some True
              else case CBS_skip (out_cbs el) (out_header_len el) of
                  (None, _) \<Rightarrow> None
                | (Some _, body) \<Rightarrow>
                    if depth + 1 > kMaxDepth then None
                    else (case cbs_find_ber_loop (depth + 1) False body of
                        None \<Rightarrow> None
                      | Some ber_found \<Rightarrow> cbs_find_ber_loop depth ber_found rest)
            else cbs_find_ber_loop depth (out_ber_found el) rest)"
  by pat_completeness auto
termination
  by (relation "measure (\<lambda>(_, _, inp). length inp)") (auto dest: ber_shorter)

declare cbs_find_ber_loop.simps [simp del]

definition cbs_find_ber :: "cbs \<Rightarrow> u32 \<Rightarrow> bool option" where
  "cbs_find_ber orig_in depth = (if depth > kMaxDepth then None else cbs_find_ber_loop depth False orig_in)"

definition cbs_get_eoc :: "cbs \<Rightarrow> unit cbs_ret" where
  "cbs_get_eoc cbs =
     (if CBS_len cbs \<ge> 2 \<and> cbs ! 0 = 0 \<and> cbs ! 1 = 0 then CBS_skip cbs 2 else (None, cbs))"

text \<open>
  Where the contents of an element go: the depth of \<open>out_contents\<close> and
  \<open>child_string_tag\<close>.
\<close>

definition ber_out_contents :: "allocator \<Rightarrow> nat \<Rightarrow> u32 \<Rightarrow> u32 \<Rightarrow> cbb \<Rightarrow> (nat \<times> u32) cbb_ret" where
  "ber_out_contents mem d string_tag tag s =
     (if string_tag \<noteq> 0 then
        if tag AND NOT CBS_ASN1_CONSTRUCTED \<noteq> string_tag then Some (None, s) else Some (Some (d, string_tag), s)
      else
        let (out_tag, child_string_tag) =
              (if is_constructed tag \<and> is_string_type tag
               then (tag AND NOT CBS_ASN1_CONSTRUCTED, tag AND NOT CBS_ASN1_CONSTRUCTED) else (tag, string_tag))
        in cbb_bind (CBB_add_asn1 mem d out_tag s) (\<lambda>_ s. Some (Some (Suc d, child_string_tag), s)))"

text \<open>
  The head of the loop of \<open>cbs_convert_ber\<close>: \<open>Inl\<close> where the function returns there, with the
  return value, what is left of \<open>in\<close> and the builder; \<open>Inr\<close> with the element, the input after it and
  where its contents go otherwise.
\<close>

type_synonym ber_ret = "(bool \<times> cbs \<times> cbb) option"

definition ber_next :: "allocator \<Rightarrow> nat \<Rightarrow> u32 \<Rightarrow> bool \<Rightarrow> cbs \<Rightarrow> cbb \<Rightarrow>
    ((bool \<times> cbs \<times> cbb) + (asn1_out \<times> cbs \<times> nat \<times> u32 \<times> cbb)) option" where
  "ber_next mem d string_tag looking_for_eoc inp s =
     (if CBS_len inp = 0 then Some (Inl (\<not> looking_for_eoc, inp, s))
      else case (if looking_for_eoc then cbs_get_eoc inp else (None, inp)) of
        (Some _, inp) \<Rightarrow> Some (Inl (True, inp, s))
      | (None, _) \<Rightarrow>
        (case CBS_get_any_ber_asn1_element inp of
          (None, inp) \<Rightarrow> Some (Inl (False, inp, s))
        | (Some el, rest) \<Rightarrow>
          (case ber_out_contents mem d string_tag (out_tag el) s of
            None \<Rightarrow> None
          | Some (None, s) \<Rightarrow> Some (Inl (False, rest, s))
          | Some (Some (d', child_string_tag), s) \<Rightarrow> Some (Inr (el, rest, d', child_string_tag, s)))))"

lemma cbs_get_eoc_shorter: "cbs_get_eoc inp = (Some u, rest) \<Longrightarrow> length rest < length inp"
  by (auto simp: cbs_get_eoc_def CBS_skip_eq CBS_len_def split: if_splits)

lemma ber_fail: "CBS_get_any_ber_asn1_element inp = (None, inp') \<Longrightarrow> inp' = inp"
  using asn1_element_fail [of inp True] by (simp add: CBS_get_any_ber_asn1_element_def)

lemma ber_next_Inl: "ber_next mem d st eoc inp s = Some (Inl (ok, inp', s')) \<Longrightarrow> length inp' \<le> length inp"
  by (auto simp: ber_next_def split: if_splits option.splits prod.splits
      dest: ber_rest_shorter cbs_get_eoc_shorter ber_fail)

lemma ber_next_Inr: "ber_next mem d st eoc inp s = Some (Inr (el, rest, r)) \<Longrightarrow> CBS_get_any_ber_asn1_element inp = (Some el, rest)"
  by (auto simp: ber_next_def split: if_splits option.splits prod.splits)

text \<open>
  \<open>cbs_convert_ber\<close> below the depth check, on the \<open>CBB\<close> at depth \<open>d\<close>: the result is the return
  value, what is left of \<open>in\<close>, and the builder; \<open>None\<close> as for the builder operations.
\<close>

function cbs_convert_loop :: "allocator \<Rightarrow> nat \<Rightarrow> u32 \<Rightarrow> bool \<Rightarrow> u32 \<Rightarrow> cbs \<Rightarrow> cbb \<Rightarrow> ber_ret" where
  "cbs_convert_loop mem d string_tag looking_for_eoc depth inp s =
     (case ber_next mem d string_tag looking_for_eoc inp s of
        None \<Rightarrow> None
      | Some (Inl r) \<Rightarrow> Some r
      | Some (Inr (el, rest, d', child_string_tag, s)) \<Rightarrow>
          (case (if out_indefinite el then
                   if depth + 1 > kMaxDepth then Some (False, rest, s)
                   else cbs_convert_loop mem d' child_string_tag True (depth + 1) rest s
                 else case CBS_skip (out_cbs el) (out_header_len el) of
                     (None, _) \<Rightarrow> Some (False, rest, s)
                   | (Some _, body) \<Rightarrow>
                       if is_constructed (out_tag el) then
                         if depth + 1 > kMaxDepth then Some (False, rest, s)
                         else map_option (\<lambda>(ok, _, s). (ok, rest, s))
                                (cbs_convert_loop mem d' child_string_tag False (depth + 1) body s)
                       else map_option (\<lambda>(r, s). (r \<noteq> None, rest, s)) (CBB_add_bytes mem d' body s)) of
             None \<Rightarrow> None
           | Some (ok, inp, s) \<Rightarrow>
               if \<not> ok then Some (False, inp, s)
               else case CBB_flush mem d s of
                   None \<Rightarrow> None
                 | Some (None, s) \<Rightarrow> Some (False, inp, s)
                 | Some (Some _, s) \<Rightarrow> cbs_convert_loop mem d string_tag looking_for_eoc depth inp s))"
  by pat_completeness auto

lemma cbs_convert_loop_shorter:
  "cbs_convert_loop_dom (mem, d, string_tag, eoc, depth, inp, s) \<Longrightarrow>
   cbs_convert_loop mem d string_tag eoc depth inp s = Some (ok, inp', s') \<Longrightarrow> length inp' \<le> length inp"
proof (induction arbitrary: ok inp' s' rule: cbs_convert_loop.pinduct)
  case (1 mem d string_tag eoc depth inp s)
  note eq = cbs_convert_loop.psimps [OF 1(1)]
  consider "ber_next mem d string_tag eoc inp s = Some (Inl (ok, inp', s'))"
    | el rest d' cst t where "ber_next mem d string_tag eoc inp s = Some (Inr (el, rest, d', cst, t))"
    using 1(5) unfolding eq by (auto split: option.splits sum.splits prod.splits)
  then show ?case
  proof cases
    case 1
    then show ?thesis by (rule ber_next_Inl)
  next
    case n: 2
    then have r: "length rest < length inp" by (intro ber_rest_shorter ber_next_Inr)
    define mid where "mid =
        (if out_indefinite el then
           if depth + 1 > kMaxDepth then Some (False, rest, t)
           else cbs_convert_loop mem d' cst True (depth + 1) rest t
         else case CBS_skip (out_cbs el) (out_header_len el) of
             (None, _) \<Rightarrow> Some (False, rest, t)
           | (Some _, body) \<Rightarrow>
               if is_constructed (out_tag el) then
                 if depth + 1 > kMaxDepth then Some (False, rest, t)
                 else map_option (\<lambda>(ok, _, s). (ok, rest, s))
                        (cbs_convert_loop mem d' cst False (depth + 1) body t)
               else map_option (\<lambda>(r, s). (r \<noteq> None, rest, s)) (CBB_add_bytes mem d' body t))"
    have m: "length i \<le> length rest" if "mid = Some (b, i, u)" for b i u
      using that 1(2) [OF n refl refl refl refl refl] unfolding mid_def
      by (auto split: if_splits option.splits prod.splits)
    have e: "(case mid of None \<Rightarrow> None | Some (ok, inp, s) \<Rightarrow>
           if \<not> ok then Some (False, inp, s)
           else case CBB_flush mem d s of
               None \<Rightarrow> None
             | Some (None, s) \<Rightarrow> Some (False, inp, s)
             | Some (Some _, s) \<Rightarrow> cbs_convert_loop mem d string_tag eoc depth inp s) = Some (ok, inp', s')"
      using 1(5) unfolding eq n mid_def by simp
    from e obtain b i u where mid: "mid = Some (b, i, u)" by (cases mid) auto
    show ?thesis
    proof (cases "inp' = i")
      case True
      then show ?thesis using m [OF mid] r by simp
    next
      case False
      then obtain w where "b" "CBB_flush mem d u = Some (Some (), w)"
        "cbs_convert_loop mem d string_tag eoc depth i w = Some (ok, inp', s')"
        using e unfolding mid by (auto split: if_splits option.splits prod.splits)
      then have "length inp' \<le> length i"
        using 1(4) [OF n refl refl refl refl refl mid [unfolded mid_def] refl refl _ _ refl refl] by blast
      then show ?thesis using m [OF mid] r by simp
    qed
  qed
qed

termination cbs_convert_loop
proof (relation "measure (\<lambda>(_, _, _, _, _, inp, _). length inp)", goal_cases)
  case 1
  show ?case by simp
next
  case (2 mem d string_tag eoc depth inp s)
  then show ?case by (auto dest: ber_next_Inr ber_rest_shorter)
next
  case (3 mem d string_tag eoc depth inp s)
  then show ?case using ber_contents_shorter [OF ber_next_Inr sym] by auto
next
  case (4 mem d string_tag eoc depth inp s)
  note r = ber_rest_shorter [OF ber_next_Inr, of mem d string_tag eoc inp s]
  from 4 show ?case
    by (auto dest!: r dest: cbs_convert_loop_shorter split: if_splits option.splits prod.splits)
qed

declare cbs_convert_loop.simps [simp del]

definition cbs_convert_ber :: "allocator \<Rightarrow> nat \<Rightarrow> u32 \<Rightarrow> bool \<Rightarrow> u32 \<Rightarrow> cbs \<Rightarrow> cbb \<Rightarrow> ber_ret" where
  "cbs_convert_ber mem d string_tag looking_for_eoc depth inp s =
     (if is_constructed string_tag then None
      else if depth > kMaxDepth then Some (False, inp, s)
      else cbs_convert_loop mem d string_tag looking_for_eoc depth inp s)"

text \<open>
  The two readers of the file return \<open>(*out, *out_storage)\<close> and what is left of \<open>in\<close>; the outer
  option is \<open>None\<close> where an \<open>assert\<close> fails or the builder is misused.
\<close>

definition CBS_asn1_ber_to_der :: "allocator \<Rightarrow> cbs \<Rightarrow> (cbs \<times> bytes option) cbs_ret option" where
  "CBS_asn1_ber_to_der mem inp =
     (case cbs_find_ber inp 0 of
        None \<Rightarrow> Some (None, inp)
      | Some conversion_needed \<Rightarrow>
          if \<not> conversion_needed then
            Some (cbs_bind (CBS_get_any_asn1_element inp) (\<lambda>el inp. (Some (out_cbs el, None), inp)))
          else
            case CBB_init mem (CBS_len inp) of
              None \<Rightarrow> Some (None, inp)
            | Some s \<Rightarrow>
                (case cbs_convert_ber mem 0 0 False 0 inp s of
                   None \<Rightarrow> None
                 | Some (ok, inp, s) \<Rightarrow>
                     if \<not> ok then Some (None, inp)
                     else case CBB_finish mem 0 True s of
                         None \<Rightarrow> None
                       | Some (None, _) \<Rightarrow> Some (None, inp)
                       | Some (Some out_storage, _) \<Rightarrow> Some (Some (CBS_init out_storage, Some out_storage), inp)))"

function implicit_string_loop :: "allocator \<Rightarrow> u32 \<Rightarrow> cbs \<Rightarrow> cbb \<Rightarrow> unit cbb_ret" where
  "implicit_string_loop mem inner_tag child s =
     (if CBS_len child = 0 then Some (Some (), s)
      else case CBS_get_asn1 child inner_tag of
          (None, _) \<Rightarrow> Some (None, s)
        | (Some chunk, child) \<Rightarrow>
            cbb_bind (CBB_add_bytes mem 0 chunk s) (\<lambda>_ s. implicit_string_loop mem inner_tag child s))"
  by pat_completeness auto
termination
  by (relation "measure (\<lambda>(_, _, child, _). length child)")
    (auto dest!: sym [of "(Some _, _)"] simp: CBS_get_asn1_iff der_element_def der_tag_nonempty)

declare implicit_string_loop.simps [simp del]

definition CBS_get_asn1_implicit_string ::
    "allocator \<Rightarrow> cbs \<Rightarrow> u32 \<Rightarrow> u32 \<Rightarrow> (cbs \<times> bytes option) cbs_ret option" where
  "CBS_get_asn1_implicit_string mem inp outer_tag inner_tag =
     (if is_constructed outer_tag \<or> is_constructed inner_tag \<or> \<not> is_string_type inner_tag then None
      else if CBS_peek_asn1_tag inp outer_tag then
        Some (cbs_bind (CBS_get_asn1 inp outer_tag) (\<lambda>out inp. (Some (out, None), inp)))
      else case CBB_init mem (CBS_len inp) of
          None \<Rightarrow> Some (None, inp)
        | Some result \<Rightarrow>
            (case CBS_get_asn1 inp (outer_tag OR CBS_ASN1_CONSTRUCTED) of
               (None, inp) \<Rightarrow> Some (None, inp)
             | (Some child, inp) \<Rightarrow>
                 (case cbb_bind (implicit_string_loop mem inner_tag child result) (\<lambda>_ s. CBB_finish mem 0 True s) of
                    None \<Rightarrow> None
                  | Some (None, _) \<Rightarrow> Some (None, inp)
                  | Some (Some data, _) \<Rightarrow> Some (Some (CBS_init data, Some data), inp))))"

section \<open>BER as a relation between input and output\<close>

text \<open>
  \<open>ber_conv st eoc depth inp out rest\<close>: the elements at the head of \<open>inp\<close>, up to the end of the
  input or, with \<open>eoc\<close>, up to an end-of-contents marker, have the DER form \<open>out\<close>, and \<open>rest\<close> is left.
  With a string tag \<open>st\<close> the elements are fragments of a string and \<open>out\<close> is their concatenation.
\<close>

definition ber_child_tag :: "u32 \<Rightarrow> u32 \<Rightarrow> u32" where
  "ber_child_tag st tag =
     (if st = 0 \<and> is_constructed tag \<and> is_string_type tag then tag AND NOT CBS_ASN1_CONSTRUCTED else st)"

definition ber_wrap :: "u32 \<Rightarrow> u32 \<Rightarrow> bytes \<Rightarrow> bytes" where
  "ber_wrap st tag body =
     (if st \<noteq> 0 then body
      else der_element (if is_constructed tag \<and> is_string_type tag then tag AND NOT CBS_ASN1_CONSTRUCTED else tag) body)"

definition ber_fits :: "u32 \<Rightarrow> u32 \<Rightarrow> bytes \<Rightarrow> bool" where
  "ber_fits st tag body \<longleftrightarrow> (if st \<noteq> 0 then tag AND NOT CBS_ASN1_CONSTRUCTED = st else length body \<le> 0xfffffffe)"

definition ber_head :: "bool \<Rightarrow> cbs \<Rightarrow> asn1_out \<Rightarrow> cbs \<Rightarrow> bool" where
  "ber_head eoc inp el rest \<longleftrightarrow> inp \<noteq> [] \<and> \<not> (eoc \<and> fst (cbs_get_eoc inp) \<noteq> None) \<and>
     CBS_get_any_ber_asn1_element inp = (Some el, rest)"

inductive ber_conv :: "u32 \<Rightarrow> bool \<Rightarrow> u32 \<Rightarrow> cbs \<Rightarrow> bytes \<Rightarrow> cbs \<Rightarrow> bool" where
  ber_end: "ber_conv st False depth [] [] []"
| ber_eoc: "cbs_get_eoc inp = (Some (), rest) \<Longrightarrow> ber_conv st True depth inp [] rest"
| ber_indefinite: "ber_head eoc inp el rest \<Longrightarrow> out_indefinite el \<Longrightarrow> depth + 1 \<le> kMaxDepth \<Longrightarrow>
    ber_conv (ber_child_tag st (out_tag el)) True (depth + 1) rest body rest' \<Longrightarrow>
    ber_fits st (out_tag el) body \<Longrightarrow> ber_conv st eoc depth rest' out rest'' \<Longrightarrow>
    ber_conv st eoc depth inp (ber_wrap st (out_tag el) body @ out) rest''"
| ber_definite: "ber_head eoc inp el rest \<Longrightarrow> \<not> out_indefinite el \<Longrightarrow> is_constructed (out_tag el) \<Longrightarrow>
    depth + 1 \<le> kMaxDepth \<Longrightarrow> CBS_skip (out_cbs el) (out_header_len el) = (Some (), content) \<Longrightarrow>
    ber_conv (ber_child_tag st (out_tag el)) False (depth + 1) content body [] \<Longrightarrow>
    ber_fits st (out_tag el) body \<Longrightarrow> ber_conv st eoc depth rest out rest'' \<Longrightarrow>
    ber_conv st eoc depth inp (ber_wrap st (out_tag el) body @ out) rest''"
| ber_primitive: "ber_head eoc inp el rest \<Longrightarrow> \<not> out_indefinite el \<Longrightarrow> \<not> is_constructed (out_tag el) \<Longrightarrow>
    CBS_skip (out_cbs el) (out_header_len el) = (Some (), body) \<Longrightarrow>
    ber_fits st (out_tag el) body \<Longrightarrow> ber_conv st eoc depth rest out rest'' \<Longrightarrow>
    ber_conv st eoc depth inp (ber_wrap st (out_tag el) body @ out) rest''"

text \<open>One element of a run: the body it contributes and where the run continues.\<close>

definition ber_item :: "u32 \<Rightarrow> u32 \<Rightarrow> asn1_out \<Rightarrow> cbs \<Rightarrow> bytes \<Rightarrow> cbs \<Rightarrow> bool" where
  "ber_item st depth el rest body rest' \<longleftrightarrow>
     (if out_indefinite el then
        depth + 1 \<le> kMaxDepth \<and> ber_conv (ber_child_tag st (out_tag el)) True (depth + 1) rest body rest'
      else \<exists>content. CBS_skip (out_cbs el) (out_header_len el) = (Some (), content) \<and> rest' = rest \<and>
        (if is_constructed (out_tag el) then
           depth + 1 \<le> kMaxDepth \<and> ber_conv (ber_child_tag st (out_tag el)) False (depth + 1) content body []
         else body = content))"

lemma ber_conv_end: "ber_conv st eoc depth [] out r \<longleftrightarrow> \<not> eoc \<and> out = [] \<and> r = []"
  by (auto simp: ber_head_def cbs_get_eoc_def CBS_len_def intro: ber_end elim: ber_conv.cases)

lemma ber_conv_eoc:
  "cbs_get_eoc inp = (Some u, rest) \<Longrightarrow> ber_conv st True depth inp out r \<longleftrightarrow> out = [] \<and> r = rest"
  by (auto simp: ber_head_def intro: ber_eoc elim: ber_conv.cases)

lemma ber_conv_fail:
  "CBS_get_any_ber_asn1_element inp = (None, q) \<Longrightarrow> inp \<noteq> [] \<Longrightarrow> \<not> (eoc \<and> fst (cbs_get_eoc inp) \<noteq> None) \<Longrightarrow>
   \<not> ber_conv st eoc depth inp out r"
  by (auto simp: ber_head_def elim: ber_conv.cases)

lemma ber_conv_head:
  assumes "ber_head eoc inp el rest"
  shows "ber_conv st eoc depth inp out r \<longleftrightarrow>
    (\<exists>body rest' out'. ber_item st depth el rest body rest' \<and> ber_fits st (out_tag el) body \<and>
       ber_conv st eoc depth rest' out' r \<and> out = ber_wrap st (out_tag el) body @ out')" (is "?L \<longleftrightarrow> ?R")
proof
  assume ?L
  then show ?R
    by (cases rule: ber_conv.cases)
      (use assms in \<open>(fastforce simp: ber_head_def ber_item_def)+\<close>)
next
  assume ?R
  then show ?L using assms ber_indefinite ber_definite ber_primitive
    unfolding ber_item_def by (metis (no_types, lifting))
qed

lemma ber_conv_det: "ber_conv st eoc depth inp out r \<Longrightarrow> ber_conv st eoc depth inp out' r' \<Longrightarrow> out' = out \<and> r' = r"
proof (induction arbitrary: out' r' rule: ber_conv.induct)
  case (ber_end st depth)
  then show ?case by (simp add: ber_conv_end)
next
  case (ber_eoc inp rest st depth)
  then show ?case by (simp add: ber_conv_eoc)
next
  case (ber_indefinite eoc inp el rest depth st body rest' out rest'')
  from ber_indefinite.prems ber_indefinite.hyps(2) obtain b2 r2 o2 where
    "ber_conv (ber_child_tag st (out_tag el)) True (depth + 1) rest b2 r2" "ber_conv st eoc depth r2 o2 r'"
    "out' = ber_wrap st (out_tag el) b2 @ o2"
    unfolding ber_conv_head [OF ber_indefinite.hyps(1)] ber_item_def by auto
  with ber_indefinite.IH show ?case by blast
next
  case (ber_definite eoc inp el rest depth content st body out rest'')
  from ber_definite.prems ber_definite.hyps(2,3,5) obtain b2 o2 where
    "ber_conv (ber_child_tag st (out_tag el)) False (depth + 1) content b2 []" "ber_conv st eoc depth rest o2 r'"
    "out' = ber_wrap st (out_tag el) b2 @ o2"
    unfolding ber_conv_head [OF ber_definite.hyps(1)] ber_item_def by auto
  with ber_definite.IH show ?case by blast
next
  case (ber_primitive eoc inp el rest body st depth out rest'')
  from ber_primitive.prems ber_primitive.hyps(2,3,4) obtain o2 where
    "ber_conv st eoc depth rest o2 r'" "out' = ber_wrap st (out_tag el) body @ o2"
    unfolding ber_conv_head [OF ber_primitive.hyps(1)] ber_item_def by auto
  with ber_primitive.IH show ?case by blast
qed

section \<open>The converter refines the relation\<close>

text \<open>
  \<open>ber_ctx\<close> relates the builder before an element to the builder its contents are written to: whatever
  body is appended there, flushing the outer builder leaves the wrapped body.
\<close>

definition ber_ctx :: "nat \<Rightarrow> u32 \<Rightarrow> u32 \<Rightarrow> bytes \<times> frames \<Rightarrow> bytes \<times> frames \<Rightarrow> bool" where
  "ber_ctx d st tag a a1 \<longleftrightarrow> d \<le> length (snd a1) \<and>
     (\<forall>body. a_flush d (a_append body a1) =
        (if ber_fits st tag body then Some (a_append (ber_wrap st tag body) a) else None)) \<and>
     (\<forall>body. ber_fits st tag body \<longrightarrow> alen a1 + length body \<le> alen a + length (ber_wrap st tag body))"

lemma der_element_length: "length (der_tag tag) + 1 + length body \<le> length (der_element tag body)"
  by (simp add: der_element_def der_length_def Let_def)

lemma ber_ctx_same:
  "st \<noteq> 0 \<Longrightarrow> tag AND NOT CBS_ASN1_CONSTRUCTED = st \<Longrightarrow> length (snd a) = d \<Longrightarrow> ber_ctx d st tag a a"
  by (simp add: ber_ctx_def ber_fits_def ber_wrap_def a_flush_len a_append_len)

lemma ber_ctx_open:
  assumes "length (snd a) = d"
    and t: "t = (if is_constructed tag \<and> is_string_type tag then tag AND NOT CBS_ASN1_CONSTRUCTED else tag)"
  shows "ber_ctx d 0 tag a (fst (a_append (der_tag t) a), (Asn1, []) # snd (a_append (der_tag t) a))"
proof -
  let ?a = "a_append (der_tag t) a"
  have l: "length (snd ?a) = d" using assms(1) by (simp add: a_append_len)
  have "a_flush d (fst ?a, (Asn1, body) # snd ?a) =
      (if length body \<le> 0xfffffffe then Some (a_append (der_element t body) a) else None)" for body
    using a_flush_top [OF l, of Asn1 body "der_length (length body) @ body" "fst ?a"] l
    by (simp add: a_append_append der_element_def a_flush_Suc a_flush_len)
  then show ?thesis using l der_element_length [of t] alen_append [of "der_tag t" a, unfolded alen_def]
    by (auto simp: ber_ctx_def ber_fits_def ber_wrap_def t [symmetric] alen_def)
qed

lemma ber_out_contents_wp:
  assumes m: "alloc_ok mem" and r: "cbb_rel2 s a" "length (snd a) = d"
  shows "cbb_wp (ber_out_contents mem d st tag s)
    (\<lambda>_. \<forall>body. ber_fits st tag body \<longrightarrow> \<not> cbb_room mem (cbb_base s) (alen a + length (ber_wrap st tag body)))
    (\<lambda>(d', cst) s'. cst = ber_child_tag st tag \<and> (\<exists>a1. cbb_rel2 s' a1 \<and> length (snd a1) = d' \<and>
       ber_ctx d st tag a a1 \<and> grows (cbb_base s) (cbb_base s')))"
proof (cases "st = 0")
  case False
  then show ?thesis using r ber_ctx_same [of st tag a d]
    by (auto simp: ber_out_contents_def ber_fits_def ber_child_tag_def simp del: split_paired_Ex)
next
  case True
  define t where "t = (if is_constructed tag \<and> is_string_type tag then tag AND NOT CBS_ASN1_CONSTRUCTED else tag)"
  have e: "ber_out_contents mem d st tag s = cbb_bind (CBB_add_asn1 mem d t s)
      (\<lambda>_ s. Some (Some (Suc d, ber_child_tag st tag), s))"
    using True by (simp add: ber_out_contents_def t_def ber_child_tag_def)
  have w: "ber_wrap st tag body = der_element t body" for body using True by (simp add: ber_wrap_def t_def)
  have ad: "a_add d (der_tag t) a = Some (a_append (der_tag t) a)" using r(2) by (simp add: a_add_def a_flush_len)
  note o = CBB_add_asn1_opens [of mem d t, unfolded opens_def, rule_format, OF m r(1), unfolded r(2), OF order_refl, unfolded ad]
  show ?thesis unfolding e cbb_wp_bind
  proof (rule cbb_wp_mono [OF o])
    fix s' assume "failed d s' \<and> (\<forall>a'. Some (a_append (der_tag t) a) = Some a' \<longrightarrow> \<not> cbb_room mem (cbb_base s) (alen a' + plen Asn1))"
    then have "\<not> cbb_room mem (cbb_base s) (alen a + length (der_tag t) + 1)" by simp
    moreover have "alen a + length (der_tag t) + 1 \<le> alen a + length (ber_wrap st tag body)" for body
      unfolding w using der_element_length [of t body] by simp
    ultimately show "\<forall>body. ber_fits st tag body \<longrightarrow> \<not> cbb_room mem (cbb_base s) (alen a + length (ber_wrap st tag body))"
      using cbb_room_mono by blast
  next
    fix x s' assume "\<exists>a'. Some (a_append (der_tag t) a) = Some a' \<and> cbb_rel s' (fst a') ((Asn1, []) # snd a') \<and>
        length (snd a') = d \<and> grows (cbb_base s) (cbb_base s')"
    then show "cbb_wp (Some (Some (Suc d, ber_child_tag st tag), s')) (\<lambda>_. \<forall>body. ber_fits st tag body \<longrightarrow>
          \<not> cbb_room mem (cbb_base s) (alen a + length (ber_wrap st tag body)))
        (\<lambda>(d', cst) s'. cst = ber_child_tag st tag \<and> (\<exists>a1. cbb_rel2 s' a1 \<and> length (snd a1) = d' \<and>
           ber_ctx d st tag a a1 \<and> grows (cbb_base s) (cbb_base s')))"
      using ber_ctx_open [OF r(2) t_def] True
      by (auto simp del: split_paired_Ex
          intro!: exI [of _ "(fst (a_append (der_tag t) a), (Asn1, []) # snd (a_append (der_tag t) a))"])
  qed
qed

text \<open>What a run of the converter promises.\<close>

definition conv_ok :: "allocator \<Rightarrow> u32 \<Rightarrow> bool \<Rightarrow> u32 \<Rightarrow> cbs \<Rightarrow> cbb \<Rightarrow> bytes \<times> frames \<Rightarrow> ber_ret \<Rightarrow> bool" where
  "conv_ok mem st eoc depth inp s a r \<longleftrightarrow> (case r of
     None \<Rightarrow> False
   | Some (ok, inp', s') \<Rightarrow>
       if ok then \<exists>out. ber_conv st eoc depth inp out inp' \<and> cbb_rel2 s' (a_append out a) \<and> grows (cbb_base s) (cbb_base s')
       else \<forall>out r. ber_conv st eoc depth inp out r \<longrightarrow> \<not> cbb_room mem (cbb_base s) (alen a + length out))"

text \<open>The same for the body of one element, written to the builder of its contents.\<close>

definition item_ok :: "allocator \<Rightarrow> u32 \<Rightarrow> u32 \<Rightarrow> asn1_out \<Rightarrow> cbs \<Rightarrow> cbb \<Rightarrow> bytes \<times> frames \<Rightarrow> ber_ret \<Rightarrow> bool" where
  "item_ok mem st depth el rest s a r \<longleftrightarrow> (case r of
     None \<Rightarrow> False
   | Some (ok, inp', s') \<Rightarrow>
       if ok then \<exists>body. ber_item st depth el rest body inp' \<and> cbb_rel2 s' (a_append body a) \<and> grows (cbb_base s) (cbb_base s')
       else \<forall>body r. ber_item st depth el rest body r \<longrightarrow> \<not> cbb_room mem (cbb_base s) (alen a + length body))"

lemma add_bytes_item:
  assumes m: "alloc_ok mem" and r: "cbb_rel2 s a" "length (snd a) = d" and l: "length body < 2 ^ 64"
  shows "cbb_wp (CBB_add_bytes mem d body s) (\<lambda>_. \<not> cbb_room mem (cbb_base s) (alen a + length body))
    (\<lambda>_ s'. cbb_rel2 s' (a_append body a) \<and> grows (cbb_base s) (cbb_base s'))"
  by (rule cbb_wp_mono [OF appendsD [OF CBB_add_bytes_appends [OF l] m r(1)]])
    (use r in \<open>auto simp: a_add_def a_flush_len\<close>)

lemma ber_item_step:
  assumes h: "ber_head eoc inp el rest" and i: "ber_item st depth el rest body rest'" and f: "ber_fits st (out_tag el) body"
    and d: "\<And>b r. ber_item st depth el rest b r \<Longrightarrow> b = body \<and> r = rest'"
  shows "ber_conv st eoc depth inp out r \<longleftrightarrow>
    (\<exists>out'. ber_conv st eoc depth rest' out' r \<and> out = ber_wrap st (out_tag el) body @ out')"
  unfolding ber_conv_head [OF h] using i f d by blast

lemma ber_item_det:
  "ber_item st depth el rest b r \<Longrightarrow> ber_item st depth el rest b' r' \<Longrightarrow> b' = b \<and> r' = r"
  unfolding ber_item_def by (auto split: if_splits dest: ber_conv_det)

lemma ber_conv_shorter: "ber_conv st eoc depth inp out r \<Longrightarrow> length r \<le> length inp"
  by (induction rule: ber_conv.induct) (auto simp: ber_head_def dest: cbs_get_eoc_shorter ber_rest_shorter)

lemma ber_item_shorter: "ber_item st depth el rest body rest' \<Longrightarrow> length rest' \<le> length rest"
  by (auto simp: ber_item_def split: if_splits dest: ber_conv_shorter)

text \<open>After the body of an element: the flush, and then the rest of the run.\<close>

lemma conv_continue:
  assumes m: "alloc_ok mem" and a: "length (snd a) = d" and h: "ber_head eoc inp el rest"
    and c: "ber_ctx d st (out_tag el) a a1" and g1: "grows (cbb_base s) (cbb_base s1)"
    and mid: "item_ok mem st depth el rest s1 a1 mid"
    and rec: "\<And>inp' s' a'. length inp' < length inp \<Longrightarrow> cbb_rel2 s' a' \<Longrightarrow> length (snd a') = d \<Longrightarrow> conv_ok mem st eoc depth inp' s' a' (f inp' s')"
  shows "conv_ok mem st eoc depth inp s a (case mid of None \<Rightarrow> None | Some (ok, inp, s) \<Rightarrow>
     if \<not> ok then Some (False, inp, s)
     else (case CBB_flush mem d s of None \<Rightarrow> None | Some (None, s) \<Rightarrow> Some (False, inp, s)
       | Some (Some _, s) \<Rightarrow> f inp s))"
proof -
  note fits = c [unfolded ber_ctx_def, THEN conjunct2, THEN conjunct2, rule_format]
  from mid obtain ok inp' s2 where e: "mid = Some (ok, inp', s2)" by (cases mid) (auto simp: item_ok_def)
  show ?thesis
  proof (cases ok)
    case False
    have "\<not> cbb_room mem (cbb_base s) (alen a + length out)" if "ber_conv st eoc depth inp out r" for out r
    proof -
      from that obtain body rest' out' where b: "ber_item st depth el rest body rest'"
        "ber_fits st (out_tag el) body" "out = ber_wrap st (out_tag el) body @ out'"
        unfolding ber_conv_head [OF h] by blast
      have "\<not> cbb_room mem (cbb_base s1) (alen a1 + length body)" using mid e False b(1) by (auto simp: item_ok_def)
      moreover have "alen a1 + length body \<le> alen a + length out" using fits [OF b(2)] b(3) by simp
      ultimately show ?thesis using cbb_room_mono cbb_room_grows [OF g1] by blast
    qed
    then show ?thesis using e False by (simp add: conv_ok_def)
  next
    case True
    then obtain body where b: "ber_item st depth el rest body inp'" "cbb_rel2 s2 (a_append body a1)"
      "grows (cbb_base s1) (cbb_base s2)" using mid e by (auto simp: item_ok_def)
    note det = ber_item_det [OF b(1)]
    have fl: "a_flush d (a_append body a1) =
        (if ber_fits st (out_tag el) body then Some (a_append (ber_wrap st (out_tag el) body) a) else None)"
      "d \<le> length (snd (a_append body a1))"
      using c by (simp_all add: ber_ctx_def a_append_len)
    note g2 = grows_trans [OF g1 b(3)]
    note wp = CBB_flush_refines [OF m b(2) fl(2)]
    show ?thesis
    proof (cases "CBB_flush mem d s2" rule: cbb_result_cases)
      case 1
      then show ?thesis using wp by simp
    next
      case (2 s3)
      have "\<not> cbb_room mem (cbb_base s) (alen a + length out)" if "ber_conv st eoc depth inp out r" for out r
      proof -
        from that det obtain out' where o: "ber_fits st (out_tag el) body" "out = ber_wrap st (out_tag el) body @ out'"
          unfolding ber_conv_head [OF h] by blast
        have "\<not> cbb_room mem (cbb_base s2) (alen (a_append (ber_wrap st (out_tag el) body) a))"
          using wp 2 fl(1) o(1) by (simp del: alen_append)
        then show ?thesis using cbb_room_grows [OF g2] cbb_room_mono [of mem "cbb_base s2"] o(2) by fastforce
      qed
      then show ?thesis using e True 2 by (simp add: conv_ok_def)
    next
      case (3 x s3)
      then have r3: "ber_fits st (out_tag el) body" "cbb_rel2 s3 (a_append (ber_wrap st (out_tag el) body) a)"
        "grows (cbb_base s2) (cbb_base s3)" using wp fl(1) by (auto split: if_splits)
      note step = ber_item_step [OF h b(1) r3(1) det]
      note g3 = grows_trans [OF g2 r3(3)]
      have "conv_ok mem st eoc depth inp' s3 (a_append (ber_wrap st (out_tag el) body) a) (f inp' s3)"
        using rec [OF _ r3(2)] a ber_item_shorter [OF b(1)] ber_rest_shorter [of inp el rest] h
        by (simp add: a_append_len ber_head_def)
      then have "conv_ok mem st eoc depth inp s a (f inp' s3)"
        using grows_trans [OF g3] cbb_room_grows [OF g3, of mem]
        by (fastforce simp: conv_ok_def step a_append_append add.assoc split: option.splits prod.splits if_splits)
      then show ?thesis using e True 3 by simp
    qed
  qed
qed

lemma conv_ok_item:
  "out_indefinite el \<Longrightarrow> depth + 1 \<le> kMaxDepth \<Longrightarrow>
     conv_ok mem (ber_child_tag st (out_tag el)) True (depth + 1) rest s a r \<Longrightarrow> item_ok mem st depth el rest s a r"
  "\<not> out_indefinite el \<Longrightarrow> is_constructed (out_tag el) \<Longrightarrow> depth + 1 \<le> kMaxDepth \<Longrightarrow>
     CBS_skip (out_cbs el) (out_header_len el) = (Some (), body) \<Longrightarrow>
     conv_ok mem (ber_child_tag st (out_tag el)) False (depth + 1) body s a r \<Longrightarrow>
     item_ok mem st depth el rest s a (map_option (\<lambda>(ok, _, s). (ok, rest, s)) r)"
proof -
  show "out_indefinite el \<Longrightarrow> depth + 1 \<le> kMaxDepth \<Longrightarrow>
     conv_ok mem (ber_child_tag st (out_tag el)) True (depth + 1) rest s a r \<Longrightarrow> item_ok mem st depth el rest s a r"
    by (auto simp: conv_ok_def item_ok_def ber_item_def split: option.splits prod.splits if_splits)
  have nil: "ber_conv st False depth inp out r \<Longrightarrow> r = []" for st depth inp out r
    by (induction st False depth inp out r rule: ber_conv.induct) auto
  show "\<not> out_indefinite el \<Longrightarrow> is_constructed (out_tag el) \<Longrightarrow> depth + 1 \<le> kMaxDepth \<Longrightarrow>
     CBS_skip (out_cbs el) (out_header_len el) = (Some (), body) \<Longrightarrow>
     conv_ok mem (ber_child_tag st (out_tag el)) False (depth + 1) body s a r \<Longrightarrow>
     item_ok mem st depth el rest s a (map_option (\<lambda>(ok, _, s). (ok, rest, s)) r)"
    using nil by (fastforce simp: conv_ok_def item_ok_def ber_item_def split: option.splits prod.splits if_splits)
qed

lemma ber_next_cases:
  assumes m: "alloc_ok mem" and r: "cbb_rel2 s a" "length (snd a) = d"
  obtains (stop) ret where "ber_next mem d st eoc inp s = Some (Inl ret)" "conv_ok mem st eoc depth inp s a (Some ret)"
  | (step) el rest d' s1 a1 where "ber_next mem d st eoc inp s = Some (Inr (el, rest, d', ber_child_tag st (out_tag el), s1))"
      "ber_head eoc inp el rest" "cbb_rel2 s1 a1" "length (snd a1) = d'" "ber_ctx d st (out_tag el) a a1"
      "grows (cbb_base s) (cbb_base s1)"
proof (cases "inp = [] \<or> eoc \<and> fst (cbs_get_eoc inp) \<noteq> None \<or> fst (CBS_get_any_ber_asn1_element inp) = None")
  case True
  have e: "a_append [] a = a" by (cases a; cases "snd a") auto
  from True consider "inp = []" | u q where "inp \<noteq> []" "eoc" "cbs_get_eoc inp = (Some u, q)"
    | q where "inp \<noteq> []" "\<not> (eoc \<and> fst (cbs_get_eoc inp) \<noteq> None)" "CBS_get_any_ber_asn1_element inp = (None, q)"
    by (metis option.exhaust prod.collapse)
  then have "\<exists>ret. ber_next mem d st eoc inp s = Some (Inl ret) \<and> conv_ok mem st eoc depth inp s a (Some ret)"
  proof cases
    case 1
    then show ?thesis using r e by (auto simp: ber_next_def CBS_len_def conv_ok_def ber_conv_end)
  next
    case 2
    then show ?thesis using r e by (auto simp: ber_next_def CBS_len_def conv_ok_def ber_conv_eoc)
  next
    case (3 q)
    have "ber_next mem d st eoc inp s = Some (Inl (False, q, s))"
      using 3 by (cases "cbs_get_eoc inp"; cases "fst (cbs_get_eoc inp)") (auto simp: ber_next_def CBS_len_def)
    moreover have "conv_ok mem st eoc depth inp s a (Some (False, q, s))"
      using ber_conv_fail [OF 3(3,1,2)] by (simp add: conv_ok_def)
    ultimately show ?thesis by blast
  qed
  then show thesis using stop by blast
next
  case False
  then obtain el rest where g: "CBS_get_any_ber_asn1_element inp = (Some el, rest)"
    by (cases "CBS_get_any_ber_asn1_element inp") auto
  then have h: "ber_head eoc inp el rest" using False by (auto simp: ber_head_def)
  have n: "ber_next mem d st eoc inp s = (case ber_out_contents mem d st (out_tag el) s of
            None \<Rightarrow> None
          | Some (None, s) \<Rightarrow> Some (Inl (False, rest, s))
          | Some (Some (d', child_string_tag), s) \<Rightarrow> Some (Inr (el, rest, d', child_string_tag, s)))"
    using False g by (cases "cbs_get_eoc inp"; cases "fst (cbs_get_eoc inp)") (auto simp: ber_next_def CBS_len_def)
  note wp = ber_out_contents_wp [OF m r, of st "out_tag el"]
  show thesis
  proof (cases "ber_out_contents mem d st (out_tag el) s" rule: cbb_result_cases)
    case 1
    then show ?thesis using wp by simp
  next
    case (2 s')
    have "\<not> cbb_room mem (cbb_base s) (alen a + length out)" if "ber_conv st eoc depth inp out q" for out q
      using that wp 2 cbb_room_mono [of mem "cbb_base s"] unfolding ber_conv_head [OF h]
      by (fastforce simp: add.assoc)
    then show ?thesis using 2 n stop by (simp add: conv_ok_def)
  next
    case (3 x s')
    then show ?thesis using n wp step h by (cases x) (auto simp del: split_paired_Ex)
  qed
qed

theorem cbs_convert_loop_ok:
  assumes m: "alloc_ok mem"
  shows "cbb_rel2 s a \<Longrightarrow> length (snd a) = d \<Longrightarrow> length inp < 2 ^ 64 \<Longrightarrow>
    conv_ok mem st eoc depth inp s a (cbs_convert_loop mem d st eoc depth inp s)"
proof (induction "length inp" arbitrary: inp s a d st eoc depth rule: less_induct)
  case less
  show ?case
  proof (cases rule: ber_next_cases [OF m less.prems(1,2), of st eoc inp depth])
    case (1 ret)
    then show ?thesis by (subst cbs_convert_loop.simps) simp
  next
    case step: (2 el rest d' s1 a1)
    have g: "CBS_get_any_ber_asn1_element inp = (Some el, rest)" using step(2) by (simp add: ber_head_def)
    have l: "length rest < length inp" using g by (rule ber_rest_shorter)
    let ?cst = "ber_child_tag st (out_tag el)"
    have item: "item_ok mem st depth el rest s1 a1
        (if out_indefinite el then
           if depth + 1 > kMaxDepth then Some (False, rest, s1)
           else cbs_convert_loop mem d' ?cst True (depth + 1) rest s1
         else case CBS_skip (out_cbs el) (out_header_len el) of
             (None, _) \<Rightarrow> Some (False, rest, s1)
           | (Some _, body) \<Rightarrow>
               if is_constructed (out_tag el) then
                 if depth + 1 > kMaxDepth then Some (False, rest, s1)
                 else map_option (\<lambda>(ok, _, s). (ok, rest, s)) (cbs_convert_loop mem d' ?cst False (depth + 1) body s1)
               else map_option (\<lambda>(r, s). (r \<noteq> None, rest, s)) (CBB_add_bytes mem d' body s1))"
    proof (cases "out_indefinite el")
      case True
      show ?thesis
      proof (cases "depth + 1 > kMaxDepth")
        case False
        then show ?thesis
          using True less.hyps [OF l step(3,4)] l less.prems(3) by (simp add: conv_ok_item not_less)
      qed (use True in \<open>auto simp: item_ok_def ber_item_def\<close>)
    next
      case F: False
      obtain body where sk: "CBS_skip (out_cbs el) (out_header_len el) = (Some (), body)"
        using ber_element_split [OF g] by (simp add: CBS_skip_eq)
      have lb: "length body < length inp" using ber_contents_shorter [OF g sk] .
      show ?thesis
      proof (cases "is_constructed (out_tag el)")
        case True
        show ?thesis
        proof (cases "depth + 1 > kMaxDepth")
          case False
          then show ?thesis using F True sk conv_ok_item(2) [OF F True _ sk less.hyps [OF lb step(3,4)]] lb less.prems(3)
            by (simp add: not_less leD)
        qed (use F True sk in \<open>auto simp: item_ok_def ber_item_def\<close>)
      next
        case False
        have "length body < 2 ^ 64" using lb less.prems(3) by simp
        from add_bytes_item [OF m step(3,4) this] show ?thesis using F False sk
          by (cases "CBB_add_bytes mem d' body s1" rule: cbb_result_cases) (auto simp: item_ok_def ber_item_def)
      qed
    qed
    have rec: "conv_ok mem st eoc depth inp' s' a' (cbs_convert_loop mem d st eoc depth inp' s')"
      if "length inp' < length inp" "cbb_rel2 s' a'" "length (snd a') = d" for inp' s' a'
      using less.hyps [OF that] that(1) less.prems(3) by simp
    show ?thesis
      unfolding cbs_convert_loop.simps [of mem d st eoc depth inp s] step(1)
      using conv_continue [OF m less.prems(2) step(2,5,6) item rec] by simp
  qed
qed

section \<open>The output is DER\<close>

text \<open>Nested DER: an element whose body is primitive or again a sequence of elements.\<close>

datatype asn1_tree = Prim u32 bytes | Cons u32 "asn1_tree list"

fun tree_der :: "asn1_tree \<Rightarrow> bytes" where
  "tree_der (Prim tag body) = der_element tag body"
| "tree_der (Cons tag ts) = der_element tag (concat (map tree_der ts))"

text \<open>Depth at most \<open>n\<close>, lengths that the readers accept, and no constructed strings.\<close>

fun tree_ok :: "nat \<Rightarrow> asn1_tree \<Rightarrow> bool" where
  "tree_ok n (Prim tag body) \<longleftrightarrow> asn1_valid_tag tag \<and> \<not> is_constructed tag \<and> length body \<le> 0xfffffffe"
| "tree_ok n (Cons tag ts) \<longleftrightarrow> 0 < n \<and> asn1_valid_tag tag \<and> is_constructed tag \<and> \<not> is_string_type tag \<and>
     length (concat (map tree_der ts)) \<le> 0xfffffffe \<and> (\<forall>t\<in>set ts. tree_ok (n - 1) t)"

lemma ber_indefinite_constructed:
  assumes "CBS_get_any_ber_asn1_element inp = (Some el, rest)" "out_indefinite el"
  shows "is_constructed (out_tag el)"
proof -
  from assms(1) have e: "cbs_get_any_asn1_element inp True = (Some el, rest)" by (simp add: CBS_get_any_ber_asn1_element_def)
  then obtain tag lb h where c: "asn1_valid_tag tag" "inp = der_tag tag @ lb # h" by (rule asn1_element_SomeE)
  show ?thesis using e assms(2) unfolding asn1_element_eq [OF c]
    by (auto simp: Let_def asn1_take_Some is_constructed_def split: if_splits)
qed

lemma clear_constructed: "\<not> is_constructed (tag AND NOT CBS_ASN1_CONSTRUCTED)"
  "asn1_valid_tag tag \<Longrightarrow> asn1_valid_tag (tag AND NOT CBS_ASN1_CONSTRUCTED)"
  by (simp_all add: is_constructed_def asn1_valid_tag_def and.assoc)

lemma ber_child_tag_0: "asn1_valid_tag tag \<Longrightarrow> ber_child_tag 0 tag = 0 \<longleftrightarrow> \<not> (is_constructed tag \<and> is_string_type tag)"
  by (simp add: ber_child_tag_def asn1_valid_tag_def)

abbreviation depth_left :: "u32 \<Rightarrow> nat" where
  "depth_left depth \<equiv> unat kMaxDepth - unat depth"

lemma depth_left_Suc: "depth + 1 \<le> kMaxDepth \<Longrightarrow> depth \<le> kMaxDepth \<Longrightarrow> depth_left depth = Suc (depth_left (depth + 1))"
proof -
  assume a: "depth \<le> kMaxDepth" "depth + 1 \<le> kMaxDepth"
  have "unat (depth + 1) = unat depth + 1" using a(1) by (simp add: word_le_nat_alt unat_word_ariths)
  then show ?thesis using a by (simp add: word_le_nat_alt)
qed

lemma wrap_tree:
  assumes tag: "asn1_valid_tag tag" "is_constructed tag" and f: "ber_fits 0 tag body"
    and d: "depth + 1 \<le> kMaxDepth" "depth \<le> kMaxDepth"
    and body: "ber_child_tag 0 tag = 0 \<Longrightarrow>
      \<exists>ts. body = concat (map tree_der ts) \<and> (\<forall>t\<in>set ts. tree_ok (depth_left (depth + 1)) t)"
  shows "\<exists>t. ber_wrap 0 tag body = tree_der t \<and> tree_ok (depth_left depth) t"
proof (cases "is_string_type tag")
  case True
  then show ?thesis using tag f clear_constructed [of tag]
    by (intro exI [of _ "Prim (tag AND NOT CBS_ASN1_CONSTRUCTED) body"]) (simp add: ber_wrap_def ber_fits_def)
next
  case False
  then obtain ts where ts: "body = concat (map tree_der ts)" "\<forall>t\<in>set ts. tree_ok (depth_left (depth + 1)) t"
    using body tag by (auto simp: ber_child_tag_0)
  then show ?thesis using tag f False depth_left_Suc [OF d]
    by (intro exI [of _ "Cons tag ts"]) (simp add: ber_wrap_def ber_fits_def)
qed

lemma ber_conv_der:
  "ber_conv st eoc depth inp out r \<Longrightarrow> st = 0 \<Longrightarrow> depth \<le> kMaxDepth \<Longrightarrow>
   \<exists>ts. out = concat (map tree_der ts) \<and> (\<forall>t\<in>set ts. tree_ok (depth_left depth) t)"
proof (induction rule: ber_conv.induct)
  case (ber_end st depth)
  then show ?case by (intro exI [of _ "[]"]) simp
next
  case (ber_eoc inp rest st depth)
  then show ?case by (intro exI [of _ "[]"]) simp
next
  case (ber_indefinite eoc inp el rest depth st body rest' out rest'')
  have g: "CBS_get_any_ber_asn1_element inp = (Some el, rest)" using ber_indefinite.hyps(1) by (simp add: ber_head_def)
  have c: "is_constructed (out_tag el)" using ber_indefinite_constructed [OF g ber_indefinite.hyps(2)] .
  obtain t where "ber_wrap 0 (out_tag el) body = tree_der t" "tree_ok (depth_left depth) t"
    using wrap_tree [OF _ c _ ber_indefinite.hyps(3) ber_indefinite.prems(2), of body] ber_element_split [OF g]
      ber_indefinite.hyps(5) ber_indefinite.IH(1) ber_indefinite.prems(1) ber_indefinite.hyps(3) by blast
  moreover obtain ts where "out = concat (map tree_der ts)" "\<forall>t\<in>set ts. tree_ok (depth_left depth) t"
    using ber_indefinite.IH(2) ber_indefinite.prems by blast
  ultimately show ?case using ber_indefinite.prems(1) by (intro exI [of _ "t # ts"]) simp
next
  case (ber_definite eoc inp el rest depth content st body out rest'')
  have g: "CBS_get_any_ber_asn1_element inp = (Some el, rest)" using ber_definite.hyps(1) by (simp add: ber_head_def)
  obtain t where "ber_wrap 0 (out_tag el) body = tree_der t" "tree_ok (depth_left depth) t"
    using wrap_tree [OF _ ber_definite.hyps(3) _ ber_definite.hyps(4) ber_definite.prems(2), of body] ber_element_split [OF g]
      ber_definite.hyps(7) ber_definite.IH(1) ber_definite.prems(1) ber_definite.hyps(4) by blast
  moreover obtain ts where "out = concat (map tree_der ts)" "\<forall>t\<in>set ts. tree_ok (depth_left depth) t"
    using ber_definite.IH(2) ber_definite.prems by blast
  ultimately show ?case using ber_definite.prems(1) by (intro exI [of _ "t # ts"]) simp
next
  case (ber_primitive eoc inp el rest body st depth out rest'')
  have g: "CBS_get_any_ber_asn1_element inp = (Some el, rest)" using ber_primitive.hyps(1) by (simp add: ber_head_def)
  have "ber_wrap 0 (out_tag el) body = tree_der (Prim (out_tag el) body)" "tree_ok (depth_left depth) (Prim (out_tag el) body)"
    using ber_element_split [OF g] ber_primitive.hyps(3,5) ber_primitive.prems(1) by (simp_all add: ber_wrap_def ber_fits_def)
  moreover obtain ts where "out = concat (map tree_der ts)" "\<forall>t\<in>set ts. tree_ok (depth_left depth) t"
    using ber_primitive.IH ber_primitive.prems by blast
  ultimately show ?case using ber_primitive.prems(1) by (intro exI [of _ "Prim (out_tag el) body # ts"]) simp
qed

section \<open>DER input is left alone\<close>

lemma ber_parse_der:
  assumes "asn1_valid_tag tag" "length body < 2 ^ 32"
  shows "CBS_get_any_ber_asn1_element (der_element tag body @ rest) =
    (Some \<lparr>out_cbs = der_element tag body, out_tag = tag,
       out_header_len = length (der_header tag (length body)),
       out_ber_found = False, out_indefinite = False\<rparr>, rest)"
proof -
  let ?cbs = "der_element tag body @ rest"
  have strict: "cbs_get_any_asn1_element ?cbs False = (Some el, r) \<Longrightarrow> cbs_get_any_asn1_element ?cbs True = (Some el, r)" for el r
  proof -
    assume e: "cbs_get_any_asn1_element ?cbs False = (Some el, r)"
    then obtain tag' lb h where c: "asn1_valid_tag tag'" "?cbs = der_tag tag' @ lb # h" by (rule asn1_element_SomeE)
    show ?thesis using e unfolding asn1_element_eq [OF c] by (auto simp: Let_def split: if_splits)
  qed
  show ?thesis
    unfolding CBS_get_any_ber_asn1_element_def
    by (rule strict) (use der_element_parse [OF assms, of rest] in \<open>simp add: CBS_get_any_asn1_element_def\<close>)
qed

lemma tree_der_nonempty: "tree_der t \<noteq> []"
  by (cases t) (simp_all add: der_element_def der_tag_nonempty)

lemma find_ber_der:
  "\<forall>t\<in>set ts. tree_ok n t \<Longrightarrow> n \<le> depth_left depth \<Longrightarrow> depth \<le> kMaxDepth \<Longrightarrow>
   cbs_find_ber_loop depth b (concat (map tree_der ts)) = Some (ts = [] \<and> b)"
proof (induction n arbitrary: ts depth b rule: less_induct)
  case (less n)
  show ?case using less.prems(1)
  proof (induction ts arbitrary: b)
    case Nil
    then show ?case by (simp add: cbs_find_ber_loop.simps CBS_len_def)
  next
    case (Cons t ts)
    note step = cbs_find_ber_loop.simps [of depth b "concat (map tree_der (t # ts))"]
    have IH: "cbs_find_ber_loop depth False (concat (map tree_der ts)) = Some False" using Cons.IH Cons.prems by simp
    have ne: "CBS_len (concat (map tree_der (t # ts))) \<noteq> 0" using tree_der_nonempty [of t] by (simp add: CBS_len_def)
    show ?case
    proof (cases t)
      case (Prim tag body)
      then have ok: "asn1_valid_tag tag" "\<not> is_constructed tag" "length body < 2 ^ 32" using Cons.prems by simp_all
      show ?thesis unfolding step using Prim ne ber_parse_der [OF ok(1,3)] ok(2) IH by simp
    next
      case C: (Cons tag us)
      then have ok: "asn1_valid_tag tag" "is_constructed tag" "\<not> is_string_type tag"
        "length (concat (map tree_der us)) < 2 ^ 32" "\<forall>t\<in>set us. tree_ok (n - 1) t" "0 < n" using Cons.prems by simp_all
      have "unat depth < 2048" using ok(6) less.prems(2) by simp
      then have u: "unat (depth + 1) = unat depth + 1" by (simp add: unat_word_ariths)
      then have d: "depth + 1 \<le> kMaxDepth" using \<open>unat depth < 2048\<close> by (simp add: word_le_nat_alt)
      have "n - 1 \<le> depth_left (depth + 1)" using less.prems(2) u by simp
      then have "cbs_find_ber_loop (depth + 1) False (concat (map tree_der us)) = Some False"
        using less.IH [of "n - 1" us "depth + 1" False] ok(5,6) d by simp
      then show ?thesis unfolding step using C ne ber_parse_der [OF ok(1,4)] ok(2,3) IH d CBS_skip_header [of tag "concat (map tree_der us)"]
        by (simp add: not_less leD)
    qed
  qed
qed

lemma ber_to_der_of_der:
  assumes "\<forall>t\<in>set (t # ts). tree_ok 2048 t"
  shows "CBS_asn1_ber_to_der mem (concat (map tree_der (t # ts))) =
    Some (Some (tree_der t, None), concat (map tree_der ts))"
proof -
  have f: "cbs_find_ber (concat (map tree_der (t # ts))) 0 = Some False"
    using find_ber_der [OF assms, of 0 False] by (simp add: cbs_find_ber_def)
  have "\<exists>tag body. asn1_valid_tag tag \<and> length body < 2 ^ 32 \<and> tree_der t = der_element tag body"
    using assms by (cases t) force+
  then obtain tag body where b: "asn1_valid_tag tag" "length body < 2 ^ 32" "tree_der t = der_element tag body" by blast
  show ?thesis unfolding CBS_asn1_ber_to_der_def f using der_element_parse [OF b(1,2)] b(3) by simp
qed

text \<open>
  What \<open>cbs_find_ber\<close> finds inside an element is forgotten when another element follows: the next
  call of \<open>CBS_get_any_ber_asn1_element\<close> clears \<open>*ber_found\<close>.
\<close>

lemma find_ber_forgets:
  assumes p: "asn1_valid_tag tag" "is_constructed tag" "\<not> is_string_type tag" "length content < 2 ^ 32"
    and c: "cbs_find_ber_loop (depth + 1) False content = Some b" and d: "depth + 1 \<le> kMaxDepth"
    and q: "\<forall>t\<in>set (t # ts). tree_ok (depth_left depth) t" "depth \<le> kMaxDepth"
  shows "cbs_find_ber_loop depth b' (der_element tag content @ concat (map tree_der (t # ts))) = Some False"
proof -
  let ?rest = "concat (map tree_der (t # ts))"
  have "cbs_find_ber_loop depth b ?rest = Some False" using find_ber_der [OF q(1) order_refl q(2)] by simp
  moreover have "der_element tag content \<noteq> []" by (simp add: der_element_def der_tag_nonempty)
  ultimately show ?thesis
    using ber_parse_der [OF p(1,4), of ?rest] p(2,3) c d CBS_skip_header [of tag content]
    by (subst cbs_find_ber_loop.simps) (simp add: CBS_len_def not_less leD)
qed

text \<open>An element whose contents begin with such a pair is then returned as it is.\<close>

lemma ber_to_der_misses:
  assumes o: "asn1_valid_tag otag" "is_constructed otag" "\<not> is_string_type otag"
    and p: "asn1_valid_tag tag" "is_constructed tag" "\<not> is_string_type tag" "length content < 2 ^ 32"
    and c: "cbs_find_ber content 2 = Some b"
    and q: "\<forall>t\<in>set (t # ts). tree_ok 2047 t"
    and l: "length (der_element tag content @ concat (map tree_der (t # ts))) < 2 ^ 32"
  shows "CBS_asn1_ber_to_der mem (der_element otag (der_element tag content @ concat (map tree_der (t # ts)))) =
    Some (Some (der_element otag (der_element tag content @ concat (map tree_der (t # ts))), None), [])"
proof -
  let ?body = "der_element tag content @ concat (map tree_der (t # ts))"
  have "cbs_find_ber_loop 2 False content = Some b" using c by (simp add: cbs_find_ber_def)
  then have i: "cbs_find_ber_loop 1 False ?body = Some False"
    using q by (intro find_ber_forgets [OF p]) simp_all
  have "der_element otag ?body \<noteq> []" by (simp add: der_element_def der_tag_nonempty)
  then have "cbs_find_ber (der_element otag ?body) 0 = Some False"
    using ber_parse_der [OF o(1) l, of "[]"] o(2,3) i CBS_skip_header [of otag ?body]
    unfolding cbs_find_ber_def by (subst cbs_find_ber_loop.simps) (simp add: CBS_len_def cbs_find_ber_loop.simps [of 0 False "[]"])
  then show ?thesis using der_element_parse [OF o(1) l, of "[]"] by (simp add: CBS_asn1_ber_to_der_def)
qed

section \<open>The conversion as a whole\<close>

lemma cbs_convert_ber_ok:
  assumes "alloc_ok mem" "CBB_init mem (CBS_len inp) = Some s" "length inp < 2 ^ 64"
  shows "conv_ok mem 0 False 0 inp s ([], []) (cbs_convert_ber mem 0 0 False 0 inp s)"
  using cbs_convert_loop_ok [OF assms(1), of s "([], [])" 0 inp 0 False 0]
    CBB_init_rel [OF assms(1) _ assms(2)] assms(3)
  by (simp add: cbs_convert_ber_def is_constructed_def CBS_len_def)

text \<open>
  The conversion is defined on every input. When it converts, the result is the DER form of the
  whole input; with memory available it fails only on input that has none.
\<close>

lemma ber_to_der_converts:
  assumes m: "alloc_ok mem" and l: "length inp < 2 ^ 64" and f: "cbs_find_ber inp 0 = Some True"
  shows "\<exists>r rest. CBS_asn1_ber_to_der mem inp = Some (r, rest) \<and>
    (case r of
       Some (out, storage) \<Rightarrow> storage = Some out \<and> rest = [] \<and> ber_conv 0 False 0 inp out []
     | None \<Rightarrow> \<forall>out rest. ber_conv 0 False 0 inp out rest \<longrightarrow> \<not> ((\<forall>m. mem m \<noteq> None) \<and> length inp \<le> 2 ^ 61 \<and> length out \<le> 2 ^ 61))"
proof (cases "CBB_init mem (CBS_len inp)")
  case None
  then have "\<not> ((\<forall>m. mem m \<noteq> None) \<and> length inp \<le> 2 ^ 61)"
    using CBB_init_live [of mem "length inp"] by (auto simp: CBS_len_def)
  then show ?thesis using None f by (auto simp: CBS_asn1_ber_to_der_def)
next
  case (Some s)
  have rel: "cbb_rel2 s ([], [])" "can_resize (cbb_base s)"
    using CBB_init_rel [OF m _ Some] l by (simp_all add: CBS_len_def)
  note ok = cbs_convert_ber_ok [OF m Some l]
  from ok obtain b inp' s' where c: "cbs_convert_ber mem 0 0 False 0 inp s = Some (b, inp', s')"
    by (cases "cbs_convert_ber mem 0 0 False 0 inp s") (auto simp: conv_ok_def)
  have nil: "ber_conv st False depth i out r \<Longrightarrow> r = []" for st depth i out r
    by (induction st False depth i out r rule: ber_conv.induct) auto
  show ?thesis
  proof (cases b)
    case False
    then have "\<forall>out r. ber_conv 0 False 0 inp out r \<longrightarrow> \<not> cbb_room mem (cbb_base s) (length out)"
      using ok c by (simp add: conv_ok_def alen_def)
    then show ?thesis using Some c False f rel(2) by (auto simp: CBS_asn1_ber_to_der_def cbb_room_def)
  next
    case True
    then obtain out where o: "ber_conv 0 False 0 inp out inp'" "cbb_rel2 s' (out, [])" "grows (cbb_base s) (cbb_base s')"
      using ok c by (auto simp: conv_ok_def)
    note wp = CBB_finish_refines [OF m o(2), of True]
    show ?thesis
    proof (cases "CBB_finish mem 0 True s'" rule: cbb_result_cases)
      case 1
      then show ?thesis using wp by simp
    next
      case (2 s2)
      then have "\<not> cbb_room mem (cbb_base s') (length out)" using wp by (simp add: a_flush_def alen_def)
      then have "\<not> ((\<forall>m. mem m \<noteq> None) \<and> length out \<le> 2 ^ 61)" using o(3) rel(2) by (auto simp: cbb_room_def grows_def)
      moreover have "out' = out" if "ber_conv 0 False 0 inp out' r" for out' r using ber_conv_det [OF o(1) that] by simp
      ultimately show ?thesis using 2 Some c True f by (auto simp: CBS_asn1_ber_to_der_def)
    next
      case (3 x s2)
      then have "x = out" using wp by (simp add: a_flush_def)
      then show ?thesis using 3 Some c True f o(1) nil [OF o(1)] by (auto simp: CBS_asn1_ber_to_der_def CBS_init_def)
    qed
  qed
qed

section \<open>Implicitly tagged strings\<close>

interpretation tagged_codec: self_delimiting "der_element tag" "\<lambda>cbs. CBS_get_asn1 cbs tag"
    "\<lambda>body. asn1_valid_tag tag \<and> length body < 2 ^ 32" for tag
  by unfold_locales (auto simp: CBS_get_asn1_iff der_element_def der_tag_nonempty)

lemma implicit_string_loop_wp:
  assumes m: "alloc_ok mem"
  shows "cbb_rel2 s a \<Longrightarrow> length (snd a) = 0 \<Longrightarrow>
    cbb_wp (implicit_string_loop mem tag child s)
      (\<lambda>_. \<forall>chunks. cbs_many (\<lambda>cbs. CBS_get_asn1 cbs tag) child = Some chunks \<longrightarrow>
         \<not> cbb_room mem (cbb_base s) (alen a + length (concat chunks)))
      (\<lambda>_ s'. \<exists>chunks. cbs_many (\<lambda>cbs. CBS_get_asn1 cbs tag) child = Some chunks \<and>
         cbb_rel2 s' (a_append (concat chunks) a) \<and> grows (cbb_base s) (cbb_base s'))"
proof (induction "length child" arbitrary: child s a rule: less_induct)
  case less
  let ?dec = "\<lambda>cbs. CBS_get_asn1 cbs tag"
  have nil: "a_append [] a = a" by (cases a; cases "snd a") auto
  consider "child = []" | q where "child \<noteq> []" "?dec child = (None, q)" | chunk q where "child \<noteq> []" "?dec child = (Some chunk, q)"
    by (metis option.exhaust prod.collapse)
  then show ?case
  proof cases
    case 1
    then show ?thesis using less.prems nil by (simp add: implicit_string_loop.simps CBS_len_def)
  next
    case 2
    then show ?thesis by (simp add: implicit_string_loop.simps [of mem tag child] CBS_len_def tagged_codec.many_step)
  next
    case (3 chunk q)
    have many: "cbs_many ?dec child = map_option ((#) chunk) (cbs_many ?dec q)" using 3 by (simp add: tagged_codec.many_step)
    have len: "length q < length child" using tagged_codec.dec_shorter [OF 3(2)] .
    have "length chunk < 2 ^ 64" using 3(2) by (simp add: CBS_get_asn1_iff)
    note add = add_bytes_item [OF m less.prems this]
    show ?thesis
      unfolding implicit_string_loop.simps [of mem tag child] using 3
    proof (simp add: CBS_len_def, intro cbb_wp_mono [OF add])
      fix s' assume "\<not> cbb_room mem (cbb_base s) (alen a + length chunk)"
      then show "\<forall>chunks. cbs_many ?dec child = Some chunks \<longrightarrow> \<not> cbb_room mem (cbb_base s) (alen a + length (concat chunks))"
        using many cbb_room_mono [of mem "cbb_base s" _ "alen a + length chunk"]
        by auto (metis add.assoc le_add1)
    next
      fix x s1 assume s1: "cbb_rel2 s1 (a_append chunk a) \<and> grows (cbb_base s) (cbb_base s1)"
      then have "cbb_rel2 s1 (a_append chunk a)" "length (snd (a_append chunk a)) = 0" using less.prems(2) by (simp_all add: a_append_len)
      note IH = less.hyps [OF len this]
      show "cbb_wp (implicit_string_loop mem tag q s1)
          (\<lambda>_. \<forall>chunks. cbs_many ?dec child = Some chunks \<longrightarrow> \<not> cbb_room mem (cbb_base s) (alen a + length (concat chunks)))
          (\<lambda>_ s'. \<exists>chunks. cbs_many ?dec child = Some chunks \<and> cbb_rel2 s' (a_append (concat chunks) a) \<and>
             grows (cbb_base s) (cbb_base s'))"
        by (rule cbb_wp_mono [OF IH])
          (use s1 many cbb_room_grows [of "cbb_base s" "cbb_base s1" mem] grows_trans [of "cbb_base s" "cbb_base s1"]
            in \<open>auto simp: a_append_append add.assoc\<close>)
    qed
  qed
qed

lemma implicit_string_constructed:
  assumes m: "alloc_ok mem" "\<forall>m. mem m \<noteq> None"
    and t: "\<not> is_constructed outer_tag" "\<not> is_constructed inner_tag" "is_string_type inner_tag"
      "asn1_valid_tag outer_tag"
    and body: "\<forall>c\<in>set chunks. length c < 2 ^ 32" "length (concat (map (der_element inner_tag) chunks)) < 2 ^ 32"
    and rest: "length rest < 2 ^ 61"
  defines "inp \<equiv> der_element (outer_tag OR CBS_ASN1_CONSTRUCTED) (concat (map (der_element inner_tag) chunks)) @ rest"
  shows "CBS_get_asn1_implicit_string mem inp outer_tag inner_tag = Some (Some (concat chunks, Some (concat chunks)), rest)"
proof -
  let ?tag = "outer_tag OR CBS_ASN1_CONSTRUCTED" and ?body = "concat (map (der_element inner_tag) chunks)"
  have c: "is_constructed ?tag" unfolding is_constructed_def bit.conj_disj_distrib2 by simp
  have v: "asn1_valid_tag ?tag"
    using t(4) unfolding asn1_valid_tag_def bit.conj_disj_distrib2 by simp
  have "fst (parse_asn1_tag inp) = Some ?tag"
    using parse_asn1_tag_Some_iff [of inp ?tag "der_length (length ?body) @ ?body @ rest"] v
    by (simp add: inp_def der_element_def)
  then have peek: "\<not> CBS_peek_asn1_tag inp outer_tag" using c t(1) by (auto simp: CBS_peek_asn1_tag_def)
  have get: "CBS_get_asn1 inp ?tag = (Some ?body, rest)" using v body(2) by (simp add: CBS_get_asn1_iff inp_def)
  have li: "length inp \<le> 2 ^ 62"
    using body(2) rest length_der_tag [of ?tag] by (simp add: inp_def der_element_def der_length_def Let_def)
  then obtain s where s: "CBB_init mem (CBS_len inp) = Some s" using CBB_init_live [OF m(2)] by (auto simp: CBS_len_def)
  have rel: "cbb_rel2 s ([], [])" "can_resize (cbb_base s)" using CBB_init_rel [OF m(1) _ s] li by (simp_all add: CBS_len_def)
  have valid: "asn1_valid_tag inner_tag" using t(3) by (auto simp: asn1_valid_tag_def is_string_type_def)
  then have many: "cbs_many (\<lambda>cbs. CBS_get_asn1 cbs inner_tag) ?body = Some chunks"
    using body(1) by (simp add: tagged_codec.many_iff)
  have lc: "length (concat chunks) \<le> length ?body"
    by (simp add: length_concat comp_def der_element_def) (intro sum_list_mono, simp)
  then have room: "cbb_room mem b (length (concat chunks))" if "can_resize b" for b
    using m(2) body(2) that by (simp add: cbb_room_def)
  have loop: "cbb_wp (implicit_string_loop mem inner_tag ?body s) (\<lambda>_. False)
      (\<lambda>_ s'. cbb_rel2 s' (concat chunks, []) \<and> can_resize (cbb_base s'))"
    by (rule cbb_wp_mono [OF implicit_string_loop_wp [OF m(1) rel(1)]])
      (use many room rel(2) in \<open>auto simp: alen_def grows_def\<close>)
  have "cbb_wp (cbb_bind (implicit_string_loop mem inner_tag ?body s) (\<lambda>_ s. CBB_finish mem 0 True s))
      (\<lambda>_. False) (\<lambda>out _. out = concat chunks)"
    unfolding cbb_wp_bind
  proof (rule cbb_wp_mono [OF loop])
    fix x s' assume s': "cbb_rel2 s' (concat chunks, []) \<and> can_resize (cbb_base s')"
    then show "cbb_wp (CBB_finish mem 0 True s') (\<lambda>_. False) (\<lambda>out _. out = concat chunks)"
      using room by (intro cbb_wp_mono [OF CBB_finish_refines [OF m(1), of s' "(concat chunks, [])"]])
        (auto simp: a_flush_def alen_def)
  qed simp
  then show ?thesis
    unfolding CBS_get_asn1_implicit_string_def using t peek s get
    by (auto simp: cbb_wp_def CBS_init_def split: option.splits prod.splits)
qed

end
