(* ===== verification/Unicode.thy ===== *)
theory Unicode
  imports Codec Asn1_Write
begin

text \<open>
  The character encodings of \<open>crypto/bytestring/unicode.c\<close>: reading and writing a code point
  in UTF-8, Latin-1, UCS-2 and UTF-32. Each reader accepts exactly the encodings that the writer of
  the same name produces, so each pair is an instance of one locale \<open>text_codec\<close>.
\<close>

section \<open>The model\<close>

definition is_valid_code_point :: "u32 \<Rightarrow> bool" where
  "is_valid_code_point v \<longleftrightarrow>
     \<not> (v > 0x10ffff \<or> v AND 0xfffe = 0xfffe \<or> (v \<ge> 0xfdd0 \<and> v \<le> 0xfdef) \<or> (v \<ge> 0xd800 \<and> v \<le> 0xdfff))"

definition BOTTOM_BITS :: "nat \<Rightarrow> u8" where
  "BOTTOM_BITS n = ucast (push_bit n 1 - 1 :: u32)"

definition TOP_BITS :: "nat \<Rightarrow> u8" where
  "TOP_BITS n = NOT (BOTTOM_BITS (8 - n))"

text \<open>The loop of \<open>CBS_get_utf8\<close> over the \<open>len\<close> continuation bytes.\<close>

fun utf8_loop :: "nat \<Rightarrow> u32 \<Rightarrow> cbs \<Rightarrow> u32 cbs_ret" where
  "utf8_loop 0 v cbs = (Some v, cbs)"
| "utf8_loop (Suc n) v cbs = cbs_bind (CBS_get_u8 cbs) (\<lambda>c cbs.
     if c AND TOP_BITS 2 \<noteq> TOP_BITS 1 then (None, cbs)
     else utf8_loop n (push_bit 6 v OR ucast (c AND BOTTOM_BITS 6)) cbs)"

definition CBS_get_utf8 :: "cbs \<Rightarrow> u32 cbs_ret" where
  "CBS_get_utf8 cbs = cbs_bind (CBS_get_u8 cbs) (\<lambda>c cbs.
     if c \<le> 0x7f then (Some (ucast c), cbs)
     else
       let tail = (\<lambda>v len lower_bound. cbs_bind (utf8_loop len v cbs) (\<lambda>v cbs.
             if \<not> is_valid_code_point v \<or> v < lower_bound then (None, cbs) else (Some v, cbs)))
       in if c AND TOP_BITS 3 = TOP_BITS 2 then tail (ucast (c AND BOTTOM_BITS 5)) 1 0x80
          else if c AND TOP_BITS 4 = TOP_BITS 3 then tail (ucast (c AND BOTTOM_BITS 4)) 2 0x800
          else if c AND TOP_BITS 5 = TOP_BITS 4 then tail (ucast (c AND BOTTOM_BITS 3)) 3 0x10000
          else (None, cbs))"

definition CBS_get_latin1 :: "cbs \<Rightarrow> u32 cbs_ret" where
  "CBS_get_latin1 cbs = cbs_bind (CBS_get_u8 cbs) (\<lambda>c cbs. (Some (ucast c), cbs))"

definition CBS_get_ucs2_be :: "cbs \<Rightarrow> u32 cbs_ret" where
  "CBS_get_ucs2_be cbs = cbs_bind (CBS_get_u16 cbs) (\<lambda>c cbs.
     if \<not> is_valid_code_point (ucast c) then (None, cbs) else (Some (ucast c), cbs))"

definition CBS_get_utf32_be :: "cbs \<Rightarrow> u32 cbs_ret" where
  "CBS_get_utf32_be cbs = cbs_bind (CBS_get_u32 cbs) (\<lambda>out cbs.
     if is_valid_code_point out then (Some out, cbs) else (None, cbs))"

definition CBB_get_utf8_len :: "u32 \<Rightarrow> nat" where
  "CBB_get_utf8_len u = (if u \<le> 0x7f then 1 else if u \<le> 0x7ff then 2 else if u \<le> 0xffff then 3 else 4)"

definition CBB_add_utf8 :: "allocator \<Rightarrow> nat \<Rightarrow> u32 \<Rightarrow> cbb \<Rightarrow> unit cbb_ret" where
  "CBB_add_utf8 mem d u s =
     (let lead = (\<lambda>t x. ucast (ucast (TOP_BITS t) OR x :: u32) :: u8);
          cont = (\<lambda>x. ucast (ucast (TOP_BITS 1) OR (x AND ucast (BOTTOM_BITS 6)) :: u32) :: u8)
      in if \<not> is_valid_code_point u then Some (None, s)
         else if u \<le> 0x7f then CBB_add_u8 mem d (ucast u) s
         else if u \<le> 0x7ff then
           cbb_bind (CBB_add_u8 mem d (lead 2 (drop_bit 6 u)) s) (\<lambda>_ s.
             CBB_add_u8 mem d (cont u) s)
         else if u \<le> 0xffff then
           cbb_bind (CBB_add_u8 mem d (lead 3 (drop_bit 12 u)) s) (\<lambda>_ s.
           cbb_bind (CBB_add_u8 mem d (cont (drop_bit 6 u)) s) (\<lambda>_ s.
             CBB_add_u8 mem d (cont u) s))
         else if u \<le> 0x10ffff then
           cbb_bind (CBB_add_u8 mem d (lead 4 (drop_bit 18 u)) s) (\<lambda>_ s.
           cbb_bind (CBB_add_u8 mem d (cont (drop_bit 12 u)) s) (\<lambda>_ s.
           cbb_bind (CBB_add_u8 mem d (cont (drop_bit 6 u)) s) (\<lambda>_ s.
             CBB_add_u8 mem d (cont u) s)))
         else Some (None, s))"

definition CBB_add_latin1 :: "allocator \<Rightarrow> nat \<Rightarrow> u32 \<Rightarrow> cbb \<Rightarrow> unit cbb_ret" where
  "CBB_add_latin1 mem d u s = (if u \<le> 0xff then CBB_add_u8 mem d (ucast u) s else Some (None, s))"

definition CBB_add_ucs2_be :: "allocator \<Rightarrow> nat \<Rightarrow> u32 \<Rightarrow> cbb \<Rightarrow> unit cbb_ret" where
  "CBB_add_ucs2_be mem d u s =
     (if u \<le> 0xffff \<and> is_valid_code_point u then CBB_add_u16 mem d (ucast u) s else Some (None, s))"

definition CBB_add_utf32_be :: "allocator \<Rightarrow> nat \<Rightarrow> u32 \<Rightarrow> cbb \<Rightarrow> unit cbb_ret" where
  "CBB_add_utf32_be mem d u s =
     (if is_valid_code_point u then CBB_add_u32 mem d u s else Some (None, s))"

section \<open>UTF-8 as a number-theoretic specification\<close>

definition utf8 :: "nat \<Rightarrow> bytes" where
  "utf8 n =
     (if n < 0x80 then [of_nat n]
      else if n < 0x800 then [of_nat (192 + n div 64), of_nat (128 + n mod 64)]
      else if n < 0x10000 then
        [of_nat (224 + n div 4096), of_nat (128 + n div 64 mod 64), of_nat (128 + n mod 64)]
      else [of_nat (240 + n div 262144), of_nat (128 + n div 4096 mod 64),
            of_nat (128 + n div 64 mod 64), of_nat (128 + n mod 64)])"

lemma code_point_bound: "is_valid_code_point u \<Longrightarrow> unat u < 0x110000"
  by (simp add: is_valid_code_point_def not_less word_le_nat_alt)

lemma ascii_valid: "unat u < 0x80 \<Longrightarrow> is_valid_code_point u"
proof -
  assume a: "unat u < 0x80"
  have "u AND 0xfffe \<noteq> 0xfffe"
  proof
    assume "u AND 0xfffe = 0xfffe"
    moreover have "bit (0xfffe::u32) 7" by simp
    ultimately have "bit u 7" by (metis bit_and_iff)
    then show False using bit_ge_unat [of u 7 7] a by simp
  qed
  then show ?thesis using a by (simp add: is_valid_code_point_def word_le_nat_alt word_less_nat_alt)
qed

section \<open>The bytes of the decoder\<close>

definition is_cont :: "u8 \<Rightarrow> bool" where
  "is_cont c \<longleftrightarrow> 128 \<le> unat c \<and> unat c < 192"

lemma TOP_BITS_values:
  "TOP_BITS 1 = 0x80" "TOP_BITS 2 = 0xc0" "TOP_BITS 3 = 0xe0" "TOP_BITS 4 = 0xf0" "TOP_BITS 5 = 0xf8"
  by code_simp+

lemma unat_and_top: "unat ((c::u8) AND NOT (mask n)) = unat c div 2 ^ n * 2 ^ n"
proof -
  have "c AND NOT (mask n) = push_bit n (drop_bit n c) OR 0"
    by (rule bit_eqI) (auto simp: bit_simps)
  moreover have "unat c div 2 ^ n * 2 ^ n < 256"
    using unat_u8_less [of c] by (rule le_less_trans [rotated]) (simp add: div_times_less_eq_dividend)
  ultimately show ?thesis using unat_push_or [of "0::u8" n "drop_bit n c"] by (simp add: unat_drop_bit)
qed

lemma top_bits_eq:
  "NOT (mask n) = t \<Longrightarrow> unat v = m * 2 ^ n \<Longrightarrow> (c::u8) AND t = v \<longleftrightarrow> m * 2 ^ n \<le> unat c \<and> unat c < (m + 1) * 2 ^ n"
proof -
  assume t: "NOT (mask n) = t" and v: "unat v = m * 2 ^ n"
  have "c AND t = v \<longleftrightarrow> unat c div 2 ^ n * 2 ^ n = m * 2 ^ n"
    unfolding word_unat_eq_iff t [symmetric] unat_and_top v by simp
  also have "\<dots> \<longleftrightarrow> unat c div 2 ^ n = m" by simp
  also have "\<dots> \<longleftrightarrow> m * 2 ^ n \<le> unat c \<and> unat c < (m + 1) * 2 ^ n"
    using div_nat_eqI [of "2 ^ n" m "unat c"] dividend_less_times_div [of "2 ^ n" "unat c"]
      div_times_less_eq_dividend [of "unat c" "2 ^ n"] by (auto simp: mult.commute add.commute)
  finally show ?thesis .
qed

lemma utf8_masks:
  "c AND TOP_BITS 2 = TOP_BITS 1 \<longleftrightarrow> is_cont c"
  "c AND TOP_BITS 3 = TOP_BITS 2 \<longleftrightarrow> 192 \<le> unat c \<and> unat c < 224"
  "c AND TOP_BITS 4 = TOP_BITS 3 \<longleftrightarrow> 224 \<le> unat c \<and> unat c < 240"
  "c AND TOP_BITS 5 = TOP_BITS 4 \<longleftrightarrow> 240 \<le> unat c \<and> unat c < 248"
  using top_bits_eq [of 6 "0xc0" "0x80" 2 c] top_bits_eq [of 5 "0xe0" "0xc0" 6 c]
    top_bits_eq [of 4 "0xf0" "0xe0" 14 c] top_bits_eq [of 3 "0xf8" "0xf0" 30 c]
  by (simp_all add: TOP_BITS_values [unfolded One_nat_def] is_cont_def mask_eq_exp_minus_1)

lemma BOTTOM_BITS_mask: "n \<le> 8 \<Longrightarrow> BOTTOM_BITS n = mask n"
proof -
  assume "n \<le> 8"
  moreover have "list_all (\<lambda>n. BOTTOM_BITS n = mask n) [0..<9]" by code_simp
  ultimately show ?thesis by (simp add: list_all_iff)
qed

lemma utf8_low_bits: "n \<le> 8 \<Longrightarrow> (ucast (c AND BOTTOM_BITS n) :: u32) = of_nat (unat c mod 2 ^ n)"
proof (rule word_eq_unatI)
  assume n: "n \<le> 8"
  have "unat c mod 2 ^ n < 256" using mod_less_eq_dividend [of "unat c" "2 ^ n"] unat_u8_less [of c] by linarith
  then have "unat (of_nat (unat c mod 2 ^ n) :: u32) = unat c mod 2 ^ n" by (intro unat_of_nat_less) simp
  then show "unat (ucast (c AND BOTTOM_BITS n) :: u32) = unat (of_nat (unat c mod 2 ^ n) :: u32)"
    using n by (simp add: BOTTOM_BITS_mask unat_ucast_le unat_and_mask)
qed

lemma utf8_loop_Cons:
  "utf8_loop (Suc n) (of_nat m) (c # cbs) =
     (if is_cont c then utf8_loop n (of_nat (m * 64 + unat c mod 64)) cbs else (None, cbs))"
proof -
  have "unat (of_nat (unat c mod 64) :: u32) = unat c mod 64" by (rule unat_of_nat_less) simp
  then show ?thesis
    using push_bit_or_of_nat [of "of_nat (unat c mod 64) :: u32" 6 m]
    by (simp add: utf8_masks utf8_low_bits [of 6, simplified] del: of_nat_add of_nat_mult One_nat_def)
qed

lemma utf8_loop_Nil: "utf8_loop (Suc n) v [] = (None, [])"
  by simp

lemmas utf8_loop_eval = utf8_loop_Cons utf8_loop_Nil

lemma utf8_lead:
  "unat c < 128 \<Longrightarrow> CBS_get_utf8 (c # cbs) = (Some (ucast c), cbs)"
  "128 \<le> unat c \<Longrightarrow> unat c < 192 \<or> 248 \<le> unat c \<Longrightarrow> CBS_get_utf8 (c # cbs) = (None, cbs)"
  by (auto simp: CBS_get_utf8_def utf8_masks word_le_nat_alt simp del: One_nat_def)

definition utf8_tail :: "nat \<Rightarrow> nat \<Rightarrow> u32 \<Rightarrow> cbs \<Rightarrow> u32 cbs_ret" where
  "utf8_tail len n lower_bound cbs = cbs_bind (utf8_loop len (of_nat n) cbs) (\<lambda>v cbs.
     if \<not> is_valid_code_point v \<or> v < lower_bound then (None, cbs) else (Some v, cbs))"

lemma utf8_multi:
  "192 \<le> unat c \<Longrightarrow> unat c < 224 \<Longrightarrow> CBS_get_utf8 (c # cbs) = utf8_tail 1 (unat c mod 32) 0x80 cbs"
  "224 \<le> unat c \<Longrightarrow> unat c < 240 \<Longrightarrow> CBS_get_utf8 (c # cbs) = utf8_tail 2 (unat c mod 16) 0x800 cbs"
  "240 \<le> unat c \<Longrightarrow> unat c < 248 \<Longrightarrow> CBS_get_utf8 (c # cbs) = utf8_tail 3 (unat c mod 8) 0x10000 cbs"
  by (simp_all add: CBS_get_utf8_def utf8_masks word_le_nat_alt utf8_tail_def utf8_low_bits Let_def del: One_nat_def)

lemma utf8_loop_iff:
  "utf8_loop k (of_nat n) cbs = (Some u, rest) \<longleftrightarrow>
     (\<exists>cs. length cs = k \<and> (\<forall>c\<in>set cs. is_cont c) \<and> cbs = cs @ rest \<and>
       u = of_nat (foldl (\<lambda>m c. m * 64 + unat c mod 64) n cs))"
proof (induction k arbitrary: n cbs)
  case 0
  show ?case by auto
next
  case (Suc k)
  show ?case
  proof (cases cbs)
    case (Cons c cbs')
    have "utf8_loop (Suc k) (of_nat n) cbs = (Some u, rest) \<longleftrightarrow>
        is_cont c \<and> utf8_loop k (of_nat (n * 64 + unat c mod 64)) cbs' = (Some u, rest)"
      unfolding Cons utf8_loop_Cons by simp
    then show ?thesis unfolding Suc.IH Cons length_Suc_conv
      by (auto simp del: of_nat_add of_nat_mult)
  qed auto
qed

lemma byte_offset:
  fixes c :: u8
  assumes "k \<le> unat c" "unat c < k + m" "k mod m = 0"
  shows "c = of_nat (k + unat c mod m)"
proof -
  obtain x where x: "unat c = k + x" using assms(1) le_Suc_ex by blast
  have "(k + x) mod m = x" using mod_add_left_eq [of k m x] assms x by simp
  then have "of_nat (k + unat c mod m) = (of_nat (unat c) :: u8)" using x by simp
  then show ?thesis by simp
qed

lemma cont_byte: "is_cont c \<Longrightarrow> c = of_nat (128 + unat c mod 64)"
  unfolding is_cont_def by (rule byte_offset) simp_all

lemma mult_add_mod: "a < m \<Longrightarrow> (m * k + a) mod m = a" for a m k :: nat
  by simp

lemma is_cont_of_nat [simp]: "b < 64 \<Longrightarrow> is_cont (of_nat (128 + b))" "b < 64 \<Longrightarrow> unat (of_nat (128 + b) :: u8) mod 64 = b"
proof -
  assume b: "b < 64"
  then have u: "unat (of_nat (128 + b) :: u8) = 128 + b" by (simp add: unat_of_nat_mod del: of_nat_add)
  show "is_cont (of_nat (128 + b))" "unat (of_nat (128 + b) :: u8) mod 64 = b"
    using b u mult_add_mod [of b 64 2] by (simp_all add: is_cont_def del: of_nat_add)
qed

text \<open>The three multi-byte forms, in the digits of the code point to base 64.\<close>

lemma utf8_pack:
  "a < 32 \<Longrightarrow> b < 64 \<Longrightarrow> 0x80 \<le> a * 64 + b \<Longrightarrow> utf8 (a * 64 + b) = [of_nat (192 + a), of_nat (128 + b)]"
  "a < 16 \<Longrightarrow> b < 64 \<Longrightarrow> c < 64 \<Longrightarrow> 0x800 \<le> (a * 64 + b) * 64 + c \<Longrightarrow>
     utf8 ((a * 64 + b) * 64 + c) = [of_nat (224 + a), of_nat (128 + b), of_nat (128 + c)]"
  "a < 8 \<Longrightarrow> b < 64 \<Longrightarrow> c < 64 \<Longrightarrow> d < 64 \<Longrightarrow> 0x10000 \<le> ((a * 64 + b) * 64 + c) * 64 + d \<Longrightarrow>
     utf8 (((a * 64 + b) * 64 + c) * 64 + d) =
       [of_nat (240 + a), of_nat (128 + b), of_nat (128 + c), of_nat (128 + d)]"
proof -
  have dm: "x < 64 \<Longrightarrow> (y * 64 + x) div 64 = y" "x < 64 \<Longrightarrow> (y * 64 + x) mod 64 = x" for x y :: nat by simp_all
  have d2: "n div 4096 = n div 64 div 64" "n div 262144 = n div 64 div 64 div 64" for n :: nat
    by (simp_all add: div_mult2_eq [symmetric])
  show "a < 32 \<Longrightarrow> b < 64 \<Longrightarrow> 0x80 \<le> a * 64 + b \<Longrightarrow> utf8 (a * 64 + b) = [of_nat (192 + a), of_nat (128 + b)]"
    by (simp add: utf8_def dm del: of_nat_add of_nat_mult)
  show "a < 16 \<Longrightarrow> b < 64 \<Longrightarrow> c < 64 \<Longrightarrow> 0x800 \<le> (a * 64 + b) * 64 + c \<Longrightarrow>
     utf8 ((a * 64 + b) * 64 + c) = [of_nat (224 + a), of_nat (128 + b), of_nat (128 + c)]"
    by (simp only: utf8_def d2 dm) simp
  show "a < 8 \<Longrightarrow> b < 64 \<Longrightarrow> c < 64 \<Longrightarrow> d < 64 \<Longrightarrow> 0x10000 \<le> ((a * 64 + b) * 64 + c) * 64 + d \<Longrightarrow>
     utf8 (((a * 64 + b) * 64 + c) * 64 + d) =
       [of_nat (240 + a), of_nat (128 + b), of_nat (128 + c), of_nat (128 + d)]"
    by (simp only: utf8_def d2 dm) simp
qed

text \<open>A tail that decodes comes from the digits of the code point, and its bytes give them back.\<close>

lemma utf8_tail_iff:
  assumes "n < 32" "k \<le> 3"
  shows "utf8_tail k n lb cbs = (Some u, rest) \<longleftrightarrow> is_valid_code_point u \<and> lb \<le> u \<and>
    (\<exists>ds. length ds = k \<and> (\<forall>d\<in>set ds. d < 64) \<and> cbs = map (\<lambda>d. of_nat (128 + d)) ds @ rest \<and>
      unat u = foldl (\<lambda>m d. m * 64 + d) n ds)"
proof -
  have k: "(64::nat) ^ k \<le> 262144" using power_increasing [OF assms(2), of "64::nat"] by simp
  have "n * 64 ^ k \<le> 32 * 64 ^ k" using assms(1) by simp
  with k have "n * 64 ^ k + 64 ^ k < 4294967296" by linarith
  then have le: "n * 64 ^ k + 64 ^ k < 2 ^ 32" by simp
  have bound: "foldl (\<lambda>m d. m * 64 + d) n ds < n * 64 ^ length ds + 64 ^ length ds" if "\<forall>d\<in>set ds. d < (64::nat)" for ds
    using that by (induction ds rule: rev_induct) (auto simp: algebra_simps)
  have eq: "(\<exists>cs. length cs = k \<and> (\<forall>c\<in>set cs. is_cont c) \<and> cbs = cs @ rest \<and>
       u = of_nat (foldl (\<lambda>m c. m * 64 + unat c mod 64) n cs)) \<longleftrightarrow>
    (\<exists>ds. length ds = k \<and> (\<forall>d\<in>set ds. d < 64) \<and> cbs = map (\<lambda>d. of_nat (128 + d)) ds @ rest \<and>
      unat u = foldl (\<lambda>m d. m * 64 + d) n ds)" (is "?L \<longleftrightarrow> ?R")
  proof
    assume ?L
    then obtain cs where cs: "length cs = k" "\<forall>c\<in>set cs. is_cont c" "cbs = cs @ rest"
      "u = of_nat (foldl (\<lambda>m c. m * 64 + unat c mod 64) n cs)" by blast
    let ?ds = "map (\<lambda>c. unat c mod 64) cs"
    have "map (\<lambda>d. of_nat (128 + d)) ?ds = cs" using cs(2) cont_byte by (auto intro!: map_idI simp del: of_nat_add)
    moreover have "unat u = foldl (\<lambda>m d. m * 64 + d) n ?ds"
      using cs(1,4) bound [of ?ds] le unat_of_nat_less [of "foldl (\<lambda>m d. m * 64 + d) n ?ds", where 'a = 32]
      by (simp add: foldl_map del: of_nat_add)
    ultimately show ?R using cs(1,3) by (intro exI [of _ ?ds]) auto
  next
    assume ?R
    then obtain ds where ds: "length ds = k" "\<forall>d\<in>set ds. d < 64" "cbs = map (\<lambda>d. of_nat (128 + d)) ds @ rest"
      "unat u = foldl (\<lambda>m d. m * 64 + d) n ds" by blast
    have "foldl (\<lambda>m c. m * 64 + unat c mod 64) n (map (\<lambda>d. of_nat (128 + d) :: u8) ds) = unat u"
      unfolding ds(4) foldl_map using ds(2) by (intro foldl_cong) (auto simp del: of_nat_add)
    then show ?L using ds(1-3) by (intro exI [of _ "map (\<lambda>d. of_nat (128 + d)) ds"]) (auto simp del: of_nat_add)
  qed
  show ?thesis unfolding utf8_tail_def cbs_bind_Some utf8_loop_iff using eq by (auto simp: not_less)
qed

lemma lead_mod [simp]:
  "a < 32 \<Longrightarrow> (192 + a) mod 32 = a" "a < 16 \<Longrightarrow> (224 + a) mod 16 = a" "a < 8 \<Longrightarrow> (240 + a) mod 8 = a" for a :: nat
  using mult_add_mod [of a 32 6] mult_add_mod [of a 16 14] mult_add_mod [of a 8 30] by simp_all

lemma lead_byte:
  "192 \<le> unat c \<Longrightarrow> unat c < 224 \<Longrightarrow> c = of_nat (192 + unat c mod 32)"
  "224 \<le> unat c \<Longrightarrow> unat c < 240 \<Longrightarrow> c = of_nat (224 + unat c mod 16)"
  "240 \<le> unat c \<Longrightarrow> unat c < 248 \<Longrightarrow> c = of_nat (240 + unat c mod 8)" for c :: u8
  by (rule byte_offset; simp)+

lemma unat_lead [simp]:
  "a < 32 \<Longrightarrow> unat (of_nat (192 + a) :: u8) = 192 + a"
  "a < 16 \<Longrightarrow> unat (of_nat (224 + a) :: u8) = 224 + a"
  "a < 8 \<Longrightarrow> unat (of_nat (240 + a) :: u8) = 240 + a"
  by (simp_all add: unat_of_nat_mod del: of_nat_add)

lemma utf8_dec_enc:
  assumes "CBS_get_utf8 cbs = (Some u, rest)"
  shows "is_valid_code_point u \<and> cbs = utf8 (unat u) @ rest"
proof (cases cbs)
  case Nil
  then show ?thesis using assms by (simp add: CBS_get_utf8_def)
next
  case (Cons c cs)
  consider "unat c < 128" | "128 \<le> unat c" "unat c < 192 \<or> 248 \<le> unat c" | "192 \<le> unat c" "unat c < 224"
    | "224 \<le> unat c" "unat c < 240" | "240 \<le> unat c" "unat c < 248" by linarith
  then show ?thesis
  proof cases
    case 1
    then have u: "u = ucast c" "cs = rest" using assms Cons utf8_lead(1) by auto
    then have "unat u = unat c" by (simp add: unat_ucast_le)
    then show ?thesis using 1 u Cons ascii_valid [of u] by (simp add: utf8_def)
  next
    case 3
    with assms Cons have "utf8_tail 1 (unat c mod 32) 0x80 cs = (Some u, rest)" by (simp add: utf8_multi)
    then obtain ds where ds: "is_valid_code_point u" "0x80 \<le> u" "length ds = 1" "\<forall>d\<in>set ds. d < 64"
      "cs = map (\<lambda>d. of_nat (128 + d)) ds @ rest" "unat u = foldl (\<lambda>m d. m * 64 + d) (unat c mod 32) ds"
      using utf8_tail_iff [of "unat c mod 32" 1 "0x80" cs u rest] mod_less_divisor [of 32 "unat c"] by fastforce
    moreover from ds(3) obtain y where "ds = [y]" by (auto simp: length_Suc_conv One_nat_def)
    ultimately show ?thesis using Cons 3 lead_byte(1) [of c] utf8_pack(1) [of "unat c mod 32" y]
      by (simp add: word_le_nat_alt del: of_nat_add of_nat_mult)
  next
    case 4
    with assms Cons have "utf8_tail 2 (unat c mod 16) 0x800 cs = (Some u, rest)" by (simp add: utf8_multi)
    then obtain ds where ds: "is_valid_code_point u" "0x800 \<le> u" "length ds = 2" "\<forall>d\<in>set ds. d < 64"
      "cs = map (\<lambda>d. of_nat (128 + d)) ds @ rest" "unat u = foldl (\<lambda>m d. m * 64 + d) (unat c mod 16) ds"
      using utf8_tail_iff [of "unat c mod 16" 2 "0x800" cs u rest] mod_less_divisor [of 16 "unat c"] by fastforce
    moreover from ds(3) obtain y z where "ds = [y, z]" by (auto simp: length_Suc_conv numeral_2_eq_2)
    ultimately show ?thesis using Cons 4 lead_byte(2) [of c] utf8_pack(2) [of "unat c mod 16" y z]
      by (simp add: word_le_nat_alt del: of_nat_add of_nat_mult)
  next
    case 5
    with assms Cons have "utf8_tail 3 (unat c mod 8) 0x10000 cs = (Some u, rest)" by (simp add: utf8_multi)
    then obtain ds where ds: "is_valid_code_point u" "0x10000 \<le> u" "length ds = 3" "\<forall>d\<in>set ds. d < 64"
      "cs = map (\<lambda>d. of_nat (128 + d)) ds @ rest" "unat u = foldl (\<lambda>m d. m * 64 + d) (unat c mod 8) ds"
      using utf8_tail_iff [of "unat c mod 8" 3 "0x10000" cs u rest] mod_less_divisor [of 8 "unat c"] by fastforce
    moreover from ds(3) obtain y z w where "ds = [y, z, w]" by (auto simp: length_Suc_conv numeral_3_eq_3)
    ultimately show ?thesis using Cons 5 lead_byte(3) [of c] utf8_pack(3) [of "unat c mod 8" y z w]
      by (simp add: word_le_nat_alt del: of_nat_add of_nat_mult)
  qed (use assms Cons utf8_lead(2) in auto)
qed

text \<open>The base-64 digits of a code point.\<close>

lemma utf8_digits:
  "n = n div 64 * 64 + n mod 64"
  "n = (n div 4096 * 64 + n div 64 mod 64) * 64 + n mod 64"
  "n = ((n div 262144 * 64 + n div 4096 mod 64) * 64 + n div 64 mod 64) * 64 + n mod 64" for n :: nat
proof -
  have d2: "n div 4096 = n div 64 div 64" "n div 262144 = n div 64 div 64 div 64" for n :: nat
    by (simp_all add: div_mult2_eq [symmetric])
  show "n = n div 64 * 64 + n mod 64"
    "n = (n div 4096 * 64 + n div 64 mod 64) * 64 + n mod 64"
    "n = ((n div 262144 * 64 + n div 4096 mod 64) * 64 + n div 64 mod 64) * 64 + n mod 64"
    unfolding d2 by (simp_all only: div_mult_mod_eq)
qed

lemma utf8_enc_dec:
  assumes v: "is_valid_code_point u"
  shows "CBS_get_utf8 (utf8 (unat u) @ rest) = (Some u, rest)"
proof -
  let ?n = "unat u"
  have b: "?n < 0x110000" using v by (rule code_point_bound)
  consider "?n < 0x80" | "0x80 \<le> ?n" "?n < 0x800" | "0x800 \<le> ?n" "?n < 0x10000" | "0x10000 \<le> ?n" by linarith
  then show ?thesis
  proof cases
    case 1
    have "ucast (of_nat ?n :: u8) = u"
      using 1 by (intro word_eq_unatI) (simp add: unat_ucast_le unat_ucast_mod)
    moreover have "unat (of_nat ?n :: u8) < 128" using 1 by (simp add: unat_ucast_mod)
    ultimately show ?thesis using 1 utf8_lead(1) [of "of_nat ?n"] by (simp add: utf8_def)
  next
    case 2
    then have a: "?n div 64 < 32" by (simp add: div_less_iff_less_mult)
    have "utf8_tail 1 (?n div 64) 0x80 (of_nat (128 + ?n mod 64) # rest) = (Some u, rest)"
      using 2 v a utf8_digits(1) [of ?n] by (subst utf8_tail_iff) (auto simp: word_le_nat_alt intro!: exI [of _ "[?n mod 64]"])
    then show ?thesis using 2 a utf8_multi(1) [of "of_nat (192 + ?n div 64)"]
      by (simp add: utf8_def del: of_nat_add)
  next
    case 3
    then have a: "?n div 4096 < 16" by (simp add: div_less_iff_less_mult)
    have "utf8_tail 2 (?n div 4096) 0x800 (of_nat (128 + ?n div 64 mod 64) # of_nat (128 + ?n mod 64) # rest) = (Some u, rest)"
      using 3 v a utf8_digits(2) [of ?n]
      by (subst utf8_tail_iff) (auto simp: word_le_nat_alt intro!: exI [of _ "[?n div 64 mod 64, ?n mod 64]"])
    then show ?thesis using 3 a utf8_multi(2) [of "of_nat (224 + ?n div 4096)"]
      by (simp add: utf8_def del: of_nat_add)
  next
    case 4
    then have a: "?n div 262144 < 8" using b by (simp add: div_less_iff_less_mult)
    have "utf8_tail 3 (?n div 262144) 0x10000
        (of_nat (128 + ?n div 4096 mod 64) # of_nat (128 + ?n div 64 mod 64) # of_nat (128 + ?n mod 64) # rest) = (Some u, rest)"
      using 4 v a utf8_digits(3) [of ?n]
      by (subst utf8_tail_iff) (auto simp: word_le_nat_alt intro!: exI [of _ "[?n div 4096 mod 64, ?n div 64 mod 64, ?n mod 64]"])
    then show ?thesis using 4 a utf8_multi(3) [of "of_nat (240 + ?n div 262144)"]
      by (simp add: utf8_def del: of_nat_add)
  qed
qed

theorem CBS_get_utf8_iff:
  "CBS_get_utf8 cbs = (Some u, rest) \<longleftrightarrow> is_valid_code_point u \<and> cbs = utf8 (unat u) @ rest"
  using utf8_dec_enc utf8_enc_dec by blast

section \<open>Text codecs\<close>

text \<open>
  A character encoding: a self-delimiting reader together with the writer for it. Inside the
  locale a whole text is written character by character and read back.
\<close>

fun add_text :: "(u32 \<Rightarrow> cbb \<Rightarrow> unit cbb_ret) \<Rightarrow> u32 list \<Rightarrow> cbb \<Rightarrow> unit cbb_ret" where
  "add_text put [] s = Some (Some (), s)"
| "add_text put (u # us) s = cbb_bind (put u s) (\<lambda>_ s. add_text put us s)"

lemma add_text_Nil: "add_text put [] = (\<lambda>s. Some (Some (), s))"
  by (rule ext) simp

locale text_codec = self_delimiting enc dec valid
  for enc :: "u32 \<Rightarrow> bytes" and dec :: "cbs \<Rightarrow> u32 cbs_ret" and valid :: "u32 \<Rightarrow> bool" +
  fixes add :: "allocator \<Rightarrow> nat \<Rightarrow> u32 \<Rightarrow> cbb \<Rightarrow> unit cbb_ret"
  assumes add_appends: "valid u \<Longrightarrow> appends mem d (add mem d u) (enc u)"
    and add_rejects: "\<not> valid u \<Longrightarrow> add mem d u s = Some (None, s)"
begin

lemma add_text_appends:
  "us \<noteq> [] \<Longrightarrow> \<forall>u\<in>set us. valid u \<Longrightarrow> appends mem d (add_text (add mem d) us) (concat (map enc us))"
proof (induction us)
  case (Cons u us)
  show ?case
  proof (cases "us = []")
    case True
    then have "add_text (add mem d) (u # us) = add mem d u" by (simp add: fun_eq_iff add_text_Nil cbb_bind_unit)
    then show ?thesis using Cons.prems True add_appends [of u mem d] by simp
  next
    case False
    then have "appends mem d (add_text (add mem d) us) (concat (map enc us))" using Cons by simp
    from appends_seq [OF add_appends [of u mem d] this] show ?thesis using Cons.prems by simp
  qed
qed simp

lemma read_text: "\<forall>u\<in>set us. valid u \<Longrightarrow> cbs_many dec (concat (map enc us)) = Some us"
  by (simp add: many_iff)

end

subsection \<open>The four codecs\<close>

lemma be_bytes_mod: "be_bytes n (v mod 256 ^ n) = be_bytes n v"
  using be_bytes_be_nat [of "be_bytes n v"] by (simp add: be_nat_be_bytes)

lemma unat_ucast_u32_u8: "unat u < 256 \<Longrightarrow> unat (ucast (u::u32) :: u8) = unat u"
  by (simp add: unat_ucast_mod)

interpretation latin1: text_codec "\<lambda>u. [ucast u]" CBS_get_latin1 "\<lambda>u. u \<le> 0xff" CBB_add_latin1
proof unfold_locales
  show "CBS_get_latin1 cbs = (Some u, rest) \<longleftrightarrow> u \<le> 0xff \<and> cbs = [ucast u] @ rest" for cbs u rest
  proof -
    have 1: "ucast (ucast c :: u32) = c" "(ucast c :: u32) \<le> 0xff" for c :: u8
      by (rule word_eq_unatI) (simp_all add: unat_ucast_u32_u8 unat_ucast_le word_le_nat_alt)
    have 2: "ucast (ucast u :: u8) = u" if "u \<le> 0xff" for u :: u32
      using that by (intro word_eq_unatI) (simp add: unat_ucast_le unat_ucast_u32_u8 word_le_nat_alt)
    show ?thesis by (cases cbs) (auto simp: CBS_get_latin1_def 1 2)
  qed
  show "appends mem d (CBB_add_latin1 mem d u) [ucast u]" if "u \<le> 0xff" for u mem d
    using that CBB_add_u8_appends [of mem d "ucast u"] by (simp add: CBB_add_latin1_def [abs_def])
qed (simp_all add: CBB_add_latin1_def)

lemma get_u_word_iff:
  fixes v :: "'a::len word"
  assumes n: "8 * n = LENGTH('a)" "n \<le> 8"
  shows "cbs_bind (cbs_get_u cbs n) (\<lambda>v cbs. (Some (ucast v :: 'a word), cbs)) = (Some v, rest) \<longleftrightarrow>
    cbs = be_bytes n (unat v) @ rest"
proof -
  have p: "256 ^ n = (2::nat) ^ LENGTH('a)" using power_mult [of "2::nat" 8 n] n(1) by simp
  have "unat v = be_nat (take n cbs) \<longleftrightarrow> be_bytes n (unat v) = take n cbs" if "n \<le> length cbs"
    using that be_bytes_be_nat [of "take n cbs"] unat_lt_power [of v] be_nat_be_bytes [of n "unat v"] p
    by (auto simp: min_absorb1)
  moreover have "(ucast (of_nat (be_nat (take n cbs)) :: u64) :: 'a word) = v \<longleftrightarrow> unat v = be_nat (take n cbs)"
    if "n \<le> length cbs"
  proof -
    have "be_nat (take n cbs) < 2 ^ LENGTH('a)" using be_nat_less [of "take n cbs"] that p by (simp add: min_absorb1)
    moreover have "(2::nat) ^ LENGTH('a) \<le> 2 ^ 64" using n by (intro power_increasing) auto
    ultimately have "unat (ucast (of_nat (be_nat (take n cbs)) :: u64) :: 'a word) = be_nat (take n cbs)"
      by (simp add: unat_ucast_mod unat_of_nat_mod)
    then show ?thesis by (auto simp: word_unat_eq_iff)
  qed
  ultimately show ?thesis
    by (auto simp: cbs_get_u_eq cbs_bind_def split: if_splits)
qed

lemma CBS_get_u16_iff: "CBS_get_u16 cbs = (Some v, rest) \<longleftrightarrow> cbs = be_bytes 2 (unat v) @ rest"
  unfolding CBS_get_u16_def by (rule get_u_word_iff) simp_all

lemma CBS_get_u32_iff: "CBS_get_u32 cbs = (Some v, rest) \<longleftrightarrow> cbs = be_bytes 4 (unat v) @ rest"
  unfolding CBS_get_u32_def by (rule get_u_word_iff) simp_all

lemma be_bytes_nonempty: "n \<noteq> 0 \<Longrightarrow> be_bytes n v \<noteq> []"
  using length_be_bytes [of n v] by fastforce

lemma guard_Some: "(if \<not> P then (None, r) else (Some x, r)) = (Some y, s) \<longleftrightarrow> P \<and> x = y \<and> r = s"
  by auto

interpretation ucs2: text_codec "\<lambda>u. be_bytes 2 (unat u)" CBS_get_ucs2_be
    "\<lambda>u. u \<le> 0xffff \<and> is_valid_code_point u" CBB_add_ucs2_be
proof unfold_locales
  have 1: "unat (ucast u :: u16) = unat u" if "u \<le> 0xffff" for u :: u32
    using that by (simp add: unat_ucast_mod word_le_nat_alt)
  have 2: "ucast (ucast u :: u16) = u" if "u \<le> 0xffff" for u :: u32
    using 1 [OF that] by (intro word_eq_unatI) (simp add: unat_ucast_le)
  have 3: "(ucast c :: u32) \<le> 0xffff" "unat (ucast c :: u32) = unat c" for c :: u16
    using unat_lt_power [of c] by (simp_all add: word_le_nat_alt unat_ucast_le)
  show "CBS_get_ucs2_be cbs = (Some u, rest) \<longleftrightarrow>
      (u \<le> 0xffff \<and> is_valid_code_point u) \<and> cbs = be_bytes 2 (unat u) @ rest" for cbs u rest
  proof -
    have "CBS_get_ucs2_be cbs = (Some u, rest) \<longleftrightarrow>
        (\<exists>c::u16. cbs = be_bytes 2 (unat c) @ rest \<and> is_valid_code_point (ucast c) \<and> u = ucast c)"
      unfolding CBS_get_ucs2_be_def cbs_bind_Some CBS_get_u16_iff guard_Some by blast
    then show ?thesis using 1 2 3 by metis
  qed
  show "appends mem d (CBB_add_ucs2_be mem d u) (be_bytes 2 (unat u))"
    if "u \<le> 0xffff \<and> is_valid_code_point u" for u mem d
    using that 1 [of u] CBB_add_u16_appends [of mem d "ucast u"] by (simp add: CBB_add_ucs2_be_def [abs_def])
qed (auto simp: CBB_add_ucs2_be_def be_bytes_nonempty)

interpretation utf32: text_codec "\<lambda>u. be_bytes 4 (unat u)" CBS_get_utf32_be is_valid_code_point CBB_add_utf32_be
proof unfold_locales
  show "CBS_get_utf32_be cbs = (Some u, rest) \<longleftrightarrow> is_valid_code_point u \<and> cbs = be_bytes 4 (unat u) @ rest" for cbs u rest
    unfolding CBS_get_utf32_be_def cbs_bind_Some CBS_get_u32_iff by auto
  show "appends mem d (CBB_add_utf32_be mem d u) (be_bytes 4 (unat u))" if "is_valid_code_point u" for u mem d
    using that CBB_add_u32_appends [of mem d u] by (simp add: CBB_add_utf32_be_def [abs_def])
qed (auto simp: CBB_add_utf32_be_def be_bytes_nonempty)

text \<open>The bytes that \<open>CBB_add_utf8\<close> computes with shifts and masks.\<close>

lemma top_bits_or:
  "k < 64 \<Longrightarrow> TOP_BITS 1 OR of_nat k = of_nat (128 + k)" "k < 32 \<Longrightarrow> TOP_BITS 2 OR of_nat k = of_nat (192 + k)"
  "k < 16 \<Longrightarrow> TOP_BITS 3 OR of_nat k = of_nat (224 + k)" "k < 8 \<Longrightarrow> TOP_BITS 4 OR of_nat k = of_nat (240 + k)"
  using push_bit_or_of_nat [of "of_nat k :: u8" 6 2] push_bit_or_of_nat [of "of_nat k :: u8" 5 6]
    push_bit_or_of_nat [of "of_nat k :: u8" 4 14] push_bit_or_of_nat [of "of_nat k :: u8" 3 30]
  by (simp_all add: TOP_BITS_values [unfolded One_nat_def] unat_of_nat_mod push_bit_eq_mult)

lemma ucast_or_u8: "ucast (ucast t OR x :: u32) = (t OR ucast x :: u8)"
  by (rule bit_eqI) (auto simp: bit_simps)

lemma ucast_drop_of_nat: "(ucast (drop_bit k u :: u32) :: u8) = of_nat (unat u div 2 ^ k)"
  by (rule word_eq_unatI) (simp add: unat_ucast_mod unat_drop_bit unat_of_nat_mod)

lemma utf8_cont_byte:
  "ucast (ucast (TOP_BITS 1) OR (drop_bit k u AND ucast (BOTTOM_BITS 6)) :: u32) = (of_nat (128 + unat u div 2 ^ k mod 64) :: u8)"
proof -
  have "(ucast (drop_bit k u AND ucast (BOTTOM_BITS 6) :: u32) :: u8) = ucast (drop_bit k u) AND mask 6"
    unfolding BOTTOM_BITS_mask [of 6, simplified] by (rule bit_eqI) (auto simp: bit_simps)
  also have "\<dots> = of_nat (unat u div 2 ^ k mod 64)"
    by (rule word_eq_unatI) (simp add: unat_and_mask ucast_drop_of_nat unat_of_nat_mod mod_mod_cancel)
  finally show ?thesis using top_bits_or(1) by (simp add: ucast_or_u8 del: One_nat_def)
qed

lemma utf8_lead_byte:
  "unat u div 64 < 32 \<Longrightarrow> ucast (ucast (TOP_BITS 2) OR drop_bit 6 u :: u32) = (of_nat (192 + unat u div 64) :: u8)"
  "unat u div 4096 < 16 \<Longrightarrow> ucast (ucast (TOP_BITS 3) OR drop_bit 12 u :: u32) = (of_nat (224 + unat u div 4096) :: u8)"
  "unat u div 262144 < 8 \<Longrightarrow> ucast (ucast (TOP_BITS 4) OR drop_bit 18 u :: u32) = (of_nat (240 + unat u div 262144) :: u8)"
  by (simp_all add: ucast_or_u8 ucast_drop_of_nat top_bits_or del: of_nat_add)

lemma CBB_add_utf8_appends:
  assumes v: "is_valid_code_point u"
  shows "appends mem d (CBB_add_utf8 mem d u) (utf8 (unat u))"
proof -
  let ?n = "unat u"
  have b: "?n < 0x110000" using v by (rule code_point_bound)
  have le: "u \<le> 0x7f \<longleftrightarrow> ?n < 0x80" "u \<le> 0x7ff \<longleftrightarrow> ?n < 0x800" "u \<le> 0xffff \<longleftrightarrow> ?n < 0x10000"
    "u \<le> 0x10ffff" using b by (auto simp: word_le_nat_alt)
  have c: "ucast (ucast (TOP_BITS 1) OR (u AND ucast (BOTTOM_BITS 6)) :: u32) = (of_nat (128 + ?n mod 64) :: u8)"
    using utf8_cont_byte [of 0 u] by simp
  note cs = c utf8_cont_byte [of 6 u] utf8_cont_byte [of 12 u]
  note put = CBB_add_u8_appends [of mem d]
  show ?thesis
  proof (cases "?n < 0x800")
    case True
    have "?n div 64 < 32" using True by (simp add: div_less_iff_less_mult)
    then show ?thesis
      using True put [of "of_nat ?n"] appends_seq [OF put put]
      by (simp add: CBB_add_utf8_def [abs_def] v le cs utf8_def utf8_lead_byte del: One_nat_def of_nat_add)
  next
    case F: False
    show ?thesis
    proof (cases "?n < 0x10000")
      case True
      have "?n div 4096 < 16" using True by (simp add: div_less_iff_less_mult)
      then show ?thesis
        using True F appends_seq [OF put appends_seq [OF put put]]
        by (simp add: CBB_add_utf8_def [abs_def] v le cs utf8_def utf8_lead_byte del: One_nat_def of_nat_add)
    next
      case False
      have "?n div 262144 < 8" using b by (simp add: div_less_iff_less_mult)
      then show ?thesis
        using False appends_seq [OF put appends_seq [OF put appends_seq [OF put put]]]
        by (simp add: CBB_add_utf8_def [abs_def] v le cs utf8_def utf8_lead_byte del: One_nat_def of_nat_add)
    qed
  qed
qed

interpretation utf8: text_codec "\<lambda>u. utf8 (unat u)" CBS_get_utf8 is_valid_code_point CBB_add_utf8
proof unfold_locales
  show "utf8 (unat u) \<noteq> []" for u by (simp add: utf8_def)
qed (simp_all only: CBS_get_utf8_iff CBB_add_utf8_appends, simp add: CBB_add_utf8_def)

lemma CBB_get_utf8_len_utf8: "is_valid_code_point u \<Longrightarrow> CBB_get_utf8_len u = length (utf8 (unat u))"
  by (auto simp: CBB_get_utf8_len_def utf8_def word_le_nat_alt)

end
