(* ===== verification/Cbb_Locked.thy ===== *)
theory Cbb_Locked
  imports Unicode
begin

text \<open>
  Builders with a recorded error. The functions that flush, finish or append see the error in \<open>CBB_flush\<close> and return 0; \<open>CBB_did_write\<close> and \<open>CBB_discard_child\<close> do not
  look at it, but keep it.
\<close>

text \<open>A call that returns 0 with the buffer unchanged, length and error included; a writer that opened a child of its own drops the children below it.\<close>

definition refused :: "cbb \<Rightarrow> 'a cbb_ret \<Rightarrow> bool" where
  "refused s m \<longleftrightarrow> (\<exists>cs. m = Some (None, s\<lparr>children := cs\<rparr>))"

lemma sticky_refused: "sticky f \<Longrightarrow> locked s \<Longrightarrow> refused s (f s)"
  by (cases s) (auto simp: sticky_def refused_def intro!: exI [of _ "children s"])

lemma refused_bind: "refused s m \<Longrightarrow> refused s (cbb_bind m f)"
  by (auto simp: refused_def)

lemma refused_goto:
  assumes "m = Some (None, s)" "locked s" "d \<le> length (children s)"
  shows "refused s (cbb_goto_err d m)"
  using assms by (cases s) (auto simp: refused_def cbb_goto_err_def cbb_on_error_def intro!: exI [of _ "take d (children s)"])

lemma CBB_add_u_sticky:
  "sticky (CBB_add_u8 mem d a)" "sticky (CBB_add_u16 mem d b)" "sticky (CBB_add_u16le mem d b)" "sticky (CBB_add_u24 mem d c)" "sticky (CBB_add_u32 mem d c)"
  "sticky (CBB_add_u32le mem d c)" "sticky (CBB_add_u64 mem d e)" "sticky (CBB_add_u64le mem d e)"
  using CBB_add_sticky(3) [of mem d]
  by (simp_all add: sticky_def CBB_add_u8_def CBB_add_u16_def CBB_add_u16le_def CBB_add_u24_def CBB_add_u32_def CBB_add_u32le_def CBB_add_u64_def CBB_add_u64le_def)

lemma CBB_children_sticky:
  "sticky (CBB_add_u8_length_prefixed mem d)" "sticky (CBB_add_u16_length_prefixed mem d)" "sticky (CBB_add_u24_length_prefixed mem d)" "sticky (CBB_add_asn1 mem d tag)"
  "sticky (CBB_add_asn1_oid_from_text mem d txt)" "sticky (CBB_flush_asn1_set_of mem d)"
  using CBB_add_sticky(4) [of mem d] CBB_flush_sticky [of mem d]
  by (simp_all add: sticky_def CBB_add_u8_length_prefixed_def CBB_add_u16_length_prefixed_def CBB_add_u24_length_prefixed_def CBB_add_asn1_def
      CBB_add_asn1_oid_from_text_def CBB_flush_asn1_set_of_def)

lemma CBB_finish_sticky: "sticky (CBB_finish mem d g)"
  using CBB_flush_sticky [of mem 0] by (cases "d = 0") (simp_all add: sticky_def CBB_finish_def)

lemma CBB_text_sticky:
  "sticky (CBB_add_utf8 mem d u)" "sticky (CBB_add_latin1 mem d u)" "sticky (CBB_add_ucs2_be mem d u)" "sticky (CBB_add_utf32_be mem d u)"
  using CBB_add_u_sticky [of mem d]
  by (simp_all add: sticky_def CBB_add_utf8_def CBB_add_latin1_def CBB_add_ucs2_be_def CBB_add_utf32_be_def Let_def)

lemma CBB_asn1_refused:
  assumes "locked s" "d \<le> length (children s)"
  shows "refused s (CBB_add_asn1_uint64_with_tag mem d v tag s)" "refused s (CBB_add_asn1_uint64 mem d v s)" "refused s (CBB_add_asn1_int64_with_tag mem d v tag s)"
    "refused s (CBB_add_asn1_int64 mem d v s)" "refused s (CBB_add_asn1_octet_string mem d data s)" "refused s (CBB_add_asn1_bool mem d b s)"
proof -
  have a: "CBB_add_asn1 mem d tag s = Some (None, s)" for tag using CBB_children_sticky(4) assms(1) by (simp add: sticky_def)
  have g: "refused s (cbb_goto_err d (cbb_bind (CBB_add_asn1 mem d tag s) f))" for tag and f :: "unit \<Rightarrow> cbb \<Rightarrow> 'a cbb_ret"
    by (rule refused_goto) (use a assms in auto)
  show u: "refused s (CBB_add_asn1_uint64_with_tag mem d v tag s)" for tag unfolding CBB_add_asn1_uint64_with_tag_def by (intro refused_bind g)
  then show "refused s (CBB_add_asn1_uint64 mem d v s)" by (simp add: CBB_add_asn1_uint64_def)
  show i: "refused s (CBB_add_asn1_int64_with_tag mem d v tag s)" for tag unfolding CBB_add_asn1_int64_with_tag_def Let_def using u by (auto intro!: refused_bind g)
  then show "refused s (CBB_add_asn1_int64 mem d v s)" by (simp add: CBB_add_asn1_int64_def)
  show "refused s (CBB_add_asn1_octet_string mem d data s)" "refused s (CBB_add_asn1_bool mem d b s)"
    unfolding CBB_add_asn1_octet_string_def CBB_add_asn1_bool_def by (rule g)+
qed

lemma stickyD: "sticky f \<Longrightarrow> locked s \<Longrightarrow> f s = Some (None, s)"
  by (simp add: sticky_def)

lemma CBB_keep_error:
  assumes "locked s"
  shows "CBB_did_write d n s = Some (r, s') \<Longrightarrow> locked s'" "locked (CBB_discard_child d s)"
  using assms by (auto simp: CBB_did_write_def CBB_discard_child_def Let_def split: if_splits)

lemmas locked_facts = CBB_flush_sticky CBB_finish_sticky CBB_add_space_sticky CBB_add_sticky CBB_add_u_sticky CBB_children_sticky CBB_text_sticky

end
