(* ===== verification/Posix_Time.thy ===== *)
theory Posix_Time
  imports BSSL_Prelude "HOL-Library.Signed_Division"
begin

text \<open>
  Conversion between POSIX time and broken-down UTC time, \<open>crypto/asn1/posix_time.c\<close>. The C
  code computes with \<open>int\<close> and \<open>int64_t\<close>; the model uses unbounded integers with the truncating
  division of C (\<open>sdiv\<close>, \<open>smod\<close>) and makes the two places where a signed operation can overflow
  explicit. The main result is that the two directions are inverse bijections between the seconds
  of the years 0000 to 9999 and the valid dates and times.
\<close>

section \<open>The model\<close>

abbreviation SECS_PER_HOUR :: int where "SECS_PER_HOUR \<equiv> 3600"
abbreviation SECS_PER_DAY :: int where "SECS_PER_DAY \<equiv> 86400"

text \<open>The fields of \<open>struct tm\<close> that the code reads and writes.\<close>

record tm =
  tm_sec :: int
  tm_min :: int
  tm_hour :: int
  tm_mday :: int
  tm_mon :: int
  tm_year :: int

definition is_leap :: "int \<Rightarrow> bool" where
  "is_leap year \<longleftrightarrow> (year smod 4 = 0 \<and> year smod 100 \<noteq> 0) \<or> year smod 400 = 0"

definition is_valid_date :: "int \<Rightarrow> int \<Rightarrow> int \<Rightarrow> bool" where
  "is_valid_date year month day \<longleftrightarrow>
     (if day < 1 \<or> month < 1 \<or> year < 0 \<or> year > 9999 then False
      else if month \<in> {1, 3, 5, 7, 8, 10, 12} then day > 0 \<and> day \<le> 31
      else if month \<in> {4, 6, 9, 11} then day > 0 \<and> day \<le> 30
      else if month = 2 then
        (if is_leap year then day > 0 \<and> day \<le> 29 else day > 0 \<and> day \<le> 28)
      else False)"

definition is_valid_time :: "int \<Rightarrow> int \<Rightarrow> int \<Rightarrow> bool" where
  "is_valid_time hours minutes seconds \<longleftrightarrow>
     \<not> (hours < 0 \<or> minutes < 0 \<or> seconds < 0 \<or> hours > 23 \<or> minutes > 59 \<or> seconds > 59)"

definition is_valid_epoch_time :: "int \<Rightarrow> bool" where
  "is_valid_epoch_time time \<longleftrightarrow> - 62167219200 \<le> time \<and> time \<le> 253402300799"

definition posix_time_from_utc :: "int \<Rightarrow> int \<Rightarrow> int \<Rightarrow> int \<Rightarrow> int \<Rightarrow> int \<Rightarrow> int option" where
  "posix_time_from_utc year month day hours minutes seconds =
     (if \<not> is_valid_date year month day \<or> \<not> is_valid_time hours minutes seconds then None
      else
        let year = (if month \<le> 2 then year - 1 else year);
            era = (if year \<ge> 0 then year else year - 399) sdiv 400;
            year_of_era = year - era * 400;
            day_of_year = (153 * (if month > 2 then month - 3 else month + 9) + 2) sdiv 5 + day - 1;
            day_of_era = year_of_era * 365 + year_of_era sdiv 4 - year_of_era sdiv 100 + day_of_year;
            posix_days = era * 146097 + day_of_era - 719468
        in Some (posix_days * SECS_PER_DAY + hours * SECS_PER_HOUR + minutes * 60 + seconds))"

text \<open>The out-parameters, in the order year, month, day, hours, minutes, seconds.\<close>

definition utc_from_posix_time :: "int \<Rightarrow> (int \<times> int \<times> int \<times> int \<times> int \<times> int) option" where
  "utc_from_posix_time time =
     (if \<not> is_valid_epoch_time time then None
      else
        let days = time sdiv SECS_PER_DAY;
            leftover_seconds = time smod SECS_PER_DAY;
            (days, leftover_seconds) =
              (if leftover_seconds < 0 then (days - 1, leftover_seconds + SECS_PER_DAY) else (days, leftover_seconds));
            days = days + 719468;
            era = (if days > 0 then days else days - 146096) sdiv 146097;
            day_of_era = days - era * 146097;
            year_of_era = (day_of_era - day_of_era sdiv 1460 + day_of_era sdiv 36524 - day_of_era sdiv 146096) sdiv 365;
            out_year = year_of_era + era * 400;
            day_of_year = day_of_era - (365 * year_of_era + year_of_era sdiv 4 - year_of_era sdiv 100);
            month_of_year = (5 * day_of_year + 2) sdiv 153;
            out_month = (if month_of_year < 10 then month_of_year + 3 else month_of_year - 9);
            out_year = (if out_month \<le> 2 then out_year + 1 else out_year);
            out_day = day_of_year - (153 * month_of_year + 2) sdiv 5 + 1;
            out_hours = leftover_seconds sdiv SECS_PER_HOUR;
            leftover_seconds = leftover_seconds smod SECS_PER_HOUR;
            out_minutes = leftover_seconds sdiv 60;
            out_seconds = leftover_seconds smod 60
        in Some (out_year, out_month, out_day, out_hours, out_minutes, out_seconds))"

text \<open>
  The operations on \<open>struct tm\<close>. The outer option is \<open>None\<close> where a signed operation overflows;
  \<open>Some None\<close> is the return value 0 (or \<open>NULL\<close>).
\<close>

definition c_int :: "int \<Rightarrow> int option" where
  "c_int x = (if - (2 ^ 31) \<le> x \<and> x < 2 ^ 31 then Some x else None)"

definition c_int64 :: "int \<Rightarrow> int option" where
  "c_int64 x = (if - (2 ^ 63) \<le> x \<and> x < 2 ^ 63 then Some x else None)"

definition OPENSSL_tm_to_posix :: "tm \<Rightarrow> int option option" where
  "OPENSSL_tm_to_posix t =
     Option.bind (c_int (tm_year t + 1900)) (\<lambda>year. Option.bind (c_int (tm_mon t + 1)) (\<lambda>month.
       Some (posix_time_from_utc year month (tm_mday t) (tm_hour t) (tm_min t) (tm_sec t))))"

definition tm_of_utc :: "int \<times> int \<times> int \<times> int \<times> int \<times> int \<Rightarrow> tm" where
  "tm_of_utc = (\<lambda>(year, month, day, hours, minutes, seconds).
     \<lparr>tm_sec = seconds, tm_min = minutes, tm_hour = hours, tm_mday = day, tm_mon = month - 1, tm_year = year - 1900\<rparr>)"

definition OPENSSL_posix_to_tm :: "int \<Rightarrow> tm option" where
  "OPENSSL_posix_to_tm time = map_option tm_of_utc (utc_from_posix_time time)"

text \<open>\<open>time_t_bits\<close> is the width of \<open>time_t\<close>, 32 or 64.\<close>

definition OPENSSL_timegm :: "nat \<Rightarrow> tm \<Rightarrow> int option option" where
  "OPENSSL_timegm time_t_bits t =
     map_option (\<lambda>r. case r of
         None \<Rightarrow> None
       | Some posix_time \<Rightarrow>
           if time_t_bits = 32 \<and> (posix_time > 2147483647 \<or> posix_time < - 2147483648) then None else Some posix_time)
       (OPENSSL_tm_to_posix t)"

definition OPENSSL_gmtime :: "int \<Rightarrow> tm option" where
  "OPENSSL_gmtime time = OPENSSL_posix_to_tm time"

definition OPENSSL_gmtime_adj :: "tm \<Rightarrow> int \<Rightarrow> int \<Rightarrow> tm option option" where
  "OPENSSL_gmtime_adj t off_day offset_sec =
     Option.bind (OPENSSL_tm_to_posix t) (\<lambda>r. case r of
         None \<Rightarrow> Some None
       | Some posix_time \<Rightarrow>
           Option.bind (c_int64 (off_day * SECS_PER_DAY)) (\<lambda>x.
           Option.bind (c_int64 (posix_time + x)) (\<lambda>x.
           Option.bind (c_int64 (x + offset_sec)) (\<lambda>time.
             Some (map_option tm_of_utc (utc_from_posix_time time))))))"

definition OPENSSL_gmtime_diff :: "tm \<Rightarrow> tm \<Rightarrow> (int \<times> int) option option" where
  "OPENSSL_gmtime_diff from_tm to_tm =
     Option.bind (OPENSSL_tm_to_posix to_tm) (\<lambda>r. case r of None \<Rightarrow> Some None | Some time_to \<Rightarrow>
     Option.bind (OPENSSL_tm_to_posix from_tm) (\<lambda>r. case r of None \<Rightarrow> Some None | Some time_from \<Rightarrow>
       let timediff = time_to - time_from;
           daydiff = timediff sdiv SECS_PER_DAY;
           timediff = timediff smod SECS_PER_DAY
       in if daydiff > 2147483647 \<or> daydiff < - 2147483648 then Some None
          else Some (Some (daydiff, timediff))))"

section \<open>The calendar with years that start in March\<close>

text \<open>The first day of year \<open>y\<close> of an era of 400 years, and the length of that year.\<close>

definition year_start :: "int \<Rightarrow> int" where
  "year_start y = 365 * y + y div 4 - y div 100"

definition leap_after :: "int \<Rightarrow> bool" where
  "leap_after y \<longleftrightarrow> ((y + 1) mod 4 = 0 \<and> (y + 1) mod 100 \<noteq> 0) \<or> (y + 1) mod 400 = 0"

definition year_len :: "int \<Rightarrow> int" where
  "year_len y = (if leap_after y then 366 else 365)"

definition doe_year :: "int \<Rightarrow> int" where
  "doe_year doe = (doe - doe div 1460 + doe div 36524 - doe div 146096) div 365"

lemma sdiv_nonneg: "0 \<le> a \<Longrightarrow> 0 < b \<Longrightarrow> a sdiv b = a div (b::int)" "0 \<le> a \<Longrightarrow> 0 < b \<Longrightarrow> a smod b = a mod (b::int)"
  by (simp_all add: signed_divide_int_def signed_modulo_int_def sgn_if minus_mult_div_eq_mod)

lemma int_list_all: "(\<forall>y::int. a \<le> y \<and> y \<le> b \<longrightarrow> P y) \<longleftrightarrow> list_all P [a..b]"
  by (auto simp: list_all_iff)

lemma div_add_one: "0 < c \<Longrightarrow> (x + 1) div c = x div c + (if c dvd x + 1 then 1 else 0)" for x c :: int
proof -
  assume c: "0 < c"
  let ?q = "x div c" and ?r = "x mod c"
  have r: "0 \<le> ?r" "?r < c" "x = c * ?q + ?r" using c by simp_all
  show ?thesis
  proof (cases "?r + 1 = c")
    case True
    then have "x + 1 = c * (?q + 1)" using mult_div_mod_eq [of c x] by (simp only: distrib_left)
    then show ?thesis using c by simp
  next
    case False
    have e: "x + 1 = c * ?q + (?r + 1)" using r(3) by simp
    have "0 \<le> ?r + 1" "?r + 1 < c" using r False by simp_all
    then have "(x + 1) div c = ?q" "(x + 1) mod c = ?r + 1" using int_div_pos_eq [OF e] int_mod_pos_eq [OF e] by blast+
    then show ?thesis using r(1) by (simp add: dvd_eq_mod_eq_0)
  qed
qed

lemma doe_num_mono:
  fixes x y :: int
  assumes "0 \<le> x" "x \<le> y"
  shows "x - x div 1460 + x div 36524 - x div 146096 \<le> y - y div 1460 + y div 36524 - y div 146096"
proof -
  have s: "x - x div 1460 + x div 36524 - x div 146096 \<le> (x + 1) - (x + 1) div 1460 + (x + 1) div 36524 - (x + 1) div 146096"
    for x :: int
  proof -
    have "36524 dvd x + 1" if "146096 dvd x + 1" using that by (rule dvd_trans [rotated]) simp
    then show ?thesis by (simp add: div_add_one)
  qed
  have "\<forall>n::nat. x - x div 1460 + x div 36524 - x div 146096 \<le>
      (x + int n) - (x + int n) div 1460 + (x + int n) div 36524 - (x + int n) div 146096"
  proof
    fix n show "x - x div 1460 + x div 36524 - x div 146096 \<le>
      (x + int n) - (x + int n) div 1460 + (x + int n) div 36524 - (x + int n) div 146096"
    proof (induction n)
      case (Suc n)
      then show ?case using s [of "x + int n"] by (simp add: ac_simps)
    qed simp
  qed
  from this [rule_format, of "nat (y - x)"] show ?thesis using assms by simp
qed

lemma year_table:
  "0 \<le> y \<Longrightarrow> y < 400 \<Longrightarrow>
     (let a = year_start y; b = year_start y + year_len y - 1
      in 365 * y \<le> a - a div 1460 + a div 36524 - a div 146096 \<and>
         b - b div 1460 + b div 36524 - b div 146096 < 365 * (y + 1))"
proof -
  have "\<forall>y::int. 0 \<le> y \<and> y \<le> 399 \<longrightarrow>
     (let a = year_start y; b = year_start y + year_len y - 1
      in 365 * y \<le> a - a div 1460 + a div 36524 - a div 146096 \<and>
         b - b div 1460 + b div 36524 - b div 146096 < 365 * (y + 1))"
    unfolding int_list_all by code_simp
  then show "0 \<le> y \<Longrightarrow> y < 400 \<Longrightarrow> ?thesis" by simp
qed

lemma year_start_0 [simp]: "year_start 0 = 0"
  by (simp add: year_start_def)

lemma year_start_399: "year_start 399 + year_len 399 = 146097"
  by code_simp

lemma year_start_Suc: "0 \<le> y \<Longrightarrow> y < 399 \<Longrightarrow> year_start (y + 1) = year_start y + year_len y"
proof -
  assume y: "0 \<le> y" "y < 399"
  then have "(y + 1) mod 400 = y + 1" by simp
  then have n: "(y + 1) mod 400 \<noteq> 0" using y by simp
  have "4 dvd y + 1" if "100 dvd y + 1" using that by (rule dvd_trans [rotated]) simp
  then show ?thesis
    using n div_add_one [of 4 y] div_add_one [of 100 y]
    by (cases "100 dvd y + 1"; cases "4 dvd y + 1")
      (simp_all only: year_start_def year_len_def leap_after_def mod_eq_0_iff_dvd, simp_all)
qed

lemma year_len_bounds: "365 \<le> year_len y" "year_len y \<le> 366"
  by (simp_all add: year_len_def)

lemma year_start_mono: "0 \<le> y \<Longrightarrow> y + int n \<le> 399 \<Longrightarrow> year_start y \<le> year_start (y + int n)"
proof (induction n)
  case (Suc n)
  then show ?case using year_start_Suc [of "y + int n"] year_len_bounds [of "y + int n"] by (simp add: ac_simps)
qed simp

lemma year_start_less: "0 \<le> x \<Longrightarrow> x < y \<Longrightarrow> y \<le> 399 \<Longrightarrow> year_start x + year_len x \<le> year_start y"
  using year_start_mono [of "x + 1" "nat (y - x - 1)"] year_start_Suc [of x] by simp

lemma doe_year_eq:
  assumes "0 \<le> y" "y < 400" "year_start y \<le> doe" "doe < year_start y + year_len y"
  shows "doe_year doe = y"
proof -
  let ?num = "\<lambda>x::int. x - x div 1460 + x div 36524 - x div 146096"
  have "0 \<le> year_start y" using year_start_mono [of 0 "nat y"] assms(1,2) by simp
  then have m1: "?num (year_start y) \<le> ?num doe" using assms(3) by (rule doe_num_mono)
  have "0 \<le> doe" "doe \<le> year_start y + year_len y - 1" using \<open>0 \<le> year_start y\<close> assms(3,4) by simp_all
  then have m2: "?num doe \<le> ?num (year_start y + year_len y - 1)" by (rule doe_num_mono)
  have t: "365 * y \<le> ?num (year_start y)" "?num (year_start y + year_len y - 1) < 365 * (y + 1)"
    using year_table [OF assms(1,2)] unfolding Let_def by blast+
  have lo: "365 * y \<le> ?num doe" using t(1) m1 by (rule order_trans)
  have hi: "?num doe < 365 * (y + 1)" using m2 t(2) by (rule le_less_trans)
  have b: "0 \<le> ?num doe - 365 * y" "?num doe - 365 * y < 365"
    using lo hi by (simp_all only: distrib_left diff_ge_0_iff_ge less_diff_eq diff_less_eq mult_1_right add.commute)
  have e: "?num doe = 365 * y + (?num doe - 365 * y)" by (simp only: diff_add_cancel add.commute)
  show ?thesis unfolding doe_year_def using int_div_pos_eq [OF e b] .
qed

lemma doe_year_exists:
  assumes "0 \<le> doe" "doe < 146097"
  shows "\<exists>y. 0 \<le> y \<and> y < 400 \<and> year_start y \<le> doe \<and> doe < year_start y + year_len y"
proof -
  have "\<exists>y. 0 \<le> y \<and> y < 400 \<and> year_start y \<le> doe \<and> doe < year_start y + year_len y"
    if "n \<le> 399" "doe < year_start (int n) + year_len (int n)" for n
    using that
  proof (induction n)
    case 0
    then show ?case using assms by (intro exI [of _ 0]) simp
  next
    case (Suc n)
    have s: "year_start (int (Suc n)) = year_start (int n) + year_len (int n)"
      using year_start_Suc [of "int n"] Suc.prems(1) by (simp add: add.commute)
    show ?case
    proof (cases "doe < year_start (int (Suc n))")
      case True
      then show ?thesis using Suc.IH Suc.prems(1) s by simp
    next
      case False
      then show ?thesis using Suc.prems by (intro exI [of _ "int (Suc n)"]) simp
    qed
  qed
  from this [of 399] show ?thesis using year_start_399 assms(2) by simp
qed

text \<open>Months, counted from March.\<close>

definition mstart :: "int \<Rightarrow> int" where
  "mstart mp = (153 * mp + 2) div 5"

definition month_len :: "int \<Rightarrow> int \<Rightarrow> int" where
  "month_len yoe mp =
     (if mp = 11 then year_len yoe - 337 else if mp \<in> {1, 3, 6, 8} then 30 else 31)"

lemma month_table:
  "0 \<le> mp \<Longrightarrow> mp \<le> 11 \<Longrightarrow> mstart (mp + 1) = mstart mp + (if mp \<in> {1, 3, 6, 8, 11} then 30 else 31) \<and>
     (let a = mstart mp; b = mstart (mp + 1) - 1 in (5 * a + 2) div 153 = mp \<and> (5 * b + 2) div 153 = mp)"
proof -
  have "\<forall>mp::int. 0 \<le> mp \<and> mp \<le> 11 \<longrightarrow> mstart (mp + 1) = mstart mp + (if mp \<in> {1, 3, 6, 8, 11} then 30 else 31) \<and>
     (let a = mstart mp; b = mstart (mp + 1) - 1 in (5 * a + 2) div 153 = mp \<and> (5 * b + 2) div 153 = mp)"
    unfolding int_list_all by code_simp
  then show "0 \<le> mp \<Longrightarrow> mp \<le> 11 \<Longrightarrow> ?thesis" by blast
qed

lemma doy_month:
  assumes "0 \<le> mp" "mp \<le> 11" "mstart mp \<le> doy" "doy < mstart (mp + 1)"
  shows "(5 * doy + 2) div 153 = mp"
proof -
  have "(5 * mstart mp + 2) div 153 \<le> (5 * doy + 2) div 153" using assms(3) by (intro zdiv_mono1) simp_all
  moreover have "(5 * doy + 2) div 153 \<le> (5 * (mstart (mp + 1) - 1) + 2) div 153" using assms(4) by (intro zdiv_mono1) simp_all
  moreover have "(5 * mstart mp + 2) div 153 = mp" "(5 * (mstart (mp + 1) - 1) + 2) div 153 = mp"
    using month_table [OF assms(1,2)] unfolding Let_def by blast+
  ultimately show ?thesis by linarith
qed

lemma doy_month_exists:
  assumes "0 \<le> doy" "doy < 367"
  shows "\<exists>mp. 0 \<le> mp \<and> mp \<le> 11 \<and> mstart mp \<le> doy \<and> doy < mstart (mp + 1)"
proof -
  have s: "mstart 0 = 0" "mstart 12 = 367" by code_simp+
  have "\<exists>mp. 0 \<le> mp \<and> mp \<le> 11 \<and> mstart mp \<le> doy \<and> doy < mstart (mp + 1)"
    if "n \<le> 11" "doy < mstart (int n + 1)" for n
    using that
  proof (induction n)
    case 0
    then show ?case using assms s by (intro exI [of _ 0]) simp
  next
    case (Suc n)
    then show ?case by (cases "doy < mstart (int n + 1)") (auto intro: exI [of _ "int n + 1"] simp: add.commute)
  qed
  from this [of 11] show ?thesis using s assms by simp
qed

text \<open>A day as era, year of the era, month and day of the month, all counted from 1 March 0000.\<close>

definition march_ok :: "int \<Rightarrow> int \<Rightarrow> int \<Rightarrow> bool" where
  "march_ok yoe mp day \<longleftrightarrow> 0 \<le> yoe \<and> yoe < 400 \<and> 0 \<le> mp \<and> mp \<le> 11 \<and> 1 \<le> day \<and> day \<le> month_len yoe mp"

definition march_day :: "int \<Rightarrow> int \<Rightarrow> int \<Rightarrow> int \<Rightarrow> int" where
  "march_day era yoe mp day = era * 146097 + (year_start yoe + (mstart mp + day - 1))"

lemma mstart_values: "mstart 0 = 0" "mstart 10 = 306" "mstart 11 = 337" "mstart 12 = 367"
  by code_simp+

lemma mstart_mono: "x \<le> y \<Longrightarrow> mstart x \<le> mstart y"
  unfolding mstart_def by (rule zdiv_mono1) simp_all

lemma march_doy:
  assumes "march_ok yoe mp day"
  shows "0 \<le> mstart mp + day - 1" "mstart mp + day - 1 < year_len yoe" "mstart mp + day - 1 < mstart (mp + 1)"
proof -
  have m: "0 \<le> mp" "mp \<le> 11" "1 \<le> day" "day \<le> month_len yoe mp" using assms by (simp_all add: march_ok_def)
  show "0 \<le> mstart mp + day - 1" using mstart_mono [OF m(1)] mstart_values(1) m(3) by simp
  have "day \<le> mstart (mp + 1) - mstart mp"
    using month_table [OF m(1,2)] m(4) year_len_bounds [of yoe] by (auto simp: month_len_def split: if_splits)
  then show l: "mstart mp + day - 1 < mstart (mp + 1)" by simp
  show "mstart mp + day - 1 < year_len yoe"
  proof (cases "mp = 11")
    case True
    then show ?thesis using m(4) mstart_values(3) by (simp add: month_len_def)
  next
    case False
    then have "mstart (mp + 1) \<le> 337" using mstart_mono [of "mp + 1" 11] mstart_values(3) m(2) by simp
    then show ?thesis using l year_len_bounds [of yoe] by simp
  qed
qed

lemma march_doe:
  assumes "march_ok yoe mp day"
  shows "0 \<le> year_start yoe + (mstart mp + day - 1)" "year_start yoe + (mstart mp + day - 1) < 146097"
proof -
  have y: "0 \<le> yoe" "yoe < 400" using assms by (simp_all add: march_ok_def)
  show "0 \<le> year_start yoe + (mstart mp + day - 1)"
    using year_start_mono [of 0 "nat yoe"] y march_doy(1) [OF assms] by simp
  have "year_start yoe + year_len yoe \<le> 146097"
    using year_start_399 year_start_less [of yoe 399] year_len_bounds [of 399] y by (cases "yoe = 399") auto
  then show "year_start yoe + (mstart mp + day - 1) < 146097" using march_doy(2) [OF assms] by simp
qed

text \<open>The arithmetic of the C code recovers the four numbers.\<close>

lemma march_decode:
  assumes "march_ok yoe mp day" and a: "a = march_day era yoe mp day"
  shows "a div 146097 = era" "doe_year (a mod 146097) = yoe"
    "a mod 146097 - year_start yoe = mstart mp + day - 1" "(5 * (mstart mp + day - 1) + 2) div 153 = mp"
proof -
  note d = march_doe [OF assms(1)]
  have e: "a = 146097 * era + (year_start yoe + (mstart mp + day - 1))" by (simp add: a march_day_def)
  show "a div 146097 = era" using int_div_pos_eq [OF e d] .
  have r: "a mod 146097 = year_start yoe + (mstart mp + day - 1)" using int_mod_pos_eq [OF e d] .
  show "a mod 146097 - year_start yoe = mstart mp + day - 1" using r by simp
  show "doe_year (a mod 146097) = yoe"
    unfolding r using assms(1) march_doy [OF assms(1)] by (intro doe_year_eq) (auto simp: march_ok_def)
  show "(5 * (mstart mp + day - 1) + 2) div 153 = mp"
    using assms(1) march_doy [OF assms(1)] by (intro doy_month) (auto simp: march_ok_def)
qed

lemma march_exists: "\<exists>era yoe mp day. march_ok yoe mp day \<and> a = march_day era yoe mp day"
proof -
  have doe: "0 \<le> a mod 146097" "a mod 146097 < 146097" by simp_all
  obtain y where y: "0 \<le> y" "y < 400" "year_start y \<le> a mod 146097" "a mod 146097 < year_start y + year_len y"
    using doe_year_exists [OF doe] by blast
  define doy where "doy = a mod 146097 - year_start y"
  have doy: "0 \<le> doy" "doy < year_len y" using y by (simp_all add: doy_def)
  then obtain mp where mp: "0 \<le> mp" "mp \<le> 11" "mstart mp \<le> doy" "doy < mstart (mp + 1)"
    using doy_month_exists [of doy] year_len_bounds [of y] by fastforce
  define day where "day = doy - mstart mp + 1"
  have "day \<le> month_len y mp"
    using month_table [OF mp(1,2)] mp doy(2) mstart_values(3) by (auto simp: month_len_def day_def split: if_splits)
  then have "march_ok y mp day" using y mp by (simp add: march_ok_def day_def)
  moreover have "a = march_day (a div 146097) y mp day"
    by (simp add: march_day_def day_def doy_def) 
  ultimately show ?thesis by blast
qed

section \<open>Truncating division\<close>

lemma sdiv_floor:
  fixes a n :: int
  assumes n: "0 < n"
  shows "(if a > 0 then a else a - (n - 1)) sdiv n = a div n" "(if a \<ge> 0 then a else a - (n - 1)) sdiv n = a div n"
proof -
  have neg: "(a - (n - 1)) sdiv n = a div n" if "a \<le> 0"
  proof -
    have "n - 1 - a = n * (- (a div n)) + (n - 1 - a mod n)"
      unfolding mult_minus_right using mult_div_mod_eq [of n a] by linarith
    moreover have "0 \<le> n - 1 - a mod n" "n - 1 - a mod n < n" using n pos_mod_bound [OF n, of a] pos_mod_sign [OF n, of a] by linarith+
    ultimately have "(n - 1 - a) div n = - (a div n)" by (rule int_div_pos_eq)
    moreover have "a - (n - 1) = - (n - 1 - a)" by simp
    moreover have "(n - 1 - a) sdiv n = (n - 1 - a) div n" using that n by (intro sdiv_nonneg) simp_all
    ultimately show ?thesis by (simp only: minus_sdiv_eq)
  qed
  show "(if a > 0 then a else a - (n - 1)) sdiv n = a div n" "(if a \<ge> 0 then a else a - (n - 1)) sdiv n = a div n"
    using neg n by (simp_all add: sdiv_nonneg)
qed

lemma sdiv_adjust:
  fixes t n :: int
  assumes n: "0 < n"
  shows "(if t smod n < 0 then (t sdiv n - 1, t smod n + n) else (t sdiv n, t smod n)) = (t div n, t mod n)"
proof (cases "0 \<le> t")
  case True
  then show ?thesis using n by (simp add: sdiv_nonneg not_less)
next
  case False
  then have s: "t sdiv n = - ((- t) div n)" "t smod n = - ((- t) mod n)"
    using n sdiv_nonneg [of "- t" n] by (metis minus_sdiv_eq minus_smod_eq less_imp_le minus_minus neg_0_le_iff_le not_le)+
  show ?thesis using n by (auto simp: s zdiv_zminus1_eq_if zmod_zminus1_eq_if)
qed

section \<open>The two directions\<close>

abbreviation march_month :: "int \<Rightarrow> int" where
  "march_month month \<equiv> (if month > 2 then month - 3 else month + 9)"

abbreviation march_year :: "int \<Rightarrow> int \<Rightarrow> int" where
  "march_year year month \<equiv> (if month \<le> 2 then year - 1 else year)"

lemma is_leap_after: "0 \<le> year \<Longrightarrow> is_leap year \<longleftrightarrow> leap_after ((year - 1) mod 400)"
proof -
  have m: "((year - 1) mod 400 + 1) mod k = year mod k" if "k dvd 400" for k
    using mod_add_left_eq [of "(year - 1) mod 400" k 1] mod_add_left_eq [of "year - 1" k 1] mod_mod_cancel [OF that, of "year - 1"] by simp
  show "0 \<le> year \<Longrightarrow> ?thesis" by (simp add: is_leap_def leap_after_def sdiv_nonneg m)
qed

lemma valid_date_march:
  "is_valid_date year month day \<longleftrightarrow> 0 \<le> year \<and> year \<le> 9999 \<and> 1 \<le> month \<and> month \<le> 12 \<and>
     march_ok (march_year year month mod 400) (march_month month) day"
proof (cases "0 \<le> year \<and> 1 \<le> month \<and> month \<le> 12")
  case True
  then have l: "is_leap year \<longleftrightarrow> leap_after ((year - 1) mod 400)" by (simp add: is_leap_after)
  have "[1..12::int] = [1, 2, 3, 4, 5, 6, 7, 8, 9, 10, 11, 12]" by code_simp
  moreover from True have "month \<in> set [1..12]" by simp
  ultimately have "month \<in> {1, 2, 3, 4, 5, 6, 7, 8, 9, 10, 11, 12}" by (simp only: list.set)
  then show ?thesis using True
    by (elim insertE emptyE) (auto simp: is_valid_date_def march_ok_def month_len_def year_len_def l)
qed (auto simp: is_valid_date_def)

lemma from_utc_march:
  assumes "is_valid_date year month day" "is_valid_time hours minutes seconds"
  shows "posix_time_from_utc year month day hours minutes seconds =
    Some ((march_day (march_year year month div 400) (march_year year month mod 400) (march_month month) day - 719468) * 86400
      + hours * 3600 + minutes * 60 + seconds)"
proof -
  let ?y = "march_year year month" and ?m = "march_month month"
  have m: "0 \<le> ?m" using assms(1) by (auto simp: valid_date_march)
  have floor: "(if y \<ge> 0 then y else y - 399) sdiv 400 = y div 400" for y :: int
    using sdiv_floor(2) [of 400 y] by (cases "0 \<le> y") auto
  note era = floor [of ?y]
  have yoe: "?y - ?y div 400 * 400 = ?y mod 400" by (simp add: minus_div_mult_eq_mod)
  have doy: "(153 * ?m + 2) sdiv 5 = mstart ?m" using m by (simp add: sdiv_nonneg mstart_def)
  have st: "?y mod 400 * 365 + (?y mod 400) sdiv 4 - (?y mod 400) sdiv 100 = year_start (?y mod 400)"
    by (simp add: sdiv_nonneg year_start_def)
  show ?thesis using assms
    unfolding posix_time_from_utc_def Let_def era yoe doy st march_day_def by simp
qed

lemma utc_from_march:
  assumes v: "is_valid_epoch_time t" and ok: "march_ok yoe mp day" and a: "t div 86400 + 719468 = march_day era yoe mp day"
  shows "utc_from_posix_time t =
    Some (yoe + era * 400 + (if mp < 10 then 0 else 1), (if mp < 10 then mp + 3 else mp - 9), day,
      t mod 86400 div 3600, t mod 86400 mod 3600 div 60, t mod 86400 mod 3600 mod 60)"
proof -
  define a' where "a' = march_day era yoe mp day"
  note dec = march_decode [OF ok a'_def]
  have range: "0 \<le> yoe" "0 \<le> mp" "mp \<le> 11" using ok by (simp_all add: march_ok_def)
  have doe: "a' - a' div 146097 * 146097 = a' mod 146097" by (simp add: minus_div_mult_eq_mod)
  let ?d = "a' mod 146097"
  have d0: "0 \<le> ?d" by simp
  have "0 \<le> ?d - ?d div 1460 + ?d div 36524 - ?d div 146096" using doe_num_mono [of 0 ?d] by simp
  then have yoe: "(?d - ?d sdiv 1460 + ?d sdiv 36524 - ?d sdiv 146096) sdiv 365 = yoe"
    using dec(2) d0 by (simp add: sdiv_nonneg doe_year_def)
  have doy: "?d - (365 * yoe + yoe sdiv 4 - yoe sdiv 100) = mstart mp + day - 1"
    using dec(3) range by (simp add: sdiv_nonneg year_start_def)
  have mp: "(5 * (mstart mp + day - 1) + 2) sdiv 153 = mp"
    using dec(4) march_doy(1) [OF ok] by (simp add: sdiv_nonneg)
  have md: "mstart mp + day - 1 - (153 * mp + 2) sdiv 5 + 1 = day" using range by (simp add: sdiv_nonneg mstart_def)
  have era: "(if a' > 0 then a' else a' - 146096) sdiv 146097 = era" 
    using sdiv_floor(1) [of 146097 a'] dec(1) by (cases "0 < a'") auto
  let ?r = "t mod 86400"
  have r: "?r sdiv 3600 = ?r div 3600" "?r smod 3600 = ?r mod 3600" "?r mod 3600 sdiv 60 = ?r mod 3600 div 60"
    "?r mod 3600 smod 60 = ?r mod 3600 mod 60" by (simp_all add: sdiv_nonneg)
  have doe': "a' - era * 146097 = ?d" using doe dec(1) by simp
  have adj: "(if t smod SECS_PER_DAY < 0 then (t sdiv SECS_PER_DAY - 1, t smod SECS_PER_DAY + SECS_PER_DAY)
      else (t sdiv SECS_PER_DAY, t smod SECS_PER_DAY)) = (t div 86400, ?r)" by (rule sdiv_adjust) simp
  have "utc_from_posix_time t =
      (let month = (if mp < 10 then mp + 3 else mp - 9); year = yoe + era * 400
       in Some (if month \<le> 2 then year + 1 else year, month, day, ?r div 3600, ?r mod 3600 div 60, ?r mod 3600 mod 60))"
    using v unfolding utc_from_posix_time_def Let_def adj prod.case a a'_def [symmetric] era doe' yoe doy mp md r
    by (simp only: not_True_eq_False if_False)
  then show ?thesis using range by (simp add: Let_def)
qed

lemma march_range:
  assumes ok: "march_ok yoe mp day" and a: "a = march_day era yoe mp day"
  shows "- 60 \<le> a \<and> a \<le> 3652364 \<longleftrightarrow>
    0 \<le> yoe + era * 400 + (if mp < 10 then 0 else 1) \<and> yoe + era * 400 + (if mp < 10 then 0 else 1) \<le> 9999"
proof -
  define doe where "doe = year_start yoe + (mstart mp + day - 1)"
  have doe: "0 \<le> doe" "doe < 146097" "a = era * 146097 + doe"
    using march_doe [OF ok] by (simp_all add: doe_def a march_day_def)
  have r: "0 \<le> yoe" "yoe < 400" "0 \<le> mp" "mp \<le> 11" using ok by (simp_all add: march_ok_def)
  have s399: "year_start 399 = 145731" by code_simp
  have early: "yoe \<noteq> 399 \<Longrightarrow> doe < 145731"
    using year_start_less [of yoe 399] march_doy(2) [OF ok] r s399 by (simp add: doe_def)
  have last: "yoe = 399 \<Longrightarrow> doe \<ge> 146037 \<longleftrightarrow> \<not> mp < 10"
    using march_doy(3) [OF ok] mstart_mono [of "mp + 1" 10] mstart_mono [of 10 mp] mstart_values(2) ok s399
    by (auto simp: doe_def march_ok_def)
  consider "era \<le> - 2" | "era = - 1" | "0 \<le> era" "era \<le> 23" | "era = 24" | "25 \<le> era" by linarith
  then show ?thesis
    using doe r early last by cases (cases "yoe = 399"; auto)+
qed

lemma le_div_iff: "0 < c \<Longrightarrow> q \<le> t div c \<longleftrightarrow> q * c \<le> t" for q t c :: int
proof
  assume c: "0 < c"
  assume "q \<le> t div c"
  then have "q * c \<le> t div c * c" using c by (intro mult_right_mono) simp_all
  then show "q * c \<le> t" using pos_mod_sign [OF c, of t] div_mult_mod_eq [of t c] by linarith
next
  assume c: "0 < c"
  assume "q * c \<le> t"
  then have "q * c div c \<le> t div c" by (rule zdiv_mono1 [OF _ c])
  then show "q \<le> t div c" using c by simp
qed

lemma epoch_days: "is_valid_epoch_time t \<longleftrightarrow> - 60 \<le> t div 86400 + 719468 \<and> t div 86400 + 719468 \<le> 3652364"
proof -
  have "- 719528 \<le> t div 86400 \<longleftrightarrow> - 62167219200 \<le> t" "2932897 \<le> t div 86400 \<longleftrightarrow> 253402300800 \<le> t"
    using le_div_iff [of 86400 "- 719528" t] le_div_iff [of 86400 2932897 t] by simp_all
  then show ?thesis by (auto simp: is_valid_epoch_time_def)
qed

text \<open>The two range assertions of the file, on the shifted year and on the shifted number of days, always hold; the model leaves them out.\<close>

lemma posix_time_asserts:
  "is_valid_date year month day \<Longrightarrow> (if month \<le> 2 then year - 1 else year) \<in> {- 1..9999}"
  "is_valid_epoch_time t \<Longrightarrow> fst (if t smod 86400 < 0 then (t sdiv 86400 - 1, t smod 86400 + 86400) else (t sdiv 86400, t smod 86400)) + 719468 \<in> {- 61..3652364}"
proof -
  show "(if month \<le> 2 then year - 1 else year) \<in> {- 1..9999}" if "is_valid_date year month day"
  proof -
    have "0 \<le> year \<and> year \<le> 9999" using that unfolding is_valid_date_def by (simp only: not_less de_Morgan_disj split: if_splits)
    then show ?thesis by simp
  qed
next
  assume "is_valid_epoch_time t"
  then have "t div 86400 + 719468 \<in> {- 61..3652364}" unfolding epoch_days by simp
  then show "fst (if t smod 86400 < 0 then (t sdiv 86400 - 1, t smod 86400 + 86400) else (t sdiv 86400, t smod 86400)) + 719468 \<in> {- 61..3652364}"
    unfolding sdiv_adjust [OF zero_less_numeral] by simp
qed

lemma hms: "is_valid_time h m s \<Longrightarrow> 0 \<le> h * 3600 + m * 60 + s \<and> h * 3600 + m * 60 + s < 86400 \<and>
    (h * 3600 + m * 60 + s) div 3600 = h \<and> (h * 3600 + m * 60 + s) mod 3600 div 60 = m \<and>
    (h * 3600 + m * 60 + s) mod 3600 mod 60 = s"
proof -
  assume v: "is_valid_time h m s"
  have e1: "h * 3600 + m * 60 + s = 3600 * h + (m * 60 + s)" by simp
  have b1: "0 \<le> m * 60 + s" "m * 60 + s < 3600" using v by (auto simp: is_valid_time_def)
  have e2: "m * 60 + s = 60 * m + s" by simp
  have b2: "0 \<le> s" "s < 60" using v by (auto simp: is_valid_time_def)
  show ?thesis using int_div_pos_eq [OF e1 b1] int_mod_pos_eq [OF e1 b1] int_div_pos_eq [OF e2 b2] int_mod_pos_eq [OF e2 b2] v
    by (auto simp: is_valid_time_def)
qed

lemma hms_inverse:
  "0 \<le> r \<Longrightarrow> r < 86400 \<Longrightarrow> is_valid_time (r div 3600) (r mod 3600 div 60) (r mod 3600 mod 60) \<and>
     r div 3600 * 3600 + r mod 3600 div 60 * 60 + r mod 3600 mod 60 = r" for r :: int
proof -
  assume r: "0 \<le> r" "r < 86400"
  have "r div 3600 < 24" using r(2) le_div_iff [of 3600 24 r] by (simp add: not_le [symmetric])
  moreover have "r mod 3600 div 60 < 60" using le_div_iff [of 60 60 "r mod 3600"] by (simp add: not_le [symmetric])
  moreover have "0 \<le> r div 3600" "0 \<le> r mod 3600 div 60" using r(1) by (simp_all add: pos_imp_zdiv_nonneg_iff)
  moreover have "r mod 3600 mod 60 < 60" "0 \<le> r mod 3600 mod 60" by (rule pos_mod_bound, simp, rule pos_mod_sign, simp)
  moreover have "r div 3600 * 3600 + (r mod 3600 div 60 * 60 + r mod 3600 mod 60) = r"
    by (simp only: div_mult_mod_eq)
  ultimately show ?thesis unfolding is_valid_time_def by linarith
qed

text \<open>The two directions are inverse to each other.\<close>

theorem posix_time_utc_iff:
  "posix_time_from_utc year month day hours minutes seconds = Some t \<longleftrightarrow>
   utc_from_posix_time t = Some (year, month, day, hours, minutes, seconds)" (is "?L \<longleftrightarrow> ?R")
proof
  assume l: ?L
  then have v: "is_valid_date year month day" "is_valid_time hours minutes seconds"
    by (auto simp: posix_time_from_utc_def split: if_splits)
  let ?y = "march_year year month" and ?m = "march_month month"
  let ?a = "march_day (?y div 400) (?y mod 400) ?m day" and ?r = "hours * 3600 + minutes * 60 + seconds"
  have d: "0 \<le> year" "year \<le> 9999" "1 \<le> month" "month \<le> 12" "march_ok (?y mod 400) ?m day"
    using v(1) by (simp_all add: valid_date_march)
  have t: "t = 86400 * (?a - 719468) + ?r" using l from_utc_march [OF v] by simp
  note h = hms [OF v(2)]
  have dm: "t div 86400 = ?a - 719468" "t mod 86400 = ?r"
    using int_div_pos_eq [OF t] int_mod_pos_eq [OF t] h by simp_all
  have y: "?y mod 400 + ?y div 400 * 400 = ?y" by (simp add: mod_div_mult_eq)
  have year: "?y mod 400 + ?y div 400 * 400 + (if ?m < 10 then 0 else 1) = year"
    unfolding y using d by auto
  have "is_valid_epoch_time t"
    unfolding epoch_days dm(1) using march_range [OF d(5) refl, of "?y div 400"] year d by simp
  from utc_from_march [OF this d(5), of "?y div 400"] show ?R
    unfolding year dm(2) using dm(1) h d by auto
next
  assume r: ?R
  then have v: "is_valid_epoch_time t" by (auto simp: utc_from_posix_time_def split: if_splits)
  obtain era yoe mp d where m: "march_ok yoe mp d" "t div 86400 + 719468 = march_day era yoe mp d"
    using march_exists by blast
  let ?r = "t mod 86400"
  from r utc_from_march [OF v m] have f: "year = yoe + era * 400 + (if mp < 10 then 0 else 1)"
    "month = (if mp < 10 then mp + 3 else mp - 9)" "day = d" "hours = ?r div 3600"
    "minutes = ?r mod 3600 div 60" "seconds = ?r mod 3600 mod 60" by simp_all
  have mp: "0 \<le> mp" "mp \<le> 11" "0 \<le> yoe" "yoe < 400" using m(1) by (simp_all add: march_ok_def)
  have my: "march_year year month = 400 * era + yoe" "march_month month = mp" using mp by (auto simp: f)
  have dm: "march_year year month div 400 = era" "march_year year month mod 400 = yoe"
    using int_div_pos_eq [OF my(1) mp(3,4)] int_mod_pos_eq [OF my(1) mp(3,4)] .
  have "0 \<le> year \<and> year \<le> 9999" using march_range [OF m] v unfolding epoch_days f(1) by blast
  then have vd: "is_valid_date year month day" unfolding valid_date_march dm my(2) using m(1) mp f(2,3) by auto
  have rr: "0 \<le> ?r" "?r < 86400" by simp_all
  have h: "is_valid_time hours minutes seconds" "hours * 3600 + minutes * 60 + seconds = ?r"
    unfolding f(4-6) using hms_inverse [OF rr] by blast+
  have q: "march_day era yoe mp d - 719468 = t div 86400" using m(2) by (simp add: diff_eq_eq)
  have "(march_day era yoe mp d - 719468) * 86400 + (hours * 3600 + minutes * 60 + seconds) = t"
    unfolding q h(2) by (rule div_mult_mod_eq)
  then have "(march_day era yoe mp d - 719468) * 86400 + hours * 3600 + minutes * 60 + seconds = t"
    by (simp only: add.assoc)
  then show ?L using from_utc_march [OF vd h(1), unfolded dm my(2)] f(3) by (simp only:)
qed

section \<open>The operations on broken-down time\<close>

text \<open>\<open>tm_ok t\<close>: the fields are a valid date and time of the years 0000 to 9999.\<close>

definition tm_ok :: "tm \<Rightarrow> bool" where
  "tm_ok t \<longleftrightarrow> is_valid_date (tm_year t + 1900) (tm_mon t + 1) (tm_mday t) \<and>
     is_valid_time (tm_hour t) (tm_min t) (tm_sec t)"

lemma tm_of_utc_inverse:
  "tm_of_utc (y, mo, d, h, mi, s) = t \<longleftrightarrow>
     (y, mo, d, h, mi, s) = (tm_year t + 1900, tm_mon t + 1, tm_mday t, tm_hour t, tm_min t, tm_sec t)"
  by (cases t) (auto simp: tm_of_utc_def)

lemma from_utc_Some: "(\<exists>t. posix_time_from_utc y mo d h mi s = Some t) \<longleftrightarrow> is_valid_date y mo d \<and> is_valid_time h mi s"
  by (auto simp: posix_time_from_utc_def Let_def)

lemma tm_ok_bounds: "tm_ok t \<Longrightarrow> c_int (tm_year t + 1900) = Some (tm_year t + 1900) \<and> c_int (tm_mon t + 1) = Some (tm_mon t + 1)"
  by (auto simp: tm_ok_def valid_date_march c_int_def)

text \<open>Both directions on \<open>struct tm\<close>.\<close>

lemma tm_to_posix_iff: "OPENSSL_tm_to_posix t = Some (Some x) \<longleftrightarrow> OPENSSL_posix_to_tm x = Some t"
proof
  assume "OPENSSL_tm_to_posix t = Some (Some x)"
  then have "posix_time_from_utc (tm_year t + 1900) (tm_mon t + 1) (tm_mday t) (tm_hour t) (tm_min t) (tm_sec t) = Some x"
    by (auto simp: OPENSSL_tm_to_posix_def c_int_def bind_eq_Some_conv split: if_splits)
  then show "OPENSSL_posix_to_tm x = Some t"
    unfolding posix_time_utc_iff by (simp add: OPENSSL_posix_to_tm_def tm_of_utc_inverse)
next
  assume "OPENSSL_posix_to_tm x = Some t"
  then obtain u where u: "utc_from_posix_time x = Some u" "tm_of_utc u = t" by (auto simp: OPENSSL_posix_to_tm_def)
  then have p: "posix_time_from_utc (tm_year t + 1900) (tm_mon t + 1) (tm_mday t) (tm_hour t) (tm_min t) (tm_sec t) = Some x"
    unfolding posix_time_utc_iff by (cases u) (simp add: tm_of_utc_inverse)
  then have "tm_ok t" unfolding tm_ok_def from_utc_Some [symmetric] by blast
  then show "OPENSSL_tm_to_posix t = Some (Some x)" using p tm_ok_bounds by (simp add: OPENSSL_tm_to_posix_def)
qed

lemma tm_to_posix_ok: "tm_ok t \<longleftrightarrow> (\<exists>x. OPENSSL_tm_to_posix t = Some (Some x))"
proof
  assume ok: "tm_ok t"
  then obtain x where "posix_time_from_utc (tm_year t + 1900) (tm_mon t + 1) (tm_mday t) (tm_hour t) (tm_min t) (tm_sec t) = Some x"
    using from_utc_Some unfolding tm_ok_def by blast
  then show "\<exists>x. OPENSSL_tm_to_posix t = Some (Some x)" using tm_ok_bounds [OF ok] by (simp add: OPENSSL_tm_to_posix_def)
next
  assume "\<exists>x. OPENSSL_tm_to_posix t = Some (Some x)"
  then have "\<exists>x. posix_time_from_utc (tm_year t + 1900) (tm_mon t + 1) (tm_mday t) (tm_hour t) (tm_min t) (tm_sec t) = Some x"
    by (auto simp: OPENSSL_tm_to_posix_def c_int_def bind_eq_Some_conv split: if_splits)
  then show "tm_ok t" unfolding from_utc_Some tm_ok_def by simp
qed

lemma posix_to_tm_Some: "(\<exists>t. OPENSSL_posix_to_tm x = Some t) \<longleftrightarrow> is_valid_epoch_time x"
  by (auto simp: OPENSSL_posix_to_tm_def utc_from_posix_time_def Let_def split: prod.splits)

lemma tm_to_posix_range: "OPENSSL_tm_to_posix t = Some (Some x) \<Longrightarrow> is_valid_epoch_time x"
  unfolding tm_to_posix_iff using posix_to_tm_Some by blast

text \<open>Adjusting a time moves it by the given number of seconds, and fails only outside the range.\<close>

lemma gmtime_adj_ok:
  assumes t: "OPENSSL_tm_to_posix t = Some (Some x)" and d: "- (2 ^ 31) \<le> off_day" "off_day < 2 ^ 31"
    and s: "- (2 ^ 62) \<le> offset_sec" "offset_sec < 2 ^ 62"
  shows "OPENSSL_gmtime_adj t off_day offset_sec = Some (OPENSSL_posix_to_tm (x + off_day * 86400 + offset_sec))"
proof -
  have x: "- 62167219200 \<le> x" "x \<le> 253402300799" using tm_to_posix_range [OF t] by (simp_all add: is_valid_epoch_time_def)
  have "c_int64 (off_day * 86400) = Some (off_day * 86400)" "c_int64 (x + off_day * 86400) = Some (x + off_day * 86400)"
    "c_int64 (x + off_day * 86400 + offset_sec) = Some (x + off_day * 86400 + offset_sec)"
    using x d s by (simp_all add: c_int64_def)
  then show ?thesis using t by (simp add: OPENSSL_gmtime_adj_def OPENSSL_posix_to_tm_def)
qed

lemma gmtime_diff_ok:
  assumes a: "OPENSSL_tm_to_posix f = Some (Some x)" and b: "OPENSSL_tm_to_posix t = Some (Some y)"
  shows "\<exists>days secs. OPENSSL_gmtime_diff f t = Some (Some (days, secs)) \<and> y = x + days * 86400 + secs \<and>
    \<bar>secs\<bar> < 86400 \<and> (x \<le> y \<longrightarrow> 0 \<le> days \<and> 0 \<le> secs) \<and> (y \<le> x \<longrightarrow> days \<le> 0 \<and> secs \<le> 0)"
proof -
  let ?d = "(y - x) sdiv 86400" and ?s = "(y - x) smod 86400"
  have r: "\<bar>y - x\<bar> \<le> 315569519999" using tm_to_posix_range [OF a] tm_to_posix_range [OF b] by (auto simp: is_valid_epoch_time_def)
  have eq: "y - x = ?d * 86400 + ?s" by (simp only: sdiv_mult_smod_eq)
  define q m where "q = \<bar>y - x\<bar> div 86400" and "m = \<bar>y - x\<bar> mod 86400"
  have s: "?d = sgn (y - x) * q" "?s = sgn (y - x) * m"
    by (simp_all add: signed_divide_int_def smod_int_alt_def q_def m_def)
  have q: "0 \<le> q" "q \<le> 3652425" unfolding q_def
    using r le_div_iff [of 86400 3652426 "\<bar>y - x\<bar>"] by (simp_all add: pos_imp_zdiv_nonneg_iff not_le [symmetric])
  have m: "0 \<le> m" "m < 86400" by (simp_all add: m_def)
  have "\<not> (?d > 2147483647 \<or> ?d < - 2147483648)" unfolding s(1) using q by (simp add: sgn_if)
  then have "OPENSSL_gmtime_diff f t = Some (Some (?d, ?s))" using a b by (simp add: OPENSSL_gmtime_diff_def Let_def)
  moreover have "\<bar>?s\<bar> < 86400" unfolding s(2) using m by (simp add: sgn_if)
  moreover have "x \<le> y \<longrightarrow> 0 \<le> ?d \<and> 0 \<le> ?s" "y \<le> x \<longrightarrow> ?d \<le> 0 \<and> ?s \<le> 0" unfolding s using m q by (simp_all add: sgn_if)
  ultimately show ?thesis using eq by (intro exI [of _ ?d] exI [of _ ?s]) auto
qed

end
