(* ===== verification/Cbs_Time.thy ===== *)
theory Cbs_Time
  imports Cbs Posix_Time
begin

text \<open>
  The readers for UTCTime and GeneralizedTime at the end of \<open>crypto/bytestring/cbs.c\<close>. Without
  time-zone offsets they accept exactly the texts that RFC 5280 allows, one text for each time.
\<close>

section \<open>The model\<close>

definition cbs_get_two_digits :: "cbs \<Rightarrow> int cbs_ret" where
  "cbs_get_two_digits cbs = cbs_bind (CBS_get_u8 cbs) (\<lambda>first_digit cbs.
     if \<not> OPENSSL_isdigit first_digit then (None, cbs)
     else cbs_bind (CBS_get_u8 cbs) (\<lambda>second_digit cbs.
       if \<not> OPENSSL_isdigit second_digit then (None, cbs)
       else (Some ((uint first_digit - 48) * 10 + (uint second_digit - 48)), cbs)))"

definition is_valid_day :: "int \<Rightarrow> int \<Rightarrow> int \<Rightarrow> bool" where
  "is_valid_day year month day \<longleftrightarrow>
     (if day < 1 then False
      else if month \<in> {1, 3, 5, 7, 8, 10, 12} then day \<le> 31
      else if month \<in> {4, 6, 9, 11} then day \<le> 30
      else if month = 2 then (if is_leap year then day \<le> 29 else day \<le> 28)
      else False)"

text \<open>The year, as \<open>is_gentime\<close> says.\<close>

definition cbs_time_year :: "bool \<Rightarrow> cbs \<Rightarrow> int cbs_ret" where
  "cbs_time_year is_gentime cbs =
     (if is_gentime then
        cbs_bind (cbs_get_two_digits cbs) (\<lambda>tmp cbs.
          let year = tmp * 100 in
          cbs_bind (cbs_get_two_digits cbs) (\<lambda>tmp cbs. (Some (year + tmp), cbs)))
      else
        cbs_bind (cbs_get_two_digits cbs) (\<lambda>tmp cbs.
          let year = 1900 + tmp;
              year = (if year < 1950 then year + 100 else year)
          in if year \<ge> 2050 then (None, cbs) else (Some year, cbs)))"

text \<open>Two digits with the test that follows them.\<close>

definition cbs_time_field :: "(int \<Rightarrow> bool) \<Rightarrow> cbs \<Rightarrow> int cbs_ret" where
  "cbs_time_field ok cbs = cbs_bind (cbs_get_two_digits cbs) (\<lambda>v cbs. if ok v then (Some v, cbs) else (None, cbs))"

text \<open>The offset in seconds after the sign or \<open>Z\<close>, and the test for the end of the input.\<close>

definition cbs_time_offset :: "bool \<Rightarrow> cbs \<Rightarrow> int option" where
  "cbs_time_offset allow_timezone_offset cbs =
     (case CBS_get_u8 cbs of
        (None, _) \<Rightarrow> None
      | (Some tz, copy) \<Rightarrow>
          if tz \<notin> {0x5a, 0x2b, 0x2d} then None
          else
            let offset_sign = (if tz = 0x2b then 1 else if tz = 0x2d then - 1 else 0 :: int) in
            (case (if offset_sign \<noteq> 0 then
                     if \<not> allow_timezone_offset then (None, copy)
                     else cbs_bind (cbs_time_field (\<lambda>v. v \<le> 23) copy) (\<lambda>offset_hours copy.
                       cbs_bind (cbs_time_field (\<lambda>v. v \<le> 59) copy) (\<lambda>offset_minutes copy.
                         (Some (offset_sign * (offset_hours * 3600 + offset_minutes * 60)), copy)))
                   else (Some 0, copy)) of
               (None, _) \<Rightarrow> None
             | (Some offset_seconds, copy) \<Rightarrow> if CBS_len copy \<noteq> 0 then None else Some offset_seconds))"

text \<open>
  The result: \<open>None\<close> for an overflow, \<open>Some None\<close> for the return value 0, and otherwise what is
  written to \<open>*out_tm\<close>, if \<open>out_tm\<close> is not \<open>NULL\<close>.
\<close>

definition CBS_parse_rfc5280_time_internal :: "cbs \<Rightarrow> bool \<Rightarrow> bool \<Rightarrow> bool \<Rightarrow> tm option option option" where
  "CBS_parse_rfc5280_time_internal cbs is_gentime allow_timezone_offset out_given =
     (case cbs_bind (cbs_time_year is_gentime cbs) (\<lambda>year copy.
           cbs_bind (cbs_time_field (\<lambda>month. \<not> (month < 1 \<or> month > 12)) copy) (\<lambda>month copy.
           cbs_bind (cbs_time_field (\<lambda>day. is_valid_day year month day) copy) (\<lambda>day copy.
           cbs_bind (cbs_time_field (\<lambda>hour. \<not> hour > 23) copy) (\<lambda>hour copy.
           cbs_bind (cbs_time_field (\<lambda>min. \<not> min > 59) copy) (\<lambda>min copy.
           cbs_bind (cbs_time_field (\<lambda>sec. \<not> sec > 59) copy) (\<lambda>sec copy.
             (Some \<lparr>tm_sec = sec, tm_min = min, tm_hour = hour, tm_mday = day, tm_mon = month - 1, tm_year = year - 1900\<rparr>, copy))))))) of
        (None, _) \<Rightarrow> Some None
      | (Some t, copy) \<Rightarrow>
          (case cbs_time_offset allow_timezone_offset copy of
             None \<Rightarrow> Some None
           | Some offset_seconds \<Rightarrow>
               if \<not> out_given then Some (Some None)
               else if offset_seconds \<noteq> 0
                    then map_option (map_option Some) (OPENSSL_gmtime_adj t 0 offset_seconds)
                    else Some (Some (Some t))))"

definition CBS_parse_generalized_time :: "cbs \<Rightarrow> bool \<Rightarrow> bool \<Rightarrow> tm option option option" where
  "CBS_parse_generalized_time cbs out_given allow_timezone_offset =
     CBS_parse_rfc5280_time_internal cbs True allow_timezone_offset out_given"

definition CBS_parse_utc_time :: "cbs \<Rightarrow> bool \<Rightarrow> bool \<Rightarrow> tm option option option" where
  "CBS_parse_utc_time cbs out_given allow_timezone_offset =
     CBS_parse_rfc5280_time_internal cbs False allow_timezone_offset out_given"

section \<open>The texts\<close>

definition digits2 :: "int \<Rightarrow> bytes" where
  "digits2 n = [of_int (48 + n div 10), of_int (48 + n mod 10)]"

definition time_fields :: "tm \<Rightarrow> bytes" where
  "time_fields t = digits2 (tm_mon t + 1) @ digits2 (tm_mday t) @ digits2 (tm_hour t) @ digits2 (tm_min t) @ digits2 (tm_sec t)"

definition gentime_text :: "tm \<Rightarrow> bytes" where
  "gentime_text t =
     (let year = tm_year t + 1900 in digits2 (year div 100) @ digits2 (year mod 100) @ time_fields t @ [0x5a])"

definition utctime_text :: "tm \<Rightarrow> bytes" where
  "utctime_text t = digits2 ((tm_year t + 1900) mod 100) @ time_fields t @ [0x5a]"

lemma digit_of_int: "0 \<le> n \<Longrightarrow> n \<le> 9 \<Longrightarrow> uint (of_int (48 + n) :: u8) = 48 + n"
  by (simp add: unsigned_of_int take_bit_eq_mod del: of_int_add)

lemma isdigit_uint: "OPENSSL_isdigit c \<longleftrightarrow> 48 \<le> uint c \<and> uint c \<le> 57"
  by (simp add: OPENSSL_isdigit_def word_le_def)

lemma get_two_digits_iff:
  "cbs_get_two_digits cbs = (Some n, rest) \<longleftrightarrow> 0 \<le> n \<and> n \<le> 99 \<and> cbs = digits2 n @ rest"
proof
  assume "cbs_get_two_digits cbs = (Some n, rest)"
  then obtain a b where c: "cbs = a # b # rest" "OPENSSL_isdigit a" "OPENSSL_isdigit b"
    "n = (uint a - 48) * 10 + (uint b - 48)"
    by (cases cbs; cases "tl cbs") (auto simp: cbs_get_two_digits_def split: if_splits)
  have e: "n = 10 * (uint a - 48) + (uint b - 48)" using c(4) by simp
  have b: "0 \<le> uint b - 48" "uint b - 48 < 10" using c(3) by (simp_all add: isdigit_uint)
  have "n div 10 = uint a - 48" "n mod 10 = uint b - 48" using int_div_pos_eq [OF e b] int_mod_pos_eq [OF e b] .
  then have "digits2 n = [a, b]" by (simp add: digits2_def)
  then show "0 \<le> n \<and> n \<le> 99 \<and> cbs = digits2 n @ rest" using c by (simp add: isdigit_uint)
next
  assume h: "0 \<le> n \<and> n \<le> 99 \<and> cbs = digits2 n @ rest"
  then have d: "0 \<le> n div 10" "n div 10 \<le> 9" "0 \<le> n mod 10" "n mod 10 \<le> 9"
    using le_div_iff [of 10 10 n] by (auto simp: pos_imp_zdiv_nonneg_iff not_le [symmetric])
  note u = digit_of_int [OF d(1,2)] digit_of_int [OF d(3,4)]
  have dg: "OPENSSL_isdigit (of_int (48 + n div 10))" "OPENSSL_isdigit (of_int (48 + n mod 10))"
    unfolding isdigit_uint u using d by simp_all
  have "(48 + n div 10 - 48) * 10 + (48 + n mod 10 - 48) = n" by simp
  then show "cbs_get_two_digits cbs = (Some n, rest)"
    using h dg unfolding cbs_get_two_digits_def digits2_def by (simp add: u del: of_int_add)
qed

lemma time_field_iff:
  "cbs_time_field ok cbs = (Some n, rest) \<longleftrightarrow> ok n \<and> 0 \<le> n \<and> n \<le> 99 \<and> cbs = digits2 n @ rest"
  by (auto simp: cbs_time_field_def cbs_bind_Some get_two_digits_iff split: if_splits)

lemma digits2_inject: "0 \<le> m \<Longrightarrow> m \<le> 99 \<Longrightarrow> 0 \<le> n \<Longrightarrow> n \<le> 99 \<Longrightarrow> digits2 m @ r = digits2 n @ s \<Longrightarrow> m = n \<and> r = s"
  using get_two_digits_iff [of "digits2 m @ r" m r] get_two_digits_iff [of "digits2 m @ r" n s] by simp

lemma valid_day_date: "0 \<le> y \<Longrightarrow> y \<le> 9999 \<Longrightarrow> is_valid_day y m d \<longleftrightarrow> is_valid_date y m d"
  by (auto simp: is_valid_day_def is_valid_date_def)

section \<open>What the readers accept\<close>

lemma time_offset_Z: "cbs_time_offset allow (0x5a # rest) = (if rest = [] then Some 0 else None)"
  by (simp add: cbs_time_offset_def CBS_len_def)

lemma time_offset_strict: "cbs_time_offset False cbs = Some off \<longleftrightarrow> off = 0 \<and> cbs = [0x5a]"
  by (cases cbs) (auto simp: cbs_time_offset_def CBS_len_def split: if_splits)

text \<open>The fields after the year, for a year that has been read.\<close>

definition time_body :: "int \<Rightarrow> cbs \<Rightarrow> tm cbs_ret" where
  "time_body year copy =
     cbs_bind (cbs_time_field (\<lambda>month. \<not> (month < 1 \<or> month > 12)) copy) (\<lambda>month copy.
     cbs_bind (cbs_time_field (\<lambda>day. is_valid_day year month day) copy) (\<lambda>day copy.
     cbs_bind (cbs_time_field (\<lambda>hour. \<not> hour > 23) copy) (\<lambda>hour copy.
     cbs_bind (cbs_time_field (\<lambda>min. \<not> min > 59) copy) (\<lambda>min copy.
     cbs_bind (cbs_time_field (\<lambda>sec. \<not> sec > 59) copy) (\<lambda>sec copy.
       (Some \<lparr>tm_sec = sec, tm_min = min, tm_hour = hour, tm_mday = day, tm_mon = month - 1, tm_year = year - 1900\<rparr>, copy))))))"

lemma valid_date_fields: "is_valid_date y m d \<Longrightarrow> 1 \<le> m \<and> m \<le> 12 \<and> 1 \<le> d \<and> d \<le> 31"
  by (auto simp: is_valid_date_def split: if_splits)

lemma time_body_iff:
  assumes "0 \<le> year" "year \<le> 9999"
  shows "time_body year cbs = (Some t, rest) \<longleftrightarrow>
    tm_year t = year - 1900 \<and> tm_ok t \<and> cbs = time_fields t @ rest"
proof
  assume "time_body year cbs = (Some t, rest)"
  then show "tm_year t = year - 1900 \<and> tm_ok t \<and> cbs = time_fields t @ rest"
    using assms unfolding time_body_def cbs_bind_Some time_field_iff
    by (auto simp: tm_ok_def is_valid_time_def valid_day_date time_fields_def)
next
  assume h: "tm_year t = year - 1900 \<and> tm_ok t \<and> cbs = time_fields t @ rest"
  then have "tm_year t + 1900 = year" by simp
  with h have v: "is_valid_date year (tm_mon t + 1) (tm_mday t)" "is_valid_time (tm_hour t) (tm_min t) (tm_sec t)"
    unfolding tm_ok_def by auto
  have f: "cbs_time_field ok (digits2 n @ r) = (Some n, r)" if "ok n" "0 \<le> n" "n \<le> 99" for ok n r
    using that by (simp add: time_field_iff)
  show "time_body year cbs = (Some t, rest)"
    using h v valid_date_fields [OF v(1)] assms
    by (cases t) (simp add: time_body_def time_fields_def f valid_day_date is_valid_time_def)
qed

lemma parse_time_eq:
  "CBS_parse_rfc5280_time_internal cbs is_gentime allow True =
      (case cbs_bind (cbs_time_year is_gentime cbs) time_body of
        (None, _) \<Rightarrow> Some None
      | (Some t, copy) \<Rightarrow>
          (case cbs_time_offset allow copy of None \<Rightarrow> Some None
           | Some offset_seconds \<Rightarrow>
               if offset_seconds \<noteq> 0 then map_option (map_option Some) (OPENSSL_gmtime_adj t 0 offset_seconds)
               else Some (Some (Some t))))"
  unfolding CBS_parse_rfc5280_time_internal_def time_body_def [abs_def] by (simp only: not_True_eq_False if_False)

lemma parse_time_body:
  "CBS_parse_rfc5280_time_internal cbs is_gentime False True = Some (Some (Some t)) \<longleftrightarrow>
     (\<exists>year copy. cbs_time_year is_gentime cbs = (Some year, copy) \<and> time_body year copy = (Some t, [0x5a]))"
proof -
  have "CBS_parse_rfc5280_time_internal cbs is_gentime False True = Some (Some (Some t)) \<longleftrightarrow>
      cbs_bind (cbs_time_year is_gentime cbs) time_body = (Some t, [0x5a])"
    unfolding parse_time_eq by (auto simp: time_offset_strict time_offset_Z split: option.splits prod.splits)
  then show ?thesis by (simp add: cbs_bind_Some)
qed

theorem parse_generalized_time_iff:
  "CBS_parse_generalized_time cbs True False = Some (Some (Some t)) \<longleftrightarrow> tm_ok t \<and> cbs = gentime_text t"
proof -
  have y: "cbs_time_year True cbs = (Some year, copy) \<longleftrightarrow>
      0 \<le> year \<and> year \<le> 9999 \<and> cbs = digits2 (year div 100) @ digits2 (year mod 100) @ copy" for year copy
  proof
    assume "cbs_time_year True cbs = (Some year, copy)"
    then obtain a b where ab: "0 \<le> a" "a \<le> 99" "0 \<le> b" "b \<le> 99" "cbs = digits2 a @ digits2 b @ copy" "year = a * 100 + b"
      by (auto simp: cbs_time_year_def cbs_bind_Some get_two_digits_iff)
    have e: "year = 100 * a + b" "b < 100" using ab by simp_all
    show "0 \<le> year \<and> year \<le> 9999 \<and> cbs = digits2 (year div 100) @ digits2 (year mod 100) @ copy"
      using ab int_div_pos_eq [OF e(1) ab(3) e(2)] int_mod_pos_eq [OF e(1) ab(3) e(2)] by simp
  next
    assume h: "0 \<le> year \<and> year \<le> 9999 \<and> cbs = digits2 (year div 100) @ digits2 (year mod 100) @ copy"
    then have "0 \<le> year div 100" "year div 100 \<le> 99"
      using le_div_iff [of 100 100 year] by (auto simp: pos_imp_zdiv_nonneg_iff not_le [symmetric])
    moreover have "year mod 100 \<le> 99" using pos_mod_bound [of 100 year] by linarith
    ultimately have "cbs_get_two_digits cbs = (Some (year div 100), digits2 (year mod 100) @ copy)"
      "cbs_get_two_digits (digits2 (year mod 100) @ copy) = (Some (year mod 100), copy)"
      using h by (simp_all add: get_two_digits_iff)
    then show "cbs_time_year True cbs = (Some year, copy)" by (simp add: cbs_time_year_def)
  qed
  have r: "tm_ok t \<Longrightarrow> 0 \<le> tm_year t + 1900 \<and> tm_year t + 1900 \<le> 9999"
    by (auto simp: tm_ok_def valid_date_march)
  show ?thesis unfolding CBS_parse_generalized_time_def parse_time_body y
    using r by (auto simp: time_body_iff gentime_text_def Let_def)
qed

lemma time_year_utc_iff:
  "cbs_time_year False cbs = (Some year, copy) \<longleftrightarrow>
      1950 \<le> year \<and> year \<le> 2049 \<and> cbs = digits2 (year mod 100) @ copy"
proof
  assume "cbs_time_year False cbs = (Some year, copy)"
  then obtain a where a: "0 \<le> a" "a \<le> 99" "cbs = digits2 a @ copy" "year = (if a < 50 then a + 2000 else a + 1900)"
    by (fastforce simp: cbs_time_year_def cbs_bind_Some get_two_digits_iff Let_def split: if_splits)
  have e: "year = 100 * (if a < 50 then 20 else 19) + a" "a < 100" using a by simp_all
  show "1950 \<le> year \<and> year \<le> 2049 \<and> cbs = digits2 (year mod 100) @ copy"
    using a int_mod_pos_eq [OF e(1) a(1) e(2)] by (auto split: if_splits)
next
  assume h: "1950 \<le> year \<and> year \<le> 2049 \<and> cbs = digits2 (year mod 100) @ copy"
  have "year mod 100 \<le> 99" using pos_mod_bound [of 100 year] by linarith
  then have g: "cbs_get_two_digits cbs = (Some (year mod 100), copy)" using h by (simp add: get_two_digits_iff)
  have "year mod 100 = (if year < 2000 then year - 1900 else year - 2000)"
    using h int_mod_pos_eq [of year 100 19 "year - 1900"] int_mod_pos_eq [of year 100 20 "year - 2000"] by auto
  then show "cbs_time_year False cbs = (Some year, copy)" using g h by (auto simp: cbs_time_year_def Let_def)
qed

theorem parse_utc_time_iff:
  "CBS_parse_utc_time cbs True False = Some (Some (Some t)) \<longleftrightarrow>
     tm_ok t \<and> 1950 \<le> tm_year t + 1900 \<and> tm_year t + 1900 \<le> 2049 \<and> cbs = utctime_text t"
  unfolding CBS_parse_utc_time_def parse_time_body time_year_utc_iff
  by (auto simp: time_body_iff utctime_text_def intro!: exI [of _ "tm_year t + 1900"])

section \<open>Time-zone offsets\<close>

text \<open>
  A UTCTime with an offset, where offsets are allowed: the time is that of its fields moved by
  the offset, later for \<open>+\<close> and earlier for \<open>-\<close>.
\<close>

lemma time_offset_sign:
  assumes "0 \<le> h" "h \<le> 23" "0 \<le> m" "m \<le> 59"
  shows "cbs_time_offset True ((if neg then 0x2d else 0x2b) # digits2 h @ digits2 m) =
    Some ((if neg then - 1 else 1) * (h * 3600 + m * 60))"
proof -
  have "cbs_time_field ok (digits2 n @ r) = (Some n, r)" if "ok n" "0 \<le> n" "n \<le> 99" for ok n r
    using that by (simp add: time_field_iff)
  from this [of "\<lambda>v. v \<le> 23" h "digits2 m"] this [of "\<lambda>v. v \<le> 59" m "[]"] assms show ?thesis
    by (simp add: cbs_time_offset_def Let_def CBS_len_def)
qed

theorem parse_utc_time_offset:
  assumes t: "OPENSSL_tm_to_posix t = Some (Some x)" and y: "1950 \<le> tm_year t + 1900" "tm_year t + 1900 \<le> 2049"
    and o: "0 \<le> h" "h \<le> 23" "0 \<le> m" "m \<le> 59"
  shows "CBS_parse_utc_time (digits2 ((tm_year t + 1900) mod 100) @ time_fields t @ (if neg then 0x2d else 0x2b) # digits2 h @ digits2 m) True True =
    Some (map_option Some (OPENSSL_posix_to_tm (x + (if neg then - 1 else 1) * (h * 3600 + m * 60))))"
proof -
  let ?off = "(if neg then - 1 else 1) * (h * 3600 + m * 60)"
  let ?tz = "(if neg then 0x2d else 0x2b) # digits2 h @ digits2 m"
  let ?cbs = "digits2 ((tm_year t + 1900) mod 100) @ time_fields t @ ?tz"
  have ok: "tm_ok t" using t tm_to_posix_ok by blast
  have "cbs_time_year False ?cbs = (Some (tm_year t + 1900), time_fields t @ ?tz)"
    using y by (simp add: time_year_utc_iff)
  moreover have "time_body (tm_year t + 1900) (time_fields t @ ?tz) = (Some t, ?tz)"
    using y ok by (simp add: time_body_iff)
  ultimately have b: "cbs_bind (cbs_time_year False ?cbs) time_body = (Some t, ?tz)" by simp
  have p: "CBS_parse_utc_time ?cbs True True =
      (if ?off \<noteq> 0 then map_option (map_option Some) (OPENSSL_gmtime_adj t 0 ?off) else Some (Some (Some t)))"
    unfolding CBS_parse_utc_time_def parse_time_eq b prod.case option.case time_offset_sign [OF o] ..
  have "OPENSSL_gmtime_adj t 0 ?off = Some (OPENSSL_posix_to_tm (x + ?off))"
    using gmtime_adj_ok [OF t, of 0 ?off] o by simp
  moreover have "OPENSSL_posix_to_tm x = Some t" using t by (simp add: tm_to_posix_iff)
  ultimately show ?thesis unfolding p by auto
qed

end
