(* ===== verification/Constant_Time.thy ===== *)
theory Constant_Time
  imports BSSL_Prelude
begin

text \<open>
  The branch-free comparisons and selections of \<open>crypto/internal.h\<close>, on the 64-bit
  \<open>crypto_word_t\<close>. Each is shown equal to the branching definition that its comment states;
  \<open>value_barrier_w\<close> is the identity on values.
\<close>

section \<open>The model\<close>

type_synonym crypto_word = u64

abbreviation CONSTTIME_TRUE_W :: crypto_word where "CONSTTIME_TRUE_W \<equiv> NOT 0"
abbreviation CONSTTIME_FALSE_W :: crypto_word where "CONSTTIME_FALSE_W \<equiv> 0"

definition value_barrier_w :: "crypto_word \<Rightarrow> crypto_word" where
  "value_barrier_w a = a"

definition constant_time_msb_w :: "crypto_word \<Rightarrow> crypto_word" where
  "constant_time_msb_w a = 0 - drop_bit (8 * 8 - 1) a"

definition constant_time_lt_w :: "crypto_word \<Rightarrow> crypto_word \<Rightarrow> crypto_word" where
  "constant_time_lt_w a b = constant_time_msb_w (a XOR ((a XOR b) OR ((a - b) XOR a)))"

definition constant_time_lt_8 :: "crypto_word \<Rightarrow> crypto_word \<Rightarrow> u8" where
  "constant_time_lt_8 a b = ucast (constant_time_lt_w a b)"

definition constant_time_ge_w :: "crypto_word \<Rightarrow> crypto_word \<Rightarrow> crypto_word" where
  "constant_time_ge_w a b = NOT (constant_time_lt_w a b)"

definition constant_time_ge_8 :: "crypto_word \<Rightarrow> crypto_word \<Rightarrow> u8" where
  "constant_time_ge_8 a b = ucast (constant_time_ge_w a b)"

definition constant_time_is_zero_w :: "crypto_word \<Rightarrow> crypto_word" where
  "constant_time_is_zero_w a = constant_time_msb_w (NOT a AND (a - 1))"

definition constant_time_is_zero_8 :: "crypto_word \<Rightarrow> u8" where
  "constant_time_is_zero_8 a = ucast (constant_time_is_zero_w a)"

definition constant_time_eq_w :: "crypto_word \<Rightarrow> crypto_word \<Rightarrow> crypto_word" where
  "constant_time_eq_w a b = constant_time_is_zero_w (a XOR b)"

definition constant_time_eq_8 :: "crypto_word \<Rightarrow> crypto_word \<Rightarrow> u8" where
  "constant_time_eq_8 a b = ucast (constant_time_eq_w a b)"

text \<open>An \<open>int\<close> converts to \<open>crypto_word_t\<close> by sign extension.\<close>

definition constant_time_eq_int :: "32 word \<Rightarrow> 32 word \<Rightarrow> crypto_word" where
  "constant_time_eq_int a b = constant_time_eq_w (scast a) (scast b)"

definition constant_time_eq_int_8 :: "32 word \<Rightarrow> 32 word \<Rightarrow> u8" where
  "constant_time_eq_int_8 a b = constant_time_eq_8 (scast a) (scast b)"

definition constant_time_select_w :: "crypto_word \<Rightarrow> crypto_word \<Rightarrow> crypto_word \<Rightarrow> crypto_word" where
  "constant_time_select_w msk a b = (let msk = value_barrier_w msk in (msk AND a) OR (NOT msk AND b))"

definition constant_time_select_8 :: "crypto_word \<Rightarrow> u8 \<Rightarrow> u8 \<Rightarrow> u8" where
  "constant_time_select_8 msk a b = (let m = ucast (value_barrier_w msk) in (m AND a) OR (NOT m AND b))"

definition constant_time_select_int :: "crypto_word \<Rightarrow> 32 word \<Rightarrow> 32 word \<Rightarrow> 32 word" where
  "constant_time_select_int msk a b = ucast (constant_time_select_w msk (scast a) (scast b))"

text \<open>The \<open>n\<close> bytes at \<open>dst\<close> after the call; \<open>dst\<close> and \<open>src\<close> do not overlap and have the same length.\<close>

definition constant_time_conditional_memcpy :: "bytes \<Rightarrow> bytes \<Rightarrow> crypto_word \<Rightarrow> bytes" where
  "constant_time_conditional_memcpy dst src msk = map2 (\<lambda>s d. constant_time_select_8 msk s d) src dst"

definition constant_time_conditional_memxor :: "bytes \<Rightarrow> bytes \<Rightarrow> crypto_word \<Rightarrow> bytes" where
  "constant_time_conditional_memxor dst src msk = map2 (\<lambda>s d. d XOR ucast (value_barrier_w msk AND ucast s)) src dst"

section \<open>What they compute\<close>

lemma msb_iff: "bit (a::u64) 63 \<longleftrightarrow> 2 ^ 63 \<le> unat a"
proof -
  have "bit a 63 \<longleftrightarrow> bit (unat a) 63" by (simp add: bit_unsigned_iff)
  then have "bit a 63 \<longleftrightarrow> odd (unat a div 2 ^ 63)" by (simp only: bit_iff_odd)
  moreover have "unat a div 2 ^ 63 < 2" using unat_lt_power [of a] by (intro less_mult_imp_div_less) simp
  moreover have "unat a div 2 ^ 63 = 0 \<longleftrightarrow> unat a < 2 ^ 63" by (simp add: div_eq_0_iff)
  ultimately show ?thesis by (cases "unat a div 2 ^ 63 = 0") (auto simp: not_less less_2_cases_iff)
qed

lemma constant_time_msb_w_eq: "constant_time_msb_w a = (if bit a 63 then CONSTTIME_TRUE_W else CONSTTIME_FALSE_W)"
proof -
  have "drop_bit 63 a = (if bit a 63 then 1 else 0)"
  proof (rule word_eq_unatI)
    have "unat a div 2 ^ 63 < 2" using unat_lt_power [of a] by (intro less_mult_imp_div_less) simp
    moreover have "unat a div 2 ^ 63 = 0 \<longleftrightarrow> unat a < 2 ^ 63" by (simp add: div_eq_0_iff)
    ultimately show "unat (drop_bit 63 a) = unat (if bit a 63 then 1 else 0 :: u64)"
      unfolding unat_drop_bit msb_iff by (auto simp: not_le)
  qed
  then show ?thesis by (simp add: constant_time_msb_w_def)
qed

lemma unat_diff:
  fixes a b :: "'a::len word"
  shows "unat (a - b) = (if b \<le> a then unat a - unat b else 2 ^ LENGTH('a) + unat a - unat b)"
proof -
  let ?m = "2 ^ LENGTH('a) :: nat"
  have "unat (a - b) + unat b = unat a \<or> unat (a - b) + unat b = unat a + ?m"
  proof -
    have "unat a = (unat (a - b) + unat b) mod ?m" using unat_word_ariths(1) [of "a - b" b] by simp
    moreover have "unat (a - b) + unat b < 2 * ?m" using unat_lt_power [of "a - b"] unat_lt_power [of b] by linarith
    ultimately show ?thesis by (cases "unat (a - b) + unat b < ?m") (auto simp: le_mod_geq)
  qed
  note d = this unat_lt_power [of a] unat_lt_power [of b] unat_lt_power [of "a - b"]
  show ?thesis
  proof (cases "b \<le> a")
    case True
    then have "unat b \<le> unat a" by (simp add: word_le_nat_alt)
    with d have "unat (a - b) = unat a - unat b" by linarith
    then show ?thesis using True by simp
  next
    case False
    then have "unat a < unat b" by (simp add: word_le_nat_alt)
    with d have "unat (a - b) = ?m + unat a - unat b" by linarith
    then show ?thesis using False by simp
  qed
qed

theorem constant_time_lt_w_eq: "constant_time_lt_w a b = (if a < b then CONSTTIME_TRUE_W else CONSTTIME_FALSE_W)"
proof -
  have "bit (a XOR ((a XOR b) OR ((a - b) XOR a))) 63 \<longleftrightarrow> (if bit a 63 = bit b 63 then bit (a - b) 63 else bit b 63)"
    by (simp add: bit_simps) blast
  also have "\<dots> \<longleftrightarrow> a < b"
    unfolding msb_iff unat_diff using unat_lt_power [of a] unat_lt_power [of b]
    by (auto simp: word_le_nat_alt word_less_nat_alt)
  finally show ?thesis by (simp add: constant_time_lt_w_def constant_time_msb_w_eq)
qed

lemma constant_time_ge_w_eq: "constant_time_ge_w a b = (if a \<ge> b then CONSTTIME_TRUE_W else CONSTTIME_FALSE_W)"
  by (simp add: constant_time_ge_w_def constant_time_lt_w_eq not_less leD)

lemma constant_time_is_zero_w_eq: "constant_time_is_zero_w a = (if a = 0 then CONSTTIME_TRUE_W else CONSTTIME_FALSE_W)"
proof -
  have "bit (NOT a AND (a - 1)) 63 \<longleftrightarrow> \<not> bit a 63 \<and> bit (a - 1) 63" by (simp add: bit_simps)
  also have "\<dots> \<longleftrightarrow> a = 0"
    unfolding msb_iff unat_diff by (auto simp: word_le_nat_alt word_unat_eq_iff)
  finally show ?thesis by (simp add: constant_time_is_zero_w_def constant_time_msb_w_eq)
qed

lemma constant_time_eq_w_eq: "constant_time_eq_w a b = (if a = b then CONSTTIME_TRUE_W else CONSTTIME_FALSE_W)"
proof -
  have "(a XOR b) XOR b = a" by (simp add: xor.assoc)
  then have "a XOR b = 0 \<longleftrightarrow> a = b" by (metis xor.left_neutral xor_self_eq)
  then show ?thesis by (simp add: constant_time_eq_w_def constant_time_is_zero_w_eq)
qed

lemma ucast_true: "ucast (- 1 :: u64) = (- 1 :: u8)" "(- 1 :: u8) = 0xff"
  by code_simp+

lemma ucast_scast: "ucast (scast (i :: 32 word) :: u64) = i"
  by (rule bit_eqI) (auto simp: bit_simps)

lemma u8_u64_id: "ucast (ucast (a :: u8) :: u64) = a"
  by (rule bit_eqI) (auto simp: bit_simps)

lemma constant_time_8_eq:
  "constant_time_lt_8 a b = (if a < b then 0xff else 0)"
  "constant_time_ge_8 a b = (if a \<ge> b then 0xff else 0)"
  "constant_time_is_zero_8 a = (if a = 0 then 0xff else 0)"
  "constant_time_eq_8 a b = (if a = b then 0xff else 0)"
  by (simp_all add: constant_time_lt_8_def constant_time_ge_8_def constant_time_is_zero_8_def constant_time_eq_8_def
      constant_time_lt_w_eq constant_time_ge_w_eq constant_time_is_zero_w_eq constant_time_eq_w_eq ucast_true)

lemma constant_time_select_eq:
  "constant_time_select_w (if c then CONSTTIME_TRUE_W else CONSTTIME_FALSE_W) x y = (if c then x else y)"
  "constant_time_select_8 (if c then CONSTTIME_TRUE_W else CONSTTIME_FALSE_W) p q = (if c then p else q)"
  "constant_time_select_int (if c then CONSTTIME_TRUE_W else CONSTTIME_FALSE_W) i j = (if c then i else j)"
  by (simp_all add: constant_time_select_w_def constant_time_select_8_def constant_time_select_int_def value_barrier_w_def Let_def
      ucast_true(1) ucast_scast)

lemma constant_time_eq_int_eq:
  "constant_time_eq_int i j = (if i = j then CONSTTIME_TRUE_W else CONSTTIME_FALSE_W)"
  "constant_time_eq_int_8 i j = (if i = j then 0xff else 0)"
proof -
  have "(scast i :: u64) = scast j \<longleftrightarrow> i = j" using ucast_scast by metis
  then show "constant_time_eq_int i j = (if i = j then CONSTTIME_TRUE_W else CONSTTIME_FALSE_W)"
    "constant_time_eq_int_8 i j = (if i = j then 0xff else 0)"
    by (simp_all add: constant_time_eq_int_def constant_time_eq_int_8_def constant_time_eq_w_eq constant_time_8_eq)
qed

lemma constant_time_memcpy_eq:
  "length dst = length src \<Longrightarrow>
   constant_time_conditional_memcpy dst src (if c then CONSTTIME_TRUE_W else CONSTTIME_FALSE_W) = (if c then src else dst)"
  unfolding constant_time_conditional_memcpy_def constant_time_select_eq
  by (rule nth_equalityI) auto

lemma constant_time_memxor_eq:
  "length dst = length src \<Longrightarrow>
   constant_time_conditional_memxor dst src (if c then CONSTTIME_TRUE_W else CONSTTIME_FALSE_W) =
     (if c then map2 (XOR) dst src else dst)"
  unfolding constant_time_conditional_memxor_def value_barrier_w_def
  by (rule nth_equalityI) (auto simp: u8_u64_id)

end
