(* ===== verification/Base64.thy ===== *)
theory Base64
  imports Constant_Time
begin

text \<open>
  Base64 as in \<open>crypto/base64/base64.c\<close>: the constant-time character conversions, the one-shot
  encoder and decoder, and the streaming ones, which keep a record \<open>EVP_ENCODE_CTX\<close>. A pointer
  \<open>out\<close> that the C code advances is modelled by the bytes written through it, up to the final
  \<open>NUL\<close>, which is not part of the output.
\<close>

section \<open>Characters\<close>

definition constant_time_lt_args_8 :: "u8 \<Rightarrow> u8 \<Rightarrow> u8" where
  "constant_time_lt_args_8 a b = (let aw = ucast a; bw = ucast b in ucast (constant_time_msb_w (aw - bw)))"

definition constant_time_in_range_8 :: "u8 \<Rightarrow> u8 \<Rightarrow> u8 \<Rightarrow> u8" where
  "constant_time_in_range_8 a mn mx = (let a = a - mn in constant_time_lt_args_8 a (mx - mn + 1))"

definition conv_bin2ascii :: "u8 \<Rightarrow> u8" where
  "conv_bin2ascii a =
     (let a = a AND 0x3f;
          ret = constant_time_select_8 (ucast (constant_time_eq_8 (ucast a) 62)) 0x2b 0x2f;
          ret = constant_time_select_8 (ucast (constant_time_lt_args_8 a 62)) (a - 52 + 0x30) ret;
          ret = constant_time_select_8 (ucast (constant_time_lt_args_8 a 52)) (a - 26 + 0x61) ret;
          ret = constant_time_select_8 (ucast (constant_time_lt_args_8 a 26)) (a + 0x41) ret
      in ret)"

definition base64_ascii_to_bin :: "u8 \<Rightarrow> u8" where
  "base64_ascii_to_bin a =
     (let is_upper = constant_time_in_range_8 a 0x41 0x5a;
          is_lower = constant_time_in_range_8 a 0x61 0x7a;
          is_digit = constant_time_in_range_8 a 0x30 0x39;
          is_plus = constant_time_eq_8 (ucast a) 0x2b;
          is_slash = constant_time_eq_8 (ucast a) 0x2f;
          is_equals = constant_time_eq_8 (ucast a) 0x3d;
          ret = 0;
          ret = ret OR (is_upper AND (a - 0x41));
          ret = ret OR (is_lower AND (a - 0x61 + 26));
          ret = ret OR (is_digit AND (a - 0x30 + 52));
          ret = ret OR (is_plus AND 62);
          ret = ret OR (is_slash AND 63);
          is_valid = is_upper OR is_lower OR is_digit OR is_plus OR is_slash OR is_equals;
          ret = ret OR NOT is_valid
      in ret)"

section \<open>Encoding\<close>

text \<open>\<open>size_t\<close> arithmetic of \<open>EVP_EncodedLength\<close>.\<close>

definition EVP_EncodedLength :: "u64 \<Rightarrow> u64 option" where
  "EVP_EncodedLength len =
     (if len + 2 < len then None
      else let len = (len + 2) div 3
        in if drop_bit 2 (push_bit 2 len) \<noteq> len then None
           else let len = push_bit 2 len
             in if len + 1 < len then None else Some (len + 1))"

text \<open>The four characters of a 24-bit group.\<close>

definition b64_char :: "u32 \<Rightarrow> nat \<Rightarrow> u8" where
  "b64_char l k = conv_bin2ascii (ucast (drop_bit k l))"

fun EVP_EncodeBlock :: "bytes \<Rightarrow> bytes" where
  "EVP_EncodeBlock [] = []"
| "EVP_EncodeBlock [x] =
     (let l = push_bit 16 (ucast x)
      in [b64_char l 18, b64_char l 12, 0x3d, 0x3d])"
| "EVP_EncodeBlock [x, y] =
     (let l = push_bit 16 (ucast x) OR push_bit 8 (ucast y)
      in [b64_char l 18, b64_char l 12, b64_char l 6, 0x3d])"
| "EVP_EncodeBlock (x # y # z # src) =
     (let l = push_bit 16 (ucast x) OR push_bit 8 (ucast y) OR ucast z
      in [b64_char l 18, b64_char l 12, b64_char l 6, b64_char l 0] @ EVP_EncodeBlock src)"

record EVP_ENCODE_CTX =
  data_used :: nat
  ctx_data :: bytes
  eof_seen :: bool
  error_encountered :: bool

definition EVP_EncodeInit :: EVP_ENCODE_CTX where
  "EVP_EncodeInit = \<lparr>data_used = 0, ctx_data = replicate 48 0, eof_seen = False, error_encountered = False\<rparr>"

definition EVP_DecodeInit :: EVP_ENCODE_CTX where
  "EVP_DecodeInit = \<lparr>data_used = 0, ctx_data = replicate 48 0, eof_seen = False, error_encountered = False\<rparr>"

text \<open>
  \<open>memcpy(&ctx->data[i], bs, n)\<close>; \<open>None\<close> for a write outside the array.
\<close>

definition data_write :: "EVP_ENCODE_CTX \<Rightarrow> nat \<Rightarrow> bytes \<Rightarrow> EVP_ENCODE_CTX option" where
  "data_write ctx i bs =
     (if i + length bs \<le> length (ctx_data ctx)
      then Some (ctx\<lparr>ctx_data := take i (ctx_data ctx) @ bs @ drop (i + length bs) (ctx_data ctx)\<rparr>) else None)"

text \<open>
  The loop over full lines of 48 bytes, with the output so far: \<open>Inl\<close> where it returns early with
  \<open>*out_len = 0\<close>.
\<close>

function encode_lines :: "bytes \<Rightarrow> bytes \<Rightarrow> bytes + (bytes \<times> bytes)" where
  "encode_lines out inp =
     (if length inp \<ge> 48 then
        let encoded = EVP_EncodeBlock (take 48 inp);
            total = length out;
            out = out @ encoded @ [0x0a]
        in if size_add (size_add total (length encoded)) 1 < total then Inl out
           else encode_lines out (drop 48 inp)
      else Inr (out, inp))"
  by pat_completeness auto
termination
  by (relation "measure (\<lambda>(out, inp). length inp)") auto

declare encode_lines.simps [simp del]

text \<open>The result: the context, the bytes written and \<open>*out_len\<close>; \<open>None\<close> for a failed \<open>assert\<close>.\<close>

definition EVP_EncodeUpdate :: "EVP_ENCODE_CTX \<Rightarrow> bytes \<Rightarrow> (EVP_ENCODE_CTX \<times> bytes \<times> int) option" where
  "EVP_EncodeUpdate ctx inp =
     (if length inp = 0 then Some (ctx, [], 0)
      else if \<not> data_used ctx < 48 then None
      else if 48 - data_used ctx > length inp then
        map_option (\<lambda>ctx. (ctx\<lparr>data_used := data_used ctx + length inp\<rparr>, [], 0)) (data_write ctx (data_used ctx) inp)
      else
        case (if data_used ctx \<noteq> 0 then
                let todo = 48 - data_used ctx
                in map_option (\<lambda>ctx. (ctx\<lparr>data_used := 0\<rparr>, EVP_EncodeBlock (ctx_data ctx) @ [0x0a], drop todo inp))
                     (data_write ctx (data_used ctx) (take todo inp))
              else Some (ctx, [], inp)) of
          None \<Rightarrow> None
        | Some (ctx, out, inp) \<Rightarrow>
            (case encode_lines out inp of
               Inl out \<Rightarrow> Some (ctx, out, 0)
             | Inr (out, inp) \<Rightarrow>
                 (case (if length inp \<noteq> 0 then data_write ctx 0 inp else Some ctx) of
                    None \<Rightarrow> None
                  | Some ctx \<Rightarrow>
                      Some (ctx\<lparr>data_used := length inp\<rparr>, out,
                        if (of_nat (length out) :: u64) > 0x7fffffff then 0 else int (length out)))))"

definition EVP_EncodeFinal :: "EVP_ENCODE_CTX \<Rightarrow> EVP_ENCODE_CTX \<times> bytes \<times> int" where
  "EVP_EncodeFinal ctx =
     (if data_used ctx = 0 then (ctx, [], 0)
      else let out = EVP_EncodeBlock (take (data_used ctx) (ctx_data ctx)) @ [0x0a]
        in (ctx\<lparr>data_used := 0\<rparr>, out, int (length out)))"

section \<open>Decoding\<close>

definition EVP_DecodedLength :: "nat \<Rightarrow> nat option" where
  "EVP_DecodedLength len = (if len mod 4 \<noteq> 0 then None else Some ((len div 4) * 3))"

definition base64_decode_quad :: "u8 \<Rightarrow> u8 \<Rightarrow> u8 \<Rightarrow> u8 \<Rightarrow> bytes option" where
  "base64_decode_quad i0 i1 i2 i3 =
     (let a = base64_ascii_to_bin i0; b = base64_ascii_to_bin i1;
          c = base64_ascii_to_bin i2; d = base64_ascii_to_bin i3
      in if a = 0xff \<or> b = 0xff \<or> c = 0xff \<or> d = 0xff then None
         else
           let v = push_bit 18 (ucast a) OR push_bit 12 (ucast b) OR push_bit 6 (ucast c) OR (ucast d :: u32);
               padding_pattern = (i0 = 0x3d, i1 = 0x3d, i2 = 0x3d, i3 = 0x3d)
           in if padding_pattern = (False, False, False, False) then
                Some [ucast (drop_bit 16 v), ucast (drop_bit 8 v), ucast v]
              else if padding_pattern = (False, False, False, True) then
                Some [ucast (drop_bit 16 v), ucast (drop_bit 8 v)]
              else if padding_pattern = (False, False, True, True) then
                Some [ucast (drop_bit 16 v)]
              else None)"

text \<open>
  The loop of \<open>EVP_DecodeUpdate\<close>, with the bytes written so far: \<open>Inl\<close> where it returns \<open>-1\<close>.
  \<open>None\<close> is a write outside \<open>ctx->data\<close>.
\<close>

definition is_space :: "u8 \<Rightarrow> bool" where
  "is_space c \<longleftrightarrow> c \<in> {0x20, 0x09, 0x0d, 0x0a}"

fun decode_loop :: "EVP_ENCODE_CTX \<Rightarrow> bytes \<Rightarrow> bytes \<Rightarrow> ((EVP_ENCODE_CTX \<times> bytes) + (EVP_ENCODE_CTX \<times> bytes)) option" where
  "decode_loop ctx out [] = Some (Inr (ctx, out))"
| "decode_loop ctx out (c # inp) =
     (if is_space c then decode_loop ctx out inp
      else if eof_seen ctx then Some (Inl (ctx\<lparr>error_encountered := True\<rparr>, out))
      else case data_write ctx (data_used ctx) [c] of
          None \<Rightarrow> None
        | Some ctx \<Rightarrow>
            let ctx = ctx\<lparr>data_used := data_used ctx + 1\<rparr>
            in if data_used ctx = 4 then
                 (case base64_decode_quad (ctx_data ctx ! 0) (ctx_data ctx ! 1) (ctx_data ctx ! 2) (ctx_data ctx ! 3) of
                    None \<Rightarrow> Some (Inl (ctx\<lparr>error_encountered := True\<rparr>, out))
                  | Some bs \<Rightarrow>
                      let ctx = ctx\<lparr>data_used := 0\<rparr>;
                          ctx = (if length bs < 3 then ctx\<lparr>eof_seen := True\<rparr> else ctx)
                      in decode_loop ctx (out @ bs) inp)
               else decode_loop ctx out inp)"

text \<open>The context, the bytes written, \<open>*out_len\<close> and the return value.\<close>

definition EVP_DecodeUpdate :: "EVP_ENCODE_CTX \<Rightarrow> bytes \<Rightarrow> (EVP_ENCODE_CTX \<times> bytes \<times> int \<times> int) option" where
  "EVP_DecodeUpdate ctx inp =
     (if error_encountered ctx then Some (ctx, [], 0, - 1)
      else case decode_loop ctx [] inp of
          None \<Rightarrow> None
        | Some (Inl (ctx, out)) \<Rightarrow> Some (ctx, out, 0, - 1)
        | Some (Inr (ctx, out)) \<Rightarrow>
            if (of_nat (length out) :: u64) > 0x7fffffff then Some (ctx\<lparr>error_encountered := True\<rparr>, out, 0, - 1)
            else Some (ctx, out, int (length out), if eof_seen ctx then 0 else 1))"

definition EVP_DecodeFinal :: "EVP_ENCODE_CTX \<Rightarrow> int" where
  "EVP_DecodeFinal ctx = (if error_encountered ctx \<or> data_used ctx \<noteq> 0 then - 1 else 1)"

fun decode_quads :: "bytes \<Rightarrow> bytes \<Rightarrow> bytes option" where
  "decode_quads out (a # b # c # d # inp) =
     (case base64_decode_quad a b c d of
        None \<Rightarrow> None
      | Some bs \<Rightarrow> if length bs \<noteq> 3 \<and> inp \<noteq> [] then None else decode_quads (out @ bs) inp)"
| "decode_quads out _ = Some out"

definition EVP_DecodeBase64 :: "nat \<Rightarrow> bytes \<Rightarrow> bytes option" where
  "EVP_DecodeBase64 max_out inp =
     (if length inp mod 4 \<noteq> 0 then None
      else case EVP_DecodedLength (length inp) of
          None \<Rightarrow> None
        | Some max_len \<Rightarrow> if max_out < max_len then None else decode_quads [] inp)"

text \<open>The bytes at \<open>dst\<close>, whose number is the return value; \<open>None\<close> for \<open>-1\<close>.\<close>

definition EVP_DecodeBlock :: "bytes \<Rightarrow> bytes option" where
  "EVP_DecodeBlock src =
     (let src = dropWhile (\<lambda>c. c = 0x20 \<or> c = 0x09) src;
          src = rev (dropWhile is_space (rev src))
      in case EVP_DecodedLength (length src) of
           None \<Rightarrow> None
         | Some dst_len \<Rightarrow>
             if (of_nat dst_len :: u64) > 0x7fffffff then None
             else case EVP_DecodeBase64 dst_len src of
                 None \<Rightarrow> None
               | Some dst \<Rightarrow> Some (dst @ replicate ((3 - length dst mod 3) mod 3) 0))"

section \<open>The alphabet\<close>

lemma constant_time_lt_args_8_eq: "constant_time_lt_args_8 a b = (if a < b then - 1 else 0)"
proof -
  have u: "unat (ucast c :: u64) = unat c" for c :: u8 by (simp add: unat_ucast_le)
  have "bit ((ucast a :: u64) - ucast b) 63 \<longleftrightarrow> a < b"
  proof (cases "b \<le> a")
    case True
    then have "unat ((ucast a :: u64) - ucast b) = unat a - unat b" "\<not> a < b"
      by (simp_all add: unat_diff u word_le_nat_alt word_less_nat_alt)
    moreover have "\<not> 2 ^ 63 \<le> unat a - unat b"
    proof -
      have "unat a - unat b < 256" using diff_le_self unat_u8_less by (rule le_less_trans)
      then show ?thesis by simp
    qed
    ultimately show ?thesis unfolding msb_iff by simp
  next
    case False
    then have n: "unat ((ucast a :: u64) - ucast b) = 2 ^ 64 + unat a - unat b" "a < b"
      by (simp_all add: unat_diff u word_le_nat_alt word_less_nat_alt)
    have "c < 256 \<Longrightarrow> 2 ^ 63 \<le> 2 ^ 64 + d - c" for c d :: nat by simp
    then have "c < 256 \<Longrightarrow> 2 ^ 63 \<le> 2 ^ 64 + d - c" for c d :: nat by simp
    then have "2 ^ 63 \<le> 2 ^ 64 + unat a - unat b" using unat_u8_less by blast
    then show ?thesis unfolding msb_iff n(1) using n(2) by simp
  qed
  then show ?thesis by (simp add: constant_time_lt_args_8_def constant_time_msb_w_eq ucast_true(1))
qed

lemma constant_time_in_range_8_eq:
  assumes "mn \<le> mx" "unat mx - unat mn < 255"
  shows "constant_time_in_range_8 a mn mx = (if mn \<le> a \<and> a \<le> mx then - 1 else 0)"
proof -
  have m: "unat (mx - mn + 1) = unat mx - unat mn + 1"
    using assms by (simp add: unat_word_ariths unat_diff)
  have "a - mn < mx - mn + 1 \<longleftrightarrow> mn \<le> a \<and> a \<le> mx"
  proof (cases "mn \<le> a")
    case True
    then show ?thesis unfolding word_less_nat_alt m using assms(1) by (auto simp: unat_diff word_le_nat_alt)
  next
    case False
    then have n: "unat (a - mn) = 256 + unat a - unat mn" by (simp add: unat_diff)
    have "\<not> 256 + unat a - unat mn < unat mx - unat mn + 1"
      using unat_u8_less [of mx] assms(1) unfolding word_le_nat_alt by linarith
    then show ?thesis unfolding word_less_nat_alt m n using False by simp
  qed
  then show ?thesis by (simp add: constant_time_in_range_8_def constant_time_lt_args_8_eq)
qed

lemma ucast_u8_numeral: "(ucast (a::u8) :: u64) = 0x2b \<longleftrightarrow> a = 0x2b" "(ucast a :: u64) = 0x2f \<longleftrightarrow> a = 0x2f"
  "(ucast a :: u64) = 0x3d \<longleftrightarrow> a = 0x3d" "(ucast a :: u64) = 62 \<longleftrightarrow> a = 62"
  by (simp_all add: word_unat_eq_iff unat_ucast_le)

lemma select_8_mask: "constant_time_select_8 (ucast (if c then - 1 else 0 :: u8)) p q = (if c then p else q)"
  by (simp add: constant_time_select_8_def value_barrier_w_def u8_u64_id)

definition b64_alpha :: "u8 \<Rightarrow> u8" where
  "b64_alpha a = (if a < 26 then a + 0x41 else if a < 52 then a - 26 + 0x61 else if a < 62 then a - 52 + 0x30
     else if a = 62 then 0x2b else 0x2f)"

lemma conv_bin2ascii_eq: "conv_bin2ascii a = b64_alpha (a AND 0x3f)"
proof -
  have e: "constant_time_eq_8 (ucast b) 62 = (if b = 62 then - 1 else 0)" for b :: u8
    by (simp add: constant_time_8_eq ucast_u8_numeral ucast_true(2))
  show ?thesis
    unfolding conv_bin2ascii_def Let_def e constant_time_lt_args_8_eq select_8_mask b64_alpha_def by simp
qed

text \<open>The decoding of one character: its value, or \<open>0xff\<close> outside the alphabet and \<open>=\<close>.\<close>

definition b64_value :: "u8 \<Rightarrow> u8" where
  "b64_value a = (if 0x41 \<le> a \<and> a \<le> 0x5a then a - 0x41 else if 0x61 \<le> a \<and> a \<le> 0x7a then a - 0x61 + 26
     else if 0x30 \<le> a \<and> a \<le> 0x39 then a - 0x30 + 52 else if a = 0x2b then 62 else if a = 0x2f then 63
     else if a = 0x3d then 0 else 0xff)"

lemma base64_ascii_to_bin_eq: "base64_ascii_to_bin a = b64_value a"
proof -
  have r: "constant_time_in_range_8 a 0x41 0x5a = (if 0x41 \<le> a \<and> a \<le> 0x5a then - 1 else 0)"
    "constant_time_in_range_8 a 0x61 0x7a = (if 0x61 \<le> a \<and> a \<le> 0x7a then - 1 else 0)"
    "constant_time_in_range_8 a 0x30 0x39 = (if 0x30 \<le> a \<and> a \<le> 0x39 then - 1 else 0)"
    by (rule constant_time_in_range_8_eq; simp add: word_le_nat_alt)+
  have e: "constant_time_eq_8 (ucast a) 0x2b = (if a = 0x2b then - 1 else 0)"
    "constant_time_eq_8 (ucast a) 0x2f = (if a = 0x2f then - 1 else 0)"
    "constant_time_eq_8 (ucast a) 0x3d = (if a = 0x3d then - 1 else 0)"
    by (simp_all add: constant_time_8_eq ucast_u8_numeral ucast_true(2))
  show ?thesis
    unfolding base64_ascii_to_bin_def Let_def r e b64_value_def
    by (auto simp: word_le_nat_alt ucast_true(2) [symmetric])
qed

lemma b64_value_alpha: "b64_value (b64_alpha (a AND 0x3f)) = a AND 0x3f" "b64_alpha (a AND 0x3f) \<noteq> 0x3d"
proof -
  have "\<forall>a::u8. a \<le> 0x3f \<longrightarrow> b64_value (b64_alpha a) = a \<and> b64_alpha a \<noteq> 0x3d"
    unfolding u8_all by code_simp
  moreover have "a AND 0x3f \<le> 0x3f" by (rule word_and_le1)
  ultimately show "b64_value (b64_alpha (a AND 0x3f)) = a AND 0x3f" "b64_alpha (a AND 0x3f) \<noteq> 0x3d" by blast+
qed

section \<open>The one-shot round trip\<close>

lemma value_b64_char: "base64_ascii_to_bin (b64_char l k) = ucast (drop_bit k l) AND 0x3f" "b64_char l k \<noteq> 0x3d"
  by (simp_all only: b64_char_def base64_ascii_to_bin_eq conv_bin2ascii_eq b64_value_alpha not_False_eq_True)

lemma value_pad: "base64_ascii_to_bin 0x3d = 0"
  by (simp add: base64_ascii_to_bin_eq b64_value_def word_le_nat_alt)

lemma six_bits: "(0x3f :: u8) = mask 6" "(a::u8) AND 0x3f \<noteq> 0xff"
proof -
  have "a AND 0x3f \<le> 0x3f" by (rule word_and_le1)
  then show "a AND 0x3f \<noteq> 0xff" by (auto simp: word_le_nat_alt)
qed (simp add: mask_eq_exp_minus_1)

text \<open>Splitting 24 bits into four groups of six loses nothing.\<close>

lemma regroup_24:
  fixes l :: u32
  assumes "unat l < 2 ^ 24"
  defines "g \<equiv> \<lambda>k. ucast (ucast (drop_bit k l) AND (0x3f :: u8)) :: u32"
  shows "push_bit 18 (g 18) OR push_bit 12 (g 12) OR push_bit 6 (g 6) OR g 0 = l"
    and "push_bit 18 (g 18) OR push_bit 12 (g 12) OR push_bit 6 (g 6) OR 0 = l AND NOT (mask 6)"
    and "push_bit 18 (g 18) OR push_bit 12 (g 12) OR push_bit 6 0 OR 0 = l AND NOT (mask 12)"
proof -
  have hi: "n < 24" if "bit l n" for n using bit_ge_unat [OF assms(1), of n] that by (cases "n < 24") auto
  have g: "bit (push_bit k (g k)) n \<longleftrightarrow> k \<le> n \<and> n < k + 6 \<and> n < 32 \<and> bit l n" for k n
    by (auto simp: g_def six_bits bit_simps)
  show "push_bit 18 (g 18) OR push_bit 12 (g 12) OR push_bit 6 (g 6) OR g 0 = l"
    by (rule bit_eqI) (use hi g [of 0] in \<open>auto simp: bit_or_iff g\<close>)
  show "push_bit 18 (g 18) OR push_bit 12 (g 12) OR push_bit 6 (g 6) OR 0 = l AND NOT (mask 6)"
    by (rule bit_eqI) (use hi in \<open>auto simp: bit_or_iff bit_and_iff bit_not_iff bit_mask_iff g\<close>)
  show "push_bit 18 (g 18) OR push_bit 12 (g 12) OR push_bit 6 0 OR 0 = l AND NOT (mask 12)"
    by (rule bit_eqI) (use hi in \<open>auto simp: bit_or_iff bit_and_iff bit_not_iff bit_mask_iff g\<close>)
qed

lemma group_bits:
  fixes x y z :: u8
  defines "l \<equiv> push_bit 16 (ucast x) OR push_bit 8 (ucast y) OR ucast z :: u32"
  shows "unat l < 2 ^ 24" "ucast (drop_bit 16 l) = x" "ucast (drop_bit 8 l) = y" "ucast l = z"
proof -
  have b: "bit l n \<longleftrightarrow> (16 \<le> n \<and> n < 24 \<and> bit x (n - 16)) \<or> (8 \<le> n \<and> n < 16 \<and> bit y (n - 8)) \<or> (n < 8 \<and> bit z n)" for n
    by (auto simp: l_def bit_simps dest: bit_imp_le_length)
  have "l = take_bit 24 l" by (rule bit_eqI) (auto simp: bit_take_bit_iff b)
  then have "unat l = unat l mod 2 ^ 24" by (metis take_bit_eq_mask unat_and_mask)
  then show "unat l < 2 ^ 24" by (metis mod_less_divisor zero_less_numeral zero_less_power)
  show "ucast (drop_bit 16 l) = x" by (rule bit_eqI) (auto simp: bit_simps b dest: bit_imp_le_length)
  show "ucast (drop_bit 8 l) = y" by (rule bit_eqI) (auto simp: bit_simps b dest: bit_imp_le_length)
  show "ucast l = z" by (rule bit_eqI) (auto simp: bit_simps b dest: bit_imp_le_length)
qed

lemma decode_quad_3:
  "l = push_bit 16 (ucast x) OR push_bit 8 (ucast y) OR ucast z \<Longrightarrow>
   base64_decode_quad (b64_char l 18) (b64_char l 12) (b64_char l 6) (b64_char l 0) = Some [x, y, z]"
  unfolding base64_decode_quad_def Let_def value_b64_char
  using regroup_24(1) [of l] group_bits [of x y z] by (simp add: six_bits(2) value_b64_char(2))

lemma decode_quad_2:
  "l = push_bit 16 (ucast x) OR push_bit 8 (ucast y) \<Longrightarrow>
   base64_decode_quad (b64_char l 18) (b64_char l 12) (b64_char l 6) 0x3d = Some [x, y]"
proof -
  assume l: "l = push_bit 16 (ucast x) OR push_bit 8 (ucast y)"
  have r: "unat l < 2 ^ 24" "ucast (drop_bit 16 l) = x" "ucast (drop_bit 8 l) = y" using group_bits [of x y 0] l by simp_all
  have "ucast (drop_bit 16 (l AND NOT (mask 6))) = (ucast (drop_bit 16 l) :: u8)"
    "ucast (drop_bit 8 (l AND NOT (mask 6))) = (ucast (drop_bit 8 l) :: u8)"
    by (rule bit_eqI, auto simp: bit_simps)+
  then show ?thesis
    unfolding base64_decode_quad_def Let_def value_b64_char value_pad
    using regroup_24(2) [OF r(1)] r(2,3) by (simp add: six_bits(2) value_b64_char(2))
qed

lemma decode_quad_1:
  "l = push_bit 16 (ucast x) \<Longrightarrow>
   base64_decode_quad (b64_char l 18) (b64_char l 12) 0x3d 0x3d = Some [x]"
proof -
  assume l: "l = push_bit 16 (ucast x)"
  have r: "unat l < 2 ^ 24" "ucast (drop_bit 16 l) = x" using group_bits [of x 0 0] l by simp_all
  have "ucast (drop_bit 16 (l AND NOT (mask 12))) = (ucast (drop_bit 16 l) :: u8)"
    by (rule bit_eqI) (auto simp: bit_simps)
  then show ?thesis
    unfolding base64_decode_quad_def Let_def value_b64_char value_pad
    using regroup_24(3) [OF r(1)] r(2) by (simp add: six_bits(2) value_b64_char(2))
qed

lemma EncodeBlock_length: "length (EVP_EncodeBlock src) = 4 * ((length src + 2) div 3)"
proof (induction src rule: EVP_EncodeBlock.induct)
  case (4 x y z src)
  have "(length src + 2 + 3) div 3 = (length src + 2) div 3 + 1" by (rule div_add_self2) simp
  then show ?case using 4 by (simp add: Let_def)
qed (simp_all add: Let_def)

lemma EncodeBlock_Nil_iff: "EVP_EncodeBlock src = [] \<longleftrightarrow> src = []"
  by (cases src rule: EVP_EncodeBlock.cases) (simp_all add: Let_def)

lemma decode_quads_encode: "decode_quads out (EVP_EncodeBlock src) = Some (out @ src)"
proof (induction src arbitrary: out rule: EVP_EncodeBlock.induct)
  case (4 x y z src)
  then show ?case by (simp add: Let_def decode_quad_3 EncodeBlock_Nil_iff)
qed (simp_all add: Let_def decode_quad_1 decode_quad_2)

theorem decode_encode:
  assumes "length src + 2 \<le> max_out"
  shows "EVP_DecodeBase64 max_out (EVP_EncodeBlock src) = Some src"
proof -
  have "(length src + 2) div 3 * 3 \<le> length src + 2" by simp
  then show ?thesis using assms
    by (simp add: EVP_DecodeBase64_def EVP_DecodedLength_def EncodeBlock_length decode_quads_encode)
qed

section \<open>The streaming encoder\<close>

text \<open>Lines of 48 bytes of input, and what is left over.\<close>

function b64_lines :: "bytes \<Rightarrow> bytes" where
  "b64_lines xs = (if length xs \<ge> 48 then EVP_EncodeBlock (take 48 xs) @ [0x0a] @ b64_lines (drop 48 xs) else [])"
  by pat_completeness auto
termination
  by (relation "measure length") auto

declare b64_lines.simps [simp del]

definition b64_rest :: "bytes \<Rightarrow> bytes" where
  "b64_rest xs = drop (length xs div 48 * 48) xs"

definition b64_text :: "bytes \<Rightarrow> bytes" where
  "b64_text xs = b64_lines xs @ (if b64_rest xs = [] then [] else EVP_EncodeBlock (b64_rest xs) @ [0x0a])"

lemma b64_rest_short: "length xs < 48 \<Longrightarrow> b64_rest xs = xs" "length xs < 48 \<Longrightarrow> b64_lines xs = []"
  by (simp_all add: b64_rest_def b64_lines.simps)

lemma b64_rest_long: "48 \<le> length xs \<Longrightarrow> b64_rest xs = b64_rest (drop 48 xs)"
proof -
  assume l: "48 \<le> length xs"
  then have "length xs div 48 = Suc ((length xs - 48) div 48)" by (simp add: le_div_geq)
  then show ?thesis by (simp add: b64_rest_def add.commute)
qed

lemma b64_lines_long:
  "48 \<le> length xs \<Longrightarrow> b64_lines xs = EVP_EncodeBlock (take 48 xs) @ 0x0a # b64_lines (drop 48 xs)"
  by (subst b64_lines.simps) simp

lemma length_b64_rest: "length (b64_rest xs) < 48"
proof -
  have "length (b64_rest xs) = length xs mod 48" by (simp add: b64_rest_def minus_div_mult_eq_mod)
  then show ?thesis by simp
qed

text \<open>Lines of a stream that arrives in two parts.\<close>

lemma b64_split_append:
  "b64_lines (xs @ ys) = b64_lines xs @ b64_lines (b64_rest xs @ ys) \<and> b64_rest (xs @ ys) = b64_rest (b64_rest xs @ ys)"
proof (induction "length xs" arbitrary: xs rule: less_induct)
  case less
  show ?case
  proof (cases "length xs < 48")
    case False
    then have l: "48 \<le> length xs" "48 \<le> length (xs @ ys)" by simp_all
    have "length (drop 48 xs) < length xs" using l by simp
    from less [OF this] l show ?thesis
      by (simp add: b64_lines_long [OF l(1)] b64_lines_long [OF l(2)] b64_rest_long [OF l(1)] b64_rest_long [OF l(2)])
  qed (simp add: b64_rest_short)
qed

lemma length_b64_lines: "length (b64_lines xs) = length xs div 48 * 65"
proof (induction "length xs" arbitrary: xs rule: less_induct)
  case less
  show ?case
  proof (cases "length xs < 48")
    case False
    then have "length xs div 48 = Suc ((length xs - 48) div 48)" by (simp add: le_div_geq)
    then show ?thesis using less [of "drop 48 xs"] False by (simp add: b64_lines_long EncodeBlock_length min_absorb2)
  qed (simp add: b64_rest_short)
qed

lemma encode_lines_eq:
  "length out + 2 * length inp < 2 ^ 63 \<Longrightarrow> encode_lines out inp = Inr (out @ b64_lines inp, b64_rest inp)"
proof (induction out inp rule: encode_lines.induct)
  case (1 out inp)
  show ?case
  proof (cases "48 \<le> length inp")
    case False
    then show ?thesis by (subst encode_lines.simps) (simp add: b64_rest_short)
  next
    case True
    let ?e = "EVP_EncodeBlock (take 48 inp)"
    have e: "length ?e = 64" using True by (simp add: EncodeBlock_length min_absorb2)
    have "length out + 65 < 2 ^ 64" using 1(2) True by simp
    then have "size_add (size_add (length out) (length ?e)) 1 = length out + 65"
      using e by (simp add: size_add_small)
    moreover have "length (out @ ?e @ [0x0a]) + 2 * length (drop 48 inp) < 2 ^ 63" using 1(2) True e by simp
    ultimately show ?thesis using 1(1) [OF True refl refl refl] True
      by (subst encode_lines.simps) (simp add: Let_def b64_lines_long b64_rest_long)
  qed
qed

text \<open>The context holds the input that has not been encoded yet.\<close>

definition enc_rel :: "EVP_ENCODE_CTX \<Rightarrow> bytes \<Rightarrow> bool" where
  "enc_rel ctx pend \<longleftrightarrow> length (ctx_data ctx) = 48 \<and> data_used ctx = length pend \<and> length pend < 48 \<and>
     take (length pend) (ctx_data ctx) = pend"

lemma enc_rel_init: "enc_rel EVP_EncodeInit []"
  by (simp add: enc_rel_def EVP_EncodeInit_def)

lemma EncodeUpdate_refines:
  assumes r: "enc_rel ctx pend" and l: "length inp < 2 ^ 29"
  shows "\<exists>ctx'. EVP_EncodeUpdate ctx inp = Some (ctx', b64_lines (pend @ inp), int (length (b64_lines (pend @ inp)))) \<and>
    enc_rel ctx' (b64_rest (pend @ inp))"
proof -
  have p: "length pend < 48" "data_used ctx = length pend" "length (ctx_data ctx) = 48" "take (length pend) (ctx_data ctx) = pend"
    using r by (simp_all add: enc_rel_def)
  consider "inp = []" | "inp \<noteq> []" "length pend + length inp < 48" | "48 \<le> length pend + length inp" by linarith
  then show ?thesis
  proof cases
    case 1
    then show ?thesis using r p by (simp add: EVP_EncodeUpdate_def b64_rest_short)
  next
    case 2
    then show ?thesis using p
      by (auto simp: EVP_EncodeUpdate_def data_write_def b64_rest_short enc_rel_def)
  next
    case 3
    have fin: "\<exists>ctx'. (case encode_lines out ys of
               Inl out \<Rightarrow> Some (c, out, 0)
             | Inr (out, inp) \<Rightarrow>
                 (case (if length inp \<noteq> 0 then data_write c 0 inp else Some c) of
                    None \<Rightarrow> None
                  | Some ctx \<Rightarrow>
                      Some (ctx\<lparr>data_used := length inp\<rparr>, out,
                        if (of_nat (length out) :: u64) > 0x7fffffff then 0 else int (length out))))
          = Some (ctx', out @ b64_lines ys, int (length (out @ b64_lines ys))) \<and> enc_rel ctx' (b64_rest ys)"
      if "length (ctx_data c) = 48" "length out \<le> 65" "length ys \<le> length inp" for c out ys
    proof -
      have e: "encode_lines out ys = Inr (out @ b64_lines ys, b64_rest ys)"
        using that l by (intro encode_lines_eq) simp
      have "length (b64_lines ys) \<le> 2 * length ys" unfolding length_b64_lines by simp
      then have n: "length (out @ b64_lines ys) < 2 ^ 31" using that l by simp
      then have "unat (of_nat (length (out @ b64_lines ys)) :: u64) = length (out @ b64_lines ys)"
        by (intro unat_of_nat_less) simp
      then have "\<not> (of_nat (length (out @ b64_lines ys)) :: u64) > 0x7fffffff"
        using n by (simp add: word_less_nat_alt del: of_nat_add)
      then show ?thesis using length_b64_rest [of ys] that(1)
        by (auto simp: e data_write_def enc_rel_def simp del: of_nat_add)
    qed
    show ?thesis
    proof (cases "pend = []")
      case True
      have "inp \<noteq> []" using 3 True by auto
      then have "EVP_EncodeUpdate ctx inp = (case encode_lines [] inp of
               Inl out \<Rightarrow> Some (ctx, out, 0)
             | Inr (out, inp) \<Rightarrow>
                 (case (if length inp \<noteq> 0 then data_write ctx 0 inp else Some ctx) of
                    None \<Rightarrow> None
                  | Some ctx \<Rightarrow>
                      Some (ctx\<lparr>data_used := length inp\<rparr>, out,
                        if (of_nat (length out) :: u64) > 0x7fffffff then 0 else int (length out))))"
        using p True 3 by (simp add: EVP_EncodeUpdate_def)
      then show ?thesis using fin [of ctx "[]" inp] p(3) True by simp
    next
      case False
      let ?todo = "48 - length pend"
      let ?c = "ctx\<lparr>ctx_data := pend @ take ?todo inp, data_used := 0\<rparr>"
      have w: "data_write ctx (data_used ctx) (take ?todo inp) = Some (ctx\<lparr>ctx_data := pend @ take ?todo inp\<rparr>)"
        using p 3 by (simp add: data_write_def min_absorb2)
      have ne: "inp \<noteq> []" "\<not> 48 - length pend > length inp" using 3 p(1) by auto
      have len: "length (pend @ take ?todo inp) = 48" using 3 p(1) by (simp add: min_absorb2)
      have t: "take 48 (pend @ inp) = pend @ take ?todo inp" "drop 48 (pend @ inp) = drop ?todo inp" using p(1) by simp_all
      have "EVP_EncodeUpdate ctx inp = (case encode_lines (EVP_EncodeBlock (pend @ take ?todo inp) @ [0x0a]) (drop ?todo inp) of
               Inl out \<Rightarrow> Some (?c, out, 0)
             | Inr (out, inp) \<Rightarrow>
                 (case (if length inp \<noteq> 0 then data_write ?c 0 inp else Some ?c) of
                    None \<Rightarrow> None
                  | Some ctx \<Rightarrow>
                      Some (ctx\<lparr>data_used := length inp\<rparr>, out,
                        if (of_nat (length out) :: u64) > 0x7fffffff then 0 else int (length out))))"
        using p False 3 ne w by (simp add: EVP_EncodeUpdate_def Let_def)
      then show ?thesis
        using fin [of ?c "EVP_EncodeBlock (pend @ take ?todo inp) @ [0x0a]" "drop ?todo inp"] len 3
          b64_lines_long [of "pend @ inp"] b64_rest_long [of "pend @ inp"]
        by (simp add: t EncodeBlock_length)
    qed
  qed
qed

end
