(* ===== verification/Base64_Stream.thy ===== *)
theory Base64_Stream
  imports Base64
begin

text \<open>
  The streaming interface of \<open>base64.c\<close> as a whole: however the input is cut into calls of
  \<open>EVP_EncodeUpdate\<close>, the text is the same, and \<open>EVP_DecodeUpdate\<close> on any cutting of a text agrees
  with \<open>EVP_DecodeBase64\<close> on the text without its white space.
\<close>

section \<open>Sequences of calls\<close>

text \<open>
  A client: one call of the update function for each chunk, collecting \<open>*out_len\<close> bytes, then the
  final call. The decoding client stops at the first \<open>-1\<close>; the outer \<open>None\<close> is a failed assertion.
\<close>

fun encode_stream :: "EVP_ENCODE_CTX \<Rightarrow> bytes list \<Rightarrow> bytes option" where
  "encode_stream ctx [] = (case EVP_EncodeFinal ctx of (_, out, n) \<Rightarrow> Some (take (nat n) out))"
| "encode_stream ctx (c # cs) =
     (case EVP_EncodeUpdate ctx c of
        None \<Rightarrow> None
      | Some (ctx, out, n) \<Rightarrow> map_option ((@) (take (nat n) out)) (encode_stream ctx cs))"

fun decode_stream :: "EVP_ENCODE_CTX \<Rightarrow> bytes list \<Rightarrow> bytes option option" where
  "decode_stream ctx [] = Some (if EVP_DecodeFinal ctx = - 1 then None else Some [])"
| "decode_stream ctx (c # cs) =
     (case EVP_DecodeUpdate ctx c of
        None \<Rightarrow> None
      | Some (ctx, out, n, r) \<Rightarrow>
          if r = - 1 then Some None
          else map_option (map_option ((@) (take (nat n) out))) (decode_stream ctx cs))"

section \<open>Encoding\<close>

lemma encode_stream_text:
  "enc_rel ctx pend \<Longrightarrow> \<forall>c \<in> set cs. length c < 2 ^ 29 \<Longrightarrow>
   encode_stream ctx cs = Some (b64_text (pend @ concat cs))"
proof (induction cs arbitrary: ctx pend)
  case Nil
  then show ?case
    by (auto simp: enc_rel_def EVP_EncodeFinal_def b64_text_def b64_rest_short Let_def)
next
  case (Cons c cs)
  then obtain ctx' where u: "EVP_EncodeUpdate ctx c = Some (ctx', b64_lines (pend @ c), int (length (b64_lines (pend @ c))))"
    and r: "enc_rel ctx' (b64_rest (pend @ c))"
    using EncodeUpdate_refines [of ctx pend c] by auto
  show ?case
    using Cons.IH [OF r] Cons.prems(2) b64_split_append [of "pend @ c" "concat cs"]
    by (simp add: u b64_text_def)
qed

section \<open>Decoding\<close>

text \<open>
  The quads of a text without white space: the bytes, the characters of an incomplete last quad, and
  whether the padding was reached; \<open>None\<close> for an error.
\<close>

fun b64_quads :: "bytes \<Rightarrow> (bytes \<times> bytes \<times> bool) option" where
  "b64_quads (a # b # c # d # w) =
     (case base64_decode_quad a b c d of
        None \<Rightarrow> None
      | Some bs \<Rightarrow>
          if length bs < 3 then if w = [] then Some (bs, [], True) else None
          else map_option (\<lambda>(out, r). (bs @ out, r)) (b64_quads w))"
| "b64_quads w = Some ([], w, False)"

lemma decode_quad_length: "base64_decode_quad a b c d = Some bs \<Longrightarrow> length bs \<le> 3"
  by (auto simp: base64_decode_quad_def Let_def split: if_splits)

lemma b64_quads_short: "length w < 4 \<Longrightarrow> b64_quads w = Some ([], w, False)"
  by (cases w rule: b64_quads.cases) simp_all

lemma b64_quads_rest: "b64_quads w = Some (out, p, e) \<Longrightarrow> length p < 4 \<and> (e \<longrightarrow> p = []) \<and> length out \<le> length w"
  by (induction w arbitrary: out rule: b64_quads.induct)
    (fastforce split: option.splits if_splits dest!: decode_quad_length)+

lemma b64_quads_append:
  "b64_quads (v @ w) =
    (case b64_quads v of
       None \<Rightarrow> None
     | Some (out, p, e) \<Rightarrow>
         if e then if w = [] then Some (out, p, e) else None
         else map_option (\<lambda>(o', r). (out @ o', r)) (b64_quads (p @ w)))"
proof (induction v rule: b64_quads.induct)
  case (1 a b c d v)
  show ?case
  proof (cases "base64_decode_quad a b c d")
    case (Some bs)
    show ?thesis
    proof (cases "length bs < 3")
      case True
      then show ?thesis by (simp add: Some)
    next
      case False
      then show ?thesis using 1 [OF Some False]
        by (cases "b64_quads v") (auto simp: Some option.map_comp o_def fun_eq_iff split_def intro!: option.map_cong)
    qed
  qed simp
qed (simp_all add: option.map_id)

lemma decode_quads_eq:
  "length w mod 4 = 0 \<Longrightarrow> decode_quads out w = map_option (\<lambda>(bs, _). out @ bs) (b64_quads w)"
proof (induction out w rule: decode_quads.induct)
  case (1 out a b c d w)
  show ?case
  proof (cases "base64_decode_quad a b c d")
    case (Some bs)
    then have l: "length bs \<le> 3" by (rule decode_quad_length)
    show ?thesis using 1(1) [OF Some] 1(2) l
      by (auto simp: Some option.map_comp o_def case_prod_beta)
  qed simp
qed simp_all

lemma b64_quads_mod: "b64_quads w = Some (out, p, e) \<Longrightarrow> length w mod 4 = length p"
  by (induction w arbitrary: out rule: b64_quads.induct) (auto split: option.splits if_splits)

lemma DecodeBase64_eq:
  "EVP_DecodeBase64 (length w) w =
    (case b64_quads w of None \<Rightarrow> None | Some (out, p, e) \<Rightarrow> if p = [] then Some out else None)"
proof -
  have "length w div 4 * 3 \<le> length w" by simp
  then show ?thesis
    using decode_quads_eq [of w "[]"] b64_quads_mod [of w]
    by (auto simp: EVP_DecodeBase64_def EVP_DecodedLength_def split: option.splits)
qed

abbreviation b64_strip :: "bytes \<Rightarrow> bytes" where
  "b64_strip \<equiv> filter (\<lambda>c. \<not> is_space c)"

text \<open>The context holds the characters of the quad under way.\<close>

definition dec_rel :: "EVP_ENCODE_CTX \<Rightarrow> bytes \<Rightarrow> bool \<Rightarrow> bool" where
  "dec_rel ctx pend eof \<longleftrightarrow> length (ctx_data ctx) = 48 \<and> data_used ctx = length pend \<and> length pend < 4 \<and>
     take (length pend) (ctx_data ctx) = pend \<and> eof_seen ctx = eof \<and> \<not> error_encountered ctx \<and> (eof \<longrightarrow> pend = [])"

lemma dec_rel_init: "dec_rel EVP_DecodeInit [] False"
  by (simp add: dec_rel_def EVP_DecodeInit_def)

text \<open>What the decoder makes of further text.\<close>

definition b64_more :: "bytes \<Rightarrow> bool \<Rightarrow> bytes \<Rightarrow> (bytes \<times> bytes \<times> bool) option" where
  "b64_more pend eof w = (if eof then if w = [] then Some ([], pend, eof) else None else b64_quads (pend @ w))"

lemma b64_more_append:
  assumes "eof \<longrightarrow> pend = []"
  shows "b64_more pend eof (v @ w) =
    (case b64_more pend eof v of
       None \<Rightarrow> None
     | Some (out, p, e) \<Rightarrow> map_option (\<lambda>(o', r). (out @ o', r)) (b64_more p e w))"
  using assms b64_quads_append [of "pend @ v" w]
  by (auto simp: b64_more_def split: option.splits if_splits dest: b64_quads_rest)

lemma data_write_next:
  assumes "dec_rel ctx pend eof"
  shows "data_write ctx (data_used ctx) [c] =
     Some (ctx\<lparr>ctx_data := pend @ c # drop (Suc (length pend)) (ctx_data ctx)\<rparr>)"
  using assms by (simp add: dec_rel_def data_write_def)

text \<open>One character that is not white space.\<close>

lemma decode_step:
  assumes r: "dec_rel ctx pend eof" and c: "\<not> is_space c"
  shows "(case b64_more pend eof [c] of
       None \<Rightarrow> \<exists>ctx'. decode_loop ctx out (c # inp) = Some (Inl (ctx', out))
     | Some (bs, p, e) \<Rightarrow> \<exists>ctx'. decode_loop ctx out (c # inp) = decode_loop ctx' (out @ bs) inp \<and> dec_rel ctx' p e)"
proof (cases eof)
  case True
  then show ?thesis using r c by (simp add: b64_more_def dec_rel_def)
next
  case False
  have p: "length pend < 4" "data_used ctx = length pend" "length (ctx_data ctx) = 48" "eof_seen ctx = False" "\<not> error_encountered ctx"
    using r False by (simp_all add: dec_rel_def)
  note d = data_write_next [OF r, of c, unfolded p(2)]
  show ?thesis
  proof (cases "length pend = 3")
    case False
    have m: "b64_more pend eof [c] = Some ([], pend @ [c], False)"
      using p False \<open>\<not> eof\<close> by (simp add: b64_more_def b64_quads_short)
    show ?thesis unfolding m using p False c by (simp add: d Let_def) (auto simp: dec_rel_def)
  next
    case True
    then obtain x y z where xyz: "pend = [x, y, z]" by (auto simp: length_Suc_conv numeral_3_eq_3)
    show ?thesis
    proof (cases "base64_decode_quad x y z c")
      case None
      then show ?thesis using p c d \<open>\<not> eof\<close> by (simp add: Let_def xyz b64_more_def)
    next
      case (Some bs)
      have m: "b64_more pend eof [c] = Some (bs, [], length bs < 3)"
        using Some \<open>\<not> eof\<close> by (simp add: b64_more_def xyz)
      show ?thesis unfolding m using p c d by (auto simp: Let_def xyz Some dec_rel_def)
    qed
  qed
qed

lemma decode_loop_eq:
  "dec_rel ctx pend eof \<Longrightarrow>
    (case b64_more pend eof (b64_strip inp) of
       None \<Rightarrow> \<exists>ctx' o'. decode_loop ctx out inp = Some (Inl (ctx', o'))
     | Some (bs, p, e) \<Rightarrow> \<exists>ctx'. decode_loop ctx out inp = Some (Inr (ctx', out @ bs)) \<and> dec_rel ctx' p e)"
proof (induction inp arbitrary: ctx pend eof out)
  case Nil
  then have "b64_more pend eof [] = Some ([], pend, eof)"
    by (auto simp: b64_more_def dec_rel_def b64_quads_short)
  then show ?case using Nil by simp
next
  case (Cons c inp)
  show ?case
  proof (cases "is_space c")
    case True
    then have "decode_loop ctx out (c # inp) = decode_loop ctx out inp" "b64_strip (c # inp) = b64_strip inp" by simp_all
    then show ?thesis using Cons.IH [OF Cons.prems, of out] by (simp only:)
  next
    case False
    have e: "eof \<longrightarrow> pend = []" using Cons.prems by (simp add: dec_rel_def)
    note s = decode_step [OF Cons.prems False, of out inp]
    note a = b64_more_append [OF e, of "[c]" "b64_strip inp"]
    show ?thesis
    proof (cases "b64_more pend eof [c]")
      case None
      then show ?thesis using s a False by auto
    next
      case (Some r)
      obtain bs p f where r: "r = (bs, p, f)" by (cases r)
      obtain ctx' where "decode_loop ctx out (c # inp) = decode_loop ctx' (out @ bs) inp" "dec_rel ctx' p f"
        using s by (auto simp: Some r)
      with Cons.IH [of ctx' p f "out @ bs"] a False show ?thesis
        by (auto simp: Some r split: option.splits)
    qed
  qed
qed

lemma b64_more_rest:
  "eof \<longrightarrow> pend = [] \<Longrightarrow> b64_more pend eof w = Some (bs, p, e) \<Longrightarrow>
   (e \<longrightarrow> p = []) \<and> length bs \<le> length pend + length w"
  by (auto simp: b64_more_def split: if_splits dest: b64_quads_rest)

lemma DecodeUpdate_refines:
  assumes r: "dec_rel ctx pend eof" and l: "length inp < 2 ^ 30"
  shows "(case b64_more pend eof (b64_strip inp) of
       None \<Rightarrow> \<exists>ctx' out. EVP_DecodeUpdate ctx inp = Some (ctx', out, 0, - 1)
     | Some (bs, p, e) \<Rightarrow> \<exists>ctx'. EVP_DecodeUpdate ctx inp = Some (ctx', bs, int (length bs), if e then 0 else 1) \<and>
         dec_rel ctx' p e)"
proof -
  have e: "\<not> error_encountered ctx" "eof \<longrightarrow> pend = []" "length pend < 4" using r by (simp_all add: dec_rel_def)
  have f: "length (b64_strip inp) \<le> length inp" by simp
  note d = decode_loop_eq [OF r, where inp = inp and out = "[]"]
  show ?thesis
  proof (cases "b64_more pend eof (b64_strip inp)")
    case None
    then show ?thesis using d e by (auto simp: EVP_DecodeUpdate_def)
  next
    case (Some q)
    obtain bs p f' where q: "q = (bs, p, f')" by (cases q)
    have "length bs \<le> length pend + length inp"
      using b64_more_rest [OF e(2) Some [unfolded q]] f by linarith
    then have "length bs < 2 ^ 31" using e(3) l by simp
    then have "\<not> (of_nat (length bs) :: u64) > 0x7fffffff"
      by (simp add: word_less_nat_alt unat_of_nat_less)
    then show ?thesis using d e by (auto simp: EVP_DecodeUpdate_def Some q dec_rel_def)
  qed
qed

theorem decode_stream_eq:
  "dec_rel ctx pend eof \<Longrightarrow> \<forall>c \<in> set cs. length c < 2 ^ 30 \<Longrightarrow>
   decode_stream ctx cs =
     Some (case b64_more pend eof (b64_strip (concat cs)) of
       None \<Rightarrow> None | Some (out, p, e) \<Rightarrow> if p = [] then Some out else None)"
proof (induction cs arbitrary: ctx pend eof)
  case Nil
  then have "b64_more pend eof [] = Some ([], pend, eof)"
    by (auto simp: b64_more_def dec_rel_def b64_quads_short)
  then show ?case using Nil by (auto simp: EVP_DecodeFinal_def dec_rel_def)
next
  case (Cons c cs)
  have e: "eof \<longrightarrow> pend = []" using Cons.prems by (simp add: dec_rel_def)
  note a = b64_more_append [OF e, of "b64_strip c" "b64_strip (concat cs)"]
  have u: "case b64_more pend eof (b64_strip c) of
       None \<Rightarrow> \<exists>ctx' out. EVP_DecodeUpdate ctx c = Some (ctx', out, 0, - 1)
     | Some (bs, p, e) \<Rightarrow> \<exists>ctx'. EVP_DecodeUpdate ctx c = Some (ctx', bs, int (length bs), if e then 0 else 1) \<and>
         dec_rel ctx' p e"
    using Cons.prems by (intro DecodeUpdate_refines) auto
  show ?case
  proof (cases "b64_more pend eof (b64_strip c)")
    case None
    then show ?thesis using u a by auto
  next
    case (Some q)
    obtain bs p f where q: "q = (bs, p, f)" by (cases q)
    obtain ctx' where "EVP_DecodeUpdate ctx c = Some (ctx', bs, int (length bs), if f then 0 else 1)" "dec_rel ctx' p f"
      using u by (auto simp: Some q)
    with Cons.IH [of ctx' p f] Cons.prems(2) a show ?thesis
      by (auto simp: Some q split: option.splits)
  qed
qed

section \<open>The two together\<close>

lemma EncodeBlock_nonspace: "b64_strip (EVP_EncodeBlock xs) = EVP_EncodeBlock xs"
proof -
  have "\<forall>a::u8. \<not> is_space (b64_alpha (a AND 0x3f))" unfolding u8_all by code_simp
  then have "\<not> is_space (b64_char l k)" for l k by (simp add: b64_char_def conv_bin2ascii_eq)
  moreover have "\<not> is_space 0x3d" by (simp add: is_space_def)
  ultimately show ?thesis by (induction xs rule: EVP_EncodeBlock.induct) (simp_all add: Let_def)
qed

lemma EncodeBlock_append: "length xs mod 3 = 0 \<Longrightarrow> EVP_EncodeBlock (xs @ ys) = EVP_EncodeBlock xs @ EVP_EncodeBlock ys"
  by (induction xs rule: EVP_EncodeBlock.induct) (simp_all add: Let_def)

lemma b64_text_strip: "b64_strip (b64_text xs) = EVP_EncodeBlock xs"
proof (induction "length xs" arbitrary: xs rule: less_induct)
  case less
  have nl: "is_space 0x0a" by (simp add: is_space_def)
  show ?case
  proof (cases "length xs < 48")
    case True
    then show ?thesis by (simp add: b64_text_def b64_rest_short EncodeBlock_nonspace nl)
  next
    case False
    then have l: "48 \<le> length xs" by simp
    have "b64_strip (b64_text (drop 48 xs)) = EVP_EncodeBlock (drop 48 xs)" using less False by simp
    moreover have "EVP_EncodeBlock xs = EVP_EncodeBlock (take 48 xs) @ EVP_EncodeBlock (drop 48 xs)"
      using EncodeBlock_append [of "take 48 xs" "drop 48 xs"] l by (simp add: min_absorb2)
    ultimately show ?thesis using l
      by (simp add: b64_text_def b64_lines_long b64_rest_long EncodeBlock_nonspace nl split: if_splits)
  qed
qed

theorem stream_roundtrip:
  assumes "\<forall>c \<in> set cs. length c < 2 ^ 29" "\<forall>c \<in> set ds. length c < 2 ^ 30"
    and e: "encode_stream EVP_EncodeInit cs = Some text" and "concat ds = text"
  shows "decode_stream EVP_DecodeInit ds = Some (Some (concat cs))"
proof -
  have t: "b64_strip (concat ds) = EVP_EncodeBlock (concat cs)"
    using encode_stream_text [OF enc_rel_init assms(1)] e assms(4) by (simp add: b64_text_strip)
  have "decode_stream EVP_DecodeInit ds = Some (EVP_DecodeBase64 (length (b64_strip (concat ds))) (b64_strip (concat ds)))"
    using decode_stream_eq [OF dec_rel_init assms(2)] by (simp add: b64_more_def DecodeBase64_eq)
  moreover have "EVP_DecodeBase64 (length (EVP_EncodeBlock xs)) (EVP_EncodeBlock xs) = Some xs" for xs
    by (simp add: EVP_DecodeBase64_def EVP_DecodedLength_def EncodeBlock_length decode_quads_encode)
  ultimately show ?thesis unfolding t by simp
qed

end
