(* ===== verification/Stack.thy ===== *)
theory Stack
  imports Set_Of
begin

text \<open>
  The pointer stack of \<open>crypto/stack/stack.c\<close>: a growing array of \<open>void *\<close> with an optional
  comparison function, a heap sort and a binary search. A pointer is an optional object, \<open>None\<close> for
  \<open>NULL\<close>; a comparison function pointer is an identity \<open>'c\<close> that the caller's \<open>call_cmp_func\<close> applies.
\<close>

type_synonym 'a ptr = "'a option"

text \<open>Sequences of cells of eight bytes that \<open>malloc\<close> hands out, indexed by the size in bytes.\<close>

type_synonym 'a cell_allocator = "nat \<Rightarrow> 'a ptr list option"

record ('a, 'c) stack_st =
  st_num :: nat
  st_data :: "'a ptr list"
  st_sorted :: bool
  st_num_alloc :: nat
  st_comp :: "'c option"

type_synonym ('a, 'c) OPENSSL_STACK = "('a, 'c) stack_st option"

section \<open>Memory\<close>

definition size_mul :: "nat \<Rightarrow> nat \<Rightarrow> nat" where
  "size_mul a b = unat (of_nat a * of_nat b :: u64)"

text \<open>\<open>OPENSSL_malloc\<close>, \<open>OPENSSL_calloc\<close> and \<open>OPENSSL_realloc\<close> at pointer arrays.\<close>

definition cells_malloc :: "'a cell_allocator \<Rightarrow> nat \<Rightarrow> 'a ptr list option" where
  "cells_malloc al sz = (if size_add sz 8 < sz then None else map_option (drop 1) (al (size_add sz 8)))"

definition cells_calloc :: "'a cell_allocator \<Rightarrow> nat \<Rightarrow> nat \<Rightarrow> 'a ptr list option" where
  "cells_calloc al n sz =
     (if sz \<noteq> 0 \<and> (of_nat n :: u64) > - 1 div of_nat sz then None
      else map_option (\<lambda>xs. replicate (length xs) None) (cells_malloc al (size_mul n sz)))"

definition cells_realloc :: "'a cell_allocator \<Rightarrow> 'a ptr list \<Rightarrow> nat \<Rightarrow> 'a ptr list option" where
  "cells_realloc al orig new_size =
     map_option (\<lambda>ret. let to_copy = min (length orig) (length ret) in take to_copy orig @ drop to_copy ret)
       (cells_malloc al new_size)"

text \<open>Writing cells and \<open>memmove\<close>; \<open>None\<close> outside the array.\<close>

definition cells_write :: "'a list \<Rightarrow> nat \<Rightarrow> 'a list \<Rightarrow> 'a list option" where
  "cells_write d i xs = (if i + length xs \<le> length d then Some (take i d @ xs @ drop (i + length xs) d) else None)"

definition cells_move :: "'a list \<Rightarrow> nat \<Rightarrow> nat \<Rightarrow> nat \<Rightarrow> 'a list option" where
  "cells_move d dst src n = (if src + n \<le> length d then cells_write d dst (take n (drop src d)) else None)"

section \<open>Operations\<close>

definition kMinSize :: nat where "kMinSize = 4"

text \<open>The sizes are those of \<open>struct stack_st\<close> (40 bytes) and of a pointer (8 bytes).\<close>

definition OPENSSL_sk_new :: "'a cell_allocator \<Rightarrow> 'c option \<Rightarrow> ('a, 'c) OPENSSL_STACK" where
  "OPENSSL_sk_new al cmp =
     (if cells_malloc al 40 = None then None
      else case cells_calloc al kMinSize 8 of
          None \<Rightarrow> None
        | Some data \<Rightarrow> Some \<lparr>st_num = 0, st_data = data, st_sorted = False, st_num_alloc = kMinSize, st_comp = cmp\<rparr>)"

definition OPENSSL_sk_new_null :: "'a cell_allocator \<Rightarrow> ('a, 'c) OPENSSL_STACK" where
  "OPENSSL_sk_new_null al = OPENSSL_sk_new al None"

definition OPENSSL_sk_num :: "('a, 'c) OPENSSL_STACK \<Rightarrow> nat" where
  "OPENSSL_sk_num sk = (case sk of None \<Rightarrow> 0 | Some s \<Rightarrow> st_num s)"

definition OPENSSL_sk_zero :: "('a, 'c) OPENSSL_STACK \<Rightarrow> ('a, 'c) OPENSSL_STACK" where
  "OPENSSL_sk_zero sk = map_option (\<lambda>s. if st_num s = 0 then s
     else s\<lparr>st_data := replicate (st_num s) None @ drop (st_num s) (st_data s), st_num := 0, st_sorted := False\<rparr>) sk"

definition OPENSSL_sk_value :: "('a, 'c) OPENSSL_STACK \<Rightarrow> nat \<Rightarrow> 'a ptr" where
  "OPENSSL_sk_value sk i = (case sk of None \<Rightarrow> None | Some s \<Rightarrow> if i \<ge> st_num s then None else st_data s ! i)"

definition OPENSSL_sk_set :: "('a, 'c) OPENSSL_STACK \<Rightarrow> nat \<Rightarrow> 'a ptr \<Rightarrow> 'a ptr \<times> ('a, 'c) OPENSSL_STACK" where
  "OPENSSL_sk_set sk i v =
     (case sk of
        None \<Rightarrow> (None, None)
      | Some s \<Rightarrow> if i \<ge> st_num s then (None, Some s) else (v, Some (s\<lparr>st_data := (st_data s)[i := v]\<rparr>)))"

text \<open>The objects that \<open>free_func\<close> is called on, in order.\<close>

definition OPENSSL_sk_pop_free_ex :: "('a, 'c) OPENSSL_STACK \<Rightarrow> 'a list" where
  "OPENSSL_sk_pop_free_ex sk = (case sk of None \<Rightarrow> [] | Some s \<Rightarrow> map the (filter (\<lambda>p. p \<noteq> None) (take (st_num s) (st_data s))))"

text \<open>Growing the array before an insertion; \<open>None\<close> where the function returns 0.\<close>

definition sk_grow :: "'a cell_allocator \<Rightarrow> ('a, 'c) stack_st \<Rightarrow> ('a, 'c) stack_st option" where
  "sk_grow al s =
     (if st_num_alloc s \<le> size_add (st_num s) 1 then
        let new_alloc = size_mul (st_num_alloc s) 2;
            alloc_size = size_mul new_alloc 8;
            (new_alloc, alloc_size) =
              (if new_alloc < st_num_alloc s \<or> alloc_size div 8 \<noteq> new_alloc
               then (size_add (st_num_alloc s) 1, size_mul (size_add (st_num_alloc s) 1) 8) else (new_alloc, alloc_size))
        in if new_alloc < st_num_alloc s \<or> alloc_size div 8 \<noteq> new_alloc then None
           else map_option (\<lambda>data. s\<lparr>st_data := data, st_num_alloc := new_alloc\<rparr>) (cells_realloc al (st_data s) alloc_size)
      else Some s)"

text \<open>The return value and the stack; \<open>None\<close> for a write outside the array.\<close>

definition OPENSSL_sk_insert ::
    "'a cell_allocator \<Rightarrow> ('a, 'c) OPENSSL_STACK \<Rightarrow> 'a ptr \<Rightarrow> nat \<Rightarrow> (nat \<times> ('a, 'c) OPENSSL_STACK) option" where
  "OPENSSL_sk_insert al sk p pos =
     (case sk of
        None \<Rightarrow> Some (0, None)
      | Some s \<Rightarrow>
          if (of_nat (st_num s) :: u64) \<ge> 0x7fffffff then Some (0, Some s)
          else case sk_grow al s of
              None \<Rightarrow> Some (0, Some s)
            | Some s \<Rightarrow>
                (case (if pos \<ge> st_num s then cells_write (st_data s) (st_num s) [p]
                       else Option.bind (cells_move (st_data s) (pos + 1) pos (st_num s - pos))
                              (\<lambda>d. cells_write d pos [p])) of
                   None \<Rightarrow> None
                 | Some d \<Rightarrow> Some (st_num s + 1, Some (s\<lparr>st_data := d, st_num := st_num s + 1, st_sorted := False\<rparr>))))"

definition OPENSSL_sk_delete ::
    "('a, 'c) OPENSSL_STACK \<Rightarrow> nat \<Rightarrow> ('a ptr \<times> ('a, 'c) OPENSSL_STACK) option" where
  "OPENSSL_sk_delete sk pos =
     (case sk of
        None \<Rightarrow> Some (None, None)
      | Some s \<Rightarrow>
          if pos \<ge> st_num s then Some (None, Some s)
          else
            let ret = st_data s ! pos in
            case (if pos \<noteq> st_num s - 1
                  then cells_move (st_data s) pos (pos + 1) (st_num s - pos - 1) else Some (st_data s)) of
              None \<Rightarrow> None
            | Some d \<Rightarrow> Some (ret, Some (s\<lparr>st_data := d, st_num := st_num s - 1\<rparr>)))"

text \<open>The loops that look for the first cell with a property.\<close>

function sk_scan :: "('a \<Rightarrow> bool) \<Rightarrow> 'a list \<Rightarrow> nat \<Rightarrow> nat \<Rightarrow> nat option" where
  "sk_scan P d i n = (if i < n then if P (d ! i) then Some i else sk_scan P d (i + 1) n else None)"
  by pat_completeness auto
termination
  by (relation "measure (\<lambda>(_, _, i, n). n - i)") auto

declare sk_scan.simps [simp del]

definition OPENSSL_sk_delete_ptr ::
    "('a, 'c) OPENSSL_STACK \<Rightarrow> 'a ptr \<Rightarrow> ('a ptr \<times> ('a, 'c) OPENSSL_STACK) option" where
  "OPENSSL_sk_delete_ptr sk p =
     (case sk of
        None \<Rightarrow> Some (None, None)
      | Some s \<Rightarrow>
          (case sk_scan (\<lambda>x. x = p) (st_data s) 0 (st_num s) of
             Some i \<Rightarrow> OPENSSL_sk_delete sk i
           | None \<Rightarrow> Some (None, sk)))"

text \<open>The loop of \<open>OPENSSL_sk_delete_if\<close>; \<open>f\<close> stands for \<open>call_func(func, x, data)\<close>.\<close>

function delete_if_loop :: "('a \<Rightarrow> bool) \<Rightarrow> 'a list \<Rightarrow> nat \<Rightarrow> nat \<Rightarrow> nat \<Rightarrow> 'a list \<times> nat" where
  "delete_if_loop f d new_num i n =
     (if i < n then
        if \<not> f (d ! i) then delete_if_loop f (d[new_num := d ! i]) (new_num + 1) (i + 1) n
        else delete_if_loop f d new_num (i + 1) n
      else (d, new_num))"
  by pat_completeness auto
termination
  by (relation "measure (\<lambda>(_, _, _, i, n). n - i)") auto

declare delete_if_loop.simps [simp del]

definition OPENSSL_sk_delete_if :: "('a, 'c) OPENSSL_STACK \<Rightarrow> ('a ptr \<Rightarrow> bool) \<Rightarrow> ('a, 'c) OPENSSL_STACK" where
  "OPENSSL_sk_delete_if sk f = map_option (\<lambda>s.
     case delete_if_loop f (st_data s) 0 0 (st_num s) of (d, n) \<Rightarrow> s\<lparr>st_data := d, st_num := n\<rparr>) sk"

definition OPENSSL_sk_is_sorted :: "('a, 'c) OPENSSL_STACK \<Rightarrow> bool" where
  "OPENSSL_sk_is_sorted sk \<longleftrightarrow>
     (case sk of None \<Rightarrow> True | Some s \<Rightarrow> st_sorted s \<or> (st_comp s \<noteq> None \<and> st_num s < 2))"

text \<open>The binary search: \<open>None\<close> for a failed assertion, otherwise the index if there is one.\<close>

function sk_bsearch :: "('a \<Rightarrow> 'a \<Rightarrow> int) \<Rightarrow> 'a \<Rightarrow> 'a list \<Rightarrow> nat \<Rightarrow> nat \<Rightarrow> nat option option" where
  "sk_bsearch cmp p d lo hi =
     (if lo < hi then
        let mid = lo + (hi - lo - 1) div 2
        in if \<not> (lo \<le> mid \<and> mid < hi) then None
           else
             let r = cmp p (d ! mid)
             in if r > 0 then sk_bsearch cmp p d (mid + 1) hi
                else if r < 0 then sk_bsearch cmp p d lo mid
                else if hi - lo = 1 then Some (Some mid)
                else if \<not> mid + 1 < hi then None
                else sk_bsearch cmp p d lo (mid + 1)
      else if lo = hi then Some None else None)"
  by pat_completeness auto
termination
  by (relation "measure (\<lambda>(_, _, _, lo, hi). hi - lo)") auto

declare sk_bsearch.simps [simp del]

definition OPENSSL_sk_find ::
    "('a, 'c) OPENSSL_STACK \<Rightarrow> 'a ptr \<Rightarrow> ('c \<Rightarrow> 'a ptr \<Rightarrow> 'a ptr \<Rightarrow> int) \<Rightarrow> nat option option" where
  "OPENSSL_sk_find sk p call_cmp_func =
     (case sk of
        None \<Rightarrow> Some None
      | Some s \<Rightarrow>
          (case st_comp s of
             None \<Rightarrow> Some (sk_scan (\<lambda>x. x = p) (st_data s) 0 (st_num s))
           | Some c \<Rightarrow>
               if p = None then Some None
               else if \<not> OPENSSL_sk_is_sorted sk
                    then Some (sk_scan (\<lambda>x. call_cmp_func c p x = 0) (st_data s) 0 (st_num s))
                    else sk_bsearch (call_cmp_func c) p (st_data s) 0 (st_num s)))"

definition OPENSSL_sk_shift :: "('a, 'c) OPENSSL_STACK \<Rightarrow> ('a ptr \<times> ('a, 'c) OPENSSL_STACK) option" where
  "OPENSSL_sk_shift sk =
     (case sk of
        None \<Rightarrow> Some (None, None)
      | Some s \<Rightarrow> if st_num s = 0 then Some (None, sk) else OPENSSL_sk_delete sk 0)"

definition OPENSSL_sk_push :: "'a cell_allocator \<Rightarrow> ('a, 'c) OPENSSL_STACK \<Rightarrow> 'a ptr \<Rightarrow> (nat \<times> ('a, 'c) OPENSSL_STACK) option" where
  "OPENSSL_sk_push al sk p = (case sk of None \<Rightarrow> None | Some s \<Rightarrow> OPENSSL_sk_insert al sk p (st_num s))"

definition OPENSSL_sk_pop :: "('a, 'c) OPENSSL_STACK \<Rightarrow> ('a ptr \<times> ('a, 'c) OPENSSL_STACK) option" where
  "OPENSSL_sk_pop sk =
     (case sk of
        None \<Rightarrow> Some (None, None)
      | Some s \<Rightarrow> if st_num s = 0 then Some (None, sk) else OPENSSL_sk_delete sk (st_num s - 1))"

definition OPENSSL_sk_dup :: "'a cell_allocator \<Rightarrow> ('a, 'c) OPENSSL_STACK \<Rightarrow> ('a, 'c) OPENSSL_STACK" where
  "OPENSSL_sk_dup al sk =
     (case sk of
        None \<Rightarrow> None
      | Some s \<Rightarrow>
          if cells_malloc al 40 = None then None
          else map_option (\<lambda>ret. s\<lparr>st_data := take (length ret) (st_data s)\<rparr>)
                 (cells_malloc al (size_mul 8 (st_num_alloc s))))"

section \<open>Sorting\<close>

text \<open>
  \<open>None\<close> for a failed assertion. That of \<open>left_idx\<close>, \<open>idx <= PTRDIFF_MAX\<close>, is left out: the index is below the
  number of elements, which is at most \<open>INT_MAX\<close>.
\<close>

definition parent_idx :: "nat \<Rightarrow> nat option" where
  "parent_idx idx = (if idx > 0 then Some ((idx - 1) div 2) else None)"

definition left_idx :: "nat \<Rightarrow> nat" where
  "left_idx idx = 2 * idx + 1"

text \<open>The loop of \<open>down_heap\<close> on the array.\<close>

function down_heap_loop :: "('a \<Rightarrow> 'a \<Rightarrow> int) \<Rightarrow> 'a list \<Rightarrow> nat \<Rightarrow> nat \<Rightarrow> 'a list" where
  "down_heap_loop cmp d i n =
     (let left = left_idx i in
      if left \<ge> n then d
      else
        let next = (if cmp (d ! i) (d ! left) < 0 then left else i);
            right = left + 1;
            next = (if right < n \<and> cmp (d ! next) (d ! right) < 0 then right else next)
        in if i = next then d
           else down_heap_loop cmp (d[i := d ! next, next := d ! i]) next n)"
  by pat_completeness auto
termination
  by (relation "measure (\<lambda>(_, _, i, n). n - i)") (auto simp: left_idx_def split: if_splits)

declare down_heap_loop.simps [simp del]

definition down_heap :: "('a \<Rightarrow> 'a \<Rightarrow> int) \<Rightarrow> nat \<Rightarrow> 'a list \<Rightarrow> nat \<Rightarrow> nat \<Rightarrow> 'a list option" where
  "down_heap cmp sk_num d i n = (if i < n \<and> n \<le> sk_num then Some (down_heap_loop cmp d i n) else None)"

text \<open>
  The two loops of \<open>OPENSSL_sk_sort\<close>. The first counts down with a \<open>size_t\<close> that wraps around after
  the index 0, which ends it.
\<close>

fun build_heap :: "('a \<Rightarrow> 'a \<Rightarrow> int) \<Rightarrow> nat \<Rightarrow> 'a list \<Rightarrow> nat \<Rightarrow> 'a list option" where
  "build_heap cmp n d 0 = down_heap cmp n d 0 n"
| "build_heap cmp n d (Suc i) = Option.bind (down_heap cmp n d (Suc i) n) (\<lambda>d. build_heap cmp n d i)"

fun extract_heap :: "('a \<Rightarrow> 'a \<Rightarrow> int) \<Rightarrow> nat \<Rightarrow> 'a list \<Rightarrow> nat \<Rightarrow> 'a list option" where
  "extract_heap cmp n d 0 = Some d"
| "extract_heap cmp n d (Suc i) =
     Option.bind (down_heap cmp n (d[0 := d ! Suc i, Suc i := d ! 0]) 0 (Suc i)) (\<lambda>d. extract_heap cmp n d i)"

definition OPENSSL_sk_sort ::
    "('a, 'c) OPENSSL_STACK \<Rightarrow> ('c \<Rightarrow> 'a ptr \<Rightarrow> 'a ptr \<Rightarrow> int) \<Rightarrow> ('a, 'c) OPENSSL_STACK option" where
  "OPENSSL_sk_sort sk call_cmp_func =
     (case sk of
        None \<Rightarrow> Some None
      | Some s \<Rightarrow>
          (case st_comp s of
             None \<Rightarrow> Some sk
           | Some c \<Rightarrow>
               if st_sorted s then Some sk
               else map_option (\<lambda>d. Some (s\<lparr>st_data := d, st_sorted := True\<rparr>))
                 (if st_num s \<ge> 2 then
                    Option.bind (parent_idx (st_num s - 1)) (\<lambda>i.
                    Option.bind (build_heap (call_cmp_func c) (st_num s) (st_data s) i) (\<lambda>d.
                      extract_heap (call_cmp_func c) (st_num s) d (st_num s - 1)))
                  else Some (st_data s))))"

text \<open>The old comparison function and the stack; \<open>None\<close> for \<open>sk == NULL\<close>, which is dereferenced.\<close>

definition OPENSSL_sk_set_cmp_func ::
    "('a, 'c) OPENSSL_STACK \<Rightarrow> 'c option \<Rightarrow> ('c option \<times> ('a, 'c) OPENSSL_STACK) option" where
  "OPENSSL_sk_set_cmp_func sk cmp = map_option (\<lambda>s.
     (st_comp s, Some (s\<lparr>st_sorted := (st_sorted s \<and> st_comp s = cmp), st_comp := cmp\<rparr>))) sk"

text \<open>
  The loop of \<open>OPENSSL_sk_deep_copy\<close>: \<open>Inr\<close> the array of copies, or \<open>Inl\<close> the copies made so far, which
  are freed, where \<open>copy\<close> (that is \<open>call_copy_func(copy_func, x)\<close>) returns \<open>NULL\<close>.
\<close>

function deep_copy_loop :: "('a \<Rightarrow> 'b ptr) \<Rightarrow> 'a ptr list \<Rightarrow> 'b ptr list \<Rightarrow> nat \<Rightarrow> nat \<Rightarrow> 'b list + 'b ptr list" where
  "deep_copy_loop copy d out i n =
     (if i < n then
        (case d ! i of
           None \<Rightarrow> deep_copy_loop copy d (out @ [None]) (i + 1) n
         | Some x \<Rightarrow>
             (case copy x of
                None \<Rightarrow> Inl (map the (filter (\<lambda>p. p \<noteq> None) out))
              | Some y \<Rightarrow> deep_copy_loop copy d (out @ [Some y]) (i + 1) n))
      else Inr out)"
  by pat_completeness auto
termination
  by (relation "measure (\<lambda>(_, _, _, i, n). n - i)") auto

declare deep_copy_loop.simps [simp del]

text \<open>The stack of copies, and the copies that were freed.\<close>

definition OPENSSL_sk_deep_copy ::
    "'a cell_allocator \<Rightarrow> ('a, 'c) OPENSSL_STACK \<Rightarrow> ('a \<Rightarrow> 'a ptr) \<Rightarrow> ('a, 'c) OPENSSL_STACK \<times> 'a list" where
  "OPENSSL_sk_deep_copy al sk copy =
     (case OPENSSL_sk_dup al sk of
        None \<Rightarrow> (None, [])
      | Some ret \<Rightarrow>
          (case deep_copy_loop copy (st_data ret) [] 0 (st_num ret) of
             Inl freed \<Rightarrow> (None, freed)
           | Inr d \<Rightarrow> (Some (ret\<lparr>st_data := d @ drop (st_num ret) (st_data ret)\<rparr>), [])))"

end
