(* ===== verification/Stack_Sort.thy ===== *)
theory Stack_Sort
  imports Stack
begin

text \<open>
  Sorting and searching in the pointer stack. The heap sort of \<open>OPENSSL_sk_sort\<close> returns a sorted
  permutation, and the binary search of \<open>OPENSSL_sk_find\<close> on a sorted array finds what the linear
  scan finds, the first match. Both for a comparison function that is a total preorder and
  whose sign changes with the order of its arguments.
\<close>

section \<open>Linear scan\<close>

lemma all_from: "i < n \<Longrightarrow> (\<forall>j. i \<le> j \<and> j < n \<longrightarrow> Q j) \<longleftrightarrow> Q i \<and> (\<forall>j. i + 1 \<le> j \<and> j < (n::nat) \<longrightarrow> Q j)"
proof (intro iffI allI impI conjI)
  fix j assume "i < n" "Q i \<and> (\<forall>j. i + 1 \<le> j \<and> j < n \<longrightarrow> Q j)" "i \<le> j \<and> j < n"
  then show "Q j" by (cases "j = i") auto
qed auto

lemma sk_scan_None: "sk_scan P d i n = None \<longleftrightarrow> (\<forall>j. i \<le> j \<and> j < n \<longrightarrow> \<not> P (d ! j))"
proof (induction P d i n rule: sk_scan.induct)
  case (1 P d i n)
  show ?case
  proof (cases "i < n")
    case True
    then show ?thesis using 1 by (subst sk_scan.simps) (simp add: all_from [OF True])
  qed (subst sk_scan.simps, auto)
qed

lemma sk_scan_Some: "sk_scan P d i n = Some k \<Longrightarrow> i \<le> k \<and> k < n \<and> P (d ! k) \<and> (\<forall>j. i \<le> j \<and> j < k \<longrightarrow> \<not> P (d ! j))"
proof (induction P d i n rule: sk_scan.induct)
  case (1 P d i n)
  show ?case
  proof (cases "i < n \<and> \<not> P (d ! i)")
    case True
    then have "sk_scan P d (i + 1) n = Some k" using 1(2) by (subst (asm) sk_scan.simps) simp
    with 1(1) True have "i + 1 \<le> k \<and> k < n \<and> P (d ! k) \<and> (\<forall>j. i + 1 \<le> j \<and> j < k \<longrightarrow> \<not> P (d ! j))" by blast
    then show ?thesis using True all_from [of i k "\<lambda>j. \<not> P (d ! j)"] by simp
  next
    case False
    then show ?thesis using 1(2) by (subst (asm) sk_scan.simps) (auto split: if_splits)
  qed
qed

lemma sk_scan_eqI:
  assumes "\<And>k. i \<le> k \<Longrightarrow> k < n \<Longrightarrow> P (d ! k) \<Longrightarrow> (\<forall>j. i \<le> j \<and> j < k \<longrightarrow> \<not> P (d ! j)) \<Longrightarrow> i' \<le> k \<and> k < n'"
    and "i \<le> i'" "n' \<le> n"
  shows "sk_scan P d i n = sk_scan P d i' n'"
proof (cases "sk_scan P d i n")
  case None
  then have "sk_scan P d i' n' = None" using assms(2,3) by (auto simp: sk_scan_None)
  then show ?thesis using None by simp
next
  case (Some k)
  note s = sk_scan_Some [OF Some]
  have k: "i' \<le> k" "k < n'" using assms(1) [of k] s by auto
  show ?thesis
  proof (cases "sk_scan P d i' n'")
    case None
    then show ?thesis using k s by (auto simp: sk_scan_None)
  next
    case (Some k')
    from sk_scan_Some [OF this] have "k' = k" using k s assms(2)
      by (meson le_trans nat_neq_iff)
    then show ?thesis using Some \<open>sk_scan P d i n = Some k\<close> by simp
  qed
qed

section \<open>Heaps in an array\<close>

definition heap_par :: "nat \<Rightarrow> nat" where
  "heap_par j = (j - 1) div 2"

text \<open>Every element below index \<open>n\<close> with a parent from \<open>k\<close> on is at most its parent.\<close>

definition is_heap :: "('a \<Rightarrow> 'a \<Rightarrow> int) \<Rightarrow> 'a list \<Rightarrow> nat \<Rightarrow> nat \<Rightarrow> bool" where
  "is_heap cmp d n k \<longleftrightarrow> (\<forall>j. 0 < j \<and> j < n \<and> k \<le> heap_par j \<longrightarrow> cmp (d ! j) (d ! heap_par j) \<le> 0)"

text \<open>The same except for the children of \<open>i\<close>, which are at most the parent of \<open>i\<close>.\<close>

definition heap_hole :: "('a \<Rightarrow> 'a \<Rightarrow> int) \<Rightarrow> 'a list \<Rightarrow> nat \<Rightarrow> nat \<Rightarrow> nat \<Rightarrow> bool" where
  "heap_hole cmp d n k i \<longleftrightarrow>
     (\<forall>j. 0 < j \<and> j < n \<and> k \<le> heap_par j \<and> heap_par j \<noteq> i \<longrightarrow> cmp (d ! j) (d ! heap_par j) \<le> 0) \<and>
     (\<forall>j. 0 < j \<and> j < n \<and> heap_par j = i \<and> 0 < i \<and> k \<le> heap_par i \<longrightarrow> cmp (d ! j) (d ! heap_par i) \<le> 0)"

lemma heap_par_iff: "0 < j \<Longrightarrow> heap_par j = i \<longleftrightarrow> j = 2 * i + 1 \<or> j = 2 * i + 2"
  by (auto simp: heap_par_def)

lemma heap_par_less: "0 < j \<Longrightarrow> heap_par j < j"
  by (auto simp: heap_par_def)

text \<open>The first \<open>n\<close> elements are permuted and the others stay.\<close>

definition permutes_upto :: "nat \<Rightarrow> 'a list \<Rightarrow> 'a list \<Rightarrow> bool" where
  "permutes_upto n d d' \<longleftrightarrow> mset (take n d') = mset (take n d) \<and> drop n d' = drop n d \<and> length d' = length d"

lemma permutes_upto_refl [simp]: "permutes_upto n d d"
  by (simp add: permutes_upto_def)

lemma permutes_upto_trans [trans]: "permutes_upto n d d' \<Longrightarrow> permutes_upto n d' d'' \<Longrightarrow> permutes_upto n d d''"
  by (simp add: permutes_upto_def)

lemma permutes_upto_mono: "permutes_upto m d d' \<Longrightarrow> m \<le> n \<Longrightarrow> permutes_upto n d d'"
proof -
  assume p: "permutes_upto m d d'" and m: "m \<le> n"
  have t: "take n e = take m e @ take (n - m) (drop m e)" for e :: "'a list"
    using m by (metis le_add_diff_inverse take_add)
  have dr: "drop n e = drop (n - m) (drop m e)" for e :: "'a list" using m by simp
  show ?thesis using p unfolding permutes_upto_def t [of d] t [of d'] dr [of d] dr [of d'] by (simp del: drop_drop)
qed

lemma permutes_upto_swap:
  "i < n \<Longrightarrow> j < n \<Longrightarrow> n \<le> length d \<Longrightarrow> permutes_upto n d (d[i := d ! j, j := d ! i])"
  using mset_swap [of j "take n d" i] by (simp add: permutes_upto_def take_update_swap drop_update_cancel)

lemma permutes_upto_nth:
  assumes "permutes_upto n d d'" "n \<le> length d" "x < n"
  shows "\<exists>y<n. d' ! x = d ! y"
proof -
  have "set (take n d') = set (take n d)" using assms(1) by (metis permutes_upto_def set_mset_mset)
  moreover have "d' ! x \<in> set (take n d')" using assms by (auto simp: permutes_upto_def in_set_conv_nth)
  ultimately have "d' ! x \<in> set (take n d)" by simp
  then show ?thesis using assms(2) by (auto simp: in_set_conv_nth)
qed

lemma permutes_upto_beyond: "permutes_upto n d d' \<Longrightarrow> n \<le> x \<Longrightarrow> x < length d \<Longrightarrow> d' ! x = d ! x"
proof -
  assume a: "permutes_upto n d d'" "n \<le> x" "x < length d"
  then have "drop n d' = drop n d" "length d' = length d" by (simp_all add: permutes_upto_def)
  then show ?thesis using nth_drop [of n d' "x - n"] nth_drop [of n d "x - n"] a(2,3) by simp
qed

section \<open>Comparison functions\<close>

text \<open>What the stack relies on: the comparison of \<open>qsort\<close>, with a sign that is antisymmetric.\<close>

locale sk_comparison = qsort_comparison cmp
  for cmp :: "'a \<Rightarrow> 'a \<Rightarrow> int" +
  assumes cmp_flip: "0 \<le> cmp x y \<longleftrightarrow> cmp y x \<le> 0"
begin

lemma cmp_refl: "cmp x x \<le> 0"
  using cmp_total [of x x] by simp

lemma cmp_above: "0 < cmp p m \<Longrightarrow> cmp x m \<le> 0 \<Longrightarrow> 0 < cmp p x"
  using cmp_trans [of p x m] by linarith

lemma cmp_below: "cmp p m < 0 \<Longrightarrow> cmp m x \<le> 0 \<Longrightarrow> cmp p x \<noteq> 0"
  using cmp_trans [of m x p] cmp_flip [of p x] cmp_flip [of p m] by linarith

subsection \<open>Binary search\<close>

abbreviation ix_sorted :: "'a list \<Rightarrow> nat \<Rightarrow> nat \<Rightarrow> bool" where
  "ix_sorted d a b \<equiv> (\<forall>x y. a \<le> x \<and> x \<le> y \<and> y < b \<longrightarrow> cmp (d ! x) (d ! y) \<le> 0)"

lemma bsearch_scan:
  "ix_sorted d lo hi \<Longrightarrow> lo \<le> hi \<Longrightarrow> sk_bsearch cmp p d lo hi = Some (sk_scan (\<lambda>x. cmp p x = 0) d lo hi)"
proof (induction "hi - lo" arbitrary: lo hi rule: less_induct)
  case less
  let ?P = "\<lambda>x. cmp p x = 0" and ?mid = "lo + (hi - lo - 1) div 2"
  show ?case
  proof (cases "lo < hi")
    case False
    then show ?thesis using less.prems by (subst sk_bsearch.simps, subst sk_scan.simps) simp
  next
    case True
    then have m: "lo \<le> ?mid" "?mid < hi" by auto
    have le: "cmp (d ! x) (d ! ?mid) \<le> 0" if "lo \<le> x" "x \<le> ?mid" for x using that m less.prems by blast
    have ge: "cmp (d ! ?mid) (d ! x) \<le> 0" if "?mid \<le> x" "x < hi" for x using that m less.prems by blast
    consider "0 < cmp p (d ! ?mid)" | "cmp p (d ! ?mid) < 0" | "cmp p (d ! ?mid) = 0" by linarith
    then show ?thesis
    proof cases
      case 1
      have "sk_scan ?P d lo hi = sk_scan ?P d (?mid + 1) hi"
      proof (rule sk_scan_eqI)
        fix k assume k: "lo \<le> k" "k < hi" "cmp p (d ! k) = 0"
        then have "\<not> k \<le> ?mid" using cmp_above [OF 1 le, of k] by auto
        then show "?mid + 1 \<le> k \<and> k < hi" using k by simp
      qed (use m in auto)
      moreover have "sk_bsearch cmp p d (?mid + 1) hi = Some (sk_scan ?P d (?mid + 1) hi)"
        using m less.prems by (intro less.hyps) auto
      ultimately show ?thesis using 1 True m by (subst sk_bsearch.simps) (simp add: Let_def)
    next
      case 2
      have "sk_scan ?P d lo hi = sk_scan ?P d lo ?mid"
      proof (rule sk_scan_eqI)
        fix k assume k: "lo \<le> k" "k < hi" "cmp p (d ! k) = 0"
        then have "\<not> ?mid \<le> k" using cmp_below [OF 2 ge, of k] by auto
        then show "lo \<le> k \<and> k < ?mid" using k by simp
      qed (use m in auto)
      moreover have "sk_bsearch cmp p d lo ?mid = Some (sk_scan ?P d lo ?mid)"
        using m less.prems by (intro less.hyps) auto
      ultimately show ?thesis using 2 True m by (subst sk_bsearch.simps) (simp add: Let_def)
    next
      case 3
      show ?thesis
      proof (cases "hi - lo = 1")
        case one: True
        then have "?mid = lo" by simp
        then show ?thesis using 3 True one by (subst sk_bsearch.simps, subst sk_scan.simps) (simp add: Let_def)
      next
        case False
        then have h: "?mid + 1 < hi" using True by auto
        have "sk_scan ?P d lo hi = sk_scan ?P d lo (?mid + 1)"
        proof (rule sk_scan_eqI)
          fix k assume "lo \<le> k" "\<forall>j. lo \<le> j \<and> j < k \<longrightarrow> cmp p (d ! j) \<noteq> 0"
          then show "lo \<le> k \<and> k < ?mid + 1" using m(1) 3 by (metis not_le_imp_less less_Suc_eq_le Suc_eq_plus1)
        qed (use m in auto)
        moreover have "sk_bsearch cmp p d lo (?mid + 1) = Some (sk_scan ?P d lo (?mid + 1))"
          using m h less.prems by (intro less.hyps) auto
        ultimately show ?thesis using 3 True m h False by (subst sk_bsearch.simps) (simp add: Let_def)
      qed
    qed
  qed
qed

subsection \<open>Heap sort\<close>

text \<open>The child that \<open>down_heap\<close> moves up.\<close>

lemma down_heap_next:
  fixes d :: "'a list" and i n :: nat
  defines "left \<equiv> 2 * i + 1"
  defines "nxt1 \<equiv> if cmp (d ! i) (d ! left) < 0 then left else i"
  defines "nxt \<equiv> if left + 1 < n \<and> cmp (d ! nxt1) (d ! (left + 1)) < 0 then left + 1 else nxt1"
  assumes l: "left < n"
  shows "cmp (d ! i) (d ! nxt) \<le> 0" "nxt = i \<or> nxt = left \<or> nxt = left + 1 \<and> left + 1 < n"
    "\<And>j. 0 < j \<Longrightarrow> j < n \<Longrightarrow> heap_par j = i \<Longrightarrow> cmp (d ! j) (d ! nxt) \<le> 0"
proof -
  have n1: "cmp (d ! i) (d ! nxt1) \<le> 0" "cmp (d ! left) (d ! nxt1) \<le> 0"
    using cmp_refl cmp_flip [of "d ! i" "d ! left"] by (auto simp: nxt1_def not_less)
  have up: "cmp (d ! nxt1) (d ! nxt) \<le> 0" using cmp_refl by (auto simp: nxt_def)
  have r: "cmp (d ! (left + 1)) (d ! nxt) \<le> 0" if "left + 1 < n"
    using that cmp_refl cmp_flip [of "d ! nxt1" "d ! (left + 1)"] by (auto simp: nxt_def not_less)
  show "cmp (d ! i) (d ! nxt) \<le> 0" using cmp_trans [OF n1(1) up] .
  show "nxt = i \<or> nxt = left \<or> nxt = left + 1 \<and> left + 1 < n" by (auto simp: nxt_def nxt1_def)
  show "cmp (d ! j) (d ! nxt) \<le> 0" if "0 < j" "j < n" "heap_par j = i" for j
    using that cmp_trans [OF n1(2) up] r by (auto simp: heap_par_iff left_def)
qed

lemma heap_hole_swap:
  assumes h: "heap_hole cmp d n k i" and k: "k \<le> i"
    and nxt: "0 < nxt" "nxt < n" "heap_par nxt = i" and len: "n \<le> length d"
    and top: "cmp (d ! i) (d ! nxt) \<le> 0" "\<And>j. 0 < j \<Longrightarrow> j < n \<Longrightarrow> heap_par j = i \<Longrightarrow> cmp (d ! j) (d ! nxt) \<le> 0"
  shows "heap_hole cmp (d[i := d ! nxt, nxt := d ! i]) n k nxt"
proof -
  let ?d = "d[i := d ! nxt, nxt := d ! i]"
  have i: "i < nxt" "i < length d" "nxt < length d" using heap_par_less [OF nxt(1)] nxt len by auto
  have e: "?d ! i = d ! nxt" "?d ! nxt = d ! i" "\<And>j. j \<noteq> i \<Longrightarrow> j \<noteq> nxt \<Longrightarrow> ?d ! j = d ! j" using i by auto
  have "cmp (?d ! j) (?d ! heap_par j) \<le> 0" if j: "0 < j" "j < n" "k \<le> heap_par j" "heap_par j \<noteq> nxt" for j
  proof (cases "heap_par j = i")
    case True
    then show ?thesis using top j heap_par_less [OF j(1)] by (cases "j = nxt") (simp_all add: e)
  next
    case False
    then have "j \<noteq> nxt" using nxt(3) by auto
    then show ?thesis using False h j heap_par_less [OF j(1)] nxt(1,2,3)
      unfolding heap_hole_def by (cases "j = i") (auto simp: e)
  qed
  moreover have "cmp (?d ! j) (?d ! heap_par nxt) \<le> 0" if j: "0 < j" "j < n" "heap_par j = nxt" for j
    using h j heap_par_less [OF j(1)] i(1) k nxt(3) unfolding heap_hole_def by (auto simp: e)
  ultimately show ?thesis unfolding heap_hole_def by blast
qed

lemma down_heap_ok:
  "heap_hole cmp d n k i \<Longrightarrow> k \<le> i \<Longrightarrow> n \<le> length d \<Longrightarrow>
   is_heap cmp (down_heap_loop cmp d i n) n k \<and> permutes_upto n d (down_heap_loop cmp d i n)"
proof (induction "n - i" arbitrary: d i rule: less_induct)
  case less
  let ?left = "2 * i + 1"
  define nxt1 where "nxt1 = (if cmp (d ! i) (d ! ?left) < 0 then ?left else i)"
  define nxt where "nxt = (if ?left + 1 < n \<and> cmp (d ! nxt1) (d ! (?left + 1)) < 0 then ?left + 1 else nxt1)"
  have step: "down_heap_loop cmp d i n = (if ?left \<ge> n then d else if i = nxt then d
      else down_heap_loop cmp (d[i := d ! nxt, nxt := d ! i]) nxt n)"
    unfolding nxt_def nxt1_def by (subst down_heap_loop.simps) (simp add: Let_def left_idx_def)
  show ?case
  proof (cases "?left < n")
    case False
    have "is_heap cmp d n k" unfolding is_heap_def
    proof (intro allI impI)
      fix j assume j: "0 < j \<and> j < n \<and> k \<le> heap_par j"
      then have "heap_par j \<noteq> i" using False heap_par_iff [of j i] by auto
      then show "cmp (d ! j) (d ! heap_par j) \<le> 0" using less.prems(1) j unfolding heap_hole_def by blast
    qed
    then show ?thesis using False by (simp add: step)
  next
    case left: True
    note nxt = down_heap_next [where d = d, OF left, folded nxt1_def, folded nxt_def]
    show ?thesis
    proof (cases "nxt = i")
      case True
      have "is_heap cmp d n k" unfolding is_heap_def
      proof (intro allI impI)
        fix j assume j: "0 < j \<and> j < n \<and> k \<le> heap_par j"
        then show "cmp (d ! j) (d ! heap_par j) \<le> 0" using less.prems(1) nxt(3) [of j] True
          unfolding heap_hole_def by (cases "heap_par j = i") auto
      qed
      then show ?thesis using True left by (simp add: step)
    next
      case False
      then have c: "0 < nxt" "nxt < n" "heap_par nxt = i" using nxt(2) left by (auto simp: heap_par_iff)
      then have i: "i < nxt" using heap_par_less by blast
      let ?d = "d[i := d ! nxt, nxt := d ! i]"
      have "heap_hole cmp ?d n k nxt" using less.prems c nxt by (intro heap_hole_swap) auto
      then have "is_heap cmp (down_heap_loop cmp ?d nxt n) n k \<and> permutes_upto n ?d (down_heap_loop cmp ?d nxt n)"
        using less.hyps [of nxt ?d] i c(2) less.prems by simp
      moreover have "permutes_upto n d ?d" using i c(2) less.prems(3) by (intro permutes_upto_swap) auto
      ultimately show ?thesis using False left permutes_upto_trans by (auto simp: step)
    qed
  qed
qed

lemma build_heap_ok:
  "is_heap cmp d n (Suc i) \<Longrightarrow> i < n \<Longrightarrow> n \<le> length d \<Longrightarrow>
   \<exists>d'. build_heap cmp n d i = Some d' \<and> is_heap cmp d' n 0 \<and> permutes_upto n d d'"
proof (induction i arbitrary: d)
  case 0
  have "heap_hole cmp d n 0 0" using 0(1) unfolding heap_hole_def is_heap_def by auto
  then show ?case using down_heap_ok [of d n 0 0] 0 by (simp add: down_heap_def)
next
  case (Suc i)
  let ?d = "down_heap_loop cmp d (Suc i) n"
  have "heap_hole cmp d n (Suc i) (Suc i)"
    unfolding heap_hole_def
  proof (intro conjI allI impI)
    fix j assume j: "0 < j \<and> j < n \<and> Suc i \<le> heap_par j \<and> heap_par j \<noteq> Suc i"
    then have "Suc (Suc i) \<le> heap_par j" by simp
    then show "cmp (d ! j) (d ! heap_par j) \<le> 0" using Suc.prems(1) j unfolding is_heap_def by blast
  next
    fix j assume "0 < j \<and> j < n \<and> heap_par j = Suc i \<and> 0 < Suc i \<and> Suc i \<le> heap_par (Suc i)"
    then show "cmp (d ! j) (d ! heap_par (Suc i)) \<le> 0" using heap_par_less [of "Suc i"] by simp
  qed
  then have h: "is_heap cmp ?d n (Suc i)" "permutes_upto n d ?d" using down_heap_ok [of d n "Suc i" "Suc i"] Suc.prems by auto
  then have l: "n \<le> length ?d" using Suc.prems(3) by (simp add: permutes_upto_def)
  obtain d' where "build_heap cmp n ?d i = Some d'" "is_heap cmp d' n 0" "permutes_upto n ?d d'"
    using Suc.IH [OF h(1) _ l] Suc.prems(2) by auto
  then show ?case using h(2) Suc.prems(2) permutes_upto_trans by (auto simp: down_heap_def)
qed

lemma heap_root: "is_heap cmp d n 0 \<Longrightarrow> j < n \<Longrightarrow> cmp (d ! j) (d ! 0) \<le> 0"
proof (induction j rule: less_induct)
  case (less j)
  show ?case
  proof (cases "j = 0")
    case False
    then have "cmp (d ! j) (d ! heap_par j) \<le> 0" "cmp (d ! heap_par j) (d ! 0) \<le> 0"
      using less heap_par_less [of j] unfolding is_heap_def by auto
    then show ?thesis by (rule cmp_trans)
  qed (simp add: cmp_refl)
qed

lemma extract_heap_ok:
  "is_heap cmp d (Suc i) 0 \<Longrightarrow> i < n \<Longrightarrow> n \<le> length d \<Longrightarrow> ix_sorted d (Suc i) n \<Longrightarrow>
   (\<forall>x y. x \<le> i \<and> i < y \<and> y < n \<longrightarrow> cmp (d ! x) (d ! y) \<le> 0) \<Longrightarrow>
   \<exists>d'. extract_heap cmp n d i = Some d' \<and> ix_sorted d' 0 n \<and> permutes_upto n d d'"
proof (induction i arbitrary: d)
  case 0
  have "ix_sorted d 0 n"
  proof (intro allI impI)
    fix x y assume "0 \<le> x \<and> x \<le> y \<and> y < n"
    then show "cmp (d ! x) (d ! y) \<le> 0" using 0(4,5) cmp_refl by (cases "x = 0"; cases "y = 0") auto
  qed
  then show ?case by simp
next
  case (Suc i)
  let ?s = "d[0 := d ! Suc i, Suc i := d ! 0]"
  let ?d = "down_heap_loop cmp ?s 0 (Suc i)"
  have len: "Suc i < length d" using Suc.prems(2,3) by simp
  have s: "?s ! Suc i = d ! 0" "\<And>x. Suc i < x \<Longrightarrow> ?s ! x = d ! x" "\<And>x. 0 < x \<Longrightarrow> x \<le> i \<Longrightarrow> ?s ! x = d ! x" "?s ! 0 = d ! Suc i"
    using len nth_list_update_eq [of 0 d "d ! Suc i"] by (cases d; auto)+
  have sw: "permutes_upto n d ?s" using Suc.prems(2,3) by (intro permutes_upto_swap) auto
  have "heap_hole cmp ?s (Suc i) 0 0"
    unfolding heap_hole_def
  proof (intro conjI allI impI)
    fix j assume j: "0 < j \<and> j < Suc i \<and> 0 \<le> heap_par j \<and> heap_par j \<noteq> 0"
    then have "?s ! j = d ! j" "?s ! heap_par j = d ! heap_par j" using heap_par_less [of j] s(3) by auto
    then show "cmp (?s ! j) (?s ! heap_par j) \<le> 0" using Suc.prems(1) j unfolding is_heap_def by auto
  qed simp
  then have h: "is_heap cmp ?d (Suc i) 0" "permutes_upto (Suc i) ?s ?d"
    using down_heap_ok [of ?s "Suc i" 0 0] len by auto
  have up: "permutes_upto n ?s ?d" using permutes_upto_mono [OF h(2)] Suc.prems(2) by simp
  have b: "?d ! x = ?s ! x" if "Suc i \<le> x" "x < length d" for x using permutes_upto_beyond [OF h(2)] that by simp
  have a: "\<exists>y\<le>Suc i. ?d ! x = d ! y" if "x \<le> i" for x
  proof -
    have "Suc i \<le> length ?s" "x < Suc i" using len that by simp_all
    from permutes_upto_nth [OF h(2) this] obtain y where y: "y < Suc i" "?d ! x = ?s ! y" by blast
    show ?thesis using y s(3,4) by (intro exI [of _ "if y = 0 then Suc i else y"]) auto
  qed
  have max: "cmp (d ! x) (d ! 0) \<le> 0" if "x \<le> Suc i" for x using heap_root [OF Suc.prems(1)] that by simp
  have "ix_sorted ?d (Suc i) n"
  proof (intro allI impI)
    fix x y assume xy: "Suc i \<le> x \<and> x \<le> y \<and> y < n"
    then have "?d ! y = ?s ! y" "?d ! x = ?s ! x" using b Suc.prems(3) by auto
    then show "cmp (?d ! x) (?d ! y) \<le> 0"
      using xy Suc.prems(4,5) s cmp_refl by (cases "x = Suc i"; cases "y = Suc i") auto
  qed
  moreover have "\<forall>x y. x \<le> i \<and> i < y \<and> y < n \<longrightarrow> cmp (?d ! x) (?d ! y) \<le> 0"
  proof (intro allI impI)
    fix x y assume xy: "x \<le> i \<and> i < y \<and> y < n"
    then obtain z where z: "z \<le> Suc i" "?d ! x = d ! z" using a by blast
    have "?d ! y = ?s ! y" using b xy Suc.prems(3) by auto
    then show "cmp (?d ! x) (?d ! y) \<le> 0"
      using xy z max Suc.prems(5) s by (cases "y = Suc i") auto
  qed
  moreover have "n \<le> length ?d" using up Suc.prems(3) by (simp add: permutes_upto_def)
  ultimately obtain d' where "extract_heap cmp n ?d i = Some d'" "ix_sorted d' 0 n" "permutes_upto n ?d d'"
    using Suc.IH [of ?d] h(1) Suc.prems(2) by auto
  moreover have "down_heap cmp n ?s 0 (Suc i) = Some ?d" using Suc.prems(2) by (simp add: down_heap_def)
  ultimately show ?case using permutes_upto_trans [OF permutes_upto_trans [OF sw up]] by (intro exI [of _ d']) simp
qed

text \<open>Both loops together, as \<open>OPENSSL_sk_sort\<close> runs them.\<close>

lemma heap_sort_ok:
  assumes "2 \<le> n" "n \<le> length d"
  shows "\<exists>d'. Option.bind (parent_idx (n - 1)) (\<lambda>i. Option.bind (build_heap cmp n d i) (\<lambda>d. extract_heap cmp n d (n - 1))) =
    Some d' \<and> ix_sorted d' 0 n \<and> permutes_upto n d d'"
proof -
  let ?i = "(n - 2) div 2"
  have p: "parent_idx (n - 1) = Some ?i" using assms by (simp add: parent_idx_def numeral_2_eq_2)
  have "is_heap cmp d n (Suc ?i)" unfolding is_heap_def heap_par_def using assms by auto
  then obtain d1 where d1: "build_heap cmp n d ?i = Some d1" "is_heap cmp d1 n 0" "permutes_upto n d d1"
    using build_heap_ok [of d n ?i] assms le_less_trans [of ?i "n - 2" n] by auto
  have n: "Suc (n - 1) = n" using assms by simp
  have top: "\<forall>x y. x \<le> n - 1 \<and> n - 1 < y \<and> y < n \<longrightarrow> cmp (d1 ! x) (d1 ! y) \<le> 0"
  proof (intro allI impI, elim conjE)
    fix x y assume "n - 1 < y" "y < n"
    then have False by linarith
    then show "cmp (d1 ! x) (d1 ! y) \<le> 0" ..
  qed
  have len: "n \<le> length d1" using d1(3) assms(2) by (simp add: permutes_upto_def)
  obtain d2 where "extract_heap cmp n d1 (n - 1) = Some d2" "ix_sorted d2 0 n" "permutes_upto n d1 d2"
    using extract_heap_ok [of d1 "n - 1" n] d1 assms top len unfolding n by auto
  then show ?thesis using p d1 permutes_upto_trans by auto
qed

end

text \<open>The comparison of \<open>SET OF\<close> elements is such a function.\<close>

interpretation set_of_cmp: sk_comparison compare_set_of_element
proof
  have nil: "compare_set_of_element (a # x) [] = 1" "compare_set_of_element [] (a # x) = - 1"
    "compare_set_of_element [] [] = 0" for a x
    by (simp_all add: compare_set_of_element_def CBS_len_def Let_def)
  have flip: "compare_set_of_element y x = - compare_set_of_element x y" for x y
  proof (induction x arbitrary: y)
    case Nil
    then show ?case by (cases y) (simp_all add: nil)
  next
    case (Cons a x)
    show ?case
    proof (cases y)
      case (Cons b y')
      then show ?thesis using Cons.IH [of y'] by (cases a b rule: linorder_cases) (simp_all add: compare_set_of_Cons)
    qed (simp add: nil)
  qed
  show "0 \<le> compare_set_of_element x y \<longleftrightarrow> compare_set_of_element y x \<le> 0" for x y
    using flip [of x y] by linarith
qed

end
