(* ===== verification/Stack_List.thy ===== *)
theory Stack_List
  imports Stack_Sort
begin

text \<open>
  The pointer stack as a list: the invariant of the array, the operations as list operations, sorting
  and searching, and the states that sequences of operations reach.
\<close>

section \<open>Invariant and abstraction\<close>

definition cells_ok :: "'a cell_allocator \<Rightarrow> bool" where
  "cells_ok al \<longleftrightarrow> (\<forall>n xs. al n = Some xs \<longrightarrow> length xs = n div 8)"

definition sk_inv :: "('a, 'c) stack_st \<Rightarrow> bool" where
  "sk_inv s \<longleftrightarrow> length (st_data s) = st_num_alloc s \<and> st_num s < st_num_alloc s \<and> st_num s \<le> 2147483647 \<and>
     st_num_alloc s \<le> 2 ^ 32"

definition sk_list :: "('a, 'c) stack_st \<Rightarrow> 'a ptr list" where
  "sk_list s = take (st_num s) (st_data s)"

lemma length_sk_list: "sk_inv s \<Longrightarrow> length (sk_list s) = st_num s"
  by (simp add: sk_inv_def sk_list_def)

lemma sk_list_nth: "i < st_num s \<Longrightarrow> sk_list s ! i = st_data s ! i"
  by (simp add: sk_list_def)

section \<open>Memory\<close>

lemma size_mul_small: "a * b < SIZE_MOD \<Longrightarrow> size_mul a b = a * b"
  unfolding size_mul_def of_nat_mult [symmetric] by (intro unat_of_nat_less) simp

lemma cells_malloc_length:
  assumes "cells_ok al" "cells_malloc al n = Some xs" "n + 8 < SIZE_MOD"
  shows "length xs = n div 8"
proof -
  have "size_add n 8 = n + 8" using assms(3) by (rule size_add_small)
  then obtain ys where "al (n + 8) = Some ys" "xs = drop 1 ys" using assms(2) by (auto simp: cells_malloc_def)
  then show ?thesis using assms(1) unfolding cells_ok_def by fastforce
qed

lemma cells_malloc_live: "cells_malloc al n = None \<Longrightarrow> n + 8 < SIZE_MOD \<Longrightarrow> \<exists>m. al m = None"
  by (auto simp: cells_malloc_def size_add_small)

lemma cells_write_Some: "i + length xs \<le> length d \<Longrightarrow> cells_write d i xs = Some (take i d @ xs @ drop (i + length xs) d)"
  by (simp add: cells_write_def)

section \<open>Operations as list operations\<close>

lemma sk_new_ok:
  assumes "cells_ok al" "OPENSSL_sk_new al c = Some s"
  shows "sk_inv s \<and> sk_list s = [] \<and> \<not> st_sorted s \<and> st_comp s = c"
proof -
  obtain d where d: "cells_calloc al kMinSize 8 = Some d"
    "s = \<lparr>st_num = 0, st_data = d, st_sorted = False, st_num_alloc = kMinSize, st_comp = c\<rparr>"
    using assms(2) by (auto simp: OPENSSL_sk_new_def split: if_splits option.splits)
  have "size_mul 4 8 = 32" by (simp add: size_mul_small)
  then obtain xs where "cells_malloc al 32 = Some xs" "d = replicate (length xs) None"
    using d(1) by (auto simp: cells_calloc_def kMinSize_def split: if_splits)
  then have "length d = 4" using cells_malloc_length [OF assms(1), of 32 xs] by simp
  then show ?thesis using d(2) by (simp add: sk_inv_def sk_list_def kMinSize_def)
qed

text \<open>Growing leaves the elements and makes room for one more; it fails only where \<open>malloc\<close> does.\<close>

lemma sk_grow_ok:
  assumes al: "cells_ok al" and inv: "sk_inv s" and n: "st_num s < 2147483647"
  shows "(case sk_grow al s of
       None \<Rightarrow> \<exists>n. al n = None
     | Some s' \<Rightarrow> \<exists>d a. s' = s\<lparr>st_data := d, st_num_alloc := a\<rparr> \<and> length d = a \<and> st_num s + 1 < a \<and> a \<le> 2 ^ 32 \<and>
         take (st_num s) d = take (st_num s) (st_data s))"
proof -
  let ?a = "st_num_alloc s"
  have i: "length (st_data s) = ?a" "st_num s < ?a" "?a \<le> 2 ^ 32" using inv by (simp_all add: sk_inv_def)
  have one: "size_add (st_num s) 1 = st_num s + 1" using n by (simp add: size_add_small)
  show ?thesis
  proof (cases "?a \<le> st_num s + 1")
    case False
    then have "sk_grow al s = Some s" unfolding sk_grow_def one by simp
    then show ?thesis using i False by (auto intro!: exI [of _ "st_data s"])
  next
    case True
    have m: "size_mul ?a 2 = ?a * 2" "size_mul (?a * 2) 8 = ?a * 16" using True n by (simp_all add: size_mul_small)
    have g: "sk_grow al s = map_option (\<lambda>data. s\<lparr>st_data := data, st_num_alloc := ?a * 2\<rparr>)
        (cells_realloc al (st_data s) (?a * 16))"
      unfolding sk_grow_def one m Let_def using True by (simp add: m)
    have lim: "?a * 16 + 8 < SIZE_MOD" using True n by simp
    show ?thesis
    proof (cases "cells_malloc al (?a * 16)")
      case None
      then show ?thesis using cells_malloc_live [OF None lim] by (simp add: g cells_realloc_def)
    next
      case (Some xs)
      have "length xs = ?a * 2" using cells_malloc_length [OF al Some lim] by simp
      then show ?thesis using i True n
        by (auto simp: g cells_realloc_def Some Let_def intro!: exI [of _ "st_data s @ drop ?a xs"])
    qed
  qed
qed

lemma sk_insert_ok:
  assumes al: "cells_ok al" and inv: "sk_inv s"
  shows "(OPENSSL_sk_insert al (Some s) p w = Some (0, Some s) \<and> (st_num s = 2147483647 \<or> (\<exists>n. al n = None))) \<or>
    (\<exists>s'. OPENSSL_sk_insert al (Some s) p w = Some (st_num s + 1, Some s') \<and> sk_inv s' \<and>
       sk_list s' = take w (sk_list s) @ p # drop w (sk_list s) \<and> \<not> st_sorted s' \<and> st_comp s' = st_comp s)"
proof -
  have u: "(of_nat (st_num s) :: u64) \<ge> 0x7fffffff \<longleftrightarrow> st_num s \<ge> 2147483647"
    using inv by (simp add: word_le_nat_alt unat_of_nat_less sk_inv_def)
  show ?thesis
  proof (cases "st_num s = 2147483647")
    case True
    then show ?thesis using u by (simp add: OPENSSL_sk_insert_def)
  next
    case False
    then have n: "st_num s < 2147483647" using inv by (simp add: sk_inv_def)
    show ?thesis
    proof (cases "sk_grow al s")
      case None
      then show ?thesis using sk_grow_ok [OF al inv n] n u by (auto simp: OPENSSL_sk_insert_def not_le)
    next
      case (Some s1)
      then obtain d a where s1: "s1 = s\<lparr>st_data := d, st_num_alloc := a\<rparr>" "length d = a" "st_num s + 1 < a" "a \<le> 2 ^ 32"
        "take (st_num s) d = sk_list s" using sk_grow_ok [OF al inv n] by (auto simp: sk_list_def)
      let ?n = "st_num s" and ?xs = "sk_list s"
      have "\<exists>d'. (if w \<ge> ?n then cells_write d ?n [p]
           else Option.bind (cells_move d (w + 1) w (?n - w)) (\<lambda>d. cells_write d w [p])) = Some d' \<and>
         length d' = a \<and> take (?n + 1) d' = take w ?xs @ p # drop w ?xs"
      proof (cases "w \<ge> ?n")
        case True
        then show ?thesis using s1 length_sk_list [OF inv] by (simp add: cells_write_def)
      next
        case False
        then have "cells_move d (w + 1) w (?n - w) = Some (take (w + 1) d @ drop w ?xs @ drop (?n + 1) d)"
          using s1(2,3) by (simp add: cells_move_def cells_write_def take_drop flip: s1(5))
        then show ?thesis using False s1(2,3) length_sk_list [OF inv]
          by (simp add: cells_write_def min_absorb2 Suc_diff_le flip: s1(5))
      qed
      then obtain d' where d': "(if w \<ge> ?n then cells_write d ?n [p]
           else Option.bind (cells_move d (w + 1) w (?n - w)) (\<lambda>d. cells_write d w [p])) = Some d'"
         "length d' = a" "take (?n + 1) d' = take w ?xs @ p # drop w ?xs" by blast
      have "OPENSSL_sk_insert al (Some s) p w =
          Some (?n + 1, Some (s1\<lparr>st_data := d', st_num := ?n + 1, st_sorted := False\<rparr>))"
        using d'(1) Some n u s1(1) by (cases "w \<ge> ?n") (simp_all add: OPENSSL_sk_insert_def not_le)
      then show ?thesis using d'(2,3) s1 n by (auto simp: sk_inv_def sk_list_def)
    qed
  qed
qed

lemma sk_delete_ok:
  assumes inv: "sk_inv s" and w: "w < st_num s"
  shows "\<exists>s'. OPENSSL_sk_delete (Some s) w = Some (sk_list s ! w, Some s') \<and> sk_inv s' \<and>
    sk_list s' = take w (sk_list s) @ drop (Suc w) (sk_list s) \<and> st_sorted s' = st_sorted s \<and> st_comp s' = st_comp s"
proof -
  let ?n = "st_num s" and ?d = "st_data s"
  have i: "?n < length ?d" using inv by (simp add: sk_inv_def)
  have "\<exists>d'. (if w \<noteq> ?n - 1 then cells_move ?d w (w + 1) (?n - w - 1) else Some ?d) = Some d' \<and>
      length d' = length ?d \<and> take (?n - 1) d' = take w (sk_list s) @ drop (Suc w) (sk_list s)"
  proof (cases "w = ?n - 1")
    case True
    then show ?thesis using w i by (simp add: sk_list_def min_absorb1)
  next
    case False
    then show ?thesis using w i
      by (auto simp: cells_move_def cells_write_def sk_list_def drop_take min_absorb1 min_absorb2)
  qed
  then obtain d' where d': "(if w \<noteq> ?n - 1 then cells_move ?d w (w + 1) (?n - w - 1) else Some ?d) = Some d'"
      "length d' = length ?d" "take (?n - 1) d' = take w (sk_list s) @ drop (Suc w) (sk_list s)" by blast
  have "OPENSSL_sk_delete (Some s) w = Some (sk_list s ! w, Some (s\<lparr>st_data := d', st_num := ?n - 1\<rparr>))"
    using d'(1) w by (simp add: OPENSSL_sk_delete_def Let_def sk_list_nth)
  then show ?thesis using d'(2,3) inv w by (auto simp: sk_inv_def sk_list_def)
qed

lemma sk_delete_beyond: "\<not> w < st_num s \<Longrightarrow> OPENSSL_sk_delete (Some s) w = Some (None, Some s)"
  by (simp add: OPENSSL_sk_delete_def)

lemma delete_if_loop_ok:
  "m \<le> i \<Longrightarrow> i \<le> n \<Longrightarrow> n \<le> length d \<Longrightarrow> delete_if_loop f d m i n = (d', k) \<Longrightarrow>
   length d' = length d \<and> k \<le> n \<and> take k d' = take m d @ filter (\<lambda>x. \<not> f x) (drop i (take n d))"
proof (induction f d m i n rule: delete_if_loop.induct)
  case (1 f d m i n)
  show ?case
  proof (cases "i < n")
    case False
    then have "delete_if_loop f d m i n = (d, m)" by (subst delete_if_loop.simps) simp
    then show ?thesis using 1(3-6) False by auto
  next
    case True
    have e: "drop i (take n d) = d ! i # drop (i + 1) (take n d)"
      using True 1(5) Cons_nth_drop_Suc [of i "take n d"] by simp
    show ?thesis
    proof (cases "f (d ! i)")
      case f: True
      then have "delete_if_loop f d m (i + 1) n = (d', k)" using 1(6) True by (simp add: delete_if_loop.simps [of f d m i n])
      then show ?thesis using 1(2) [OF True] f True 1(3-5) e by simp
    next
      case False
      let ?d = "d[m := d ! i]"
      have "delete_if_loop f ?d (m + 1) (i + 1) n = (d', k)" using 1(6) True False by (simp add: delete_if_loop.simps [of f d m i n])
      then have "length d' = length ?d \<and> k \<le> n \<and> take k d' = take (m + 1) ?d @ filter (\<lambda>x. \<not> f x) (drop (i + 1) (take n ?d))"
        using 1(1) [OF True False] True 1(3-5) by simp
      moreover have "take (m + 1) ?d = take m d @ [d ! i]" using True 1(3,5) by (simp add: take_Suc_conv_app_nth)
      moreover have "drop (i + 1) (take n ?d) = drop (i + 1) (take n d)"
        using 1(3) by (simp add: take_update_swap drop_update_cancel)
      ultimately show ?thesis using e False by simp
    qed
  qed
qed

lemma sk_delete_if_ok:
  assumes "sk_inv s"
  shows "\<exists>s'. OPENSSL_sk_delete_if (Some s) f = Some s' \<and> sk_inv s' \<and> sk_list s' = filter (\<lambda>x. \<not> f x) (sk_list s) \<and>
    st_sorted s' = st_sorted s \<and> st_comp s' = st_comp s"
proof -
  obtain d k where d: "delete_if_loop f (st_data s) 0 0 (st_num s) = (d, k)" by fastforce
  from delete_if_loop_ok [OF _ _ _ this] assms show ?thesis
    by (auto simp: OPENSSL_sk_delete_if_def d sk_inv_def sk_list_def)
qed

lemma sk_zero_ok:
  assumes "sk_inv s"
  shows "\<exists>s'. OPENSSL_sk_zero (Some s) = Some s' \<and> sk_inv s' \<and> sk_list s' = [] \<and> (st_sorted s' \<longrightarrow> st_sorted s) \<and> st_comp s' = st_comp s"
  using assms by (auto simp: OPENSSL_sk_zero_def sk_inv_def sk_list_def)

section \<open>Sequences\<close>

text \<open>What a client of an indexed sequence relies on: insertion, which may fail, and deletion.\<close>

locale pointer_sequence =
  fixes ok :: "'s \<Rightarrow> bool" and elems :: "'s \<Rightarrow> 'p list"
    and ins :: "'s \<Rightarrow> 'p \<Rightarrow> nat \<Rightarrow> (nat \<times> 's) option" and del :: "'s \<Rightarrow> nat \<Rightarrow> ('p \<times> 's) option"
  assumes ins_ok: "ok s \<Longrightarrow> \<exists>r s'. ins s p w = Some (r, s') \<and> ok s' \<and>
      (r = 0 \<and> s' = s \<or> r = Suc (length (elems s)) \<and> elems s' = take w (elems s) @ p # drop w (elems s))"
    and del_ok: "ok s \<Longrightarrow> w < length (elems s) \<Longrightarrow> \<exists>s'. del s w = Some (elems s ! w, s') \<and> ok s' \<and>
      elems s' = take w (elems s) @ drop (Suc w) (elems s)"
begin

text \<open>Deleting what was just inserted gives it back and restores the sequence.\<close>

lemma ins_del:
  assumes "ok s" "w \<le> length (elems s)" "ins s p w = Some (r, s')" "r \<noteq> 0"
  shows "\<exists>s''. del s' w = Some (p, s'') \<and> ok s'' \<and> elems s'' = elems s"
proof -
  have s': "ok s'" "elems s' = take w (elems s) @ p # drop w (elems s)" using ins_ok [OF assms(1), of p w] assms(3,4) by auto
  then have "w < length (elems s')" using assms(2) by simp
  from del_ok [OF s'(1) this] show ?thesis using s'(2) assms(2) by (auto simp: nth_append min_absorb2)
qed

end

interpretation stack_seq: pointer_sequence "\<lambda>sk. cells_ok al \<and> (\<exists>s. sk = Some s \<and> sk_inv s)"
  "\<lambda>sk. sk_list (the sk)" "OPENSSL_sk_insert al" OPENSSL_sk_delete for al
proof
  fix sk :: "('a, 'c) OPENSSL_STACK" and p w
  assume ok: "cells_ok al \<and> (\<exists>s. sk = Some s \<and> sk_inv s)"
  then obtain s where s: "sk = Some s" "sk_inv s" "cells_ok al" by blast
  show "\<exists>r s'. OPENSSL_sk_insert al sk p w = Some (r, s') \<and> (cells_ok al \<and> (\<exists>s. s' = Some s \<and> sk_inv s)) \<and>
      (r = 0 \<and> s' = sk \<or> r = Suc (length (sk_list (the sk))) \<and>
       sk_list (the s') = take w (sk_list (the sk)) @ p # drop w (sk_list (the sk)))"
    using sk_insert_ok [OF s(3,2), of p w] s length_sk_list [OF s(2)] by auto
  show "w < length (sk_list (the sk)) \<Longrightarrow>
      \<exists>s'. OPENSSL_sk_delete sk w = Some (sk_list (the sk) ! w, s') \<and> (cells_ok al \<and> (\<exists>s. s' = Some s \<and> sk_inv s)) \<and>
      sk_list (the s') = take w (sk_list (the sk)) @ drop (Suc w) (sk_list (the sk))"
    using sk_delete_ok [OF s(2), of w] s length_sk_list [OF s(2)] by auto
qed

text \<open>With memory available a push succeeds below \<open>INT_MAX\<close> elements, and a pop undoes it.\<close>

lemma sk_push_pop:
  assumes al: "cells_ok al" "\<forall>n. al n \<noteq> None" and inv: "sk_inv s" "st_num s < 2147483647"
  shows "\<exists>s' s''. OPENSSL_sk_push al (Some s) p = Some (st_num s + 1, Some s') \<and> sk_list s' = sk_list s @ [p] \<and>
    OPENSSL_sk_pop (Some s') = Some (p, Some s'') \<and> sk_list s'' = sk_list s"
proof -
  note l = length_sk_list [OF inv(1)]
  obtain s' where s': "OPENSSL_sk_insert al (Some s) p (st_num s) = Some (st_num s + 1, Some s')" "sk_inv s'"
      "sk_list s' = sk_list s @ [p]"
    using sk_insert_ok [OF al(1) inv(1), of p "st_num s"] al(2) inv(2) l by auto
  then have n: "st_num s' = st_num s + 1" using length_sk_list [of s'] l by simp
  obtain sk where "OPENSSL_sk_delete (Some s') (st_num s) = Some (p, sk)" "\<exists>s. sk = Some s \<and> sk_inv s" "sk_list (the sk) = sk_list s"
    using stack_seq.ins_del [of al "Some s" "st_num s" p "st_num s + 1" "Some s'"] s'(1) al(1) inv(1) l by auto
  then show ?thesis using s' n by (auto simp: OPENSSL_sk_push_def OPENSSL_sk_pop_def)
qed

section \<open>Sorting and searching\<close>

abbreviation cmp_sorted :: "('a \<Rightarrow> 'a \<Rightarrow> int) \<Rightarrow> 'a list \<Rightarrow> bool" where
  "cmp_sorted cmp \<equiv> sorted_wrt (\<lambda>x y. cmp x y \<le> 0)"

context sk_comparison
begin

lemma ix_sorted_iff: "n \<le> length d \<Longrightarrow> cmp_sorted cmp (take n d) \<longleftrightarrow> ix_sorted d 0 n"
proof (intro iffI allI impI)
  fix x y assume a: "n \<le> length d" "cmp_sorted cmp (take n d)" "0 \<le> x \<and> x \<le> y \<and> y < n"
  show "cmp (d ! x) (d ! y) \<le> 0"
  proof (cases "x = y")
    case False
    then show ?thesis using a sorted_wrt_nth_less [OF a(2), of x y] by simp
  qed (simp add: cmp_refl)
qed (auto simp: sorted_wrt_iff_nth_less)

lemma cmp_sorted_filter: "cmp_sorted cmp xs \<Longrightarrow> cmp_sorted cmp (filter P xs)"
  by (rule sorted_wrt_filter)

lemma cmp_sorted_delete: "cmp_sorted cmp xs \<Longrightarrow> cmp_sorted cmp (take w xs @ drop (Suc w) xs)"
proof -
  assume "cmp_sorted cmp xs"
  then have "cmp_sorted cmp (take w xs @ drop w xs)" by simp
  moreover have "set (drop (Suc w) xs) \<subseteq> set (drop w xs)" by (rule set_drop_subset_set_drop) simp
  moreover have "drop (Suc w) xs = drop 1 (drop w xs)" by simp
  ultimately show ?thesis unfolding sorted_wrt_append by (metis sorted_wrt_drop subset_eq)
qed

end

text \<open>The flag \<open>sorted\<close> is right: it is set only on a stack with a comparison function whose elements are in order.\<close>

definition sorted_ok :: "('c \<Rightarrow> 'a ptr \<Rightarrow> 'a ptr \<Rightarrow> int) \<Rightarrow> ('a, 'c) stack_st \<Rightarrow> bool" where
  "sorted_ok call s \<longleftrightarrow> (st_sorted s \<longrightarrow> (\<exists>c. st_comp s = Some c \<and> cmp_sorted (call c) (sk_list s)))"

lemma sk_sort_ok:
  assumes inv: "sk_inv s" "sorted_ok call s" and c: "st_comp s = Some c" "sk_comparison (call c)"
  shows "\<exists>s'. OPENSSL_sk_sort (Some s) call = Some (Some s') \<and> sk_inv s' \<and> mset (sk_list s') = mset (sk_list s) \<and>
    cmp_sorted (call c) (sk_list s') \<and> st_sorted s' \<and> st_comp s' = Some c"
proof (cases "st_sorted s")
  case True
  then show ?thesis using inv c by (auto simp: OPENSSL_sk_sort_def sorted_ok_def)
next
  case False
  have l: "st_num s \<le> length (st_data s)" using inv(1) by (simp add: sk_inv_def)
  show ?thesis
  proof (cases "2 \<le> st_num s")
    case True
    from sk_comparison.heap_sort_ok [OF c(2) True l] obtain d where
      d: "Option.bind (parent_idx (st_num s - 1)) (\<lambda>i. Option.bind (build_heap (call c) (st_num s) (st_data s) i)
          (\<lambda>d. extract_heap (call c) (st_num s) d (st_num s - 1))) = Some d"
        "\<forall>x y. 0 \<le> x \<and> x \<le> y \<and> y < st_num s \<longrightarrow> call c (d ! x) (d ! y) \<le> 0" "permutes_upto (st_num s) (st_data s) d" by blast
    have "OPENSSL_sk_sort (Some s) call = Some (Some (s\<lparr>st_data := d, st_sorted := True\<rparr>))"
      using False True c(1) d(1) by (simp add: OPENSSL_sk_sort_def)
    moreover have "cmp_sorted (call c) (take (st_num s) d)"
      using sk_comparison.ix_sorted_iff [OF c(2), of "st_num s" d] d(2,3) l by (simp add: permutes_upto_def)
    ultimately show ?thesis using d(3) inv(1) c(1) by (auto simp: sk_inv_def sk_list_def permutes_upto_def)
  next
    case few: False
    then have "length (sk_list s) < 2" using length_sk_list [OF inv(1)] by simp
    then have "cmp_sorted (call c) (sk_list s)" by (cases "sk_list s" rule: remdups_adj.cases) auto
    then show ?thesis using False few c(1) inv(1) by (auto simp: OPENSSL_sk_sort_def sk_inv_def sk_list_def)
  qed
qed

text \<open>Searching returns the first match, whether or not the stack is sorted.\<close>

lemma sk_find_ok:
  assumes inv: "sk_inv s" "sorted_ok call s" and c: "\<And>c. st_comp s = Some c \<Longrightarrow> sk_comparison (call c)"
  shows "OPENSSL_sk_find (Some s) p call =
    Some (case st_comp s of
       None \<Rightarrow> sk_scan (\<lambda>x. x = p) (st_data s) 0 (st_num s)
     | Some c \<Rightarrow> if p = None then None else sk_scan (\<lambda>x. call c p x = 0) (st_data s) 0 (st_num s))"
proof (cases "st_comp s")
  case None
  then show ?thesis by (simp add: OPENSSL_sk_find_def)
next
  case (Some c)
  have l: "st_num s \<le> length (st_data s)" using inv(1) by (simp add: sk_inv_def)
  have "cmp_sorted (call c) (sk_list s)" if "OPENSSL_sk_is_sorted (Some s)"
  proof (cases "st_sorted s")
    case True
    then show ?thesis using inv(2) Some by (auto simp: sorted_ok_def)
  next
    case False
    then have "length (sk_list s) < 2" using that length_sk_list [OF inv(1)] by (simp add: OPENSSL_sk_is_sorted_def)
    then show ?thesis by (cases "sk_list s" rule: remdups_adj.cases) auto
  qed
  then have "sk_bsearch (call c) p (st_data s) 0 (st_num s) = Some (sk_scan (\<lambda>x. call c p x = 0) (st_data s) 0 (st_num s))"
    if "OPENSSL_sk_is_sorted (Some s)"
    using sk_comparison.bsearch_scan [OF c [OF Some]] sk_comparison.ix_sorted_iff [OF c [OF Some] l] that
    by (simp add: sk_list_def)
  then show ?thesis by (simp add: OPENSSL_sk_find_def Some)
qed

section \<open>Runs of operations\<close>

text \<open>
  The states that the operations on a stack lead to, other than \<open>OPENSSL_sk_set\<close>; the functions \<open>C\<close> are
  those that may be set as comparison functions. \<open>OPENSSL_sk_deep_copy\<close> takes over the flag \<open>sorted\<close>, so its copy function has to
  keep the order of the elements.
\<close>

definition keeps_order :: "('c \<Rightarrow> 'a ptr \<Rightarrow> 'a ptr \<Rightarrow> int) \<Rightarrow> 'c set \<Rightarrow> ('a \<Rightarrow> 'a ptr) \<Rightarrow> bool" where
  "keeps_order call C copy \<longleftrightarrow> (\<forall>c\<in>C. \<forall>p q. call c p q \<le> 0 \<longrightarrow> (p \<noteq> None \<longrightarrow> Option.bind p copy \<noteq> None) \<longrightarrow> (q \<noteq> None \<longrightarrow> Option.bind q copy \<noteq> None) \<longrightarrow>
     call c (Option.bind p copy) (Option.bind q copy) \<le> 0)"

lemma keeps_orderD:
  assumes "keeps_order call C copy" "c \<in> C" "call c p q \<le> 0" "p \<noteq> None \<longrightarrow> Option.bind p copy \<noteq> None" "q \<noteq> None \<longrightarrow> Option.bind q copy \<noteq> None"
  shows "call c (Option.bind p copy) (Option.bind q copy) \<le> 0"
  using assms(1) [unfolded keeps_order_def, THEN bspec, OF assms(2), THEN spec, THEN spec, THEN mp, OF assms(3), THEN mp, OF assms(4), THEN mp, OF assms(5)] .

inductive sk_step :: "'a cell_allocator \<Rightarrow> ('c \<Rightarrow> 'a ptr \<Rightarrow> 'a ptr \<Rightarrow> int) \<Rightarrow> 'c set \<Rightarrow> ('a, 'c) stack_st \<Rightarrow> ('a, 'c) stack_st \<Rightarrow> bool"
  for al call C where
  step_insert: "OPENSSL_sk_insert al (Some s) p w = Some (r, Some s') \<Longrightarrow> sk_step al call C s s'"
| step_push: "OPENSSL_sk_push al (Some s) p = Some (r, Some s') \<Longrightarrow> sk_step al call C s s'"
| step_delete: "OPENSSL_sk_delete (Some s) w = Some (x, Some s') \<Longrightarrow> sk_step al call C s s'"
| step_delete_ptr: "OPENSSL_sk_delete_ptr (Some s) p = Some (x, Some s') \<Longrightarrow> sk_step al call C s s'"
| step_shift: "OPENSSL_sk_shift (Some s) = Some (x, Some s') \<Longrightarrow> sk_step al call C s s'"
| step_pop: "OPENSSL_sk_pop (Some s) = Some (x, Some s') \<Longrightarrow> sk_step al call C s s'"
| step_delete_if: "OPENSSL_sk_delete_if (Some s) f = Some s' \<Longrightarrow> sk_step al call C s s'"
| step_zero: "OPENSSL_sk_zero (Some s) = Some s' \<Longrightarrow> sk_step al call C s s'"
| step_sort: "OPENSSL_sk_sort (Some s) call = Some (Some s') \<Longrightarrow> sk_step al call C s s'"
| step_set_cmp: "OPENSSL_sk_set_cmp_func (Some s) cmp = Some (old, Some s') \<Longrightarrow> set_option cmp \<subseteq> C \<Longrightarrow> sk_step al call C s s'"
| step_dup: "OPENSSL_sk_dup al (Some s) = Some s' \<Longrightarrow> sk_step al call C s s'"
| step_deep_copy: "OPENSSL_sk_deep_copy al (Some s) copy = (Some s', freed) \<Longrightarrow> keeps_order call C copy \<Longrightarrow> sk_step al call C s s'"

definition sk_ok :: "('c \<Rightarrow> 'a ptr \<Rightarrow> 'a ptr \<Rightarrow> int) \<Rightarrow> 'c set \<Rightarrow> ('a, 'c) stack_st \<Rightarrow> bool" where
  "sk_ok call C s \<longleftrightarrow> sk_inv s \<and> sorted_ok call s \<and> set_option (st_comp s) \<subseteq> C"

lemma sk_ok_delete:
  assumes C: "\<And>c. c \<in> C \<Longrightarrow> sk_comparison (call c)" and ok: "sk_ok call C s"
    and d: "OPENSSL_sk_delete (Some s) w = Some (x, Some s')"
  shows "sk_ok call C s'"
proof (cases "w < st_num s")
  case True
  have inv: "sk_inv s" "sorted_ok call s" "set_option (st_comp s) \<subseteq> C" using ok by (simp_all add: sk_ok_def)
  from sk_delete_ok [OF inv(1) True] d have "sk_inv s'" "sk_list s' = take w (sk_list s) @ drop (Suc w) (sk_list s)"
    "st_sorted s' = st_sorted s" "st_comp s' = st_comp s" by auto
  then show ?thesis using inv C sk_comparison.cmp_sorted_delete by (fastforce simp: sk_ok_def sorted_ok_def)
next
  case False
  then show ?thesis using ok d by (simp add: sk_delete_beyond)
qed

lemma sk_ok_insert:
  assumes al: "cells_ok al" and ok: "sk_ok call C s" and i: "OPENSSL_sk_insert al (Some s) p w = Some (r, Some s')"
  shows "sk_ok call C s'"
proof -
  have inv: "sk_inv s" "set_option (st_comp s) \<subseteq> C" using ok by (simp_all add: sk_ok_def)
  from sk_insert_ok [OF al inv(1), of p w] i ok inv(2) show ?thesis by (auto simp: sk_ok_def sorted_ok_def)
qed

lemma sk_dup_same:
  assumes al: "cells_ok al" and i: "sk_inv s" and d: "OPENSSL_sk_dup al (Some s) = Some s'"
  shows "s' = s"
proof -
  have m: "size_mul 8 (st_num_alloc s) = 8 * st_num_alloc s" "8 * st_num_alloc s + 8 < SIZE_MOD"
    using i by (simp_all add: sk_inv_def size_mul_small)
  from d obtain r where "cells_malloc al (8 * st_num_alloc s) = Some r" "s' = s\<lparr>st_data := take (length r) (st_data s)\<rparr>"
    by (auto simp: OPENSSL_sk_dup_def m split: if_splits)
  then show ?thesis using cells_malloc_length [OF al _ m(2)] i by (simp add: sk_inv_def)
qed

lemma deep_copy_loop_ok:
  "deep_copy_loop copy d out i n = Inr e \<Longrightarrow> i \<le> n \<Longrightarrow> n \<le> length d \<Longrightarrow>
    e = out @ map (\<lambda>p. Option.bind p copy) (take (n - i) (drop i d)) \<and> (\<forall>p\<in>set (take (n - i) (drop i d)). p \<noteq> None \<longrightarrow> Option.bind p copy \<noteq> None)"
proof (induction copy d out i n rule: deep_copy_loop.induct)
  case (1 copy d out i n)
  show ?case
  proof (cases "i < n")
    case True
    then have t: "take (n - i) (drop i d) = d ! i # take (n - (i + 1)) (drop (i + 1) d)"
      using "1.prems"(3) by (simp add: Cons_nth_drop_Suc [symmetric] Suc_diff_Suc [symmetric])
    show ?thesis using 1 True unfolding t by (subst (asm) (3) deep_copy_loop.simps) (auto split: option.splits)
  next
    case False
    then show ?thesis using "1.prems" by (subst (asm) deep_copy_loop.simps) simp
  qed
qed

theorem sk_step_ok:
  assumes al: "cells_ok al" and C: "\<And>c. c \<in> C \<Longrightarrow> sk_comparison (call c)"
  shows "sk_step al call C s s' \<Longrightarrow> sk_ok call C s \<Longrightarrow> sk_ok call C s'"
proof (induction rule: sk_step.induct)
  case (step_insert s p w r s')
  show ?case by (rule sk_ok_insert [OF al step_insert(2,1)])
next
  case (step_push s p r s')
  then show ?case by (auto simp: OPENSSL_sk_push_def intro: sk_ok_insert [OF al])
next
  case (step_delete s w x s')
  show ?case by (rule sk_ok_delete [OF C step_delete(2,1)])
next
  case (step_delete_ptr s p x s')
  then show ?case by (auto simp: OPENSSL_sk_delete_ptr_def split: option.splits intro: sk_ok_delete [OF C])
next
  case (step_shift s x s')
  then show ?case by (auto simp: OPENSSL_sk_shift_def split: if_splits intro: sk_ok_delete [OF C])
next
  case (step_pop s x s')
  then show ?case by (auto simp: OPENSSL_sk_pop_def split: if_splits intro: sk_ok_delete [OF C])
next
  case (step_delete_if s f s')
  then have i: "sk_inv s" by (simp add: sk_ok_def)
  from sk_delete_if_ok [OF i, of f] step_delete_if show ?case
    using C sk_comparison.cmp_sorted_filter by (fastforce simp: sk_ok_def sorted_ok_def)
next
  case (step_zero s s')
  then have i: "sk_inv s" by (simp add: sk_ok_def)
  from sk_zero_ok [OF i] step_zero show ?case by (auto simp: sk_ok_def sorted_ok_def)
next
  case (step_sort s s')
  show ?case
  proof (cases "st_comp s")
    case None
    then show ?thesis using step_sort by (simp add: OPENSSL_sk_sort_def)
  next
    case (Some c)
    then have "sk_comparison (call c)" using step_sort(2) C by (simp add: sk_ok_def)
    from sk_sort_ok [of s call c] this step_sort Some show ?thesis by (fastforce simp: sk_ok_def sorted_ok_def)
  qed
next
  case (step_set_cmp s cmp old s')
  then show ?case by (auto simp: OPENSSL_sk_set_cmp_func_def sk_ok_def sk_inv_def sorted_ok_def sk_list_def) metis
next
  case (step_dup s s')
  then show ?case using sk_dup_same [OF al] by (auto simp: sk_ok_def)
next
  case (step_deep_copy s copy s' freed)
  have i: "sk_inv s" "sorted_ok call s" "set_option (st_comp s) \<subseteq> C" using step_deep_copy(3) by (simp_all add: sk_ok_def)
  obtain ret e where r: "OPENSSL_sk_dup al (Some s) = Some ret" "deep_copy_loop copy (st_data ret) [] 0 (st_num ret) = Inr e"
      "s' = ret\<lparr>st_data := e @ drop (st_num ret) (st_data ret)\<rparr>"
    using step_deep_copy(1) by (auto simp: OPENSSL_sk_deep_copy_def split: option.splits sum.splits)
  have ret: "ret = s" by (rule sk_dup_same [OF al i(1) r(1)])
  have n: "st_num s \<le> length (st_data s)" using i(1) by (simp add: sk_inv_def)
  then have e: "e = map (\<lambda>p. Option.bind p copy) (sk_list s)" "\<forall>p\<in>set (sk_list s). p \<noteq> None \<longrightarrow> Option.bind p copy \<noteq> None"
    using deep_copy_loop_ok [OF r(2)] by (simp_all add: ret sk_list_def)
  then have l: "sk_list s' = map (\<lambda>p. Option.bind p copy) (sk_list s)" using n by (simp add: r(3) ret sk_list_def)
  have "cmp_sorted (call c) (sk_list s')" if "st_comp s = Some c" "cmp_sorted (call c) (sk_list s)" for c
    unfolding l sorted_wrt_map using that(2)
  proof (rule sorted_wrt_mono_rel [rotated])
    fix p q assume p: "p \<in> set (sk_list s)" and q: "q \<in> set (sk_list s)" and le: "call c p q \<le> 0"
    have "c \<in> C" using that(1) i(3) by simp
    from keeps_orderD [OF step_deep_copy(2) this le bspec [OF e(2) p] bspec [OF e(2) q]] show "call c (Option.bind p copy) (Option.bind q copy) \<le> 0" .
  qed
  moreover have same: "st_sorted s' = st_sorted s" "st_comp s' = st_comp s" by (simp_all add: r(3) ret)
  ultimately have "sorted_ok call s'" using i(2) unfolding sorted_ok_def by metis
  moreover have "length e = st_num s" using n by (simp add: e(1) sk_list_def)
  then have "sk_inv s'" using i(1) by (simp add: sk_inv_def r(3) ret)
  ultimately show ?case using i(3) same(2) by (simp add: sk_ok_def)
qed

end
