(* ===== verification/Lhash.thy ===== *)
theory Lhash
  imports Stack_List
begin

text \<open>
  The chained hash table of \<open>crypto/lhash/lhash.c\<close>. A bucket is the list of the items of its chain, and
  an \<open>LHASH_ITEM **\<close> is a bucket with a position in it, the length of the chain for a pointer that
  points to \<open>NULL\<close>. The hash and comparison functions are parameters, already applied to \<open>lh->hash\<close> and
  \<open>lh->comp\<close>. The table refines a set of objects that are pairwise different under the comparison.
\<close>

section \<open>The model\<close>

record 'a lhash_item =
  li_data :: 'a
  li_hash :: u32

record 'a lhash =
  lh_num_items :: nat
  lh_buckets :: "'a lhash_item list list"
  lh_num_buckets :: nat
  lh_callback_depth :: u32

type_synonym item_ptr = "nat \<times> nat"

definition kMinNumBuckets :: nat where "kMinNumBuckets = 16"
definition kMaxAverageChainLength :: nat where "kMaxAverageChainLength = 2"
definition kMinAverageChainLength :: nat where "kMinAverageChainLength = 1"

text \<open>\<open>NULL\<close> where an allocation fails; the sizes are those of \<open>_LHASH\<close> (48 bytes) and of a pointer.\<close>

definition OPENSSL_lh_new :: "allocator \<Rightarrow> 'a lhash option" where
  "OPENSSL_lh_new mem =
     (if OPENSSL_malloc mem 48 = None \<or> \<not> OPENSSL_calloc_ok mem kMinNumBuckets 8 then None
      else Some \<lparr>lh_num_items = 0, lh_buckets = replicate kMinNumBuckets [], lh_num_buckets = kMinNumBuckets,
                 lh_callback_depth = 0\<rparr>)"

definition OPENSSL_lh_num_items :: "'a lhash \<Rightarrow> nat" where
  "OPENSSL_lh_num_items lh = lh_num_items lh"

text \<open>The loop along a chain.\<close>

fun chain_pos :: "('a \<Rightarrow> bool) \<Rightarrow> 'a lhash_item list \<Rightarrow> nat" where
  "chain_pos found [] = 0"
| "chain_pos found (cur # items) = (if found (li_data cur) then 0 else Suc (chain_pos found items))"

definition get_next_ptr_and_hash :: "('a \<Rightarrow> u32) \<Rightarrow> ('a \<Rightarrow> 'a \<Rightarrow> int) \<Rightarrow> 'a lhash \<Rightarrow> 'a \<Rightarrow> item_ptr \<times> u32" where
  "get_next_ptr_and_hash hash cmp lh data =
     (let h = hash data; b = unat h mod lh_num_buckets lh
      in ((b, chain_pos (\<lambda>d. cmp d data = 0) (lh_buckets lh ! b)), h))"

definition get_next_ptr_by_key :: "'a lhash \<Rightarrow> u32 \<Rightarrow> ('a \<Rightarrow> int) \<Rightarrow> item_ptr" where
  "get_next_ptr_by_key lh key_hash cmp_key =
     (let b = unat key_hash mod lh_num_buckets lh in (b, chain_pos (\<lambda>d. cmp_key d = 0) (lh_buckets lh ! b)))"

text \<open>\<open>*next_ptr\<close>.\<close>

definition lh_deref :: "'a lhash \<Rightarrow> item_ptr \<Rightarrow> 'a lhash_item option" where
  "lh_deref lh p = (case p of (b, i) \<Rightarrow> if i < length (lh_buckets lh ! b) then Some (lh_buckets lh ! b ! i) else None)"

definition OPENSSL_lh_retrieve :: "('a \<Rightarrow> u32) \<Rightarrow> ('a \<Rightarrow> 'a \<Rightarrow> int) \<Rightarrow> 'a lhash \<Rightarrow> 'a \<Rightarrow> 'a option" where
  "OPENSSL_lh_retrieve hash cmp lh data = map_option li_data (lh_deref lh (fst (get_next_ptr_and_hash hash cmp lh data)))"

text \<open>\<open>cmp_key\<close> is the comparison applied to the key.\<close>

definition OPENSSL_lh_retrieve_key :: "'a lhash \<Rightarrow> u32 \<Rightarrow> ('a \<Rightarrow> int) \<Rightarrow> 'a option" where
  "OPENSSL_lh_retrieve_key lh key_hash cmp_key = map_option li_data (lh_deref lh (get_next_ptr_by_key lh key_hash cmp_key))"

text \<open>The two nested loops of \<open>lh_rebucket\<close>: each item, in the order of the old buckets, to the front of its new bucket.\<close>

definition rebucket_item :: "nat \<Rightarrow> 'a lhash_item list list \<Rightarrow> 'a lhash_item \<Rightarrow> 'a lhash_item list list" where
  "rebucket_item n new_buckets cur =
     (let new_bucket = unat (li_hash cur) mod n in new_buckets[new_bucket := cur # new_buckets ! new_bucket])"

definition lh_rebucket :: "allocator \<Rightarrow> 'a lhash \<Rightarrow> nat \<Rightarrow> 'a lhash" where
  "lh_rebucket mem lh new_num_buckets =
     (let alloc_size = size_mul 8 new_num_buckets
      in if alloc_size div 8 \<noteq> new_num_buckets then lh
         else if OPENSSL_malloc mem alloc_size = None then lh
         else lh\<lparr>lh_num_buckets := new_num_buckets,
                 lh_buckets := foldl (foldl (rebucket_item new_num_buckets)) (replicate new_num_buckets []) (lh_buckets lh)\<rparr>)"

text \<open>\<open>None\<close> for a failed assertion.\<close>

definition lh_maybe_resize :: "allocator \<Rightarrow> 'a lhash \<Rightarrow> 'a lhash option" where
  "lh_maybe_resize mem lh =
     (if lh_callback_depth lh > 0 then Some lh
      else if \<not> lh_num_buckets lh \<ge> kMinNumBuckets then None
      else
        let avg_chain_length = lh_num_items lh div lh_num_buckets lh
        in if avg_chain_length > kMaxAverageChainLength then
             let new_num_buckets = size_mul (lh_num_buckets lh) 2
             in Some (if new_num_buckets > lh_num_buckets lh then lh_rebucket mem lh new_num_buckets else lh)
           else if avg_chain_length < kMinAverageChainLength \<and> lh_num_buckets lh > kMinNumBuckets then
             let new_num_buckets = lh_num_buckets lh div 2;
                 new_num_buckets = (if new_num_buckets < kMinNumBuckets then kMinNumBuckets else new_num_buckets)
             in Some (lh_rebucket mem lh new_num_buckets)
           else Some lh)"

text \<open>
  The return value, \<open>*old_data\<close> and the table. The counter of items is a natural number: it counts
  objects in memory, so a \<open>size_t\<close> does not wrap.
\<close>

definition OPENSSL_lh_insert ::
    "allocator \<Rightarrow> ('a \<Rightarrow> u32) \<Rightarrow> ('a \<Rightarrow> 'a \<Rightarrow> int) \<Rightarrow> 'a lhash \<Rightarrow> 'a \<Rightarrow> (bool \<times> 'a option \<times> 'a lhash) option" where
  "OPENSSL_lh_insert mem hash cmp lh data =
     (case get_next_ptr_and_hash hash cmp lh data of
        ((b, i), h) \<Rightarrow>
          (case lh_deref lh (b, i) of
             Some item \<Rightarrow>
               Some (True, Some (li_data item),
                 lh\<lparr>lh_buckets := (lh_buckets lh)[b := (lh_buckets lh ! b)[i := item\<lparr>li_data := data\<rparr>]]\<rparr>)
           | None \<Rightarrow>
               if OPENSSL_malloc mem 24 = None then Some (False, None, lh)
               else
                 let item = \<lparr>li_data = data, li_hash = h\<rparr>
                 in map_option (\<lambda>lh. (True, None, lh)) (lh_maybe_resize mem
                      (lh\<lparr>lh_buckets := (lh_buckets lh)[b := lh_buckets lh ! b @ [item]],
                          lh_num_items := lh_num_items lh + 1\<rparr>))))"

definition OPENSSL_lh_delete ::
    "allocator \<Rightarrow> ('a \<Rightarrow> u32) \<Rightarrow> ('a \<Rightarrow> 'a \<Rightarrow> int) \<Rightarrow> 'a lhash \<Rightarrow> 'a \<Rightarrow> ('a option \<times> 'a lhash) option" where
  "OPENSSL_lh_delete mem hash cmp lh data =
     (case get_next_ptr_and_hash hash cmp lh data of
        ((b, i), h) \<Rightarrow>
          (case lh_deref lh (b, i) of
             None \<Rightarrow> Some (None, lh)
           | Some item \<Rightarrow>
               map_option (Pair (Some (li_data item))) (lh_maybe_resize mem
                 (lh\<lparr>lh_buckets := (lh_buckets lh)[b := take i (lh_buckets lh ! b) @ drop (i + 1) (lh_buckets lh ! b)],
                     lh_num_items := lh_num_items lh - 1\<rparr>))))"

text \<open>
  \<open>OPENSSL_lh_doall_arg\<close> for a callback that leaves the table alone and changes what \<open>arg\<close> points to.
\<close>

definition OPENSSL_lh_doall_arg :: "allocator \<Rightarrow> 'a lhash \<Rightarrow> ('a \<Rightarrow> 's \<Rightarrow> 's) \<Rightarrow> 's \<Rightarrow> ('s \<times> 'a lhash) option" where
  "OPENSSL_lh_doall_arg mem lh func arg =
     (let lh = (if lh_callback_depth lh < 0xffffffff then lh\<lparr>lh_callback_depth := lh_callback_depth lh + 1\<rparr> else lh);
          arg = foldl (foldl (\<lambda>arg cur. func (li_data cur) arg)) arg (lh_buckets lh);
          lh = (if lh_callback_depth lh < 0xffffffff then lh\<lparr>lh_callback_depth := lh_callback_depth lh - 1\<rparr> else lh)
      in map_option (Pair arg) (lh_maybe_resize mem lh))"

end
