(* ===== verification/Lhash_Set.thy ===== *)
theory Lhash_Set
  imports Lhash
begin

text \<open>
  The hash table as a set of objects: its invariant (every item is in the bucket of its hash value, the
  counter is right, no two items are equal under the comparison), kept by every operation, and the operations
  as set operations, whatever the resizing does.
\<close>

section \<open>Multisets of items\<close>

definition lh_mset :: "'a lhash \<Rightarrow> 'a lhash_item multiset" where
  "lh_mset lh = mset (concat (lh_buckets lh))"

definition lh_data :: "'a lhash \<Rightarrow> 'a set" where
  "lh_data lh = li_data ` set_mset (lh_mset lh)"

definition lh_shape :: "('a \<Rightarrow> u32) \<Rightarrow> 'a lhash \<Rightarrow> bool" where
  "lh_shape hash lh \<longleftrightarrow> length (lh_buckets lh) = lh_num_buckets lh \<and> 16 \<le> lh_num_buckets lh \<and>
     lh_num_items lh = size (lh_mset lh) \<and>
     (\<forall>b < lh_num_buckets lh. \<forall>it \<in> set (lh_buckets lh ! b).
        li_hash it = hash (li_data it) \<and> unat (li_hash it) mod lh_num_buckets lh = b)"

definition items_uniq :: "('a \<Rightarrow> 'a \<Rightarrow> int) \<Rightarrow> 'a set \<Rightarrow> 'a lhash_item multiset \<Rightarrow> bool" where
  "items_uniq cmp D M \<longleftrightarrow> li_data ` set_mset M \<subseteq> D \<and> (\<forall>d \<in> D. size {#it \<in># M. cmp (li_data it) d = 0#} \<le> 1)"

definition lh_inv :: "('a \<Rightarrow> u32) \<Rightarrow> ('a \<Rightarrow> 'a \<Rightarrow> int) \<Rightarrow> 'a set \<Rightarrow> 'a lhash \<Rightarrow> bool" where
  "lh_inv hash cmp D lh \<longleftrightarrow> lh_shape hash lh \<and> items_uniq cmp D (lh_mset lh)"

lemma mset_concat_update:
  "b < length bs \<Longrightarrow> mset (concat (bs[b := c])) + mset (bs ! b) = mset (concat bs) + mset c"
proof (induction bs arbitrary: b)
  case (Cons x bs)
  then show ?case by (cases b) (auto simp: ac_simps)
qed simp

lemma filter_mset_none: "{#x \<in># M. P x#} = {#} \<longleftrightarrow> (\<forall>x \<in># M. \<not> P x)"
  by (induction M) auto

lemma lh_shapeD:
  assumes "lh_shape hash lh"
  shows "length (lh_buckets lh) = lh_num_buckets lh" "16 \<le> lh_num_buckets lh" "lh_num_items lh = size (lh_mset lh)"
    "b < lh_num_buckets lh \<Longrightarrow> it \<in> set (lh_buckets lh ! b) \<Longrightarrow>
       li_hash it = hash (li_data it) \<and> unat (li_hash it) mod lh_num_buckets lh = b"
  using assms unfolding lh_shape_def by blast+

lemma lh_shapeI:
  assumes "length (lh_buckets lh) = lh_num_buckets lh" "16 \<le> lh_num_buckets lh" "lh_num_items lh = size (lh_mset lh)"
    "\<And>b it. b < lh_num_buckets lh \<Longrightarrow> it \<in> set (lh_buckets lh ! b) \<Longrightarrow>
       li_hash it = hash (li_data it) \<and> unat (li_hash it) mod lh_num_buckets lh = b"
  shows "lh_shape hash lh"
  using assms unfolding lh_shape_def by blast

lemma mset_concat_bucket:
  assumes "it \<in># mset (concat bs)"
  obtains b where "b < length bs" "it \<in> set (bs ! b)"
proof -
  obtain c where "c \<in> set bs" "it \<in> set c" using assms by auto
  then show ?thesis using that by (metis in_set_conv_nth)
qed

lemma bucket_mset: "b < length bs \<Longrightarrow> it \<in> set (bs ! b) \<Longrightarrow> it \<in># mset (concat bs)"
  using nth_mem [of b bs] by auto

lemma size_filter_unique:
  assumes "size {#x \<in># M. P x#} \<le> 1" "a \<in># M" "b \<in># M" "P a" "P b"
  shows "a = b"
proof -
  obtain N where N: "M = add_mset a N" using assms(2) by (metis insert_DiffM)
  have "{#x \<in># N. P x#} = {#}" using assms(1,4) by (simp add: N)
  then show ?thesis using assms(3,5) by (auto simp: N filter_mset_none)
qed

lemma chain_pos_le: "chain_pos P c \<le> length c"
  by (induction c) auto

lemma chain_pos_found: "chain_pos P c < length c \<Longrightarrow> P (li_data (c ! chain_pos P c))"
  by (induction c) auto

lemma chain_pos_less: "chain_pos P c < length c \<longleftrightarrow> (\<exists>it \<in> set c. P (li_data it))"
  by (induction c) auto

section \<open>Resizing\<close>

lemma foldl_foldl: "foldl (foldl f) a xss = foldl f a (concat xss)"
  by (induction xss arbitrary: a) simp_all

lemma rebucket_fold:
  assumes "0 < n"
  shows "length nb = n \<Longrightarrow> (\<forall>b<n. \<forall>it \<in> set (nb ! b). unat (li_hash it) mod n = b) \<Longrightarrow>
    length (foldl (rebucket_item n) nb items) = n \<and>
    mset (concat (foldl (rebucket_item n) nb items)) = mset (concat nb) + mset items \<and>
    (\<forall>b<n. \<forall>it \<in> set (foldl (rebucket_item n) nb items ! b). unat (li_hash it) mod n = b)"
proof (induction items arbitrary: nb)
  case (Cons cur items)
  let ?b = "unat (li_hash cur) mod n" and ?nb = "rebucket_item n nb cur"
  have b: "?b < n" using assms by simp
  have e: "?nb = nb[?b := cur # nb ! ?b]" by (simp add: rebucket_item_def Let_def)
  have "length ?nb = n" using Cons.prems by (simp add: e)
  moreover have "\<forall>b<n. \<forall>it \<in> set (?nb ! b). unat (li_hash it) mod n = b"
    using Cons.prems b by (auto simp: e nth_list_update)
  moreover have "mset (concat ?nb) = add_mset cur (mset (concat nb))"
    using mset_concat_update [of ?b nb "cur # nb ! ?b"] b Cons.prems(1) by (simp add: e)
  ultimately show ?case using Cons.IH [of ?nb] by simp
qed simp

lemma rebucket_ok:
  assumes "lh_shape hash lh" "16 \<le> n"
  shows "lh_shape hash (lh_rebucket mem lh n) \<and> lh_mset (lh_rebucket mem lh n) = lh_mset lh \<and>
    lh_callback_depth (lh_rebucket mem lh n) = lh_callback_depth lh"
proof -
  let ?nb = "foldl (rebucket_item n) (replicate n []) (concat (lh_buckets lh))"
  have f: "length ?nb = n" "mset (concat ?nb) = lh_mset lh" "\<forall>b<n. \<forall>it \<in> set (?nb ! b). unat (li_hash it) mod n = b"
    using rebucket_fold [of n "replicate n []" "concat (lh_buckets lh)"] assms(2) by (simp_all add: lh_mset_def)
  have h: "li_hash it = hash (li_data it)" if "it \<in># lh_mset lh" for it
    using that unfolding lh_mset_def by (rule mset_concat_bucket) (use lh_shapeD(1,4) [OF assms(1)] in auto)
  have "lh_shape hash (lh\<lparr>lh_num_buckets := n, lh_buckets := ?nb\<rparr>)"
  proof (rule lh_shapeI)
    fix b it assume "b < lh_num_buckets (lh\<lparr>lh_num_buckets := n, lh_buckets := ?nb\<rparr>)"
      "it \<in> set (lh_buckets (lh\<lparr>lh_num_buckets := n, lh_buckets := ?nb\<rparr>) ! b)"
    then have b: "b < n" "it \<in> set (?nb ! b)" by simp_all
    then have "it \<in># lh_mset lh" using bucket_mset [of b ?nb it] f(1,2) by simp
    then have "li_hash it = hash (li_data it)" by (rule h)
    moreover have "unat (li_hash it) mod n = b" using f(3) b by blast
    ultimately show "li_hash it = hash (li_data it) \<and> unat (li_hash it) mod lh_num_buckets (lh\<lparr>lh_num_buckets := n, lh_buckets := ?nb\<rparr>) = b"
      by simp
  qed (use f assms(2) lh_shapeD(3) [OF assms(1)] in \<open>simp_all add: lh_mset_def\<close>)
  then show ?thesis using assms f(2) by (simp add: lh_rebucket_def Let_def foldl_foldl lh_mset_def)
qed

lemma maybe_resize_ok:
  assumes "lh_shape hash lh"
  shows "\<exists>lh'. lh_maybe_resize mem lh = Some lh' \<and> lh_shape hash lh' \<and> lh_mset lh' = lh_mset lh \<and>
    lh_callback_depth lh' = lh_callback_depth lh"
proof -
  have "16 \<le> lh_num_buckets lh" using assms by (simp add: lh_shape_def)
  then show ?thesis
    using assms rebucket_ok [OF assms, of "size_mul (lh_num_buckets lh) 2" mem]
      rebucket_ok [OF assms, of "lh_num_buckets lh div 2" mem] rebucket_ok [OF assms, of 16 mem]
    by (auto simp: lh_maybe_resize_def Let_def kMinNumBuckets_def not_less)
qed

section \<open>The operations\<close>

text \<open>What the table relies on: on the objects \<open>D\<close> the comparison is an equivalence that the hash function respects.\<close>

lemma items_uniq_add:
  "items_uniq cmp D (add_mset it N) \<longleftrightarrow>
     li_data it \<in> D \<and> items_uniq cmp D N \<and> (\<forall>d \<in> D. cmp (li_data it) d = 0 \<longrightarrow> {#y \<in># N. cmp (li_data y) d = 0#} = {#})"
proof -
  have "size {#y \<in># add_mset it N. cmp (li_data y) d = 0#} \<le> 1 \<longleftrightarrow>
      size {#y \<in># N. cmp (li_data y) d = 0#} \<le> 1 \<and> (cmp (li_data it) d = 0 \<longrightarrow> {#y \<in># N. cmp (li_data y) d = 0#} = {#})" for d
  proof (cases "cmp (li_data it) d = 0")
    case True
    then have "size {#y \<in># add_mset it N. cmp (li_data y) d = 0#} \<le> 1 \<longleftrightarrow> size {#y \<in># N. cmp (li_data y) d = 0#} = 0"
      by (simp only: filter_mset_add_mset if_True size_add_mset refl simp_thms) linarith
    then show ?thesis using True by (metis le_numeral_extra(1) size_eq_0_iff_empty zero_le_one)
  qed simp
  then show ?thesis unfolding items_uniq_def by auto
qed

locale lh_functions =
  fixes hash :: "'a \<Rightarrow> u32" and cmp :: "'a \<Rightarrow> 'a \<Rightarrow> int" and D :: "'a set"
  assumes eq_refl: "x \<in> D \<Longrightarrow> cmp x x = 0"
    and eq_sym: "x \<in> D \<Longrightarrow> y \<in> D \<Longrightarrow> cmp x y = 0 \<Longrightarrow> cmp y x = 0"
    and eq_trans: "x \<in> D \<Longrightarrow> y \<in> D \<Longrightarrow> z \<in> D \<Longrightarrow> cmp x y = 0 \<Longrightarrow> cmp y z = 0 \<Longrightarrow> cmp x z = 0"
    and eq_hash: "x \<in> D \<Longrightarrow> y \<in> D \<Longrightarrow> cmp x y = 0 \<Longrightarrow> hash x = hash y"
begin

lemma next_ptr_found:
  assumes inv: "lh_inv hash cmp D lh" and d: "d \<in> D" and p: "get_next_ptr_and_hash hash cmp lh d = ((b, i), h)"
  shows "h = hash d" "b < length (lh_buckets lh)" "b = unat (hash d) mod lh_num_buckets lh" "i \<le> length (lh_buckets lh ! b)"
    "lh_deref lh (b, i) = Some it \<longleftrightarrow> it \<in># lh_mset lh \<and> cmp (li_data it) d = 0"
proof -
  let ?bs = "lh_buckets lh" and ?n = "lh_num_buckets lh"
  have s: "length ?bs = ?n" "16 \<le> ?n" "\<forall>b<?n. \<forall>it \<in> set (?bs ! b). li_hash it = hash (li_data it) \<and> unat (li_hash it) mod ?n = b"
    using inv unfolding lh_inv_def lh_shape_def by blast+
  have e: "h = hash d" "b = unat (hash d) mod ?n" "i = chain_pos (\<lambda>x. cmp x d = 0) (?bs ! b)"
    using p by (auto simp: get_next_ptr_and_hash_def Let_def)
  then show "h = hash d" "b = unat (hash d) mod ?n" "i \<le> length (?bs ! b)" by (simp_all add: chain_pos_le)
  show b: "b < length ?bs" using e s by simp
  show "lh_deref lh (b, i) = Some it \<longleftrightarrow> it \<in># lh_mset lh \<and> cmp (li_data it) d = 0"
  proof
    assume a: "lh_deref lh (b, i) = Some it"
    then have i: "i < length (?bs ! b)" "it = ?bs ! b ! i" by (auto simp: lh_deref_def split: if_splits)
    then have "it \<in> set (?bs ! b)" by simp
    then have "it \<in># lh_mset lh" using b by (auto simp: lh_mset_def)
    then show "it \<in># lh_mset lh \<and> cmp (li_data it) d = 0"
      using chain_pos_found [of "\<lambda>x. cmp x d = 0" "?bs ! b"] i e(3) by simp
  next
    assume a: "it \<in># lh_mset lh \<and> cmp (li_data it) d = 0"
    then have "it \<in># mset (concat ?bs)" by (simp only: lh_mset_def)
    then obtain c where c: "c < ?n" "it \<in> set (?bs ! c)" using s(1) by (metis mset_concat_bucket)
    have it: "li_data it \<in> D" using a inv by (auto simp: lh_inv_def items_uniq_def)
    have "unat (hash (li_data it)) mod ?n = c" using s(3) c by metis
    then have "c = b" using eq_hash [OF it d] a e(2) by simp
    then have i: "i < length (?bs ! b)" using chain_pos_less [of "\<lambda>x. cmp x d = 0" "?bs ! b"] c a e(3) by auto
    then have "?bs ! b ! i \<in># lh_mset lh" using bucket_mset [OF b] by (simp only: lh_mset_def nth_mem)
    moreover have "cmp (li_data (?bs ! b ! i)) d = 0"
      using chain_pos_found [of "\<lambda>x. cmp x d = 0" "?bs ! b"] i e(3) by simp
    moreover have "size {#it \<in># lh_mset lh. cmp (li_data it) d = 0#} \<le> 1" using inv d by (simp add: lh_inv_def items_uniq_def)
    ultimately have "?bs ! b ! i = it" using a size_filter_unique [of "\<lambda>it. cmp (li_data it) d = 0" "lh_mset lh"] by blast
    then show "lh_deref lh (b, i) = Some it" using i by (simp add: lh_deref_def)
  qed
qed

text \<open>A retrieval finds the object of the table that is equal to the given one.\<close>

lemma retrieve_iff:
  assumes "lh_inv hash cmp D lh" "d \<in> D"
  shows "OPENSSL_lh_retrieve hash cmp lh d = Some x \<longleftrightarrow> x \<in> lh_data lh \<and> cmp x d = 0"
proof -
  obtain b i h where p: "get_next_ptr_and_hash hash cmp lh d = ((b, i), h)" by (metis prod.exhaust)
  show ?thesis using next_ptr_found(5) [OF assms p] by (auto simp: OPENSSL_lh_retrieve_def p lh_data_def)
qed

lemma retrieve_None:
  assumes "lh_inv hash cmp D lh" "d \<in> D"
  shows "OPENSSL_lh_retrieve hash cmp lh d = None \<longleftrightarrow> (\<forall>x \<in> lh_data lh. cmp x d \<noteq> 0)"
  using retrieve_iff [OF assms] by (metis not_None_eq)

text \<open>The other items than the one found are different from the object looked up.\<close>

lemma others_differ:
  assumes "items_uniq cmp D (add_mset it N)" "d \<in> D" "cmp (li_data it) d = 0"
  shows "{#y \<in># N. cmp (li_data y) d = 0#} = {#}"
  using assms unfolding items_uniq_add by blast

lemma insert_ok:
  assumes inv: "lh_inv hash cmp D lh" and d: "d \<in> D"
  shows "\<exists>ok lh'. OPENSSL_lh_insert mem hash cmp lh d = Some (ok, OPENSSL_lh_retrieve hash cmp lh d, lh') \<and> lh_inv hash cmp D lh' \<and>
    (if ok then lh_data lh' = insert d {x \<in> lh_data lh. cmp x d \<noteq> 0}
     else lh' = lh \<and> OPENSSL_lh_retrieve hash cmp lh d = None \<and> OPENSSL_malloc mem 24 = None)"
proof -
  obtain b i h where p: "get_next_ptr_and_hash hash cmp lh d = ((b, i), h)" by (metis prod.exhaust)
  note f = next_ptr_found [OF inv d p]
  have sh: "lh_shape hash lh" and u: "items_uniq cmp D (lh_mset lh)" using inv by (simp_all add: lh_inv_def)
  let ?bs = "lh_buckets lh"
  show ?thesis
  proof (cases "lh_deref lh (b, i)")
    case (Some it)
    have it: "it \<in># lh_mset lh" "cmp (li_data it) d = 0" "li_data it \<in> D"
      using f(5) [of it] Some u by (auto simp: items_uniq_def)
    have i: "i < length (?bs ! b)" "?bs ! b ! i = it" using Some by (auto simp: lh_deref_def split: if_splits)
    let ?it = "it\<lparr>li_data := d\<rparr>"
    let ?lh = "lh\<lparr>lh_buckets := ?bs[b := (?bs ! b)[i := ?it]]\<rparr>"
    obtain N where M: "lh_mset lh = add_mset it N" using it(1) by (metis insert_DiffM)
    have M': "lh_mset ?lh = add_mset ?it N"
    proof -
      have "lh_mset ?lh + mset (?bs ! b) = lh_mset lh + add_mset ?it (mset (?bs ! b) - {#it#})"
        using mset_concat_update [OF f(2), of "(?bs ! b)[i := ?it]"] mset_update [OF i(1), of ?it] i(2) by (simp add: lh_mset_def)
      moreover have "it \<in># mset (?bs ! b)" using i by (metis nth_mem set_mset_mset)
      moreover obtain K where "mset (?bs ! b) = add_mset it K" using calculation(2) by (metis insert_DiffM)
      ultimately show ?thesis by (simp add: M)
    qed
    have hash: "hash d = hash (li_data it)" using eq_hash [OF it(3) d it(2)] by simp
    have eqd: "cmp d e = 0 \<longleftrightarrow> cmp (li_data it) e = 0" if "e \<in> D" for e
      using that it d eq_sym eq_trans by metis
    have "lh_shape hash ?lh"
    proof (rule lh_shapeI)
      show "lh_num_items ?lh = size (lh_mset ?lh)" using lh_shapeD(3) [OF sh] by (simp add: M M')
      fix c x assume "c < lh_num_buckets ?lh" "x \<in> set (lh_buckets ?lh ! c)"
      then have c: "c < lh_num_buckets lh" "x \<in> set (?bs[b := (?bs ! b)[i := ?it]] ! c)" by simp_all
      show "li_hash x = hash (li_data x) \<and> unat (li_hash x) mod lh_num_buckets ?lh = c"
      proof (cases "c = b \<and> x = ?it")
        case True
        then have "it \<in> set (?bs ! c)" using i by (metis nth_mem)
        then have "li_hash it = hash (li_data it)" "unat (li_hash it) mod lh_num_buckets lh = c"
          using lh_shapeD(4) [OF sh c(1)] by blast+
        then show ?thesis using True hash by simp
      next
        case False
        then have "x \<in> set (?bs ! c)" using c(2) f(2) set_update_subset_insert [of "?bs ! b" i ?it]
          by (cases "c = b") auto
        then have "li_hash x = hash (li_data x)" "unat (li_hash x) mod lh_num_buckets lh = c"
          using lh_shapeD(4) [OF sh c(1)] by blast+
        then show ?thesis by simp
      qed
    qed (use lh_shapeD(1,2) [OF sh] in simp_all)
    moreover have "items_uniq cmp D (lh_mset ?lh)"
      using u d eqd unfolding M M' items_uniq_add by simp
    moreover have "lh_data ?lh = insert d {x \<in> lh_data lh. cmp x d \<noteq> 0}"
      using others_differ [OF u [unfolded M] d it(2)] it(2) unfolding lh_data_def M M'
      by (auto simp: filter_mset_none)
    ultimately have "OPENSSL_lh_insert mem hash cmp lh d = Some (True, Some (li_data it), ?lh) \<and> lh_inv hash cmp D ?lh \<and>
        lh_data ?lh = insert d {x \<in> lh_data lh. cmp x d \<noteq> 0}"
      using Some by (simp add: OPENSSL_lh_insert_def p lh_inv_def)
    moreover have "OPENSSL_lh_retrieve hash cmp lh d = Some (li_data it)" using Some by (simp add: OPENSSL_lh_retrieve_def p)
    ultimately show ?thesis by (intro exI [of _ True] exI [of _ ?lh]) simp
  next
    case None
    have r: "OPENSSL_lh_retrieve hash cmp lh d = None" using None by (simp add: OPENSSL_lh_retrieve_def p)
    show ?thesis
    proof (cases "OPENSSL_malloc mem 24 = None")
      case True
      then show ?thesis using None r inv by (intro exI [of _ False] exI [of _ lh]) (simp add: OPENSSL_lh_insert_def p)
    next
      case False
      let ?it = "\<lparr>li_data = d, li_hash = h\<rparr>"
      let ?lh = "lh\<lparr>lh_buckets := ?bs[b := ?bs ! b @ [?it]], lh_num_items := lh_num_items lh + 1\<rparr>"
      have M': "lh_mset ?lh = add_mset ?it (lh_mset lh)"
        using mset_concat_update [OF f(2), of "?bs ! b @ [?it]"] by (simp add: lh_mset_def)
      have no: "\<forall>x \<in># lh_mset lh. cmp (li_data x) d \<noteq> 0" using f(5) None by auto
      have "lh_shape hash ?lh"
      proof (rule lh_shapeI)
        show "lh_num_items ?lh = size (lh_mset ?lh)" using lh_shapeD(3) [OF sh] unfolding M' by simp
        fix c x assume "c < lh_num_buckets ?lh" "x \<in> set (lh_buckets ?lh ! c)"
        then have "c < lh_num_buckets lh" "x \<in> set (?bs ! c) \<or> c = b \<and> x = ?it" using f(2) by (auto simp: nth_list_update split: if_splits)
        then show "li_hash x = hash (li_data x) \<and> unat (li_hash x) mod lh_num_buckets ?lh = c"
          using lh_shapeD(4) [OF sh] f(1,3) by auto
      qed (use lh_shapeD(1,2) [OF sh] in simp_all)
      moreover have "items_uniq cmp D (lh_mset ?lh)"
        unfolding M' items_uniq_def
      proof (intro conjI ballI)
        show "li_data ` set_mset (add_mset ?it (lh_mset lh)) \<subseteq> D" using u d by (auto simp: items_uniq_def)
        fix e assume e: "e \<in> D"
        have "{#x \<in># lh_mset lh. cmp (li_data x) e = 0#} = {#}" if "cmp d e = 0"
          using that no u d e eq_sym eq_trans unfolding items_uniq_def filter_mset_none by (meson image_eqI subsetD)
        then show "size {#x \<in># add_mset ?it (lh_mset lh). cmp (li_data x) e = 0#} \<le> 1"
          using u e by (auto simp: items_uniq_def)
      qed
      moreover have "lh_data ?lh = insert d {x \<in> lh_data lh. cmp x d \<noteq> 0}" using no unfolding lh_data_def M' by auto
      ultimately obtain lh' where "lh_maybe_resize mem ?lh = Some lh'" "lh_inv hash cmp D lh'"
        "lh_data lh' = insert d {x \<in> lh_data lh. cmp x d \<noteq> 0}"
        using maybe_resize_ok [of hash ?lh mem] by (auto simp: lh_inv_def lh_data_def)
      then show ?thesis using None False r by (intro exI [of _ True] exI [of _ lh']) (simp add: OPENSSL_lh_insert_def p)
    qed
  qed
qed

lemma delete_ok:
  assumes inv: "lh_inv hash cmp D lh" and d: "d \<in> D"
  shows "\<exists>lh'. OPENSSL_lh_delete mem hash cmp lh d = Some (OPENSSL_lh_retrieve hash cmp lh d, lh') \<and> lh_inv hash cmp D lh' \<and>
    lh_data lh' = {x \<in> lh_data lh. cmp x d \<noteq> 0}"
proof -
  obtain b i h where p: "get_next_ptr_and_hash hash cmp lh d = ((b, i), h)" by (metis prod.exhaust)
  note f = next_ptr_found [OF inv d p]
  have sh: "lh_shape hash lh" and u: "items_uniq cmp D (lh_mset lh)" using inv by (simp_all add: lh_inv_def)
  let ?bs = "lh_buckets lh"
  show ?thesis
  proof (cases "lh_deref lh (b, i)")
    case None
    then have "\<forall>x \<in># lh_mset lh. cmp (li_data x) d \<noteq> 0" using f(5) by auto
    then show ?thesis using None inv
      by (intro exI [of _ lh]) (auto simp: OPENSSL_lh_delete_def OPENSSL_lh_retrieve_def p lh_data_def)
  next
    case (Some it)
    have it: "it \<in># lh_mset lh" "cmp (li_data it) d = 0" using f(5) [of it] Some by auto
    have i: "i < length (?bs ! b)" "?bs ! b ! i = it" using Some by (auto simp: lh_deref_def split: if_splits)
    let ?c = "take i (?bs ! b) @ drop (i + 1) (?bs ! b)"
    let ?lh = "lh\<lparr>lh_buckets := ?bs[b := ?c], lh_num_items := lh_num_items lh - 1\<rparr>"
    obtain N where M: "lh_mset lh = add_mset it N" using it(1) by (metis insert_DiffM)
    have c: "mset (?bs ! b) = add_mset it (mset ?c)"
      using id_take_nth_drop [OF i(1)] i(2) by (metis Suc_eq_plus1 mset.simps(2) mset_append union_mset_add_mset_right)
    have "add_mset it (lh_mset ?lh) = lh_mset lh"
      using mset_concat_update [OF f(2), of ?c] unfolding c by (simp add: lh_mset_def)
    then have M': "lh_mset ?lh = N" by (simp add: M)
    have sub: "set ?c \<subseteq> set (?bs ! b)" using c by (metis set_mset_add_mset_insert set_mset_mset subset_insertI)
    have n: "lh_num_items ?lh = size (lh_mset ?lh)" using lh_shapeD(3) [OF sh] unfolding M' by (simp add: M)
    have "lh_shape hash ?lh"
    proof (rule lh_shapeI)
      fix c x assume "c < lh_num_buckets ?lh" "x \<in> set (lh_buckets ?lh ! c)"
      then have "c < lh_num_buckets lh" "x \<in> set (?bs ! c)" using f(2) sub by (auto simp: nth_list_update split: if_splits)
      then have "li_hash x = hash (li_data x)" "unat (li_hash x) mod lh_num_buckets lh = c"
        using lh_shapeD(4) [OF sh] by blast+
      then show "li_hash x = hash (li_data x) \<and> unat (li_hash x) mod lh_num_buckets ?lh = c" by simp
    qed (use lh_shapeD(1,2) [OF sh] n in simp_all)
    moreover have "items_uniq cmp D N"
      using u unfolding M items_uniq_add by blast
    moreover have "li_data ` set_mset N = {x \<in> lh_data lh. cmp x d \<noteq> 0}"
      using others_differ [OF u [unfolded M] d it(2)] it(2) unfolding lh_data_def M
      by (auto simp: filter_mset_none)
    ultimately obtain lh' where "lh_maybe_resize mem ?lh = Some lh'" "lh_inv hash cmp D lh'"
      "lh_data lh' = {x \<in> lh_data lh. cmp x d \<noteq> 0}"
      using maybe_resize_ok [of hash ?lh mem, unfolded M'] by (auto simp: lh_inv_def lh_data_def)
    then show ?thesis using Some by (intro exI [of _ lh']) (simp add: OPENSSL_lh_delete_def OPENSSL_lh_retrieve_def p)
  qed
qed

end

text \<open>A new table is empty.\<close>

lemma lh_new_ok: "OPENSSL_lh_new mem = Some lh \<Longrightarrow> lh_inv hash cmp D lh \<and> lh_data lh = {}"
proof -
  assume "OPENSSL_lh_new mem = Some lh"
  then have lh: "lh = \<lparr>lh_num_items = 0, lh_buckets = replicate 16 [], lh_num_buckets = 16, lh_callback_depth = 0\<rparr>"
    by (simp add: OPENSSL_lh_new_def kMinNumBuckets_def split: if_splits)
  have "lh_mset lh = {#}" unfolding lh by (simp add: lh_mset_def)
  then show ?thesis by (auto simp: lh lh_inv_def lh_shape_def items_uniq_def lh_data_def)
qed

text \<open>
  The invariant depends on what the functions do on the objects of the table only. This matters for
  functions that read the objects through a store that changes elsewhere.
\<close>

lemma lh_inv_cong:
  assumes inv: "lh_inv hash cmp D lh" and f: "lh_functions hash' cmp' D'"
    and D: "lh_data lh \<subseteq> D'" and h: "\<And>x. x \<in> lh_data lh \<Longrightarrow> hash' x = hash x"
    and c: "\<And>x y. x \<in> lh_data lh \<Longrightarrow> y \<in> lh_data lh \<Longrightarrow> cmp' x y = 0 \<longleftrightarrow> cmp x y = 0"
  shows "lh_inv hash' cmp' D' lh"
proof -
  have sh: "lh_shape hash lh" and u: "items_uniq cmp D (lh_mset lh)" using inv by (simp_all add: lh_inv_def)
  have "lh_shape hash' lh"
  proof (rule lh_shapeI)
    fix b it assume b: "b < lh_num_buckets lh" "it \<in> set (lh_buckets lh ! b)"
    then have "it \<in># lh_mset lh" unfolding lh_mset_def by (intro bucket_mset) (simp_all only: lh_shapeD(1) [OF sh])
    then have "hash' (li_data it) = hash (li_data it)" by (intro h) (simp add: lh_data_def)
    then show "li_hash it = hash' (li_data it) \<and> unat (li_hash it) mod lh_num_buckets lh = b"
      using lh_shapeD(4) [OF sh b] by metis
  qed (use lh_shapeD(1-3) [OF sh] in blast)+
  moreover have "size {#it \<in># lh_mset lh. cmp' (li_data it) d = 0#} \<le> 1" if d: "d \<in> D'" for d
  proof (cases "\<exists>a \<in># lh_mset lh. cmp' (li_data a) d = 0")
    case True
    then obtain a where a: "a \<in># lh_mset lh" "cmp' (li_data a) d = 0" by blast
    then have aD: "li_data a \<in> D'" "li_data a \<in> D" "li_data a \<in> lh_data lh" using D u by (auto simp: lh_data_def items_uniq_def)
    have "{#it \<in># lh_mset lh. cmp' (li_data it) d = 0#} = {#it \<in># lh_mset lh. cmp (li_data it) (li_data a) = 0#}"
    proof (rule filter_mset_cong [OF refl])
      fix it assume "it \<in># lh_mset lh"
      then have it: "li_data it \<in> lh_data lh" "li_data it \<in> D'" using D by (auto simp: lh_data_def)
      have "cmp' (li_data it) d = 0 \<longleftrightarrow> cmp' (li_data it) (li_data a) = 0"
        using lh_functions.eq_trans [OF f] lh_functions.eq_sym [OF f] a(2) aD(1) it(2) d by metis
      then show "cmp' (li_data it) d = 0 \<longleftrightarrow> cmp (li_data it) (li_data a) = 0" using c [OF it(1) aD(3)] by simp
    qed
    then show ?thesis using u aD(2) by (simp add: items_uniq_def)
  next
    case False
    then have "{#it \<in># lh_mset lh. cmp' (li_data it) d = 0#} = {#}" by (simp add: filter_mset_none)
    then show ?thesis by (metis size_empty zero_le_one)
  qed
  ultimately show ?thesis using D by (simp add: lh_inv_def items_uniq_def lh_data_def)
qed

text \<open>Insertion and deletion never report an error while memory is available.\<close>

lemma lh_insert_live:
  assumes "lh_functions hash cmp D" "lh_inv hash cmp D lh" "d \<in> D" "\<forall>n. mem n \<noteq> None"
  shows "\<exists>lh'. OPENSSL_lh_insert mem hash cmp lh d = Some (True, OPENSSL_lh_retrieve hash cmp lh d, lh') \<and> lh_inv hash cmp D lh' \<and>
    lh_data lh' = insert d {x \<in> lh_data lh. cmp x d \<noteq> 0}"
proof -
  obtain ok lh' where "OPENSSL_lh_insert mem hash cmp lh d = Some (ok, OPENSSL_lh_retrieve hash cmp lh d, lh')" "lh_inv hash cmp D lh'"
    "if ok then lh_data lh' = insert d {x \<in> lh_data lh. cmp x d \<noteq> 0} else OPENSSL_malloc mem 24 = None"
    using lh_functions.insert_ok [OF assms(1-3), of mem] by (auto split: if_splits)
  moreover have "OPENSSL_malloc mem 24 \<noteq> None" using OPENSSL_malloc_live [OF assms(4), of 24] by auto
  ultimately show ?thesis by (auto split: if_splits)
qed

end
