(* ===== verification/Buf.thy ===== *)
theory Buf
  imports Mem_Str Stack_List
begin

text \<open>
  The growing buffer of \<open>crypto/buf/buf.c\<close>: \<open>data\<close> is the allocated array, of \<open>max\<close> bytes, and \<open>length\<close> counts the
  bytes in use. \<open>NULL\<close> is the empty array. The refinement is to the list of the bytes in use.
\<close>

section \<open>The model\<close>

record BUF_MEM =
  bm_length :: nat
  bm_data :: bytes
  bm_max :: nat

definition BUF_MEM_new :: "allocator \<Rightarrow> BUF_MEM option" where
  "BUF_MEM_new mem = (if OPENSSL_malloc mem 24 = None then None else Some \<lparr>bm_length = 0, bm_data = [], bm_max = 0\<rparr>)"

definition BUF_MEM_reserve :: "allocator \<Rightarrow> BUF_MEM \<Rightarrow> nat \<Rightarrow> bool \<times> BUF_MEM" where
  "BUF_MEM_reserve mem buf cap =
     (if bm_max buf \<ge> cap then (True, buf)
      else
        let n = size_add cap 3
        in if n < cap then (False, buf)
           else
             let n = n div 3; alloc_size = size_mul n 4
             in if alloc_size div 4 \<noteq> n then (False, buf)
                else case OPENSSL_realloc mem (bm_data buf) alloc_size of
                    None \<Rightarrow> (False, buf)
                  | Some new_buf \<Rightarrow> (True, buf\<lparr>bm_data := new_buf, bm_max := alloc_size\<rparr>))"

text \<open>The outer \<open>None\<close> is an access outside the array.\<close>

definition BUF_MEM_grow :: "allocator \<Rightarrow> BUF_MEM \<Rightarrow> nat \<Rightarrow> (nat \<times> BUF_MEM) option" where
  "BUF_MEM_grow mem buf len =
     (case BUF_MEM_reserve mem buf len of
        (False, buf) \<Rightarrow> Some (0, buf)
      | (True, buf) \<Rightarrow>
          if bm_length buf < len then
            map_option (\<lambda>d. (len, buf\<lparr>bm_data := d, bm_length := len\<rparr>))
              (cells_write (bm_data buf) (bm_length buf) (replicate (len - bm_length buf) 0))
          else Some (len, buf\<lparr>bm_length := len\<rparr>))"

definition BUF_MEM_grow_clean :: "allocator \<Rightarrow> BUF_MEM \<Rightarrow> nat \<Rightarrow> (nat \<times> BUF_MEM) option" where
  "BUF_MEM_grow_clean mem buf len = BUF_MEM_grow mem buf len"

definition BUF_MEM_append :: "allocator \<Rightarrow> BUF_MEM \<Rightarrow> bytes \<Rightarrow> (bool \<times> BUF_MEM) option" where
  "BUF_MEM_append mem buf input =
     (let len = length input
      in if len = 0 then Some (True, buf)
         else
           let new_len = size_add (bm_length buf) len
           in if new_len < len then Some (False, buf)
              else case BUF_MEM_reserve mem buf new_len of
                  (False, buf) \<Rightarrow> Some (False, buf)
                | (True, buf) \<Rightarrow>
                    map_option (\<lambda>d. (True, buf\<lparr>bm_data := d, bm_length := new_len\<rparr>))
                      (cells_write (bm_data buf) (bm_length buf) input))"

section \<open>The buffer as a list\<close>

lemma size_mul_eq: "size_mul a b = (a * b) mod SIZE_MOD"
  unfolding size_mul_def of_nat_mult [symmetric] by (simp only: unat_of_nat_mod) simp

definition bm_inv :: "BUF_MEM \<Rightarrow> bool" where
  "bm_inv b \<longleftrightarrow> length (bm_data b) = bm_max b \<and> bm_length b \<le> bm_max b \<and> bm_max b < SIZE_MOD"

definition bm_bytes :: "BUF_MEM \<Rightarrow> bytes" where
  "bm_bytes b = take (bm_length b) (bm_data b)"

lemma bm_reserve_ok:
  assumes mem: "alloc_ok mem" and inv: "bm_inv b" and cap: "cap < SIZE_MOD"
  shows "case BUF_MEM_reserve mem b cap of
      (True, b') \<Rightarrow> bm_inv b' \<and> cap \<le> bm_max b' \<and> bm_bytes b' = bm_bytes b \<and> bm_length b' = bm_length b
    | (False, b') \<Rightarrow> b' = b \<and> (2 ^ 61 < cap \<or> (\<exists>m. mem m = None))"
proof (cases "cap \<le> bm_max b")
  case True
  then show ?thesis using inv by (simp add: BUF_MEM_reserve_def)
next
  case False
  define n where "n = size_add cap 3 div 3"
  show ?thesis
  proof (cases "cap + 3 < SIZE_MOD \<and> n * 4 < SIZE_MOD")
    case small: True
    then have "size_mul n 4 = n * 4" "size_add cap 3 = cap + 3" using size_mul_small [of n 4] size_add_small [of cap 3] by blast+
    then have n: "size_add cap 3 = cap + 3" "n = (cap + 3) div 3" "size_mul n 4 = n * 4" "cap \<le> n * 4"
      by (simp_all add: n_def)
    show ?thesis
    proof (cases "OPENSSL_malloc mem (n * 4)")
      case None
      then have "2 ^ 61 < cap \<or> (\<exists>m. mem m = None)" using OPENSSL_malloc_live [of mem "n * 4"] n(2) by fastforce
      then show ?thesis using None False n by (simp add: BUF_MEM_reserve_def OPENSSL_realloc_def)
    next
      case (Some d)
      let ?k = "min (length (bm_data b)) (n * 4)"
      have d: "length d = n * 4" using OPENSSL_malloc_length [OF mem _ Some] small by simp
      have "bm_length b \<le> ?k" using inv False n(4) by (auto simp: bm_inv_def)
      then have "take (bm_length b) (take ?k (bm_data b) @ drop ?k d) = bm_bytes b"
        by (simp add: bm_bytes_def)
      then show ?thesis using Some False n d small inv
        by (auto simp: BUF_MEM_reserve_def OPENSSL_realloc_def bm_inv_def bm_bytes_def Let_def)
    qed
  next
    case big: False
    then have c: "2 ^ 61 < cap" using cap by (auto simp: n_def size_add_small)
    show ?thesis
    proof (cases "cap + 3 < SIZE_MOD")
      case True
      then have "SIZE_MOD \<le> n * 4" "n * 4 < 2 * SIZE_MOD" using big by (simp_all add: n_def size_add_small)
      then have "size_mul n 4 = n * 4 - SIZE_MOD" unfolding size_mul_eq by (simp add: le_mod_geq)
      then have "size_mul n 4 div 4 \<noteq> n" using \<open>SIZE_MOD \<le> n * 4\<close> by simp
      then show ?thesis using False c by (simp add: BUF_MEM_reserve_def n_def Let_def)
    next
      case wrap: False
      then have "size_add cap 3 < cap" using size_add_overflow [of cap 3] cap by simp
      then show ?thesis using False c by (simp add: BUF_MEM_reserve_def)
    qed
  qed
qed

text \<open>The bytes in use after growing are padded with zeros, or cut; appending concatenates.\<close>

lemma bm_grow_ok:
  assumes mem: "alloc_ok mem" and inv: "bm_inv b" and len: "len < SIZE_MOD"
  shows "\<exists>r b'. BUF_MEM_grow mem b len = Some (r, b') \<and> bm_inv b' \<and>
    (r = len \<and> bm_length b' = len \<and> bm_bytes b' = take len (bm_bytes b) @ replicate (len - bm_length b) 0 \<or>
     r = 0 \<and> b' = b \<and> (2 ^ 61 < len \<or> (\<exists>m. mem m = None)))"
proof -
  obtain ok b1 where r: "BUF_MEM_reserve mem b len = (ok, b1)" by (metis prod.exhaust)
  note f = bm_reserve_ok [OF mem inv len, unfolded r]
  show ?thesis
  proof (cases ok)
    case True
    with f have f': "bm_inv b1" "len \<le> bm_max b1" "bm_bytes b1 = bm_bytes b" "bm_length b1 = bm_length b" by simp_all
    then show ?thesis
    proof (cases "bm_length b < len")
      case l: True
      have "bm_length b + (len - bm_length b) \<le> length (bm_data b1)" using f' l by (simp add: bm_inv_def)
      moreover have "bm_length b \<le> length (bm_data b)" using inv by (simp add: bm_inv_def)
      ultimately show ?thesis using f' l True r
        by (auto simp: BUF_MEM_grow_def cells_write_Some bm_inv_def bm_bytes_def)
    next
      case l: False
      have "take len (bm_data b1) = take len (bm_bytes b1)" using l f'(4) by (simp add: bm_bytes_def)
      then show ?thesis using l f' True r by (auto simp: BUF_MEM_grow_def bm_inv_def bm_bytes_def [of "_\<lparr>bm_length := _\<rparr>"])
    qed
  next
    case False
    then show ?thesis using f r inv by (auto simp: BUF_MEM_grow_def)
  qed
qed

lemma bm_append_ok:
  assumes mem: "alloc_ok mem" and inv: "bm_inv b" and len: "length xs < SIZE_MOD"
  shows "\<exists>ok b'. BUF_MEM_append mem b xs = Some (ok, b') \<and> bm_inv b' \<and>
    (ok \<and> bm_bytes b' = bm_bytes b @ xs \<or>
     \<not> ok \<and> b' = b \<and> (2 ^ 61 < bm_length b + length xs \<or> (\<exists>m. mem m = None)))"
proof (cases "xs = []")
  case True
  then show ?thesis using inv by (intro exI [of _ True] exI [of _ b]) (simp add: BUF_MEM_append_def)
next
  case False
  have l: "bm_length b < SIZE_MOD" using inv by (simp add: bm_inv_def)
  let ?n = "size_add (bm_length b) (length xs)"
  show ?thesis
  proof (cases "bm_length b + length xs < SIZE_MOD")
    case True
    then have n: "?n = bm_length b + length xs" by (rule size_add_small)
    obtain ok b1 where r: "BUF_MEM_reserve mem b ?n = (ok, b1)" by (metis prod.exhaust)
    note f = bm_reserve_ok [OF mem inv, of ?n, unfolded r]
    show ?thesis
    proof (cases ok)
      case ok: True
      with f True n have f': "bm_inv b1" "?n \<le> bm_max b1" "bm_bytes b1 = bm_bytes b" "bm_length b1 = bm_length b" by simp_all
      then have "bm_length b + length xs \<le> length (bm_data b1)" using n by (simp add: bm_inv_def)
      then have w: "cells_write (bm_data b1) (bm_length b1) xs =
          Some (bm_bytes b1 @ xs @ drop (bm_length b + length xs) (bm_data b1))"
        using f'(4) by (simp add: cells_write_Some bm_bytes_def)
      let ?b = "b1\<lparr>bm_data := bm_bytes b1 @ xs @ drop (bm_length b + length xs) (bm_data b1), bm_length := ?n\<rparr>"
      have lb: "length (bm_bytes b1) = bm_length b" using f'(1,4) by (simp add: bm_inv_def bm_bytes_def)
      have "bm_bytes ?b = bm_bytes b @ xs" unfolding bm_bytes_def [of ?b] using lb n f'(3) by simp
      moreover have "bm_inv ?b" using f'(1,2) lb n by (simp add: bm_inv_def)
      moreover have "BUF_MEM_append mem b xs = Some (True, ?b)"
        using w r ok n False by (simp add: BUF_MEM_append_def Let_def)
      ultimately show ?thesis by blast
    next
      case ok: False
      then show ?thesis using f r inv n True False by (auto simp: BUF_MEM_append_def)
    qed
  next
    case big: False
    then have "?n < length xs" using size_add_overflow [OF len l] by (simp add: size_add_eq add.commute)
    then show ?thesis using big False inv by (auto simp: BUF_MEM_append_def)
  qed
qed

end
