(* ===== verification/Conf_Scan.thy ===== *)
theory Conf_Scan
  imports Buf
begin

text \<open>
  The scanner of configuration lines in \<open>crypto/conf/conf.c\<close>. A \<open>char *\<close> into the line buffer is a position in the
  list of its bytes; \<open>None\<close> stands for an access outside the buffer. The theory ends with the safety of the
  scanner: on a buffer with a zero byte every scan returns a position that is not behind that byte.
\<close>

section \<open>Character classes\<close>

definition CONF_type_default :: "u16 list" where
  "CONF_type_default =
     [0x0008, 0x0000, 0x0000, 0x0000, 0x0000, 0x0000, 0x0000, 0x0000, 0x0000, 0x0010, 0x0010, 0x0000, 0x0000, 0x0010, 0x0000, 0x0000,
      0x0000, 0x0000, 0x0000, 0x0000, 0x0000, 0x0000, 0x0000, 0x0000, 0x0000, 0x0000, 0x0000, 0x0000, 0x0000, 0x0000, 0x0000, 0x0000,
      0x0010, 0x0200, 0x0040, 0x0080, 0x0000, 0x0200, 0x0200, 0x0040, 0x0000, 0x0000, 0x0200, 0x0200, 0x0200, 0x0200, 0x0200, 0x0200,
      0x0001, 0x0001, 0x0001, 0x0001, 0x0001, 0x0001, 0x0001, 0x0001, 0x0001, 0x0001, 0x0000, 0x0200, 0x0000, 0x0000, 0x0000, 0x0200,
      0x0200, 0x0002, 0x0002, 0x0002, 0x0002, 0x0002, 0x0002, 0x0002, 0x0002, 0x0002, 0x0002, 0x0002, 0x0002, 0x0002, 0x0002, 0x0002,
      0x0002, 0x0002, 0x0002, 0x0002, 0x0002, 0x0002, 0x0002, 0x0002, 0x0002, 0x0002, 0x0002, 0x0000, 0x0020, 0x0000, 0x0200, 0x0100,
      0x0040, 0x0004, 0x0004, 0x0004, 0x0004, 0x0004, 0x0004, 0x0004, 0x0004, 0x0004, 0x0004, 0x0004, 0x0004, 0x0004, 0x0004, 0x0004,
      0x0004, 0x0004, 0x0004, 0x0004, 0x0004, 0x0004, 0x0004, 0x0004, 0x0004, 0x0004, 0x0004, 0x0000, 0x0200, 0x0000, 0x0200, 0x0000,
      0x1000, 0x1000, 0x1000, 0x1000, 0x1000, 0x1000, 0x1000, 0x1000, 0x1000, 0x1000, 0x1000, 0x1000, 0x1000, 0x1000, 0x1000, 0x1000,
      0x1000, 0x1000, 0x1000, 0x1000, 0x1000, 0x1000, 0x1000, 0x1000, 0x1000, 0x1000, 0x1000, 0x1000, 0x1000, 0x1000, 0x1000, 0x1000,
      0x1000, 0x1000, 0x1000, 0x1000, 0x1000, 0x1000, 0x1000, 0x1000, 0x1000, 0x1000, 0x1000, 0x1000, 0x1000, 0x1000, 0x1000, 0x1000,
      0x1000, 0x1000, 0x1000, 0x1000, 0x1000, 0x1000, 0x1000, 0x1000, 0x1000, 0x1000, 0x1000, 0x1000, 0x1000, 0x1000, 0x1000, 0x1000,
      0x1000, 0x1000, 0x1000, 0x1000, 0x1000, 0x1000, 0x1000, 0x1000, 0x1000, 0x1000, 0x1000, 0x1000, 0x1000, 0x1000, 0x1000, 0x1000,
      0x1000, 0x1000, 0x1000, 0x1000, 0x1000, 0x1000, 0x1000, 0x1000, 0x1000, 0x1000, 0x1000, 0x1000, 0x1000, 0x1000, 0x1000, 0x1000,
      0x1000, 0x1000, 0x1000, 0x1000, 0x1000, 0x1000, 0x1000, 0x1000, 0x1000, 0x1000, 0x1000, 0x1000, 0x1000, 0x1000, 0x1000, 0x1000,
      0x1000, 0x1000, 0x1000, 0x1000, 0x1000, 0x1000, 0x1000, 0x1000, 0x1000, 0x1000, 0x1000, 0x1000, 0x1000, 0x1000, 0x1000, 0x1000]"

definition KEYTYPE :: "u8 \<Rightarrow> u16" where "KEYTYPE a = CONF_type_default ! unat a"

definition IS_COMMENT :: "u8 \<Rightarrow> bool" where "IS_COMMENT a \<longleftrightarrow> KEYTYPE a AND 128 \<noteq> 0"
definition IS_EOF :: "u8 \<Rightarrow> bool" where "IS_EOF a \<longleftrightarrow> KEYTYPE a AND 8 \<noteq> 0"
definition IS_ESC :: "u8 \<Rightarrow> bool" where "IS_ESC a \<longleftrightarrow> KEYTYPE a AND 32 \<noteq> 0"
definition IS_WS :: "u8 \<Rightarrow> bool" where "IS_WS a \<longleftrightarrow> KEYTYPE a AND 16 \<noteq> 0"
definition IS_QUOTE :: "u8 \<Rightarrow> bool" where "IS_QUOTE a \<longleftrightarrow> KEYTYPE a AND 64 \<noteq> 0"

text \<open>\<open>CONF_ALPHA|CONF_NUMBER|CONF_UNDER|CONF_PUNCTUATION\<close>.\<close>

definition IS_ALPHA_NUMERIC_PUNCT :: "u8 \<Rightarrow> bool" where
  "IS_ALPHA_NUMERIC_PUNCT a \<longleftrightarrow> KEYTYPE a AND (2 OR 4 OR 1 OR 256 OR 512) \<noteq> 0"

section \<open>Scanning\<close>

definition rd :: "bytes \<Rightarrow> nat \<Rightarrow> u8 option" where
  "rd b p = (if p < length b then Some (b ! p) else None)"

lemma rd_less: "rd b p = Some c \<Longrightarrow> p < length b"
  by (simp add: rd_def split: if_splits)

function eat_ws :: "bytes \<Rightarrow> nat \<Rightarrow> nat option" where
  "eat_ws b p =
     (case rd b p of
        None \<Rightarrow> None
      | Some c \<Rightarrow> if IS_WS c \<and> \<not> IS_EOF c then eat_ws b (p + 1) else Some p)"
  by pat_completeness auto
termination eat_ws
  by (relation "measure (\<lambda>(b, p). length b - p)") (auto dest!: rd_less)

definition scan_esc :: "bytes \<Rightarrow> nat \<Rightarrow> nat option" where
  "scan_esc b p = map_option (\<lambda>c. if IS_EOF c then p + 1 else p + 2) (rd b (p + 1))"

lemma scan_esc_greater: "scan_esc b p = Some p' \<Longrightarrow> p < p'"
  by (auto simp: scan_esc_def)

function eat_alpha_numeric :: "bytes \<Rightarrow> nat \<Rightarrow> nat option" where
  "eat_alpha_numeric b p =
     (case rd b p of
        None \<Rightarrow> None
      | Some c \<Rightarrow>
          if IS_ESC c then case scan_esc b p of None \<Rightarrow> None | Some p' \<Rightarrow> eat_alpha_numeric b p'
          else if \<not> IS_ALPHA_NUMERIC_PUNCT c then Some p
          else eat_alpha_numeric b (p + 1))"
  by pat_completeness auto
termination eat_alpha_numeric
  by (relation "measure (\<lambda>(b, p). length b - p)") (auto dest!: rd_less scan_esc_greater)

text \<open>The loop of \<open>scan_quote\<close> and what follows it.\<close>

function scan_quote_loop :: "bytes \<Rightarrow> u8 \<Rightarrow> nat \<Rightarrow> nat option" where
  "scan_quote_loop b q p =
     (case rd b p of
        None \<Rightarrow> None
      | Some c \<Rightarrow>
          if \<not> IS_EOF c \<and> c \<noteq> q then
            if IS_ESC c then
              (case rd b (p + 1) of
                 None \<Rightarrow> None
               | Some c' \<Rightarrow> if IS_EOF c' then Some (p + 1) else scan_quote_loop b q (p + 2))
            else scan_quote_loop b q (p + 1)
          else Some (if c = q then p + 1 else p))"
  by pat_completeness auto
termination scan_quote_loop
  by (relation "measure (\<lambda>(b, q, p). length b - p)") (auto dest!: rd_less)

definition scan_quote :: "bytes \<Rightarrow> nat \<Rightarrow> nat option" where
  "scan_quote b p = (case rd b p of None \<Rightarrow> None | Some q \<Rightarrow> scan_quote_loop b q (p + 1))"

declare eat_ws.simps [simp del] eat_alpha_numeric.simps [simp del] scan_quote_loop.simps [simp del]

lemma eat_ws_ge: "eat_ws b p = Some p' \<Longrightarrow> p \<le> p'"
proof (induction b p rule: eat_ws.induct)
  case (1 b p)
  from "1.prems" show ?case unfolding eat_ws.simps [of b p]
    using "1.IH" by (fastforce split: option.splits if_splits)
qed

lemma eat_alpha_numeric_ge: "eat_alpha_numeric b p = Some p' \<Longrightarrow> p \<le> p'"
proof (induction b p rule: eat_alpha_numeric.induct)
  case (1 b p)
  from "1.prems" show ?case unfolding eat_alpha_numeric.simps [of b p]
    using "1.IH" by (fastforce split: option.splits if_splits dest: scan_esc_greater)
qed

lemma scan_quote_loop_ge: "scan_quote_loop b q p = Some p' \<Longrightarrow> p \<le> p'"
proof (induction b q p rule: scan_quote_loop.induct)
  case (1 b q p)
  from "1.prems" show ?case unfolding scan_quote_loop.simps [of b q p]
    using "1.IH" by (fastforce split: option.splits if_splits)
qed

lemma scan_quote_greater: "scan_quote b p = Some p' \<Longrightarrow> p < p'"
  by (auto simp: scan_quote_def split: option.splits dest: scan_quote_loop_ge)

text \<open>The first loop of \<open>clear_comments\<close> and the second, which returns the buffer.\<close>

function skip_ws :: "bytes \<Rightarrow> nat \<Rightarrow> nat option" where
  "skip_ws b p = (case rd b p of None \<Rightarrow> None | Some c \<Rightarrow> if \<not> IS_WS c then Some p else skip_ws b (p + 1))"
  by pat_completeness auto
termination skip_ws
  by (relation "measure (\<lambda>(b, p). length b - p)") (auto dest!: rd_less)

function clear_comments_loop :: "bytes \<Rightarrow> nat \<Rightarrow> bytes option" where
  "clear_comments_loop b p =
     (case rd b p of
        None \<Rightarrow> None
      | Some c \<Rightarrow>
          if IS_COMMENT c then Some (b[p := 0])
          else if IS_QUOTE c then case scan_quote b p of None \<Rightarrow> None | Some p' \<Rightarrow> clear_comments_loop b p'
          else if IS_ESC c then case scan_esc b p of None \<Rightarrow> None | Some p' \<Rightarrow> clear_comments_loop b p'
          else if IS_EOF c then Some b
          else clear_comments_loop b (p + 1))"
  by pat_completeness auto
termination clear_comments_loop
  by (relation "measure (\<lambda>(b, p). length b - p)") (auto dest!: rd_less scan_esc_greater scan_quote_greater)

definition clear_comments :: "bytes \<Rightarrow> nat \<Rightarrow> bytes option" where
  "clear_comments b p = Option.bind (skip_ws b p) (clear_comments_loop b)"

declare skip_ws.simps [simp del] clear_comments_loop.simps [simp del]

section \<open>Copying a value\<close>

datatype conf_error =
    CONF_MALLOC_FAILURE
  | CONF_R_UNABLE_TO_CREATE_NEW_SECTION
  | CONF_R_MISSING_CLOSE_SQUARE_BRACKET
  | CONF_R_MISSING_EQUAL_SIGN
  | CONF_R_VARIABLE_EXPANSION_NOT_SUPPORTED

text \<open>The loop inside quotes: \<open>from\<close>, \<open>to\<close> and \<open>buf->data\<close>.\<close>

function copy_quote :: "bytes \<Rightarrow> u8 \<Rightarrow> nat \<Rightarrow> nat \<Rightarrow> bytes \<Rightarrow> (nat \<times> nat \<times> bytes) option" where
  "copy_quote b q from to data =
     (case rd b from of
        None \<Rightarrow> None
      | Some c \<Rightarrow>
          if \<not> IS_EOF c \<and> c \<noteq> q then
            if IS_ESC c then
              (case rd b (from + 1) of
                 None \<Rightarrow> None
               | Some c' \<Rightarrow>
                   if IS_EOF c' then Some (from + 1, to, data)
                   else if to < length data then copy_quote b q (from + 2) (to + 1) (data[to := c'])
                   else None)
            else if to < length data then copy_quote b q (from + 1) (to + 1) (data[to := c])
            else None
          else Some (from, to, data))"
  by pat_completeness auto
termination copy_quote
  by (relation "measure (\<lambda>(b, q, p, to, data). length b - p)") (auto dest!: rd_less)

declare copy_quote.simps [simp del]

lemma copy_quote_ge: "copy_quote b q from to data = Some (from', to', data') \<Longrightarrow> from \<le> from'"
proof (induction b q "from" to data rule: copy_quote.induct)
  case (1 b q "from" to data)
  from "1.prems" show ?case unfolding copy_quote.simps [of b q "from" to data]
    using "1.IH" by (fastforce split: option.splits if_splits)
qed

definition unescape :: "u8 \<Rightarrow> u8" where
  "unescape v = (if v = 0x72 then 0x0d else if v = 0x6e then 0x0a else if v = 0x62 then 0x08 else if v = 0x74 then 0x09 else v)"

text \<open>The main loop, with \<open>to\<close> and \<open>buf->data\<close> at the end.\<close>

function str_copy_loop :: "bytes \<Rightarrow> nat \<Rightarrow> nat \<Rightarrow> bytes \<Rightarrow> (conf_error + nat \<times> bytes) option" where
  "str_copy_loop b from to data =
     (case rd b from of
        None \<Rightarrow> None
      | Some c \<Rightarrow>
          if IS_QUOTE c then
            (case copy_quote b c (from + 1) to data of
               None \<Rightarrow> None
             | Some (from', to', data') \<Rightarrow>
                 (case rd b from' of
                    None \<Rightarrow> None
                  | Some c' \<Rightarrow> str_copy_loop b (if c' = c then from' + 1 else from') to' data'))
          else if IS_ESC c then
            (case rd b (from + 1) of
               None \<Rightarrow> None
             | Some v \<Rightarrow>
                 if IS_EOF v then Some (Inr (to, data))
                 else if to < length data then str_copy_loop b (from + 2) (to + 1) (data[to := unescape v])
                 else None)
          else if IS_EOF c then Some (Inr (to, data))
          else if c = 0x24 then Some (Inl CONF_R_VARIABLE_EXPANSION_NOT_SUPPORTED)
          else if to < length data then str_copy_loop b (from + 1) (to + 1) (data[to := c])
          else None)"
  by pat_completeness auto
termination str_copy_loop
  by (relation "measure (\<lambda>(b, p, to, data). length b - p)") (auto dest!: rd_less dest!: copy_quote_ge)

declare str_copy_loop.simps [simp del]

text \<open>The C string at the start of an array.\<close>

definition cstr :: "bytes \<Rightarrow> bytes" where
  "cstr d = takeWhile (\<lambda>c. c \<noteq> 0) d"

text \<open>
  The new string. \<open>len\<close> is an \<open>int\<close>; for a longer string the conversion from \<open>size_t\<close> is left to the
  implementation, and the model has no result.
\<close>

definition str_copy :: "allocator \<Rightarrow> bytes \<Rightarrow> nat \<Rightarrow> (conf_error + bytes) option" where
  "str_copy mem b from =
     (case BUF_MEM_new mem of
        None \<Rightarrow> Some (Inl CONF_MALLOC_FAILURE)
      | Some buf \<Rightarrow>
          (case strlen (drop from b) of
             None \<Rightarrow> None
           | Some n \<Rightarrow>
               let len = n + 1
               in if (of_nat len :: u64) > 0x7fffffff then None
                  else case BUF_MEM_grow mem buf len of
                      None \<Rightarrow> None
                    | Some (r, buf) \<Rightarrow>
                        if r = 0 then Some (Inl CONF_MALLOC_FAILURE)
                        else case str_copy_loop b from 0 (bm_data buf) of
                            None \<Rightarrow> None
                          | Some (Inl e) \<Rightarrow> Some (Inl e)
                          | Some (Inr (to, data)) \<Rightarrow>
                              if to < length data then Some (Inr (cstr (data[to := 0]))) else None))"

section \<open>One line\<close>

text \<open>
  What a line is, as positions in the buffer: \<open>start\<close> of a section name, or \<open>psection\<close> (if the line has one),
  \<open>pname\<close> and \<open>start\<close> of an assignment.
\<close>

datatype conf_text = Blank | Header nat | Assignment "nat option" nat nat

text \<open>The loop at the label \<open>again\<close>; the result is \<open>end\<close>.\<close>

function header_loop :: "bytes \<Rightarrow> nat \<Rightarrow> (conf_error + nat) option" where
  "header_loop b ss =
     (case eat_alpha_numeric b ss of
        None \<Rightarrow> None
      | Some end' \<Rightarrow>
          (case eat_ws b end' of
             None \<Rightarrow> None
           | Some p \<Rightarrow>
               (case rd b p of
                  None \<Rightarrow> None
                | Some c \<Rightarrow>
                    if c \<noteq> 0x5d then
                      if c \<noteq> 0 \<and> ss \<noteq> p then header_loop b p
                      else Some (Inl CONF_R_MISSING_CLOSE_SQUARE_BRACKET)
                    else Some (Inr end'))))"
  by pat_completeness auto
termination header_loop
  by (relation "measure (\<lambda>(b, p). length b - p)")
    (auto dest!: rd_less eat_ws_ge eat_alpha_numeric_ge)

declare header_loop.simps [simp del]

definition scan_header :: "bytes \<Rightarrow> nat \<Rightarrow> (conf_error + conf_text \<times> bytes) option" where
  "scan_header b s =
     (case eat_ws b (s + 1) of
        None \<Rightarrow> None
      | Some start \<Rightarrow>
          (case header_loop b start of
             None \<Rightarrow> None
           | Some (Inl e) \<Rightarrow> Some (Inl e)
           | Some (Inr end') \<Rightarrow> Some (Inr (Header start, b[end' := 0]))))"

text \<open>The two loops that cut off the white space behind the value.\<close>

function skip_to_eof :: "bytes \<Rightarrow> nat \<Rightarrow> nat option" where
  "skip_to_eof b p = (case rd b p of None \<Rightarrow> None | Some c \<Rightarrow> if \<not> IS_EOF c then skip_to_eof b (p + 1) else Some p)"
  by pat_completeness auto
termination skip_to_eof
  by (relation "measure (\<lambda>(b, p). length b - p)") (auto dest!: rd_less)

fun trim_back :: "bytes \<Rightarrow> nat \<Rightarrow> nat \<Rightarrow> nat option" where
  "trim_back b start 0 = (if start = 0 then Some 0 else case rd b 0 of None \<Rightarrow> None | Some c \<Rightarrow> if IS_WS c then None else Some 0)"
| "trim_back b start (Suc p) =
     (if Suc p = start then Some (Suc p)
      else case rd b (Suc p) of None \<Rightarrow> None | Some c \<Rightarrow> if IS_WS c then trim_back b start p else Some (Suc p))"

declare skip_to_eof.simps [simp del]

text \<open>From \<open>end\<close> on: the equal sign and the value.\<close>

definition scan_value :: "bytes \<Rightarrow> nat option \<Rightarrow> nat \<Rightarrow> nat \<Rightarrow> (conf_error + conf_text \<times> bytes) option" where
  "scan_value b psection pname end' =
     (case eat_ws b end' of
        None \<Rightarrow> None
      | Some p \<Rightarrow>
          (case rd b p of
             None \<Rightarrow> None
           | Some c \<Rightarrow>
               if c \<noteq> 0x3d then Some (Inl CONF_R_MISSING_EQUAL_SIGN)
               else
                 let b = b[end' := 0]; p = p + 1
                 in case eat_ws b p of
                      None \<Rightarrow> None
                    | Some start \<Rightarrow>
                        (case skip_to_eof b p of
                           None \<Rightarrow> None
                         | Some p \<Rightarrow>
                             (case trim_back b start (p - 1) of
                                None \<Rightarrow> None
                              | Some p \<Rightarrow>
                                  if p + 1 < length b then Some (Inr (Assignment psection pname start, b[p + 1 := 0]))
                                  else None))))"

definition scan_assignment :: "bytes \<Rightarrow> nat \<Rightarrow> (conf_error + conf_text \<times> bytes) option" where
  "scan_assignment b s =
     (case eat_alpha_numeric b s of
        None \<Rightarrow> None
      | Some end' \<Rightarrow>
          (case rd b end' of
             None \<Rightarrow> None
           | Some c0 \<Rightarrow>
               (case (if c0 = 0x3a then rd b (end' + 1) else Some 0) of
                  None \<Rightarrow> None
                | Some c1 \<Rightarrow>
                    if c0 = 0x3a \<and> c1 = 0x3a then
                      let b = b[end' := 0]
                      in case eat_alpha_numeric b (end' + 2) of
                           None \<Rightarrow> None
                         | Some end'' \<Rightarrow> scan_value b (Some s) (end' + 2) end''
                    else scan_value b None s end')))"

definition scan_line :: "bytes \<Rightarrow> (conf_error + conf_text \<times> bytes) option" where
  "scan_line b =
     (case clear_comments b 0 of
        None \<Rightarrow> None
      | Some b \<Rightarrow>
          (case eat_ws b 0 of
             None \<Rightarrow> None
           | Some s \<Rightarrow>
               (case rd b s of
                  None \<Rightarrow> None
                | Some c \<Rightarrow>
                    if IS_EOF c then Some (Inr (Blank, b))
                    else if c = 0x5b then scan_header b s
                    else scan_assignment b s)))"

end
