(* ===== verification/Conf_Lines.thy ===== *)
theory Conf_Lines
  imports Conf_Scan
begin

text \<open>
  What the scanner of configuration lines does: it stays inside a buffer with a zero byte, copying a value
  computes \<open>value_text\<close>, and lines of the usual forms are read as expected.
\<close>

section \<open>Character classes\<close>

lemma keytype_mask:
  assumes "map (\<lambda>k. k AND m \<noteq> 0) CONF_type_default = map P [0..<256]"
  shows "KEYTYPE c AND m \<noteq> 0 \<longleftrightarrow> P (unat c)"
proof -
  have l: "length CONF_type_default = 256" by (simp add: CONF_type_default_def)
  have "map (\<lambda>k. k AND m \<noteq> 0) CONF_type_default ! unat c = map P [0..<256] ! unat c" using assms by simp
  then show ?thesis using unat_u8_less [of c] by (simp add: KEYTYPE_def l)
qed

lemma u8_numeral: "unat c = numeral k \<longleftrightarrow> c = numeral k" if "(numeral k :: nat) < 256" for c :: u8
proof -
  have "unat (numeral k :: u8) = numeral k" using unat_of_nat_less [of "numeral k", where ?'a = 8] that by simp
  then show ?thesis by (metis word_eq_unatI)
qed

lemma IS_EOF_iff [simp]: "IS_EOF c \<longleftrightarrow> c = 0"
proof -
  have "map (\<lambda>k. k AND 8 \<noteq> 0) CONF_type_default = map (\<lambda>i. i = 0) [0..<256]" by code_simp
  from keytype_mask [OF this] show ?thesis by (simp add: IS_EOF_def unat_eq_zero)
qed

lemma IS_ESC_iff [simp]: "IS_ESC c \<longleftrightarrow> c = 0x5c"
proof -
  have "map (\<lambda>k. k AND 32 \<noteq> 0) CONF_type_default = map (\<lambda>i. i = 0x5c) [0..<256]" by code_simp
  from keytype_mask [OF this] show ?thesis by (simp add: IS_ESC_def u8_numeral)
qed

lemma IS_COMMENT_iff [simp]: "IS_COMMENT c \<longleftrightarrow> c = 0x23"
proof -
  have "map (\<lambda>k. k AND 128 \<noteq> 0) CONF_type_default = map (\<lambda>i. i = 0x23) [0..<256]" by code_simp
  from keytype_mask [OF this] show ?thesis by (simp add: IS_COMMENT_def u8_numeral)
qed

lemma IS_WS_iff [simp]: "IS_WS c \<longleftrightarrow> c = 9 \<or> c = 10 \<or> c = 13 \<or> c = 32"
proof -
  have "map (\<lambda>k. k AND 16 \<noteq> 0) CONF_type_default = map (\<lambda>i. i = 9 \<or> i = 10 \<or> i = 13 \<or> i = 32) [0..<256]" by code_simp
  from keytype_mask [OF this] show ?thesis by (simp add: IS_WS_def u8_numeral)
qed

lemma IS_QUOTE_iff [simp]: "IS_QUOTE c \<longleftrightarrow> c = 0x22 \<or> c = 0x27 \<or> c = 0x60"
proof -
  have "map (\<lambda>k. k AND 64 \<noteq> 0) CONF_type_default = map (\<lambda>i. i = 0x22 \<or> i = 0x27 \<or> i = 0x60) [0..<256]" by code_simp
  from keytype_mask [OF this] show ?thesis by (simp add: IS_QUOTE_def u8_numeral)
qed

lemma IS_ALPHA_NUMERIC_PUNCT_special:
  "\<not> IS_ALPHA_NUMERIC_PUNCT 0" "\<not> IS_ALPHA_NUMERIC_PUNCT 9" "\<not> IS_ALPHA_NUMERIC_PUNCT 10" "\<not> IS_ALPHA_NUMERIC_PUNCT 13"
  "\<not> IS_ALPHA_NUMERIC_PUNCT 0x20" "\<not> IS_ALPHA_NUMERIC_PUNCT 0x22" "\<not> IS_ALPHA_NUMERIC_PUNCT 0x23" "\<not> IS_ALPHA_NUMERIC_PUNCT 0x27"
  "\<not> IS_ALPHA_NUMERIC_PUNCT 0x3a" "\<not> IS_ALPHA_NUMERIC_PUNCT 0x3d" "\<not> IS_ALPHA_NUMERIC_PUNCT 0x5b" "\<not> IS_ALPHA_NUMERIC_PUNCT 0x5c"
  "\<not> IS_ALPHA_NUMERIC_PUNCT 0x5d" "\<not> IS_ALPHA_NUMERIC_PUNCT 0x60" "\<not> IS_ALPHA_NUMERIC_PUNCT 0x24"
  by code_simp+

section \<open>Memory safety\<close>

definition nul_at :: "bytes \<Rightarrow> nat \<Rightarrow> bool" where
  "nul_at b z \<longleftrightarrow> z < length b \<and> b ! z = 0"

lemma rd_le: "nul_at b z \<Longrightarrow> p \<le> z \<Longrightarrow> rd b p = Some (b ! p)"
  by (simp add: nul_at_def rd_def)

lemma nul_at_neq: "nul_at b z \<Longrightarrow> p \<le> z \<Longrightarrow> b ! p \<noteq> 0 \<Longrightarrow> Suc p \<le> z"
  by (cases "p = z") (auto simp: nul_at_def)

lemma eat_ws_safe: "nul_at b z \<Longrightarrow> p \<le> z \<Longrightarrow> \<exists>p'. eat_ws b p = Some p' \<and> p \<le> p' \<and> p' \<le> z \<and> \<not> IS_WS (b ! p')"
proof (induction b p rule: eat_ws.induct)
  case (1 b p)
  then show ?case
    unfolding eat_ws.simps [of b p] rd_le [OF "1.prems"]
    by (cases "IS_WS (b ! p) \<and> b ! p \<noteq> 0") (auto dest: nul_at_neq Suc_leD)
qed

lemma skip_ws_safe: "nul_at b z \<Longrightarrow> p \<le> z \<Longrightarrow> \<exists>p'. skip_ws b p = Some p' \<and> p \<le> p' \<and> p' \<le> z"
proof (induction b p rule: skip_ws.induct)
  case (1 b p)
  then show ?case
    unfolding skip_ws.simps [of b p] rd_le [OF "1.prems"]
    using nul_at_neq [OF "1.prems"] by (cases "IS_WS (b ! p)") (fastforce dest: Suc_leD)+
qed

lemma scan_esc_safe: "nul_at b z \<Longrightarrow> p < z \<Longrightarrow> \<exists>p'. scan_esc b p = Some p' \<and> p < p' \<and> p' \<le> z"
  using rd_le [of b z "p + 1"] nul_at_neq [of b z "Suc p"] by (auto simp: scan_esc_def)

lemma eat_alpha_numeric_safe: "nul_at b z \<Longrightarrow> p \<le> z \<Longrightarrow> \<exists>p'. eat_alpha_numeric b p = Some p' \<and> p \<le> p' \<and> p' \<le> z"
proof (induction b p rule: eat_alpha_numeric.induct)
  case (1 b p)
  note r = rd_le [OF "1.prems"]
  show ?case
  proof (cases "IS_ESC (b ! p)")
    case True
    then obtain p' where p': "scan_esc b p = Some p'" "p < p'" "p' \<le> z"
      using scan_esc_safe [of b z p] nul_at_neq [OF "1.prems"] "1.prems" by auto
    then show ?thesis using "1.IH"(1) [OF r True p'(1) "1.prems"(1) p'(3)] True r
      by (auto simp: eat_alpha_numeric.simps [of b p])
  next
    case False
    show ?thesis
    proof (cases "IS_ALPHA_NUMERIC_PUNCT (b ! p)")
      case True
      then have "b ! p \<noteq> 0" using IS_ALPHA_NUMERIC_PUNCT_special(1) by metis
      then show ?thesis using "1.IH"(2) [OF r False _ "1.prems"(1)] True r False nul_at_neq [OF "1.prems"]
        by (auto simp: eat_alpha_numeric.simps [of b p])
    qed (use False r "1.prems" in \<open>auto simp: eat_alpha_numeric.simps [of b p]\<close>)
  qed
qed

lemma scan_quote_loop_safe:
  "nul_at b z \<Longrightarrow> p \<le> z \<Longrightarrow> q \<noteq> 0 \<Longrightarrow> \<exists>p'. scan_quote_loop b q p = Some p' \<and> p \<le> p' \<and> p' \<le> z"
proof (induction b q p rule: scan_quote_loop.induct)
  case (1 b q p)
  note r = rd_le [OF "1.prems"(1,2)] and n = nul_at_neq [OF "1.prems"(1)]
  show ?case
  proof (cases "b ! p \<noteq> 0 \<and> b ! p \<noteq> q")
    case True
    with n [OF "1.prems"(2)] have p: "Suc p \<le> z" by simp
    note r' = rd_le [OF "1.prems"(1) p]
    show ?thesis
    proof (cases "IS_ESC (b ! p)")
      case e: True
      show ?thesis
      proof (cases "b ! Suc p = 0")
        case False
        then show ?thesis using "1.IH"(1) [OF r _ e] True r' n [OF p] e r "1.prems" by (auto simp: scan_quote_loop.simps [of b q p])
      qed (use True r' e r p in \<open>auto simp: scan_quote_loop.simps [of b q p]\<close>)
    next
      case e: False
      then show ?thesis using "1.IH"(2) [OF r _ e] True r p "1.prems" by (auto simp: scan_quote_loop.simps [of b q p])
    qed
  next
    case False
    then show ?thesis using r "1.prems" n [OF "1.prems"(2)] by (auto simp: scan_quote_loop.simps [of b q p])
  qed
qed

lemma scan_quote_safe: "nul_at b z \<Longrightarrow> p < z \<Longrightarrow> b ! p \<noteq> 0 \<Longrightarrow> \<exists>p'. scan_quote b p = Some p' \<and> p < p' \<and> p' \<le> z"
  using rd_le [of b z p] scan_quote_loop_safe [of b z "p + 1" "b ! p"] by (auto simp: scan_quote_def Suc_le_eq)

lemma nul_at_update: "nul_at b z \<Longrightarrow> nul_at (b[i := 0]) z"
  by (cases "i = z") (auto simp: nul_at_def)

lemma clear_comments_loop_safe:
  "nul_at b z \<Longrightarrow> p \<le> z \<Longrightarrow> \<exists>b' z'. clear_comments_loop b p = Some b' \<and> length b' = length b \<and> z' \<le> z \<and> nul_at b' z'"
proof (induction b p rule: clear_comments_loop.induct)
  case (1 b p)
  note r = rd_le [OF "1.prems"] and s = clear_comments_loop.simps [of b p]
  show ?case
  proof (cases "b ! p = 0 \<or> IS_COMMENT (b ! p)")
    case True
    have "nul_at (b[p := 0]) p" using "1.prems" by (simp add: nul_at_def)
    then show ?thesis using True r "1.prems" by (auto simp: s)
  next
    case False
    then have p: "p < z" "b ! p \<noteq> 0" "\<not> IS_COMMENT (b ! p)" using nul_at_neq [OF "1.prems"] by auto
    show ?thesis
    proof (cases "IS_QUOTE (b ! p)")
      case q: True
      obtain p' where p': "scan_quote b p = Some p'" "p' \<le> z" using scan_quote_safe [OF "1.prems"(1) p(1,2)] by blast
      from "1.IH"(1) [OF r p(3) q p'(1) "1.prems"(1) p'(2)] show ?thesis using p q p' r by (simp add: s)
    next
      case q: False
      show ?thesis
      proof (cases "IS_ESC (b ! p)")
        case e: True
        obtain p' where p': "scan_esc b p = Some p'" "p' \<le> z" using scan_esc_safe [OF "1.prems"(1) p(1)] by blast
        from "1.IH"(2) [OF r p(3) q e p'(1) "1.prems"(1) p'(2)] show ?thesis using p q e p' r by (simp add: s)
      next
        case e: False
        from "1.IH"(3) [OF r p(3) q e _ "1.prems"(1)] show ?thesis using p q e r by (simp add: s)
      qed
    qed
  qed
qed

lemma clear_comments_safe:
  "nul_at b z \<Longrightarrow> \<exists>b' z'. clear_comments b 0 = Some b' \<and> length b' = length b \<and> z' \<le> z \<and> nul_at b' z'"
  using skip_ws_safe [of b z 0] clear_comments_loop_safe by (fastforce simp: clear_comments_def)

lemma skip_to_eof_safe: "nul_at b z \<Longrightarrow> p \<le> z \<Longrightarrow> \<exists>p'. skip_to_eof b p = Some p' \<and> p \<le> p' \<and> p' \<le> z \<and> b ! p' = 0"
proof (induction b p rule: skip_to_eof.induct)
  case (1 b p)
  then show ?case
    unfolding skip_to_eof.simps [of b p] rd_le [OF "1.prems"]
    using nul_at_neq [OF "1.prems"] by (cases "b ! p = 0") (fastforce dest: Suc_leD)+
qed

lemma trim_back_safe: "q \<le> p \<Longrightarrow> p < length b \<Longrightarrow> \<not> IS_WS (b ! q) \<Longrightarrow> \<exists>p'. trim_back b start p = Some p' \<and> p' \<le> p"
proof (induction b start p rule: trim_back.induct)
  case (2 b start p)
  then show ?case by (cases "q = Suc p") (auto simp: rd_def simp del: IS_WS_iff)
qed (auto simp: rd_def)

lemma header_loop_safe:
  "nul_at b z \<Longrightarrow> p \<le> z \<Longrightarrow> \<exists>r. header_loop b p = Some r \<and> (\<forall>e. r = Inr e \<longrightarrow> e < z)"
proof (induction b p rule: header_loop.induct)
  case (1 b p)
  obtain e where e: "eat_alpha_numeric b p = Some e" "e \<le> z" using eat_alpha_numeric_safe [OF "1.prems"] by blast
  obtain p' where p': "eat_ws b e = Some p'" "e \<le> p'" "p' \<le> z" using eat_ws_safe [OF "1.prems"(1) e(2)] by blast
  have "b ! p' = 0x5d \<Longrightarrow> Suc p' \<le> z" using nul_at_neq [OF "1.prems"(1) p'(3)] by simp
  then show ?case using "1.IH" [OF e(1) p'(1) rd_le [OF "1.prems"(1) p'(3)] _ _ "1.prems"(1) p'(3)] p' e rd_le [OF "1.prems"(1) p'(3)]
    by (auto simp: header_loop.simps [of b p])
qed

text \<open>The positions that the scanner returns are those of C strings in the buffer that it leaves.\<close>

definition text_ok :: "nat \<Rightarrow> bytes \<Rightarrow> conf_text \<times> bytes \<Rightarrow> bool" where
  "text_ok z b r \<longleftrightarrow> length (snd r) = length b \<and> nul_at (snd r) z \<and>
     (case fst r of Blank \<Rightarrow> True | Header s \<Rightarrow> s \<le> z | Assignment ps n s \<Rightarrow> (\<forall>x. ps = Some x \<longrightarrow> x \<le> z) \<and> n \<le> z \<and> s \<le> z)"

lemma scan_header_safe:
  assumes "nul_at b z" "s < z"
  shows "\<exists>r. scan_header b s = Some r \<and> (\<forall>x. r = Inr x \<longrightarrow> text_ok z b x)"
proof -
  obtain st where st: "eat_ws b (s + 1) = Some st" "st \<le> z" using eat_ws_safe [OF assms(1), of "s + 1"] assms(2) by auto
  obtain r where "header_loop b st = Some r" using header_loop_safe [OF assms(1) st(2)] by blast
  then show ?thesis using st nul_at_update [OF assms(1)] by (cases r) (auto simp: scan_header_def text_ok_def)
qed

lemma scan_value_safe:
  assumes "nul_at b z" "e \<le> z" "\<And>x. ps = Some x \<Longrightarrow> x \<le> z" "n \<le> z"
  shows "\<exists>r. scan_value b ps n e = Some r \<and> (\<forall>x. r = Inr x \<longrightarrow> text_ok z b x)"
proof -
  obtain p where p: "eat_ws b e = Some p" "p \<le> z" using eat_ws_safe [OF assms(1,2)] by blast
  note r = rd_le [OF assms(1) p(2)]
  show ?thesis
  proof (cases "b ! p = 0x3d")
    case True
    let ?b = "b[e := 0]"
    have nb: "nul_at ?b z" using assms(1) by (rule nul_at_update)
    have pz: "p + 1 \<le> z" using nul_at_neq [OF assms(1) p(2)] True by simp
    obtain st where st: "eat_ws ?b (p + 1) = Some st" "st \<le> z" using eat_ws_safe [OF nb pz] by blast
    obtain k where k: "skip_to_eof ?b (p + 1) = Some k" "p + 1 \<le> k" "k \<le> z" using skip_to_eof_safe [OF nb pz] by blast
    have "\<not> IS_WS (?b ! p)" using True pz nb by (cases "e = p") (auto simp: nul_at_def)
    moreover have "p \<le> k - 1" "k - 1 < length ?b" using k nb by (auto simp: nul_at_def)
    ultimately obtain j where j: "trim_back ?b st (k - 1) = Some j" "j \<le> k - 1"
      using trim_back_safe [of p "k - 1" ?b st] by blast
    have "j + 1 < length b" using j(2) k nb by (auto simp: nul_at_def)
    then show ?thesis using True p r st k j assms(3,4) nul_at_update [OF nb, of "j + 1"]
      by (auto simp: scan_value_def text_ok_def Let_def)
  next
    case False
    then show ?thesis using p r by (simp add: scan_value_def)
  qed
qed

lemma scan_assignment_safe:
  assumes "nul_at b z" "s \<le> z"
  shows "\<exists>r. scan_assignment b s = Some r \<and> (\<forall>x. r = Inr x \<longrightarrow> text_ok z b x)"
proof -
  obtain e where e: "eat_alpha_numeric b s = Some e" "e \<le> z" using eat_alpha_numeric_safe [OF assms] by blast
  note r = rd_le [OF assms(1) e(2)]
  show ?thesis
  proof (cases "b ! e = 0x3a")
    case True
    then have ez: "Suc e \<le> z" using nul_at_neq [OF assms(1) e(2)] by simp
    note r' = rd_le [OF assms(1) ez]
    show ?thesis
    proof (cases "b ! Suc e = 0x3a")
      case c: True
      then have ez': "e + 2 \<le> z" using nul_at_neq [OF assms(1) ez] by simp
      note nb = nul_at_update [OF assms(1), of e]
      obtain e' where e': "eat_alpha_numeric (b[e := 0]) (e + 2) = Some e'" "e' \<le> z" using eat_alpha_numeric_safe [OF nb ez'] by blast
      show ?thesis
        using scan_value_safe [OF nb e'(2), of "Some s" "e + 2"] e e'(1) r r' True c ez' assms(2)
        by (auto simp: scan_assignment_def text_ok_def)
    next
      case c: False
      then show ?thesis using scan_value_safe [OF assms(1) e(2), of None s] e r r' True assms(2) by (simp add: scan_assignment_def)
    qed
  next
    case False
    then show ?thesis using scan_value_safe [OF assms(1) e(2), of None s] e r assms(2) by (simp add: scan_assignment_def)
  qed
qed

lemma scan_line_safe:
  assumes "nul_at b z"
  shows "\<exists>r. scan_line b = Some r \<and> (\<forall>x. r = Inr x \<longrightarrow> (\<exists>z' \<le> z. text_ok z' b x))"
proof -
  obtain b1 z1 where b1: "clear_comments b 0 = Some b1" "length b1 = length b" "z1 \<le> z" "nul_at b1 z1"
    using clear_comments_safe [OF assms] by blast
  obtain s where s: "eat_ws b1 0 = Some s" "s \<le> z1" using eat_ws_safe [OF b1(4), of 0] by blast
  note r = rd_le [OF b1(4) s(2)]
  show ?thesis
  proof (cases "b1 ! s = 0")
    case True
    then show ?thesis using b1 s r by (auto simp: scan_line_def text_ok_def)
  next
    case False
    then have "s < z1" using nul_at_neq [OF b1(4) s(2)] by simp
    then obtain r where r': "(if b1 ! s = 0x5b then scan_header b1 s else scan_assignment b1 s) = Some r"
      "\<forall>x. r = Inr x \<longrightarrow> text_ok z1 b1 x"
      using scan_header_safe [OF b1(4)] scan_assignment_safe [OF b1(4) s(2)] by (cases "b1 ! s = 0x5b") fastforce+
    have "scan_line b = Some r" using False b1(1) s(1) r r'(1) by (simp add: scan_line_def)
    then show ?thesis using r'(2) b1(2,3) unfolding text_ok_def by auto
  qed
qed

section \<open>Values\<close>

text \<open>The text of a value: quotes are removed, escapes are replaced, a dollar sign is refused.\<close>

fun quoted :: "u8 \<Rightarrow> bytes \<Rightarrow> bytes \<times> bytes" where
  "quoted q [] = ([], [])"
| "quoted q (c # w) =
     (if c = q then ([], w)
      else if IS_ESC c then
        (case w of [] \<Rightarrow> ([], []) | v # r \<Rightarrow> map_prod (Cons v) id (quoted q r))
      else map_prod (Cons c) id (quoted q w))"

lemma quoted_length: "length (fst (quoted q w)) + length (snd (quoted q w)) \<le> length w"
  by (induction q w rule: quoted.induct) (auto split: list.split)

lemma quoted_subset: "set (fst (quoted q w)) \<subseteq> set w \<and> set (snd (quoted q w)) \<subseteq> set w"
proof (induction q w rule: quoted.induct)
  case (2 q c w)
  then show ?case by (cases w) (auto simp del: quoted.simps(2) simp: quoted.simps(2) [of q c])
qed simp

function value_text :: "bytes \<Rightarrow> conf_error + bytes" where
  "value_text [] = Inr []"
| "value_text (c # w) =
     (if IS_QUOTE c then map_sum id ((@) (fst (quoted c w))) (value_text (snd (quoted c w)))
      else if IS_ESC c then (case w of [] \<Rightarrow> Inr [] | v # r \<Rightarrow> map_sum id (Cons (unescape v)) (value_text r))
      else if c = 0x24 then Inl CONF_R_VARIABLE_EXPANSION_NOT_SUPPORTED
      else map_sum id (Cons c) (value_text w))"
  by pat_completeness auto
termination value_text
  by (relation "measure length")
    (auto simp: le_imp_less_Suc order_trans [OF le_add2 quoted_length])

lemma rd_append [simp]: "rd (pre @ s) (length pre + k) = rd s k"
  by (simp add: rd_def nth_append)

lemma rd_append_0 [simp]: "rd (pre @ s) (length pre) = rd s 0"
  using rd_append [of pre s 0] by simp

lemma rd_Cons [simp]: "rd (c # s) 0 = Some c" "rd (c # s) (Suc k) = rd s k"
  by (simp_all add: rd_def)

lemma take_write:
  "to < length d \<Longrightarrow> take (Suc to) (d[to := c]) = take to d @ [c]"
  by (simp add: take_Suc_conv_app_nth)

lemma copy_quote_ok:
  "0 \<notin> set w \<Longrightarrow> q \<noteq> 0 \<Longrightarrow> to + length w < length d \<Longrightarrow> quoted q w = (v, r) \<Longrightarrow>
   \<exists>f pre' c. copy_quote (pre @ w @ 0 # post) q (length pre) to d = Some (f, to + length v, take to d @ v @ drop (to + length v) d) \<and>
     rd (pre @ w @ 0 # post) f = Some c \<and> pre @ w @ 0 # post = pre' @ r @ 0 # post \<and>
     length pre' = (if c = q then f + 1 else f)"
proof (induction q w arbitrary: pre to d v r rule: quoted.induct)
  case (1 q)
  then show ?case by (auto simp: copy_quote.simps [of "pre @ 0 # post"])
next
  case (2 q c w)
  note s = copy_quote.simps [of "pre @ (c # w) @ 0 # post" q "length pre" to d]
  have step: "copy_quote (pre @ (c # w) @ 0 # post) q (length (pre @ u)) (Suc to) (d[to := x]) = Some (f, Suc to + length v', take (Suc to) (d[to := x]) @ v' @ drop (Suc to + length v') (d[to := x])) \<Longrightarrow>
      copy_quote (pre @ (c # w) @ 0 # post) q (length (pre @ u)) (Suc to) (d[to := x]) = Some (f, to + length (x # v'), take to d @ (x # v') @ drop (to + length (x # v')) d)"
    for u x f v' using "2.prems"(3) by (simp add: take_write)
  show ?case
  proof (cases "c = q")
    case True
    then have "copy_quote (pre @ (c # w) @ 0 # post) q (length pre) to d = Some (length pre, to, d)" unfolding s by simp
    then show ?thesis using True "2.prems" by (intro exI [of _ "length pre"] exI [of _ "pre @ [c]"] exI [of _ c]) auto
  next
    case cq: False
    show ?thesis
    proof (cases "IS_ESC c")
      case False
      obtain v' where v': "quoted q w = (v', r)" "v = c # v'" using "2.prems"(4) cq False by (cases "quoted q w") auto
      obtain f pre' c' where f: "copy_quote ((pre @ [c]) @ w @ 0 # post) q (length (pre @ [c])) (Suc to) (d[to := c]) =
          Some (f, Suc to + length v', take (Suc to) (d[to := c]) @ v' @ drop (Suc to + length v') (d[to := c]))"
        "rd ((pre @ [c]) @ w @ 0 # post) f = Some c'" "(pre @ [c]) @ w @ 0 # post = pre' @ r @ 0 # post"
        "length pre' = (if c' = q then f + 1 else f)"
        using "2.IH"(2) [OF cq False _ "2.prems"(2) _ v'(1), of "Suc to" "d[to := c]" "pre @ [c]"] "2.prems"(1,3) by auto
      have "copy_quote (pre @ (c # w) @ 0 # post) q (length pre) to d = copy_quote (pre @ (c # w) @ 0 # post) q (length (pre @ [c])) (Suc to) (d[to := c])"
        unfolding s using "2.prems" cq False by simp
      also have "\<dots> = Some (f, to + length v, take to d @ v @ drop (to + length v) d)" unfolding v'(2) by (rule step) (use f(1) in simp)
      finally show ?thesis using f by (intro exI [of _ f] exI [of _ pre'] exI [of _ c']) simp
    next
      case True
      show ?thesis
      proof (cases w)
        case Nil
        then have "copy_quote (pre @ (c # w) @ 0 # post) q (length pre) to d = Some (length pre + 1, to, d)"
          unfolding s using "2.prems" cq True rd_append [of pre "c # 0 # post" 1] by simp
        then show ?thesis using Nil True cq "2.prems" rd_append [of pre "c # 0 # post" 1]
          by (intro exI [of _ "length pre + 1"] exI [of _ "pre @ [c]"] exI [of _ 0]) auto
      next
        case (Cons x w')
        obtain v' where v': "quoted q w' = (v', r)" "v = x # v'" using "2.prems"(4) cq True Cons by (cases "quoted q w'") auto
        obtain f pre' c' where f: "copy_quote ((pre @ [c, x]) @ w' @ 0 # post) q (length (pre @ [c, x])) (Suc to) (d[to := x]) =
            Some (f, Suc to + length v', take (Suc to) (d[to := x]) @ v' @ drop (Suc to + length v') (d[to := x]))"
          "rd ((pre @ [c, x]) @ w' @ 0 # post) f = Some c'" "(pre @ [c, x]) @ w' @ 0 # post = pre' @ r @ 0 # post"
          "length pre' = (if c' = q then f + 1 else f)"
          using "2.IH"(1) [OF cq True Cons _ "2.prems"(2) _ v'(1), of "Suc to" "d[to := x]" "pre @ [c, x]"] "2.prems"(1,3) Cons by auto
        have "copy_quote (pre @ (c # w) @ 0 # post) q (length pre) to d = copy_quote (pre @ (c # w) @ 0 # post) q (length (pre @ [c, x])) (Suc to) (d[to := x])"
          unfolding s using "2.prems" cq True Cons rd_append [of pre "c # x # w' @ 0 # post" 1] by simp
        also have "\<dots> = Some (f, to + length v, take to d @ v @ drop (to + length v) d)" unfolding v'(2) by (rule step) (use f(1) Cons in simp)
        finally show ?thesis using f Cons by (intro exI [of _ f] exI [of _ pre'] exI [of _ c']) simp
      qed
    qed
  qed
qed

text \<open>The loop of \<open>str_copy\<close> appends the value text.\<close>

definition copied :: "nat \<Rightarrow> bytes \<Rightarrow> conf_error + bytes \<Rightarrow> (conf_error + nat \<times> bytes) option" where
  "copied to d x = Some (map_sum id (\<lambda>v. (to + length v, take to d @ v @ drop (to + length v) d)) x)"

lemma copied_step:
  assumes "to + length u \<le> length d" "d' = take to d @ u @ drop (to + length u) d" "to' = to + length u"
  shows "copied to' d' x = copied to d (map_sum id ((@) u) x)"
  using assms by (cases x) (auto simp: copied_def ac_simps)

lemma copied_write: "to < length d \<Longrightarrow> copied (to + 1) (d[to := c]) x = copied to d (map_sum id (Cons c) x)"
  using copied_step [of to "[c]" d "d[to := c]" "to + 1" x] upd_conv_take_nth_drop [of to d c]
  by (simp add: append_Cons [abs_def] comp_def)

lemma str_copy_loop_ok:
  "0 \<notin> set w \<Longrightarrow> to + length w < length d \<Longrightarrow>
   str_copy_loop (pre @ w @ 0 # post) (length pre) to d = copied to d (value_text w)"
proof (induction w arbitrary: pre to d rule: value_text.induct)
  case 1
  then show ?case by (simp add: str_copy_loop.simps [of "pre @ 0 # post"] copied_def)
next
  case (2 c w)
  let ?b = "pre @ (c # w) @ 0 # post"
  note s = str_copy_loop.simps [of ?b "length pre" to d]
  have c0: "c \<noteq> 0" "to < length d" using "2.prems" by auto
  show ?case
  proof (cases "IS_QUOTE c")
    case True
    obtain v r where v: "quoted c w = (v, r)" by (metis prod.exhaust)
    obtain f pre' x where f: "copy_quote ((pre @ [c]) @ w @ 0 # post) c (length (pre @ [c])) to d =
        Some (f, to + length v, take to d @ v @ drop (to + length v) d)"
      "rd ((pre @ [c]) @ w @ 0 # post) f = Some x" "(pre @ [c]) @ w @ 0 # post = pre' @ r @ 0 # post"
      "length pre' = (if x = c then f + 1 else f)"
      using copy_quote_ok [OF _ c0(1) _ v, of to d "pre @ [c]" post] "2.prems" by auto
    have l: "length v + length r \<le> length w" "0 \<notin> set r" using quoted_length [of c w] quoted_subset [of c w] v "2.prems"(1) by auto
    have b: "?b = pre' @ r @ 0 # post" using f(3) by simp
    have "str_copy_loop ?b (length pre) to d = str_copy_loop ?b (length pre') (to + length v) (take to d @ v @ drop (to + length v) d)"
      unfolding s using True f by simp
    also have "\<dots> = copied (to + length v) (take to d @ v @ drop (to + length v) d) (value_text r)"
      unfolding b using "2.IH"(1) [OF True] v l "2.prems"(2) by simp
    also have "\<dots> = copied to d (value_text (c # w))"
      using copied_step [of to v d] l "2.prems"(2) True v by simp
    finally show ?thesis .
  next
    case q: False
    show ?thesis
    proof (cases "IS_ESC c")
      case True
      show ?thesis
      proof (cases w)
        case Nil
        then show ?thesis unfolding s using True q rd_append [of pre "c # 0 # post" 1] by (simp add: copied_def)
      next
        case (Cons x w')
        have "str_copy_loop ?b (length pre) to d = str_copy_loop ?b (length (pre @ [c, x])) (to + 1) (d[to := unescape x])"
          unfolding s using True q c0 Cons "2.prems" rd_append [of pre "c # x # w' @ 0 # post" 1] by simp
        also have "\<dots> = copied (to + 1) (d[to := unescape x]) (value_text w')"
          using "2.IH"(2) [OF q True Cons, of "to + 1" "d[to := unescape x]" "pre @ [c, x]"] "2.prems" Cons by simp
        finally show ?thesis using copied_write [OF c0(2)] True q Cons by simp
      qed
    next
      case e: False
      show ?thesis
      proof (cases "c = 0x24")
        case True
        then show ?thesis unfolding s using q e c0 by (simp add: copied_def)
      next
        case False
        have "str_copy_loop ?b (length pre) to d = str_copy_loop ?b (length (pre @ [c])) (to + 1) (d[to := c])"
          unfolding s using False q e c0 by simp
        also have "\<dots> = copied (to + 1) (d[to := c]) (value_text w)"
          using "2.IH"(3) [OF q e False, of "to + 1" "d[to := c]" "pre @ [c]"] "2.prems" by simp
        finally show ?thesis using copied_write [OF c0(2)] False q e by simp
      qed
    qed
  qed
qed

lemma cstr_append [simp]: "0 \<notin> set v \<Longrightarrow> cstr (v @ 0 # r) = v"
  by (induction v) (auto simp: cstr_def)

lemma value_text_length: "value_text w = Inr v \<Longrightarrow> length v \<le> length w \<and> (0 \<notin> set w \<longrightarrow> 0 \<notin> set v)"
proof (induction w arbitrary: v rule: value_text.induct)
  case (2 c w)
  show ?case
  proof (cases "IS_QUOTE c")
    case True
    then obtain u where u: "value_text (snd (quoted c w)) = Inr u" "v = fst (quoted c w) @ u" using "2.prems" by (auto simp: map_sum_def split: sum.splits)
    then show ?thesis using "2.IH"(1) [OF True u(1)] quoted_length [of c w] quoted_subset [of c w] by auto
  next
    case q: False
    show ?thesis
    proof (cases "IS_ESC c")
      case True
      have "unescape x = 0 \<longleftrightarrow> x = 0" for x by (simp add: unescape_def)
      then show ?thesis using "2.IH"(2) [OF q True] "2.prems" q True
        by (cases w) (fastforce simp: map_sum_def split: sum.splits)+
    next
      case e: False
      then show ?thesis using "2.IH"(3) [OF q e] "2.prems" q by (auto simp: map_sum_def split: sum.splits if_splits)
    qed
  qed
qed simp

text \<open>\<open>str_copy\<close> computes the value text of a C string; it fails for lack of memory or because of a dollar sign.\<close>

lemma str_copy_ok:
  assumes mem: "alloc_ok mem" and w: "0 \<notin> set w" "length w < 2147483647"
  shows "str_copy mem (pre @ w @ 0 # post) (length pre) = Some (value_text w) \<or>
    str_copy mem (pre @ w @ 0 # post) (length pre) = Some (Inl CONF_MALLOC_FAILURE) \<and> (\<exists>m. mem m = None)"
proof (cases "BUF_MEM_new mem")
  case None
  then show ?thesis using OPENSSL_malloc_live [of mem 24] by (auto simp: str_copy_def BUF_MEM_new_def split: if_splits)
next
  case (Some buf)
  let ?b = "pre @ w @ 0 # post" and ?len = "length w + 1"
  have inv: "bm_inv buf" "bm_length buf = 0" using Some by (auto simp: BUF_MEM_new_def bm_inv_def split: if_splits)
  have len: "\<not> (of_nat ?len :: u64) > 0x7fffffff"
    using w(2) unat_of_nat_less [of ?len, where ?'a = 64] by (simp add: word_less_nat_alt)
  obtain r buf' where g: "BUF_MEM_grow mem buf ?len = Some (r, buf')" "bm_inv buf'"
      "r = ?len \<and> bm_length buf' = ?len \<or> r = 0 \<and> (2 ^ 61 < ?len \<or> (\<exists>m. mem m = None))"
    using bm_grow_ok [OF mem inv(1), of ?len] w(2) by auto
  show ?thesis
  proof (cases "r = 0")
    case True
    then have "\<exists>m. mem m = None" using g(3) w(2) by auto
    then show ?thesis using True Some g(1) len w(1) by (auto simp: str_copy_def Let_def)
  next
    case False
    then have l: "length w < length (bm_data buf')" using g(2,3) by (auto simp: bm_inv_def)
    have c: "str_copy_loop ?b (length pre) 0 (bm_data buf') = copied 0 (bm_data buf') (value_text w)"
      using str_copy_loop_ok [OF w(1), of 0 "bm_data buf'"] l by simp
    show ?thesis
    proof (cases "value_text w")
      case (Inl e)
      then show ?thesis using c Some g(1) len False w(1) by (simp add: str_copy_def Let_def copied_def)
    next
      case (Inr v)
      have v: "length v < length (bm_data buf')" "0 \<notin> set v" using value_text_length [OF Inr] l w(1) by auto
      then have "cstr ((v @ drop (length v) (bm_data buf'))[length v := 0]) = v"
        using update_at_end [of "length v" v "bm_data buf'" 0] by simp
      then show ?thesis using c Some g(1) len False Inr v w(1) by (simp add: str_copy_def Let_def copied_def)
    qed
  qed
qed

section \<open>Lines of the usual forms\<close>

lemma eat_ws_span:
  "\<forall>x \<in> set w. IS_WS x \<Longrightarrow> \<not> IS_WS c \<Longrightarrow> eat_ws (pre @ w @ c # s) (length pre) = Some (length pre + length w)"
proof (induction w arbitrary: pre)
  case Nil
  then show ?case unfolding eat_ws.simps [of "pre @ [] @ c # s" "length pre"] by simp
next
  case (Cons x w)
  then have "x \<noteq> 0" by auto
  then show ?case unfolding eat_ws.simps [of "pre @ (x # w) @ c # s" "length pre"] using Cons.prems Cons.IH [of "pre @ [x]"] by simp
qed

lemma eat_alpha_numeric_span:
  "\<forall>x \<in> set w. IS_ALPHA_NUMERIC_PUNCT x \<Longrightarrow> \<not> IS_ALPHA_NUMERIC_PUNCT c \<Longrightarrow> \<not> IS_ESC c \<Longrightarrow>
   eat_alpha_numeric (pre @ w @ c # s) (length pre) = Some (length pre + length w)"
proof (induction w arbitrary: pre)
  case Nil
  then show ?case unfolding eat_alpha_numeric.simps [of "pre @ [] @ c # s" "length pre"] by simp
next
  case (Cons x w)
  then have "\<not> IS_ESC x" using IS_ALPHA_NUMERIC_PUNCT_special(12) by auto
  then show ?case unfolding eat_alpha_numeric.simps [of "pre @ (x # w) @ c # s" "length pre"]
    using Cons.prems Cons.IH [of "pre @ [x]"] by simp
qed

lemma skip_to_eof_span: "0 \<notin> set w \<Longrightarrow> skip_to_eof (pre @ w @ 0 # s) (length pre) = Some (length pre + length w)"
proof (induction w arbitrary: pre)
  case Nil
  then show ?case unfolding skip_to_eof.simps [of "pre @ [] @ 0 # s" "length pre"] by simp
next
  case (Cons x w)
  then show ?case unfolding skip_to_eof.simps [of "pre @ (x # w) @ 0 # s" "length pre"] using Cons.IH [of "pre @ [x]"] by simp
qed

declare trim_back.simps [simp del]

lemma trim_back_span:
  "\<forall>x \<in> set w. IS_WS x \<Longrightarrow> \<not> IS_WS c \<Longrightarrow> start \<le> length pre \<or> length pre + length w < start \<Longrightarrow>
   trim_back (pre @ c # w @ s) start (length pre + length w) = Some (length pre)"
proof (induction w arbitrary: s rule: rev_induct)
  case Nil
  then show ?case by (cases "length pre") (auto simp: trim_back.simps rd_def nth_append)
next
  case (snoc x w)
  have "(pre @ c # (w @ [x]) @ s) ! Suc (length pre + length w) = x" by (simp add: nth_append)
  then have "trim_back (pre @ c # (w @ [x]) @ s) start (length pre + length (w @ [x])) =
      trim_back (pre @ c # w @ x # s) start (length pre + length w)"
    using snoc.prems by (auto simp: trim_back.simps rd_def simp del: IS_WS_iff)
  also have "\<dots> = Some (length pre)" using snoc.prems by (intro snoc.IH) auto
  finally show ?case .
qed

lemma clear_comments_plain:
  "nul_at b z \<Longrightarrow> p \<le> z \<Longrightarrow> \<forall>i. p \<le> i \<and> i < z \<longrightarrow> \<not> IS_COMMENT (b ! i) \<and> \<not> IS_QUOTE (b ! i) \<and> \<not> IS_ESC (b ! i) \<Longrightarrow>
   clear_comments_loop b p = Some b"
proof (induction b p rule: clear_comments_loop.induct)
  case (1 b p)
  note r = rd_le [OF "1.prems"(1,2)]
  show ?case
  proof (cases "b ! p = 0")
    case True
    then show ?thesis using r by (simp add: clear_comments_loop.simps [of b p])
  next
    case False
    then have p: "p < z" using nul_at_neq [OF "1.prems"(1,2)] by simp
    with "1.prems"(3) have n: "\<not> IS_COMMENT (b ! p)" "\<not> IS_QUOTE (b ! p)" "\<not> IS_ESC (b ! p)" by blast+
    from "1.IH"(3) [OF r n _ "1.prems"(1)] show ?thesis using p n r False "1.prems"(3)
      by (simp add: clear_comments_loop.simps [of b p])
  qed
qed

text \<open>The value after the equal sign, without the white space around it.\<close>

definition plain_value :: "bytes \<Rightarrow> bool" where
  "plain_value v \<longleftrightarrow> 0 \<notin> set v \<and> (v \<noteq> [] \<longrightarrow> \<not> IS_WS (hd v) \<and> \<not> IS_WS (last v))"

lemma scan_value_ok:
  assumes ws: "\<forall>x \<in> set (ws2 @ ws3 @ ws4). IS_WS x" and v: "plain_value v" "v = [] \<Longrightarrow> ws4 = []"
  shows "\<exists>b' start rest u. scan_value (pre @ ws2 @ 0x3d # ws3 @ v @ ws4 @ 0 # post) ps n (length pre) =
      Some (Inr (Assignment ps n start, b')) \<and> b' = pre @ 0 # rest \<and> b' = take start b' @ v @ 0 # u \<and> start \<le> length b'"
proof -
  let ?t = "ws3 @ v @ ws4 @ 0 # post" and ?z = "tl (ws2 @ [0x3d])"
  let ?b = "pre @ ws2 @ 0x3d # ?t" and ?p = "length pre + length ws2"
  let ?c = "pre @ 0 # ?z" and ?st = "length pre + length ws2 + 1 + length ws3"
  have ws': "\<forall>x \<in> set ws2. IS_WS x" "\<forall>x \<in> set ws3. IS_WS x" "\<forall>x \<in> set ws4. IS_WS x" using ws by auto
  have p: "eat_ws ?b (length pre) = Some ?p" using eat_ws_span [OF ws'(1), of "0x3d" pre ?t] by simp
  have r: "rd ?b ?p = Some 0x3d" using rd_append [of "pre @ ws2" "0x3d # ?t" 0] by simp
  have b: "?b[length pre := 0] = ?c @ ?t" by (cases ws2) simp_all
  have c: "length ?c = ?p + 1" by simp
  have st: "eat_ws (?c @ ?t) (?p + 1) = Some ?st"
  proof (cases v)
    case Nil
    then show ?thesis using eat_ws_span [OF ws'(2), of 0 ?c post] v(2) c by simp
  next
    case (Cons x v')
    then show ?thesis using eat_ws_span [OF ws'(2), of x ?c "v' @ ws4 @ 0 # post"] v(1) c by (simp add: plain_value_def)
  qed
  have nz: "0 \<notin> set (ws3 @ v @ ws4)" using ws' v(1) by (auto simp: plain_value_def)
  let ?k = "?p + 1 + length (ws3 @ v @ ws4)"
  have k: "skip_to_eof (?c @ ?t) (?p + 1) = Some ?k" using skip_to_eof_span [OF nz, of ?c post] c by simp
  show ?thesis
  proof (cases "v = []")
    case True
    obtain c0 x where x: "?c = c0 @ [x]" "\<not> IS_WS x" by (cases ws2) auto
    let ?x = "if ws3 = [] then [] else 0 # tl ws3"
    have c0: "length c0 = ?p" using arg_cong [OF x(1), of length] by simp
    have "trim_back (?c @ ?t) ?st (?k - 1) = Some ?p"
      using trim_back_span [OF ws'(2) x(2), of ?st c0 "0 # post"] True v(2) c0 unfolding x(1) by simp
    moreover have "(?c @ ?t)[?p + 1 := 0] = (?c @ ?x) @ 0 # post"
      using True v(2) by (cases ws3) (simp_all add: list_update_append)
    moreover have "take ?st ((?c @ ?x) @ 0 # post) = ?c @ ?x" by (cases ws3) simp_all
    ultimately show ?thesis using p r b st k True v(2)
      by (intro exI [of _ "(?c @ ?x) @ 0 # post"] exI [of _ ?st] exI [of _ "?z @ ?x @ 0 # post"] exI [of _ post])
        (simp add: scan_value_def Let_def)
  next
    case False
    then obtain v0 x where x: "v = v0 @ [x]" "\<not> IS_WS x" using v(1) by (cases v rule: rev_cases) (auto simp: plain_value_def)
    let ?d = "?c @ ws3 @ v0" and ?u = "tl (ws4 @ [0]) @ post"
    have d: "length ?d = ?k - 1 - length ws4" using x c by simp
    have "trim_back (?c @ ?t) ?st (?k - 1) = Some (length ?d)"
      using trim_back_span [OF ws'(3) x(2), of ?st ?d "0 # post"] x(1) by (simp add: add.assoc)
    moreover have "(?c @ ?t)[length ?d + 1 := 0] = ?c @ ws3 @ v @ 0 # ?u"
      using x(1) by (cases ws4) (simp_all add: list_update_append)
    ultimately show ?thesis using p r b st k x(1)
      by (intro exI [of _ "?c @ ws3 @ v @ 0 # ?u"] exI [of _ ?st] exI [of _ "?z @ ws3 @ v @ 0 # ?u"] exI [of _ ?u])
        (simp add: scan_value_def Let_def)
  qed
qed

text \<open>A name of letters, digits and punctuation; a line without comment, quotes and escapes.\<close>

definition conf_name :: "bytes \<Rightarrow> bool" where
  "conf_name w \<longleftrightarrow> w \<noteq> [] \<and> (\<forall>x \<in> set w. IS_ALPHA_NUMERIC_PUNCT x)"

definition plain_line :: "bytes \<Rightarrow> bool" where
  "plain_line l \<longleftrightarrow> (\<forall>x \<in> set l. x \<noteq> 0 \<and> \<not> IS_COMMENT x \<and> \<not> IS_QUOTE x \<and> \<not> IS_ESC x)"

lemma plain_line_simps [simp]:
  "plain_line []" "plain_line (a @ c) \<longleftrightarrow> plain_line a \<and> plain_line c"
  "plain_line (x # a) \<longleftrightarrow> x \<noteq> 0 \<and> x \<noteq> 0x23 \<and> \<not> IS_QUOTE x \<and> x \<noteq> 0x5c \<and> plain_line a"
  by (auto simp: plain_line_def)

lemma ws_plain: "\<forall>x \<in> set w. IS_WS x \<Longrightarrow> plain_line w"
  by (auto simp: plain_line_def)

lemma name_plain: "\<forall>x \<in> set w. IS_ALPHA_NUMERIC_PUNCT x \<Longrightarrow> plain_line w"
  using IS_ALPHA_NUMERIC_PUNCT_special by (auto simp: plain_line_def)

lemma clear_comments_line: "plain_line l \<Longrightarrow> clear_comments (l @ 0 # post) 0 = Some (l @ 0 # post)"
proof -
  assume l: "plain_line l"
  let ?b = "l @ 0 # post"
  have z: "nul_at ?b (length l)" by (simp add: nul_at_def)
  obtain p where p: "skip_ws ?b 0 = Some p" "p \<le> length l" using skip_ws_safe [OF z, of 0] by auto
  have "\<forall>i. p \<le> i \<and> i < length l \<longrightarrow> \<not> IS_COMMENT (?b ! i) \<and> \<not> IS_QUOTE (?b ! i) \<and> \<not> IS_ESC (?b ! i)"
    using l by (auto simp: plain_line_def nth_append simp del: IS_COMMENT_iff IS_QUOTE_iff IS_ESC_iff)
  then show ?thesis using clear_comments_plain [OF z p(2)] p(1) by (simp add: clear_comments_def)
qed

lemma name_not_special:
  assumes "IS_ALPHA_NUMERIC_PUNCT x"
  shows "x \<noteq> 0" "x \<noteq> 0x5b" "\<not> IS_WS x" "\<not> IS_ESC x" "x \<noteq> 0x3a"
  using assms IS_ALPHA_NUMERIC_PUNCT_special by auto

lemma ws_not_name: "IS_WS c \<Longrightarrow> \<not> IS_ALPHA_NUMERIC_PUNCT c \<and> \<not> IS_ESC c \<and> c \<noteq> 0x3a"
  using IS_ALPHA_NUMERIC_PUNCT_special by auto

text \<open>An assignment, with or without a section in front of the name.\<close>

lemma scan_line_assignment:
  assumes ws: "\<forall>x \<in> set (ws1 @ ws2 @ ws3 @ ws4). IS_WS x" and n: "conf_name n" and v: "plain_value v" "plain_line v" "v = [] \<Longrightarrow> ws4 = []"
    and b: "b = ws1 @ n @ ws2 @ 0x3d # ws3 @ v @ ws4 @ 0 # post"
  shows "\<exists>b' start u u'. scan_line b = Some (Inr (Assignment None (length ws1) start, b')) \<and>
      b' = ws1 @ n @ 0 # u \<and> b' = take start b' @ v @ 0 # u' \<and> start \<le> length b'"
proof -
  have ws': "\<forall>x \<in> set ws1. IS_WS x" "\<forall>x \<in> set (ws2 @ ws3 @ ws4). IS_WS x" using ws by auto
  obtain x n' where x: "n = x # n'" "IS_ALPHA_NUMERIC_PUNCT x" "\<forall>x \<in> set n. IS_ALPHA_NUMERIC_PUNCT x"
    using n by (cases n) (auto simp: conf_name_def)
  have "plain_line (ws1 @ n @ ws2 @ 0x3d # ws3 @ v @ ws4)"
    using ws_plain [of ws1] ws_plain [of ws2] ws_plain [of ws3] ws_plain [of ws4] name_plain [OF x(3)] ws v(2) by simp
  from clear_comments_line [OF this, of post] have c: "clear_comments b 0 = Some b" unfolding b by simp
  obtain y t where y: "ws2 @ 0x3d # ws3 @ v @ ws4 @ 0 # post = y # t" "\<not> IS_ALPHA_NUMERIC_PUNCT y" "\<not> IS_ESC y" "y \<noteq> 0x3a"
    using ws'(2) ws_not_name IS_ALPHA_NUMERIC_PUNCT_special by (cases ws2) auto
  have s: "eat_ws b 0 = Some (length ws1)" "rd b (length ws1) = Some x"
    using eat_ws_span [OF ws'(1) name_not_special(3) [OF x(2)], of "[]"] unfolding b x(1) by simp_all
  have e: "eat_alpha_numeric b (length ws1) = Some (length (ws1 @ n))"
    using eat_alpha_numeric_span [OF x(3) y(2,3), of ws1 t] unfolding b y(1) by simp
  have "rd b (length (ws1 @ n)) = Some y" using rd_append_0 [of "ws1 @ n" "y # t"] unfolding b y(1) by simp
  then have sl: "scan_line b = scan_value b None (length ws1) (length (ws1 @ n))"
    using c s e y(4) name_not_special [OF x(2)] by (simp add: scan_line_def scan_assignment_def)
  obtain b' start rest u where "scan_value b None (length ws1) (length (ws1 @ n)) = Some (Inr (Assignment None (length ws1) start, b'))"
    "b' = (ws1 @ n) @ 0 # rest" "b' = take start b' @ v @ 0 # u" "start \<le> length b'"
    using scan_value_ok [OF ws'(2) v(1,3), of "ws1 @ n" post None "length ws1"] unfolding b append_assoc by blast
  then show ?thesis unfolding sl append_assoc by blast
qed

lemma scan_line_header:
  assumes ws: "\<forall>x \<in> set (ws1 @ ws2 @ ws3). IS_WS x" and n: "conf_name n" and l: "plain_line l"
    and b: "b = ws1 @ 0x5b # ws2 @ n @ ws3 @ 0x5d # l @ 0 # post"
  shows "\<exists>u. scan_line b = Some (Inr (Header (length ws1 + 1 + length ws2), ws1 @ 0x5b # ws2 @ n @ 0 # u))"
proof -
  have ws': "\<forall>x \<in> set ws1. IS_WS x" "\<forall>x \<in> set ws2. IS_WS x" "\<forall>x \<in> set ws3. IS_WS x" using ws by auto
  obtain x n' where x: "n = x # n'" "IS_ALPHA_NUMERIC_PUNCT x" "\<forall>x \<in> set n. IS_ALPHA_NUMERIC_PUNCT x"
    using n by (cases n) (auto simp: conf_name_def)
  have "plain_line (ws1 @ 0x5b # ws2 @ n @ ws3 @ 0x5d # l)"
    using ws_plain [of ws1] ws_plain [of ws2] ws_plain [of ws3] name_plain [OF x(3)] ws l by simp
  from clear_comments_line [OF this, of post] have c: "clear_comments b 0 = Some b" unfolding b by simp
  have s: "eat_ws b 0 = Some (length ws1)" "rd b (length ws1) = Some 0x5b"
    using eat_ws_span [OF ws'(1), of "0x5b" "[]"] unfolding b by simp_all
  let ?st = "length (ws1 @ 0x5b # ws2)" and ?e = "length (ws1 @ 0x5b # ws2 @ n)"
  have st: "eat_ws b (length ws1 + 1) = Some ?st"
    using eat_ws_span [OF ws'(2) name_not_special(3) [OF x(2)], of "ws1 @ [0x5b]"] unfolding b x(1) by simp
  obtain y t where y: "ws3 @ 0x5d # l @ 0 # post = y # t" "\<not> IS_ALPHA_NUMERIC_PUNCT y" "\<not> IS_ESC y"
    using ws'(3) ws_not_name IS_ALPHA_NUMERIC_PUNCT_special by (cases ws3) auto
  have e: "eat_alpha_numeric b ?st = Some ?e"
    using eat_alpha_numeric_span [OF x(3) y(2,3), of "ws1 @ 0x5b # ws2" t] unfolding b y(1) by simp
  have p: "eat_ws b ?e = Some (?e + length ws3)"
    using eat_ws_span [OF ws'(3), of "0x5d" "ws1 @ 0x5b # ws2 @ n" "l @ 0 # post"] unfolding b by simp
  have "rd b (?e + length ws3) = Some 0x5d"
    using rd_append_0 [of "ws1 @ 0x5b # ws2 @ n @ ws3" "0x5d # l @ 0 # post"] unfolding b by (simp add: add.assoc)
  then have "header_loop b ?st = Some (Inr ?e)" unfolding header_loop.simps [of b ?st] using e p by simp
  then have "scan_line b = Some (Inr (Header ?st, b[?e := 0]))" using c s st by (simp add: scan_line_def scan_header_def)
  moreover have "b[?e := 0] = ws1 @ 0x5b # ws2 @ n @ 0 # t"
  proof -
    have "b = (ws1 @ 0x5b # ws2 @ n) @ y # t" unfolding b y(1) [symmetric] by simp
    then show ?thesis by (simp only: list_update_length) simp
  qed
  ultimately show ?thesis by (intro exI [of _ t]) simp
qed

end
