(* ===== verification/Conf_Db.thy ===== *)
theory Conf_Db
  imports Lhash_Set Conf_Lines
begin

text \<open>
  The configuration database of \<open>crypto/conf/conf.c\<close>: the \<open>CONF_VALUE\<close> objects in a store, the hash table of
  pointers to them and the stack of pointers that each section owns. A pointer is an address; freeing an object
  removes it from the store, so that a dangling pointer reads nothing. A \<open>char *\<close> field is the C string it
  points to, or \<open>None\<close> for \<open>NULL\<close>; an outer \<open>None\<close> is undefined behaviour.
\<close>

section \<open>The model\<close>

text \<open>The field \<open>value\<close> points to a string or, in a section, to a stack.\<close>

datatype conf_payload = Text "bytes option" | Section_stack "(nat, unit) stack_st"

record conf_value =
  cv_section :: "bytes option"
  cv_name :: "bytes option"
  cv_value :: conf_payload

type_synonym conf_heap = "nat \<Rightarrow> conf_value option"

record conf =
  cf_heap :: conf_heap
  cf_next :: nat
  cf_data :: "nat lhash"

text \<open>\<open>strcmp\<close>; only the sign of the result is specified.\<close>

fun strcmp :: "bytes \<Rightarrow> bytes \<Rightarrow> int" where
  "strcmp [] [] = 0"
| "strcmp [] (b # bs) = - 1"
| "strcmp (a # as) [] = 1"
| "strcmp (a # as) (b # bs) = (if a = b then strcmp as bs else if a < b then - 1 else 1)"

text \<open>\<open>OPENSSL_strhash\<close> of a C string is \<open>OPENSSL_hash32\<close> of the bytes before the terminator.\<close>

definition conf_value_hash :: "conf_value \<Rightarrow> u32" where
  "conf_value_hash v =
     (let section_hash = (case cv_section v of None \<Rightarrow> 0 | Some s \<Rightarrow> OPENSSL_hash32 s);
          name_hash = (case cv_name v of None \<Rightarrow> 0 | Some n \<Rightarrow> OPENSSL_hash32 n)
      in push_bit 2 section_hash XOR name_hash)"

text \<open>\<open>None\<close> for \<open>strcmp\<close> on \<open>NULL\<close>.\<close>

definition conf_value_cmp :: "conf_value \<Rightarrow> conf_value \<Rightarrow> int option" where
  "conf_value_cmp a b =
     (let names =
        (case (cv_name a, cv_name b) of
           (Some x, Some y) \<Rightarrow> strcmp x y
         | (None, None) \<Rightarrow> 0
         | (None, Some y) \<Rightarrow> - 1
         | (Some x, None) \<Rightarrow> 1)
      in case (cv_section a, cv_section b) of
           (Some x, Some y) \<Rightarrow> let i = strcmp x y in Some (if i \<noteq> 0 then i else names)
         | (None, None) \<Rightarrow> Some names
         | _ \<Rightarrow> None)"

text \<open>The functions that the table calls on pointers, and the pointers on which they are defined.\<close>

definition conf_hash :: "conf_heap \<Rightarrow> nat \<Rightarrow> u32" where
  "conf_hash h p = (case h p of None \<Rightarrow> 0 | Some v \<Rightarrow> conf_value_hash v)"

definition conf_cmp :: "conf_heap \<Rightarrow> nat \<Rightarrow> nat \<Rightarrow> int" where
  "conf_cmp h p q = (case (h p, h q) of (Some a, Some b) \<Rightarrow> (case conf_value_cmp a b of Some i \<Rightarrow> i | None \<Rightarrow> 0) | _ \<Rightarrow> 0)"

definition conf_obj :: "conf_heap \<Rightarrow> nat \<Rightarrow> bool" where
  "conf_obj h p \<longleftrightarrow> (case h p of None \<Rightarrow> False | Some v \<Rightarrow> cv_section v \<noteq> None)"

definition conf_defined :: "conf_heap \<Rightarrow> nat lhash \<Rightarrow> nat \<Rightarrow> bool" where
  "conf_defined h lh p \<longleftrightarrow> conf_obj h p \<and> list_all (list_all (\<lambda>it. conf_obj h (li_data it))) (lh_buckets lh)"

text \<open>The sizes are those of \<open>CONF\<close> (8 bytes) and \<open>CONF_VALUE\<close> (24 bytes).\<close>

definition NCONF_new :: "allocator \<Rightarrow> bool \<Rightarrow> conf option" where
  "NCONF_new mem method_given =
     (if method_given then None
      else if OPENSSL_malloc mem 8 = None then None
      else map_option (\<lambda>lh. \<lparr>cf_heap = (\<lambda>p. None), cf_next = 0, cf_data = lh\<rparr>) (OPENSSL_lh_new mem))"

definition CONF_VALUE_new :: "allocator \<Rightarrow> conf \<Rightarrow> (nat \<times> conf) option" where
  "CONF_VALUE_new mem conf =
     (if OPENSSL_malloc mem 24 = None then None
      else let p = cf_next conf
           in Some (p, conf\<lparr>cf_heap := (cf_heap conf)(p := Some \<lparr>cv_section = None, cv_name = None, cv_value = Text None\<rparr>),
                            cf_next := p + 1\<rparr>))"

definition value_free :: "nat option \<Rightarrow> conf \<Rightarrow> conf" where
  "value_free value conf = (case value of None \<Rightarrow> conf | Some p \<Rightarrow> conf\<lparr>cf_heap := (cf_heap conf)(p := None)\<rparr>)"

definition conf_strdup :: "allocator \<Rightarrow> bytes \<Rightarrow> bytes option" where
  "conf_strdup mem s = map_option cstr (Option.bind (OPENSSL_strdup mem (Some (s @ [0]))) id)"

text \<open>\<open>lh_CONF_VALUE_insert\<close> and \<open>lh_CONF_VALUE_retrieve\<close> with the functions of the table.\<close>

definition conf_insert :: "allocator \<Rightarrow> conf \<Rightarrow> nat \<Rightarrow> (bool \<times> nat option \<times> conf) option" where
  "conf_insert mem conf p =
     (if \<not> conf_defined (cf_heap conf) (cf_data conf) p then None
      else map_option (\<lambda>(ok, old, lh). (ok, old, conf\<lparr>cf_data := lh\<rparr>))
        (OPENSSL_lh_insert mem (conf_hash (cf_heap conf)) (conf_cmp (cf_heap conf)) (cf_data conf) p))"

text \<open>The template is a local object, here at the next address.\<close>

definition conf_retrieve :: "conf \<Rightarrow> conf_value \<Rightarrow> nat option option" where
  "conf_retrieve conf template =
     (let p = cf_next conf; h = (cf_heap conf)(p := Some template)
      in if \<not> conf_defined h (cf_data conf) p then None
         else Some (OPENSSL_lh_retrieve (conf_hash h) (conf_cmp h) (cf_data conf) p))"

definition NCONF_new_section ::
    "allocator \<Rightarrow> nat cell_allocator \<Rightarrow> conf \<Rightarrow> bytes \<Rightarrow> (nat option \<times> conf) option" where
  "NCONF_new_section mem al conf section =
     (case (OPENSSL_sk_new_null al, CONF_VALUE_new mem conf) of
        (None, None) \<Rightarrow> Some (None, conf)
      | (Some sk, None) \<Rightarrow> Some (None, conf)
      | (None, Some (p, conf)) \<Rightarrow> Some (None, value_free (Some p) conf)
      | (Some sk, Some (p, conf)) \<Rightarrow>
          (case conf_strdup mem section of
             None \<Rightarrow> Some (None, value_free (Some p) conf)
           | Some s \<Rightarrow>
               let v = \<lparr>cv_section = Some s, cv_name = None, cv_value = Section_stack sk\<rparr>
               in case conf_insert mem (conf\<lparr>cf_heap := (cf_heap conf)(p := Some v)\<rparr>) p of
                    None \<Rightarrow> None
                  | Some (False, old, conf) \<Rightarrow> Some (None, value_free (Some p) conf)
                  | Some (True, old, conf) \<Rightarrow> Some (Some p, value_free old conf)))"

text \<open>
  A \<open>NULL\<close> section has the hash 0. The lookup finds nothing if the bucket of that hash is empty; else \<open>conf_value_cmp\<close> passes \<open>NULL\<close> to \<open>strcmp\<close> at the
  first item of the bucket.
\<close>

definition get_section :: "conf \<Rightarrow> bytes option \<Rightarrow> nat option option" where
  "get_section conf section =
     (if section = None then (case lh_buckets (cf_data conf) of [] # _ \<Rightarrow> Some None | _ \<Rightarrow> None)
      else conf_retrieve conf \<lparr>cv_section = section, cv_name = None, cv_value = Text None\<rparr>)"

definition NCONF_get_section :: "conf \<Rightarrow> bytes option \<Rightarrow> (nat, unit) stack_st option option" where
  "NCONF_get_section conf section =
     (case get_section conf section of
        None \<Rightarrow> None
      | Some None \<Rightarrow> Some None
      | Some (Some p) \<Rightarrow>
          (case cf_heap conf p of
             Some v \<Rightarrow> (case cv_value v of Section_stack sk \<Rightarrow> Some (Some sk) | Text s \<Rightarrow> None)
           | None \<Rightarrow> None))"

text \<open>The name \<open>default\<close>.\<close>

definition kDefaultSectionName :: bytes where
  "kDefaultSectionName = [0x64, 0x65, 0x66, 0x61, 0x75, 0x6c, 0x74]"

definition NCONF_get_string :: "conf \<Rightarrow> bytes option \<Rightarrow> bytes option \<Rightarrow> bytes option option" where
  "NCONF_get_string conf section name =
     (let section = (case section of None \<Rightarrow> kDefaultSectionName | Some s \<Rightarrow> s)
      in case conf_retrieve conf \<lparr>cv_section = Some section, cv_name = name, cv_value = Text None\<rparr> of
           None \<Rightarrow> None
         | Some None \<Rightarrow> Some None
         | Some (Some p) \<Rightarrow>
             (case cf_heap conf p of
                Some v \<Rightarrow> (case cv_value v of Text s \<Rightarrow> Some s | Section_stack sk \<Rightarrow> None)
              | None \<Rightarrow> None))"

definition add_string ::
    "allocator \<Rightarrow> nat cell_allocator \<Rightarrow> conf \<Rightarrow> nat \<Rightarrow> nat \<Rightarrow> (bool \<times> conf) option" where
  "add_string mem al conf section value =
     (case (cf_heap conf section, cf_heap conf value) of
        (Some sv, Some v) \<Rightarrow>
          (case cv_value sv of
             Text s \<Rightarrow> None
           | Section_stack section_stack \<Rightarrow>
               let dup = Option.bind (cv_section sv) (conf_strdup mem);
                   conf = conf\<lparr>cf_heap := (cf_heap conf)(value := Some (v\<lparr>cv_section := dup\<rparr>))\<rparr>
               in case OPENSSL_sk_push al (Some section_stack) (Some value) of
                    None \<Rightarrow> None
                  | Some (n, sk) \<Rightarrow>
                      if n = 0 then Some (False, conf)
                      else
                        let conf = conf\<lparr>cf_heap := (cf_heap conf)(section := Some (sv\<lparr>cv_value := Section_stack (the sk)\<rparr>))\<rparr>
                        in case conf_insert mem conf value of
                             None \<Rightarrow> None
                           | Some (False, old, conf) \<Rightarrow> Some (False, conf)
                           | Some (True, None, conf) \<Rightarrow> Some (True, conf)
                           | Some (True, Some old, conf) \<Rightarrow>
                               (case OPENSSL_sk_delete_ptr sk (Some old) of
                                  None \<Rightarrow> None
                                | Some (r, sk) \<Rightarrow>
                                    Some (True, value_free (Some old)
                                      (conf\<lparr>cf_heap := (cf_heap conf)(section := Some (sv\<lparr>cv_value := Section_stack (the sk)\<rparr>))\<rparr>))))
      | _ \<Rightarrow> None)"

section \<open>The functions of the table\<close>

lemma strcmp_eq [simp]: "strcmp a b = 0 \<longleftrightarrow> a = b"
  by (induction a b rule: strcmp.induct) auto

definition conf_key :: "conf_value \<Rightarrow> bytes option \<times> bytes option" where
  "conf_key v = (cv_section v, cv_name v)"

lemma conf_value_cmp_eq:
  "cv_section a \<noteq> None \<Longrightarrow> cv_section b \<noteq> None \<Longrightarrow> conf_value_cmp a b = Some 0 \<longleftrightarrow> conf_key a = conf_key b"
  by (auto simp: conf_value_cmp_def conf_key_def Let_def split: option.split)

lemma conf_value_cmp_defined: "cv_section a \<noteq> None \<Longrightarrow> cv_section b \<noteq> None \<Longrightarrow> conf_value_cmp a b \<noteq> None"
  by (auto simp: conf_value_cmp_def Let_def)

lemma conf_cmp_eq:
  assumes "conf_obj h p" "conf_obj h q"
  shows "conf_cmp h p q = 0 \<longleftrightarrow> map_option conf_key (h p) = map_option conf_key (h q)"
proof -
  obtain a b where ab: "h p = Some a" "h q = Some b" "cv_section a \<noteq> None" "cv_section b \<noteq> None"
    using assms by (auto simp: conf_obj_def split: option.splits)
  then show ?thesis using conf_value_cmp_eq [of a b] conf_value_cmp_defined [of a b] by (auto simp: conf_cmp_def)
qed

lemma conf_hash_key: "map_option conf_key (h p) = map_option conf_key (h' q) \<Longrightarrow> conf_hash h p = conf_hash h' q"
  by (auto simp: conf_hash_def conf_key_def conf_value_hash_def split: option.splits)

interpretation conf_lh: lh_functions "conf_hash h" "conf_cmp h" "{p. conf_obj h p}" for h
proof unfold_locales
  fix x y assume "x \<in> {p. conf_obj h p}" "y \<in> {p. conf_obj h p}" "conf_cmp h x y = 0"
  then show "conf_hash h x = conf_hash h y" using conf_cmp_eq [of h x y] conf_hash_key [of h x h y] by simp
qed (auto simp: conf_cmp_eq)

end
