(* ===== verification/Conf_Map.thy ===== *)
theory Conf_Map
  imports Conf_Db
begin

text \<open>
  The database of \<open>conf.c\<close> as a map from section and name to value: the invariant of the store and the table, and
  what the operations do to the map. Sections are entries without a name; their stacks hold at most as many pointers as there
  were assignments.
\<close>

section \<open>The invariant\<close>

definition payload_ok :: "conf_value \<Rightarrow> bool" where
  "payload_ok v \<longleftrightarrow>
     (case cv_name v of
        None \<Rightarrow> (case cv_value v of Section_stack sk \<Rightarrow> sk_inv sk | Text s \<Rightarrow> False)
      | Some n \<Rightarrow> (case cv_value v of Text s \<Rightarrow> s \<noteq> None | Section_stack sk \<Rightarrow> False))"

abbreviation conf_lh_inv :: "conf_heap \<Rightarrow> nat lhash \<Rightarrow> bool" where
  "conf_lh_inv h \<equiv> lh_inv (conf_hash h) (conf_cmp h) {p. conf_obj h p}"

definition conf_inv :: "conf \<Rightarrow> bool" where
  "conf_inv conf \<longleftrightarrow> conf_lh_inv (cf_heap conf) (cf_data conf) \<and> (\<forall>p \<ge> cf_next conf. cf_heap conf p = None) \<and>
     (\<forall>p \<in> lh_data (cf_data conf). \<exists>v. cf_heap conf p = Some v \<and> payload_ok v)"

text \<open>The objects of the table with a given key.\<close>

definition conf_at :: "conf \<Rightarrow> nat \<Rightarrow> bytes option \<times> bytes option \<Rightarrow> bool" where
  "conf_at conf p k \<longleftrightarrow> p \<in> lh_data (cf_data conf) \<and> map_option conf_key (cf_heap conf p) = Some k"

lemma conf_obj_key: "conf_obj h p \<longleftrightarrow> (\<exists>k. map_option conf_key (h p) = Some k \<and> fst k \<noteq> None)"
  by (auto simp: conf_obj_def conf_key_def split: option.splits)

lemma lh_inv_data: "lh_inv hash cmp D lh \<Longrightarrow> lh_data lh \<subseteq> D"
  by (simp add: lh_inv_def items_uniq_def lh_data_def)

lemma conf_defined_iff: "conf_defined h lh p \<longleftrightarrow> conf_obj h p \<and> lh_data lh \<subseteq> {q. conf_obj h q}"
  by (auto simp: conf_defined_def list_all_iff lh_data_def lh_mset_def)

lemma conf_lh_cong:
  assumes inv: "conf_lh_inv h lh" and k: "\<And>p. p \<in> lh_data lh \<Longrightarrow> map_option conf_key (h' p) = map_option conf_key (h p)"
  shows "conf_lh_inv h' lh"
proof (rule lh_inv_cong [OF inv conf_lh.lh_functions_axioms])
  have obj: "conf_obj h' p" "conf_obj h p" if "p \<in> lh_data lh" for p
    using that lh_inv_data [OF inv] k [OF that] by (auto simp: conf_obj_key)
  then show "lh_data lh \<subseteq> {p. conf_obj h' p}" by blast
  show "conf_hash h' x = conf_hash h x" if "x \<in> lh_data lh" for x using k [OF that] by (rule conf_hash_key)
  show "conf_cmp h' x y = 0 \<longleftrightarrow> conf_cmp h x y = 0" if "x \<in> lh_data lh" "y \<in> lh_data lh" for x y
    using that obj k by (simp add: conf_cmp_eq)
qed

lemma conf_inv_heap:
  assumes "conf_inv conf" "\<And>p. p \<in> lh_data (cf_data conf) \<Longrightarrow> map_option conf_key (h p) = map_option conf_key (cf_heap conf p)"
    "\<And>p v. p \<in> lh_data (cf_data conf) \<Longrightarrow> h p = Some v \<Longrightarrow> payload_ok v" "\<forall>p \<ge> n. h p = None"
  shows "conf_inv (conf\<lparr>cf_heap := h, cf_next := n\<rparr>)"
  using assms conf_lh_cong [of "cf_heap conf" "cf_data conf" h] unfolding conf_inv_def by (fastforce simp: map_option_case split: option.splits)

section \<open>Looking up\<close>

lemma conf_retrieve_ok:
  assumes inv: "conf_inv conf" and t: "cv_section t \<noteq> None"
  shows "\<exists>r. conf_retrieve conf t = Some r \<and> (\<forall>p. r = Some p \<longleftrightarrow> conf_at conf p (conf_key t))"
proof -
  let ?n = "cf_next conf" and ?h = "(cf_heap conf)(cf_next conf := Some t)" and ?lh = "cf_data conf"
  have lh: "conf_lh_inv (cf_heap conf) ?lh" and n: "?n \<notin> lh_data ?lh" using inv by (auto simp: conf_inv_def)
  then have h: "conf_lh_inv ?h ?lh" by (intro conf_lh_cong [OF lh]) auto
  have o: "conf_obj ?h ?n" using t by (simp add: conf_obj_def)
  have "OPENSSL_lh_retrieve (conf_hash ?h) (conf_cmp ?h) ?lh ?n = Some p \<longleftrightarrow> conf_at conf p (conf_key t)" for p
  proof -
    have "p \<in> lh_data ?lh \<Longrightarrow> conf_cmp ?h p ?n = 0 \<longleftrightarrow> map_option conf_key (cf_heap conf p) = Some (conf_key t)"
      using o n lh_inv_data [OF h] by (subst conf_cmp_eq) auto
    then show ?thesis using conf_lh.retrieve_iff [OF h, of ?n p] o by (auto simp: conf_at_def)
  qed
  then show ?thesis using o lh_inv_data [OF h] by (simp add: conf_retrieve_def conf_defined_iff Let_def)
qed

lemma conf_at_unique:
  assumes "conf_inv conf" "conf_at conf p k" "conf_at conf q k"
  shows "p = q"
proof -
  have "fst k \<noteq> None" using assms lh_inv_data [of _ _ "{p. conf_obj (cf_heap conf) p}" "cf_data conf"]
    by (force simp: conf_inv_def conf_at_def conf_obj_key)
  then obtain r where "\<forall>p. r = Some p \<longleftrightarrow> conf_at conf p k"
    using conf_retrieve_ok [OF assms(1), of "\<lparr>cv_section = fst k, cv_name = snd k, cv_value = Text None\<rparr>"] by (auto simp: conf_key_def)
  then show ?thesis using assms(2,3) by (metis option.inject)
qed

text \<open>The value of a name in a section.\<close>

definition conf_lookup :: "conf \<Rightarrow> bytes \<Rightarrow> bytes \<Rightarrow> bytes option" where
  "conf_lookup conf s n = Option.bind (NCONF_get_string conf (Some s) (Some n)) id"

definition conf_text_at :: "conf \<Rightarrow> bytes \<Rightarrow> bytes \<Rightarrow> bytes \<Rightarrow> bool" where
  "conf_text_at conf s n x \<longleftrightarrow> (\<exists>p v. conf_at conf p (Some s, Some n) \<and> cf_heap conf p = Some v \<and> cv_value v = Text (Some x))"

lemma get_string_ok:
  assumes inv: "conf_inv conf"
  shows "NCONF_get_string conf (Some s) (Some n) = Some (conf_lookup conf s n)" "conf_lookup conf s n = Some x \<longleftrightarrow> conf_text_at conf s n x"
proof -
  let ?k = "(Some s, Some n)"
  obtain r where r: "conf_retrieve conf \<lparr>cv_section = Some s, cv_name = Some n, cv_value = Text None\<rparr> = Some r" "\<forall>p. r = Some p \<longleftrightarrow> conf_at conf p ?k"
    using conf_retrieve_ok [OF inv, of "\<lparr>cv_section = Some s, cv_name = Some n, cv_value = Text None\<rparr>"] by (auto simp: conf_key_def)
  have "\<exists>t. NCONF_get_string conf (Some s) (Some n) = Some t \<and> (t = Some x \<longleftrightarrow> conf_text_at conf s n x)"
  proof (cases r)
    case None
    then show ?thesis using r by (auto simp: NCONF_get_string_def conf_text_at_def)
  next
    case (Some p)
    then have at: "conf_at conf p ?k" using r(2) by simp
    then obtain v where v: "cf_heap conf p = Some v" "payload_ok v" "cv_name v = Some n"
      using inv by (fastforce simp: conf_inv_def conf_at_def conf_key_def)
    then obtain y where y: "cv_value v = Text (Some y)" by (auto simp: payload_ok_def split: conf_payload.splits)
    then have "NCONF_get_string conf (Some s) (Some n) = Some (Some y)" using r(1) Some v(1) by (simp add: NCONF_get_string_def)
    moreover have "conf_text_at conf s n x \<longleftrightarrow> x = y"
    proof
      assume "conf_text_at conf s n x"
      then obtain q w where w: "conf_at conf q ?k" "cf_heap conf q = Some w" "cv_value w = Text (Some x)" unfolding conf_text_at_def by blast
      from conf_at_unique [OF inv at w(1)] show "x = y" using w v(1) y by simp
    qed (use at v(1) y in \<open>auto simp: conf_text_at_def\<close>)
    ultimately show ?thesis by auto
  qed
  then show "NCONF_get_string conf (Some s) (Some n) = Some (conf_lookup conf s n)" "conf_lookup conf s n = Some x \<longleftrightarrow> conf_text_at conf s n x"
    by (auto simp: conf_lookup_def)
qed

lemma get_section_ok:
  assumes "conf_inv conf"
  shows "\<exists>r. get_section conf (Some s) = Some r \<and> (\<forall>p. r = Some p \<longleftrightarrow> conf_at conf p (Some s, None))"
  using conf_retrieve_ok [OF assms, of "\<lparr>cv_section = Some s, cv_name = None, cv_value = Text None\<rparr>"]
  by (simp add: get_section_def conf_key_def)

lemma lookup_same:
  assumes "conf_inv conf" "conf_inv conf'" "\<And>q. conf_at conf' q (Some s, Some n) \<longleftrightarrow> conf_at conf q (Some s, Some n)"
    "\<And>q. conf_at conf q (Some s, Some n) \<Longrightarrow> cf_heap conf' q = cf_heap conf q"
  shows "conf_lookup conf' s n = conf_lookup conf s n"
proof -
  have "conf_text_at conf' s n x \<longleftrightarrow> conf_text_at conf s n x" for x using assms(3,4) unfolding conf_text_at_def by metis
  then have "conf_lookup conf' s n = Some x \<longleftrightarrow> conf_lookup conf s n = Some x" for x
    using get_string_ok(2) [OF assms(1)] get_string_ok(2) [OF assms(2)] by simp
  then show ?thesis by (metis option.exhaust)
qed

section \<open>Changing the database\<close>

definition memory_ok :: "allocator \<Rightarrow> nat cell_allocator \<Rightarrow> bool" where
  "memory_ok mem al \<longleftrightarrow> alloc_ok mem \<and> (\<forall>n. mem n \<noteq> None) \<and> cells_ok al \<and> (\<forall>n. al n \<noteq> None)"

definition sections_le :: "conf \<Rightarrow> nat \<Rightarrow> bool" where
  "sections_le conf K \<longleftrightarrow> (\<forall>p \<in> lh_data (cf_data conf). \<forall>v sk. cf_heap conf p = Some v \<longrightarrow> cv_value v = Section_stack sk \<longrightarrow> st_num sk \<le> K)"

lemma conf_malloc_live: "memory_ok mem al \<Longrightarrow> n \<le> 2 ^ 62 \<Longrightarrow> OPENSSL_malloc mem n \<noteq> None"
  using OPENSSL_malloc_live [of mem n] by (auto simp: memory_ok_def)

lemma conf_cells_live: "memory_ok mem al \<Longrightarrow> n + 8 < SIZE_MOD \<Longrightarrow> cells_malloc al n \<noteq> None"
  by (metis memory_ok_def cells_malloc_live)

lemma conf_strdup_ok:
  assumes "memory_ok mem al" "0 \<notin> set s" "length s < 2 ^ 61"
  shows "conf_strdup mem s = Some s"
proof -
  have "size_add (length s) 1 = length s + 1" using assms(3) by (intro size_add_small) simp
  moreover have "strlen (s @ [0]) = Some (length s)" using strlen_append [OF assms(2), of "[]"] .
  moreover have "OPENSSL_malloc mem (length s + 1) \<noteq> None" using conf_malloc_live [OF assms(1), of "length s + 1"] assms(3) by simp
  ultimately show ?thesis using cstr_append [OF assms(2), of "[]"] by (auto simp: conf_strdup_def OPENSSL_strdup_def Let_def)
qed

lemma conf_value_new_ok:
  assumes "memory_ok mem al" "conf_inv conf"
  shows "\<exists>conf'. CONF_VALUE_new mem conf = Some (cf_next conf, conf') \<and> conf_inv conf' \<and> cf_data conf' = cf_data conf \<and>
    cf_heap conf' = (cf_heap conf)(cf_next conf := Some \<lparr>cv_section = None, cv_name = None, cv_value = Text None\<rparr>) \<and>
    cf_next conf' = cf_next conf + 1 \<and> cf_next conf \<notin> lh_data (cf_data conf)"
proof -
  have n: "cf_next conf \<notin> lh_data (cf_data conf)" using assms(2) by (auto simp: conf_inv_def)
  let ?h = "(cf_heap conf)(cf_next conf := Some \<lparr>cv_section = None, cv_name = None, cv_value = Text None\<rparr>)"
  have "conf_inv (conf\<lparr>cf_heap := ?h, cf_next := cf_next conf + 1\<rparr>)"
  proof (rule conf_inv_heap [OF assms(2)])
    show "payload_ok v" if "p \<in> lh_data (cf_data conf)" "?h p = Some v" for p v
      using that assms(2) n by (auto simp: conf_inv_def split: if_splits)
  qed (use assms(2) n in \<open>auto simp: conf_inv_def\<close>)
  then show ?thesis using conf_malloc_live [OF assms(1), of 24] n by (simp add: CONF_VALUE_new_def Let_def)
qed

lemma conf_inv_heap': 
  assumes "conf_inv conf" "\<And>p. p \<in> lh_data (cf_data conf) \<Longrightarrow> map_option conf_key (h p) = map_option conf_key (cf_heap conf p)"
    "\<And>p v. p \<in> lh_data (cf_data conf) \<Longrightarrow> h p = Some v \<Longrightarrow> payload_ok v" "\<And>p. h p \<noteq> None \<Longrightarrow> cf_heap conf p \<noteq> None"
  shows "conf_inv (conf\<lparr>cf_heap := h\<rparr>)"
proof -
  have "\<forall>p \<ge> cf_next conf. h p = None" using assms(1,4) unfolding conf_inv_def by blast
  from conf_inv_heap [OF assms(1-3) this] show ?thesis by simp
qed

text \<open>Inserting a value replaces the value with the same key.\<close>

lemma conf_insert_ok:
  assumes mem: "memory_ok mem al" and inv: "conf_inv conf" and v: "cf_heap conf p = Some v" "cv_section v \<noteq> None" "payload_ok v"
  shows "\<exists>old lh. conf_insert mem conf p = Some (True, old, conf\<lparr>cf_data := lh\<rparr>) \<and> (\<forall>q. old = Some q \<longleftrightarrow> conf_at conf q (conf_key v)) \<and>
    lh_data lh = insert p {q \<in> lh_data (cf_data conf). \<not> conf_at conf q (conf_key v)} \<and> conf_inv (conf\<lparr>cf_data := lh\<rparr>)"
proof -
  let ?h = "cf_heap conf" and ?lh = "cf_data conf"
  have lh: "conf_lh_inv ?h ?lh" using inv by (simp add: conf_inv_def)
  have o: "conf_obj ?h p" using v by (simp add: conf_obj_def)
  have c: "q \<in> lh_data ?lh \<Longrightarrow> conf_cmp ?h q p = 0 \<longleftrightarrow> conf_at conf q (conf_key v)" for q
    using o v(1) lh_inv_data [OF lh] by (subst conf_cmp_eq) (auto simp: conf_at_def)
  obtain lh' where i: "OPENSSL_lh_insert mem (conf_hash ?h) (conf_cmp ?h) ?lh p = Some (True, OPENSSL_lh_retrieve (conf_hash ?h) (conf_cmp ?h) ?lh p, lh')"
    "conf_lh_inv ?h lh'" "lh_data lh' = insert p {x \<in> lh_data ?lh. conf_cmp ?h x p \<noteq> 0}"
    using lh_insert_live [OF conf_lh.lh_functions_axioms lh, of p mem] o mem by (auto simp: memory_ok_def)
  have "OPENSSL_lh_retrieve (conf_hash ?h) (conf_cmp ?h) ?lh p = Some q \<longleftrightarrow> conf_at conf q (conf_key v)" for q
    using conf_lh.retrieve_iff [OF lh, of p q] o c [of q] by (auto simp: conf_at_def)
  moreover have d: "lh_data lh' = insert p {q \<in> lh_data ?lh. \<not> conf_at conf q (conf_key v)}" using i(3) c by auto
  moreover have "conf_inv (conf\<lparr>cf_data := lh'\<rparr>)" using inv i(2) d v(1,3) by (auto simp: conf_inv_def)
  moreover have "conf_insert mem conf p = Some (True, OPENSSL_lh_retrieve (conf_hash ?h) (conf_cmp ?h) ?lh p, conf\<lparr>cf_data := lh'\<rparr>)"
    using i(1) o lh_inv_data [OF lh] by (simp add: conf_insert_def conf_defined_iff)
  ultimately show ?thesis by blast
qed

lemma conf_at_insert:
  assumes "lh_data lh = insert p {q \<in> lh_data (cf_data conf). \<not> conf_at conf q k}" "map_option conf_key (cf_heap conf p) = Some k"
  shows "conf_at (conf\<lparr>cf_data := lh\<rparr>) q k' \<longleftrightarrow> (if k' = k then q = p else conf_at conf q k')"
  using assms by (auto simp: conf_at_def)

lemma value_free_ok:
  assumes "conf_inv conf" "\<And>p. old = Some p \<Longrightarrow> p \<notin> lh_data (cf_data conf)"
  shows "conf_inv (value_free old conf) \<and> cf_data (value_free old conf) = cf_data conf \<and> cf_next (value_free old conf) = cf_next conf \<and>
    (\<forall>q \<in> lh_data (cf_data conf). cf_heap (value_free old conf) q = cf_heap conf q)"
proof (cases old)
  case (Some p)
  then have p: "p \<notin> lh_data (cf_data conf)" using assms(2) by simp
  have "conf_inv (conf\<lparr>cf_heap := (cf_heap conf)(p := None)\<rparr>)"
  proof (rule conf_inv_heap' [OF assms(1)])
    show "payload_ok v" if "q \<in> lh_data (cf_data conf)" "((cf_heap conf)(p := None)) q = Some v" for q v
      using that assms(1) p by (auto simp: conf_inv_def split: if_splits)
  qed (use p in \<open>auto split: if_splits\<close>)
  then show ?thesis using p by (auto simp: Some value_free_def)
qed (use assms in \<open>simp add: value_free_def\<close>)

text \<open>
  A change of the database: afterwards exactly the object \<open>p\<close> has the key \<open>k\<close>, and the older objects other than
  the one replaced and those in \<open>X\<close> are as they were.
\<close>

definition conf_upd :: "conf \<Rightarrow> nat \<Rightarrow> bytes option \<times> bytes option \<Rightarrow> nat set \<Rightarrow> conf \<Rightarrow> bool" where
  "conf_upd conf p k X conf' \<longleftrightarrow> conf_inv conf' \<and> cf_next conf \<le> cf_next conf' \<and>
     (\<forall>q k'. conf_at conf' q k' \<longleftrightarrow> (if k' = k then q = p else conf_at conf q k')) \<and>
     (\<forall>q. q < cf_next conf \<and> q \<notin> X \<and> \<not> conf_at conf q k \<longrightarrow> cf_heap conf' q = cf_heap conf q)"

lemma conf_at_less: "conf_inv conf \<Longrightarrow> conf_at conf q k \<Longrightarrow> q < cf_next conf"
  by (metis conf_at_def conf_inv_def not_le option.simps(3) option.map_disc_iff)

lemma conf_at_data: "conf_inv conf \<Longrightarrow> p \<in> lh_data (cf_data conf) \<longleftrightarrow> (\<exists>k. conf_at conf p k)"
  by (auto simp: conf_inv_def conf_at_def)

lemma conf_upd_lookup:
  assumes "conf_inv conf" "conf_upd conf p k X conf'" "(Some s, Some n) \<noteq> k" "\<forall>q \<in> X. \<not> conf_at conf q (Some s, Some n)"
  shows "conf_lookup conf' s n = conf_lookup conf s n"
proof (rule lookup_same [OF assms(1)])
  show "conf_inv conf'" using assms(2) by (simp add: conf_upd_def)
  show "conf_at conf' q (Some s, Some n) \<longleftrightarrow> conf_at conf q (Some s, Some n)" for q using assms(2,3) by (simp add: conf_upd_def)
  show "cf_heap conf' q = cf_heap conf q" if "conf_at conf q (Some s, Some n)" for q
    using assms that conf_at_less [OF assms(1) that] by (auto simp: conf_upd_def conf_at_def)
qed

lemma conf_upd_sections:
  assumes "conf_inv conf" "conf_upd conf p k X conf'" "sections_le conf K" "K \<le> K'"
    "\<And>q v sk. q \<in> insert p X \<Longrightarrow> cf_heap conf' q = Some v \<Longrightarrow> cv_value v = Section_stack sk \<Longrightarrow> st_num sk \<le> K'"
  shows "sections_le conf' K'"
  unfolding sections_le_def
proof (intro ballI allI impI)
  fix q v sk assume q: "q \<in> lh_data (cf_data conf')" and v: "cf_heap conf' q = Some v" "cv_value v = Section_stack sk"
  show "st_num sk \<le> K'"
  proof (cases "q \<in> insert p X")
    case False
    obtain k' where "conf_at conf' q k'" using q assms(2) conf_at_data unfolding conf_upd_def by blast
    then have "if k' = k then q = p else conf_at conf q k'" using assms(2) unfolding conf_upd_def by blast
    with False have at: "conf_at conf q k'" "k' \<noteq> k" by (auto split: if_splits)
    then have "\<not> conf_at conf q k" by (auto simp: conf_at_def)
    then have "cf_heap conf q = Some v" using v(1) False assms(2) conf_at_less [OF assms(1) at(1)] by (auto simp: conf_upd_def)
    then show ?thesis using assms(3,4) v(2) at(1) unfolding sections_le_def conf_at_def by (meson le_trans)
  qed (use assms(5) v in blast)
qed

lemma new_section_ok:
  assumes mem: "memory_ok mem al" and inv: "conf_inv conf" and s: "0 \<notin> set s" "length s < 2 ^ 61"
  shows "\<exists>conf' sk. NCONF_new_section mem al conf s = Some (Some (cf_next conf), conf') \<and>
    conf_upd conf (cf_next conf) (Some s, None) {} conf' \<and>
    cf_heap conf' (cf_next conf) = Some \<lparr>cv_section = Some s, cv_name = None, cv_value = Section_stack sk\<rparr> \<and> st_num sk = 0 \<and> sk_inv sk"
proof -
  let ?p = "cf_next conf" and ?k = "(Some s, None)"
  obtain sk :: "(nat, unit) stack_st" where sk: "OPENSSL_sk_new_null al = Some sk"
  proof -
    have "cells_malloc al 40 \<noteq> None" "cells_malloc al 32 \<noteq> None" using conf_cells_live [OF mem] by simp_all
    moreover have "size_mul 4 8 = 32" using size_mul_small [of 4 8] by simp
    moreover have "\<not> - 1 div 8 < (4::u64)" by code_simp
    ultimately show ?thesis using that by (auto simp: OPENSSL_sk_new_null_def OPENSSL_sk_new_def cells_calloc_def kMinSize_def)
  qed
  have ski: "sk_inv sk" "st_num sk = 0"
    using sk_new_ok [of al None sk] sk mem length_sk_list [of sk] by (auto simp: OPENSSL_sk_new_null_def memory_ok_def)
  obtain c1 where c1: "CONF_VALUE_new mem conf = Some (?p, c1)" "conf_inv c1" "cf_data c1 = cf_data conf" "cf_next c1 = ?p + 1"
    "cf_heap c1 = (cf_heap conf)(?p := Some \<lparr>cv_section = None, cv_name = None, cv_value = Text None\<rparr>)" "?p \<notin> lh_data (cf_data conf)"
    using conf_value_new_ok [OF mem inv] by auto
  let ?v = "\<lparr>cv_section = Some s, cv_name = None, cv_value = Section_stack sk\<rparr>"
  let ?c2 = "c1\<lparr>cf_heap := (cf_heap c1)(?p := Some ?v)\<rparr>"
  have c2: "conf_inv ?c2"
  proof (rule conf_inv_heap' [OF c1(2)])
    show "payload_ok v" if "q \<in> lh_data (cf_data c1)" "((cf_heap c1)(?p := Some ?v)) q = Some v" for q v
      using that c1(2,3,6) by (auto simp: conf_inv_def split: if_splits)
  qed (use c1(3,5,6) in \<open>auto split: if_splits\<close>)
  have at2: "conf_at ?c2 q k \<longleftrightarrow> conf_at conf q k" for q k using c1(3,5,6) by (auto simp: conf_at_def)
  have v: "cf_heap ?c2 ?p = Some ?v" "cv_section ?v \<noteq> None" "payload_ok ?v" "conf_key ?v = ?k" using ski by (simp_all add: payload_ok_def conf_key_def)
  obtain old lh where i: "conf_insert mem ?c2 ?p = Some (True, old, ?c2\<lparr>cf_data := lh\<rparr>)" "\<forall>q. old = Some q \<longleftrightarrow> conf_at ?c2 q ?k"
    "lh_data lh = insert ?p {q \<in> lh_data (cf_data ?c2). \<not> conf_at ?c2 q ?k}" "conf_inv (?c2\<lparr>cf_data := lh\<rparr>)"
    using conf_insert_ok [OF mem c2 v(1-3)] unfolding v(4) by blast
  let ?c3 = "?c2\<lparr>cf_data := lh\<rparr>" and ?c4 = "value_free old (?c2\<lparr>cf_data := lh\<rparr>)"
  have o: "q \<notin> lh_data (cf_data ?c3)" if "old = Some q" for q
    using that i(2,3) c1(6) at2 by (auto simp: conf_at_def)
  have f: "conf_inv ?c4" "cf_data ?c4 = lh" "cf_next ?c4 = cf_next c1" "\<And>q. q \<in> lh_data lh \<Longrightarrow> cf_heap ?c4 q = cf_heap ?c3 q"
    using value_free_ok [OF i(4), of old] o by simp_all
  have at: "conf_at ?c4 q k \<longleftrightarrow> (if k = ?k then q = ?p else conf_at conf q k)" for q k
  proof -
    have "conf_at ?c4 q k \<longleftrightarrow> conf_at ?c3 q k" using f(2,4) by (auto simp: conf_at_def)
    then show ?thesis using conf_at_insert [OF i(3), of q k] v(1,4) at2 by simp
  qed
  have fr: "cf_heap ?c4 q = cf_heap ?c3 q" if "\<not> conf_at conf q ?k" for q
    using that i(2) at2 by (cases old) (auto simp: value_free_def)
  have "conf_upd conf ?p ?k {} ?c4"
    unfolding conf_upd_def using f at fr c1(4,5) by auto
  moreover have "cf_heap ?c4 ?p = Some ?v" using fr [of ?p] v(1) c1(6) by (auto simp: conf_at_def)
  moreover have "NCONF_new_section mem al conf s = Some (Some ?p, ?c4)"
    using sk c1(1) conf_strdup_ok [OF mem s] i(1) by (simp add: NCONF_new_section_def Let_def)
  ultimately show ?thesis using ski by blast
qed

lemma sk_delete_ptr_ok:
  assumes "sk_inv s"
  shows "\<exists>x s'. OPENSSL_sk_delete_ptr (Some s) p = Some (x, Some s') \<and> sk_inv s' \<and> st_num s' \<le> st_num s"
proof (cases "sk_scan (\<lambda>x. x = p) (st_data s) 0 (st_num s)")
  case (Some i)
  then have "i < st_num s" using sk_scan_Some by blast
  then obtain s' where "OPENSSL_sk_delete (Some s) i = Some (sk_list s ! i, Some s')" "sk_inv s'"
    "sk_list s' = take i (sk_list s) @ drop (Suc i) (sk_list s)" using sk_delete_ok [OF assms] by blast
  then show ?thesis using Some length_sk_list [of s'] length_sk_list [OF assms] by (auto simp: OPENSSL_sk_delete_ptr_def)
qed (use assms in \<open>simp add: OPENSSL_sk_delete_ptr_def\<close>)

lemma sk_push_live:
  assumes "memory_ok mem al" "sk_inv s" "st_num s < 2147483647"
  shows "\<exists>s'. OPENSSL_sk_push al (Some s) p = Some (st_num s + 1, Some s') \<and> sk_inv s' \<and> st_num s' = st_num s + 1"
proof -
  obtain s' where "OPENSSL_sk_insert al (Some s) p (st_num s) = Some (st_num s + 1, Some s')" "sk_inv s'"
    "sk_list s' = take (st_num s) (sk_list s) @ p # drop (st_num s) (sk_list s)"
    using sk_insert_ok [of al s p "st_num s"] assms unfolding memory_ok_def by (metis less_irrefl)
  then show ?thesis using length_sk_list [of s'] length_sk_list [OF assms(2)] by (simp add: OPENSSL_sk_push_def)
qed

lemma add_string_ok:
  assumes mem: "memory_ok mem al" and inv: "conf_inv conf"
    and sp: "conf_at conf sp (Some s, None)" "cf_heap conf sp = Some sv" "cv_value sv = Section_stack sk" "st_num sk < 2147483647"
    and s: "0 \<notin> set s" "length s < 2 ^ 61"
    and vp: "vp \<notin> lh_data (cf_data conf)" "cf_heap conf vp = Some v" "cv_name v = Some n" "cv_value v = Text (Some x)"
  shows "\<exists>conf' sk'. add_string mem al conf sp vp = Some (True, conf') \<and> conf_upd conf vp (Some s, Some n) {vp, sp} conf' \<and>
    cf_heap conf' vp = Some (v\<lparr>cv_section := Some s\<rparr>) \<and> cf_heap conf' sp = Some (sv\<lparr>cv_value := Section_stack sk'\<rparr>) \<and> st_num sk' \<le> st_num sk + 1"
proof -
  let ?k = "(Some s, Some n)" and ?v = "v\<lparr>cv_section := Some s\<rparr>"
  have sv: "cv_section sv = Some s" "cv_name sv = None" "sp \<in> lh_data (cf_data conf)" using sp(1,2) by (auto simp: conf_at_def conf_key_def)
  have ski: "sk_inv sk" using inv sv sp(2,3) by (fastforce simp: conf_inv_def payload_ok_def)
  have ne: "sp \<noteq> vp" using sv(3) vp(1) by blast
  obtain sk1 where push: "OPENSSL_sk_push al (Some sk) (Some vp) = Some (st_num sk + 1, Some sk1)" "sk_inv sk1" "st_num sk1 = st_num sk + 1"
    using sk_push_live [OF mem ski sp(4)] by blast
  let ?h = "\<lambda>sk'. (cf_heap conf)(vp := Some ?v, sp := Some (sv\<lparr>cv_value := Section_stack sk'\<rparr>))"
  have h: "conf_inv (conf\<lparr>cf_heap := ?h sk'\<rparr>)" if "sk_inv sk'" for sk'
  proof (rule conf_inv_heap' [OF inv])
    show "payload_ok w" if "q \<in> lh_data (cf_data conf)" "?h sk' q = Some w" for q w
      using that \<open>sk_inv sk'\<close> inv vp(1) sv(2) by (auto simp: conf_inv_def payload_ok_def split: if_splits)
  qed (use vp(1,2) sp(2) sv in \<open>auto simp: conf_key_def split: if_splits\<close>)
  let ?c1 = "conf\<lparr>cf_heap := ?h sk1\<rparr>"
  have at1: "conf_at ?c1 q k \<longleftrightarrow> conf_at conf q k" for q k using vp(1) sv sp(2) by (auto simp: conf_at_def conf_key_def)
  have v: "cf_heap ?c1 vp = Some ?v" "cv_section ?v \<noteq> None" "payload_ok ?v" "conf_key ?v = ?k" using ne vp by (auto simp: payload_ok_def conf_key_def)
  obtain old lh where i: "conf_insert mem ?c1 vp = Some (True, old, ?c1\<lparr>cf_data := lh\<rparr>)" "\<forall>q. old = Some q \<longleftrightarrow> conf_at ?c1 q ?k"
    "lh_data lh = insert vp {q \<in> lh_data (cf_data ?c1). \<not> conf_at ?c1 q ?k}" "conf_inv (?c1\<lparr>cf_data := lh\<rparr>)"
    using conf_insert_ok [OF mem h [OF push(2)] v(1-3)] unfolding v(4) by blast
  have at: "conf_at (?c1\<lparr>cf_data := lh\<rparr>) q k \<longleftrightarrow> (if k = ?k then q = vp else conf_at conf q k)" for q k
    using conf_at_insert [OF i(3), of q k] v(1,4) at1 by simp
  have add: "add_string mem al conf sp vp =
      (case old of None \<Rightarrow> Some (True, ?c1\<lparr>cf_data := lh\<rparr>)
       | Some old \<Rightarrow> (case OPENSSL_sk_delete_ptr (Some sk1) (Some old) of
            None \<Rightarrow> None
          | Some (r, sk) \<Rightarrow> Some (True, value_free (Some old)
              (?c1\<lparr>cf_data := lh, cf_heap := (?h sk1)(sp := Some (sv\<lparr>cv_value := Section_stack (the sk)\<rparr>))\<rparr>))))"
    using sp(2,3) vp(2) push(1) i(1) sv(1) conf_strdup_ok [OF mem s] ne by (simp add: add_string_def Let_def split: option.split)
  show ?thesis
  proof (cases old)
    case None
    then have "conf_upd conf vp ?k {vp, sp} (?c1\<lparr>cf_data := lh\<rparr>)" unfolding conf_upd_def using i(4) at by auto
    then show ?thesis using add None ne push(3) by (auto intro!: exI [of _ sk1])
  next
    case (Some q)
    then have q: "conf_at ?c1 q ?k" "q \<noteq> vp" "q \<noteq> sp" using i(2) at1 vp(1) sv(2) sp(2) by (auto simp: conf_at_def conf_key_def)
    then have ql: "q \<notin> lh_data lh" using i(3) by simp
    obtain y sk2 where d: "OPENSSL_sk_delete_ptr (Some sk1) (Some q) = Some (y, Some sk2)" "sk_inv sk2" "st_num sk2 \<le> st_num sk1"
      using sk_delete_ptr_ok [OF push(2)] by blast
    let ?c2 = "conf\<lparr>cf_data := lh, cf_heap := ?h sk2\<rparr>" and ?c3 = "value_free (Some q) (conf\<lparr>cf_data := lh, cf_heap := ?h sk2\<rparr>)"
    have "conf_inv (?c1\<lparr>cf_data := lh, cf_heap := ?h sk2\<rparr>)"
    proof (rule conf_inv_heap' [OF i(4)])
      show "payload_ok w" if "q \<in> lh_data (cf_data (?c1\<lparr>cf_data := lh\<rparr>))" "?h sk2 q = Some w" for q w
        using that i(4) d(2) sv(2) ne by (auto simp: conf_inv_def payload_ok_def split: if_splits)
    qed (use ne in \<open>auto simp: conf_key_def split: if_splits\<close>)
    then have c2: "conf_inv ?c2" by simp
    have f: "conf_inv ?c3" "cf_data ?c3 = lh" "cf_next ?c3 = cf_next conf" "cf_heap ?c3 = (?h sk2)(q := None)"
      using value_free_ok [OF c2, of "Some q"] ql by (simp_all add: value_free_def)
    have at3: "conf_at ?c3 r k \<longleftrightarrow> (if k = ?k then r = vp else conf_at conf r k)" for r k
      using at [of r k] ql f(2,4) by (auto simp: conf_at_def conf_key_def split: if_splits)
    have fr: "cf_heap ?c3 r = cf_heap conf r" if "r \<notin> {vp, sp}" "\<not> conf_at conf r ?k" for r
      using that q(1) at1 f(4) by auto
    have "conf_upd conf vp ?k {vp, sp} ?c3" unfolding conf_upd_def using f(1,3) at3 fr by simp
    moreover have "add_string mem al conf sp vp = Some (True, ?c3)" using add Some d(1) by (simp add: fun_upd_upd)
    moreover have "cf_heap ?c3 vp = Some ?v" "cf_heap ?c3 sp = Some (sv\<lparr>cv_value := Section_stack sk2\<rparr>)" using f(4) q(2,3) ne by auto
    ultimately show ?thesis using d(3) push(3) by (auto intro!: exI [of _ ?c3] exI [of _ sk2])
  qed
qed

end
