(* ===== verification/Conf_Load.thy ===== *)
theory Conf_Load
  imports Conf_Map
begin

text \<open>
  Loading a configuration, \<open>NCONF_load_bio\<close> of \<open>crypto/conf/conf.c\<close>. The input is the list of the strings
  that the calls of \<open>BIO_gets\<close> store, without their terminators; behind its end \<open>BIO_gets\<close> stores nothing. A \<open>None\<close> is undefined
  behaviour, among it the overflow of \<open>bufnum\<close>, an \<open>int\<close>.
\<close>

section \<open>One line\<close>

definition find_section ::
    "allocator \<Rightarrow> nat cell_allocator \<Rightarrow> conf \<Rightarrow> bytes \<Rightarrow> (nat option \<times> conf) option" where
  "find_section mem al conf section =
     (case get_section conf (Some section) of
        None \<Rightarrow> None
      | Some (Some p) \<Rightarrow> Some (Some p, conf)
      | Some None \<Rightarrow> NCONF_new_section mem al conf section)"

text \<open>The new current section, its name and its object.\<close>

definition load_header ::
    "allocator \<Rightarrow> nat cell_allocator \<Rightarrow> conf \<Rightarrow> bytes \<Rightarrow> nat \<Rightarrow> ((conf_error + bytes \<times> nat) \<times> conf) option" where
  "load_header mem al conf b start =
     (case str_copy mem b start of
        None \<Rightarrow> None
      | Some (Inl e) \<Rightarrow> Some (Inl e, conf)
      | Some (Inr section) \<Rightarrow>
          (case find_section mem al conf section of
             None \<Rightarrow> None
           | Some (None, conf) \<Rightarrow> Some (Inl CONF_R_UNABLE_TO_CREATE_NEW_SECTION, conf)
           | Some (Some sv, conf) \<Rightarrow> Some (Inr (section, sv), conf)))"

text \<open>At the label \<open>err\<close> the value \<open>v\<close> is freed, also after \<open>add_string\<close> has failed.\<close>

definition load_assignment ::
    "allocator \<Rightarrow> nat cell_allocator \<Rightarrow> conf \<Rightarrow> bytes \<Rightarrow> nat \<Rightarrow> bytes \<Rightarrow> nat option \<Rightarrow> nat \<Rightarrow> nat \<Rightarrow> ((conf_error + unit) \<times> conf) option" where
  "load_assignment mem al conf section sv b psection pname start =
     (case CONF_VALUE_new mem conf of
        None \<Rightarrow> Some (Inl CONF_MALLOC_FAILURE, conf)
      | Some (v, conf) \<Rightarrow>
          let psection = (case psection of None \<Rightarrow> section | Some p \<Rightarrow> cstr (drop p b))
          in case conf_strdup mem (cstr (drop pname b)) of
               None \<Rightarrow> Some (Inl CONF_MALLOC_FAILURE, value_free (Some v) conf)
             | Some name \<Rightarrow>
                 (case str_copy mem b start of
                    None \<Rightarrow> None
                  | Some (Inl e) \<Rightarrow> Some (Inl e, value_free (Some v) conf)
                  | Some (Inr value) \<Rightarrow>
                      let conf = conf\<lparr>cf_heap := (cf_heap conf)(v := Some \<lparr>cv_section = None, cv_name = Some name, cv_value = Text (Some value)\<rparr>)\<rparr>
                      in case (if strcmp psection section \<noteq> 0 then find_section mem al conf psection else Some (Some sv, conf)) of
                           None \<Rightarrow> None
                         | Some (None, conf) \<Rightarrow> Some (Inl CONF_R_UNABLE_TO_CREATE_NEW_SECTION, value_free (Some v) conf)
                         | Some (Some tv, conf) \<Rightarrow>
                             (case add_string mem al conf tv v of
                                None \<Rightarrow> None
                              | Some (False, conf) \<Rightarrow> Some (Inl CONF_MALLOC_FAILURE, value_free (Some v) conf)
                              | Some (True, conf) \<Rightarrow> Some (Inr (), conf))))"

text \<open>The section, its object and the buffer after a line.\<close>

definition load_line ::
    "allocator \<Rightarrow> nat cell_allocator \<Rightarrow> conf \<Rightarrow> bytes \<Rightarrow> nat \<Rightarrow> bytes \<Rightarrow> ((conf_error + bytes \<times> nat \<times> bytes) \<times> conf) option" where
  "load_line mem al conf section sv b =
     (case scan_line b of
        None \<Rightarrow> None
      | Some (Inl e) \<Rightarrow> Some (Inl e, conf)
      | Some (Inr (Blank, b)) \<Rightarrow> Some (Inr (section, sv, b), conf)
      | Some (Inr (Header start, b)) \<Rightarrow>
          map_option (\<lambda>(r, conf). (map_sum id (\<lambda>(section, sv). (section, sv, b)) r, conf)) (load_header mem al conf b start)
      | Some (Inr (Assignment psection pname start, b)) \<Rightarrow>
          map_option (\<lambda>(r, conf). (map_sum id (\<lambda>u. (section, sv, b)) r, conf))
            (load_assignment mem al conf section sv b psection pname start))"

section \<open>Reading lines\<close>

definition CONFBUFSIZE :: nat where "CONFBUFSIZE = 512"

text \<open>Growing the buffer and reading into it; the inner \<open>None\<close> is a failed allocation.\<close>

definition conf_gets :: "allocator \<Rightarrow> BUF_MEM \<Rightarrow> nat \<Rightarrow> bytes \<Rightarrow> BUF_MEM option option" where
  "conf_gets mem buff bufnum chunk =
     (case BUF_MEM_grow mem buff (bufnum + CONFBUFSIZE) of
        None \<Rightarrow> None
      | Some (r, buff) \<Rightarrow>
          if r = 0 then Some None
          else case cells_write (bm_data buff) bufnum (chunk @ [0]) of
              None \<Rightarrow> None
            | Some d \<Rightarrow>
                if bufnum + CONFBUFSIZE - 1 < length d
                then Some (Some (buff\<lparr>bm_data := d[bufnum + CONFBUFSIZE - 1 := 0]\<rparr>))
                else None)"

text \<open>The loop that removes line ends.\<close>

fun strip_eol :: "bytes \<Rightarrow> nat \<Rightarrow> nat \<Rightarrow> nat" where
  "strip_eol d p 0 = 0"
| "strip_eol d p (Suc i) = (if d ! (p + i) \<noteq> 0x0d \<and> d ! (p + i) \<noteq> 0x0a then Suc i else strip_eol d p i)"

text \<open>The last byte is a backslash and the one before it is not.\<close>

definition continues :: "bytes \<Rightarrow> nat \<Rightarrow> bool" where
  "continues d bufnum \<longleftrightarrow> bufnum \<ge> 1 \<and> IS_ESC (d ! (bufnum - 1)) \<and> (bufnum \<le> 1 \<or> \<not> IS_ESC (d ! (bufnum - 2)))"

lemma conf_gets_end:
  assumes "conf_gets mem buff bufnum [] = Some (Some buff')"
  shows "strlen (drop bufnum (bm_data buff')) = Some 0"
proof -
  obtain b d where b: "bufnum + 1 \<le> length b" "d = take bufnum b @ [0] @ drop (bufnum + 1) b" "bm_data buff' = d[bufnum + 511 := 0]"
    using assms by (auto simp: conf_gets_def CONFBUFSIZE_def cells_write_def add.commute split: option.splits prod.splits if_splits)
  then have "d ! bufnum = 0" "bufnum < length d" by (simp_all add: nth_append)
  then have "bm_data buff' ! bufnum = 0" "bufnum < length (bm_data buff')" using b(3) by simp_all
  then show ?thesis by (metis Cons_nth_drop_Suc strlen.simps(2))
qed

lemma strip_eol_le: "strip_eol d p i \<le> i"
  by (induction d p i rule: strip_eol.induct) auto

function load_loop ::
    "allocator \<Rightarrow> nat cell_allocator \<Rightarrow> bytes list \<Rightarrow> BUF_MEM \<Rightarrow> nat \<Rightarrow> bool \<Rightarrow> nat \<Rightarrow> bytes \<Rightarrow> nat \<Rightarrow> conf \<Rightarrow>
      ((conf_error \<times> nat + unit) \<times> conf) option" where
  "load_loop mem al gets buff bufnum again eline section sv conf =
     (case conf_gets mem buff bufnum (case gets of [] \<Rightarrow> [] | g # gs \<Rightarrow> g) of
        None \<Rightarrow> None
      | Some None \<Rightarrow> Some (Inl (CONF_MALLOC_FAILURE, eline), conf)
      | Some (Some buff) \<Rightarrow>
          (case strlen (drop bufnum (bm_data buff)) of
             None \<Rightarrow> None
           | Some ii \<Rightarrow>
               if ii = 0 \<and> \<not> again then Some (Inr (), conf)
               else
                 let i = strip_eol (bm_data buff) bufnum ii;
                     long_line = (ii \<noteq> 0 \<and> i = ii);
                     buff = (if long_line then buff else buff\<lparr>bm_data := (bm_data buff)[bufnum + i := 0]\<rparr>);
                     eline = (if long_line then eline else eline + 1);
                     bufnum = bufnum + i
                 in if (of_nat bufnum :: u64) > 0x7fffffff then None
                    else if continues (bm_data buff) bufnum then
                      load_loop mem al (tl gets) buff (bufnum - 1) True eline section sv conf
                    else if long_line then load_loop mem al (tl gets) buff bufnum True eline section sv conf
                    else case load_line mem al conf section sv (bm_data buff) of
                        None \<Rightarrow> None
                      | Some (Inl e, conf) \<Rightarrow> Some (Inl (e, eline), conf)
                      | Some (Inr (section, sv, d), conf) \<Rightarrow>
                          load_loop mem al (tl gets) (buff\<lparr>bm_data := d\<rparr>) 0 False eline section sv conf))"
  by pat_completeness auto
termination load_loop
proof (relation "measures [\<lambda>(mem, al, gets, buff, bufnum, again, eline, section, sv, conf). length gets,
    \<lambda>(mem, al, gets, buff, bufnum, again, eline, section, sv, conf). 2 * bufnum + (if again then 1 else 0)]", goal_cases)
  case (2 mem al gets buff bufnum again eline sec sv conf x2 buff1 ii i long buff2 eline2 bufnum2)
  show ?case
  proof (cases gets)
    case Nil
    then have "ii = 0" using 2 conf_gets_end by fastforce
    then have "bufnum2 = bufnum" using 2 by simp
    then show ?thesis using 2 Nil by (auto simp: continues_def)
  qed simp
next
  case (3 mem al gets buff bufnum again eline sec sv conf x2 buff1 ii i long buff2 eline2 bufnum2)
  show ?case
  proof (cases gets)
    case Nil
    then have "ii = 0" using 3 conf_gets_end by fastforce
    then show ?thesis using 3 by simp
  qed simp
next
  case (4 mem al gets buff bufnum again eline sec sv conf x2 buff1 ii i long buff2 eline2 bufnum2)
  show ?case
  proof (cases gets)
    case Nil
    then have "ii = 0" using 4 conf_gets_end by fastforce
    then show ?thesis using 4 Nil by simp
  qed simp
qed simp

declare load_loop.simps [simp del]

text \<open>The result, with the line of an error, and the database.\<close>

definition NCONF_load_bio ::
    "allocator \<Rightarrow> nat cell_allocator \<Rightarrow> conf \<Rightarrow> bytes list \<Rightarrow> ((conf_error \<times> nat + unit) \<times> conf) option" where
  "NCONF_load_bio mem al conf gets =
     (case BUF_MEM_new mem of
        None \<Rightarrow> Some (Inl (CONF_MALLOC_FAILURE, 0), conf)
      | Some buff \<Rightarrow>
          (case conf_strdup mem kDefaultSectionName of
             None \<Rightarrow> Some (Inl (CONF_MALLOC_FAILURE, 0), conf)
           | Some section \<Rightarrow>
               (case NCONF_new_section mem al conf section of
                  None \<Rightarrow> None
                | Some (None, conf) \<Rightarrow> Some (Inl (CONF_R_UNABLE_TO_CREATE_NEW_SECTION, 0), conf)
                | Some (Some sv, conf) \<Rightarrow> load_loop mem al gets buff 0 False 0 section sv conf)))"

end
