(* ===== verification/Conf_File.thy ===== *)
theory Conf_File
  imports Conf_Load
begin

text \<open>
  Loading a configuration: whatever the input, the database stays well typed and nothing is undefined while memory is
  available; on files of the usual form the database afterwards is the map that the file describes.
\<close>

section \<open>Sections and assignments\<close>

text \<open>The state of the loop: a well-formed database, the current section with its object, and a bound on the stacks.\<close>

definition load_inv :: "conf \<Rightarrow> bytes \<Rightarrow> nat \<Rightarrow> nat \<Rightarrow> bool" where
  "load_inv conf s sv K \<longleftrightarrow> conf_inv conf \<and> conf_at conf sv (Some s, None) \<and> 0 \<notin> set s \<and> length s < 2 ^ 61 \<and> sections_le conf K"

lemma find_section_ok:
  assumes mem: "memory_ok mem al" and inv: "conf_inv conf" "sections_le conf K" and s: "0 \<notin> set s" "length s < 2 ^ 61"
  shows "\<exists>p conf'. find_section mem al conf s = Some (Some p, conf') \<and> load_inv conf' s p K \<and>
    (\<forall>a b. conf_lookup conf' a b = conf_lookup conf a b) \<and> (\<forall>q k. conf_at conf q k \<longrightarrow> conf_at conf' q k) \<and>
    (\<forall>q. q < cf_next conf \<and> q \<notin> lh_data (cf_data conf) \<longrightarrow> q \<notin> lh_data (cf_data conf') \<and> cf_heap conf' q = cf_heap conf q)"
proof -
  obtain r where r: "get_section conf (Some s) = Some r" "\<forall>p. r = Some p \<longleftrightarrow> conf_at conf p (Some s, None)" using get_section_ok [OF inv(1)] by blast
  show ?thesis
  proof (cases r)
    case (Some p)
    then show ?thesis using r inv s by (auto simp: find_section_def load_inv_def)
  next
    case None
    let ?p = "cf_next conf"
    obtain conf' sk where n: "NCONF_new_section mem al conf s = Some (Some ?p, conf')" "conf_upd conf ?p (Some s, None) {} conf'"
      "cf_heap conf' ?p = Some \<lparr>cv_section = Some s, cv_name = None, cv_value = Section_stack sk\<rparr>" "st_num sk = 0"
      using new_section_ok [OF mem inv(1) s] by blast
    have no: "\<not> conf_at conf q (Some s, None)" for q using r(2) None by simp
    have at: "conf_at conf' q k \<longleftrightarrow> (if k = (Some s, None) then q = ?p else conf_at conf q k)" for q k
      using n(2) unfolding conf_upd_def by blast
    have "sections_le conf' K" by (rule conf_upd_sections [OF inv(1) n(2) inv(2) order_refl]) (use n(3,4) in auto)
    then have "load_inv conf' s ?p K" using n(2) at [of ?p "(Some s, None)"] s by (simp add: load_inv_def conf_upd_def)
    moreover have "conf_lookup conf' a b = conf_lookup conf a b" for a b using conf_upd_lookup [OF inv(1) n(2)] by simp
    moreover have "conf_at conf' q k" if "conf_at conf q k" for q k using that at [of q k] no [of q] by auto
    moreover have "q \<notin> lh_data (cf_data conf') \<and> cf_heap conf' q = cf_heap conf q" if "q < ?p" "q \<notin> lh_data (cf_data conf)" for q
    proof -
      have "conf_inv conf'" using n(2) by (simp add: conf_upd_def)
      then show ?thesis using that at [of q] no n(2) conf_at_data [OF inv(1), of q] conf_at_data [of conf' q]
        by (auto simp: conf_upd_def)
    qed
    ultimately show ?thesis using r(1) None n(1) by (auto simp: find_section_def)
  qed
qed

lemma section_object:
  assumes "conf_inv conf" "conf_at conf p (Some s, None)" "sections_le conf K"
  shows "\<exists>v sk. cf_heap conf p = Some v \<and> cv_value v = Section_stack sk \<and> st_num sk \<le> K"
proof -
  obtain v where v: "cf_heap conf p = Some v" "payload_ok v" "cv_name v = None"
    using assms(1,2) by (fastforce simp: conf_inv_def conf_at_def conf_key_def)
  then obtain sk where "cv_value v = Section_stack sk" by (auto simp: payload_ok_def split: conf_payload.splits)
  then show ?thesis using v assms(2,3) unfolding sections_le_def conf_at_def by blast
qed

text \<open>Objects outside the table do not matter.\<close>

lemma conf_outside:
  assumes "conf_inv conf" "p \<notin> lh_data (cf_data conf)" "cf_heap conf p \<noteq> None"
  shows "conf_inv (conf\<lparr>cf_heap := (cf_heap conf)(p := x)\<rparr>)" "conf_at (conf\<lparr>cf_heap := (cf_heap conf)(p := x)\<rparr>) q k \<longleftrightarrow> conf_at conf q k"
    "conf_lookup (conf\<lparr>cf_heap := (cf_heap conf)(p := x)\<rparr>) a b = conf_lookup conf a b"
    "sections_le (conf\<lparr>cf_heap := (cf_heap conf)(p := x)\<rparr>) K \<longleftrightarrow> sections_le conf K"
proof -
  let ?c = "conf\<lparr>cf_heap := (cf_heap conf)(p := x)\<rparr>"
  show inv: "conf_inv ?c"
  proof (rule conf_inv_heap' [OF assms(1)])
    show "payload_ok v" if "q \<in> lh_data (cf_data conf)" "((cf_heap conf)(p := x)) q = Some v" for q v
      using that assms by (auto simp: conf_inv_def split: if_splits)
  qed (use assms in \<open>auto split: if_splits\<close>)
  show at: "conf_at ?c q k \<longleftrightarrow> conf_at conf q k" for q k using assms(2) by (auto simp: conf_at_def)
  show "conf_lookup ?c a b = conf_lookup conf a b"
    by (rule lookup_same [OF assms(1) inv]) (use at assms(2) in \<open>auto simp: conf_at_def\<close>)
  show "sections_le ?c K \<longleftrightarrow> sections_le conf K" using assms(2) by (auto simp: sections_le_def)
qed

lemma value_new_load_inv:
  assumes "memory_ok mem al" "load_inv conf s sv K"
  shows "\<exists>conf'. CONF_VALUE_new mem conf = Some (cf_next conf, conf') \<and> load_inv conf' s sv K \<and>
    (\<forall>a b. conf_lookup conf' a b = conf_lookup conf a b) \<and> cf_next conf \<notin> lh_data (cf_data conf') \<and> cf_heap conf' (cf_next conf) \<noteq> None"
proof -
  have inv: "conf_inv conf" using assms(2) by (simp add: load_inv_def)
  obtain c where c: "CONF_VALUE_new mem conf = Some (cf_next conf, c)" "conf_inv c" "cf_data c = cf_data conf"
    "cf_heap c = (cf_heap conf)(cf_next conf := Some \<lparr>cv_section = None, cv_name = None, cv_value = Text None\<rparr>)" "cf_next conf \<notin> lh_data (cf_data conf)"
    using conf_value_new_ok [OF assms(1) inv] by auto
  have at: "conf_at c q k \<longleftrightarrow> conf_at conf q k" for q k using c(3-5) by (auto simp: conf_at_def)
  have "conf_lookup c a b = conf_lookup conf a b" for a b
    by (rule lookup_same [OF inv c(2)]) (use at c(4,5) in \<open>auto simp: conf_at_def\<close>)
  moreover have "sections_le c K" using assms(2) c(3-5) by (auto simp: load_inv_def sections_le_def)
  ultimately show ?thesis using c at assms(2) by (auto simp: load_inv_def)
qed

text \<open>What an assignment does once its strings are known.\<close>

lemma load_assignment_ok:
  assumes mem: "memory_ok mem al" and inv: "load_inv conf s sv K" and K: "K < 2147483647"
    and ps: "ps = None \<and> t = s \<or> (\<exists>p. ps = Some p \<and> t = cstr (drop p b))" "0 \<notin> set t" "length t < 2 ^ 61"
    and n: "cstr (drop pname b) = n" "0 \<notin> set n" "length n < 2 ^ 61"
    and w: "str_copy mem b start = Some (value_text w)"
  shows "\<exists>r conf'. load_assignment mem al conf s sv b ps pname start = Some (r, conf') \<and> load_inv conf' s sv (K + 1) \<and>
    (case value_text w of
       Inl e \<Rightarrow> r = Inl e \<and> (\<forall>a c. conf_lookup conf' a c = conf_lookup conf a c)
     | Inr x \<Rightarrow> r = Inr () \<and> (\<forall>a c. conf_lookup conf' a c = (if (a, c) = (t, n) then Some x else conf_lookup conf a c)))"
proof -
  let ?v = "cf_next conf"
  obtain c1 where c1: "CONF_VALUE_new mem conf = Some (?v, c1)" "load_inv c1 s sv K" "\<forall>a b. conf_lookup c1 a b = conf_lookup conf a b"
    "?v \<notin> lh_data (cf_data c1)" "cf_heap c1 ?v \<noteq> None"
    using value_new_load_inv [OF mem inv] by blast
  have i1: "conf_inv c1" and s: "0 \<notin> set s" "length s < 2 ^ 61" using c1(2) by (simp_all add: load_inv_def)
  have "?v < cf_next c1" using i1 c1(5) unfolding conf_inv_def by (meson not_le)
  note out = conf_outside [OF i1 c1(4,5)]
  show ?thesis
  proof (cases "value_text w")
    case (Inl e)
    have "load_assignment mem al conf s sv b ps pname start = Some (Inl e, c1\<lparr>cf_heap := (cf_heap c1)(?v := None)\<rparr>)"
      using c1(1) conf_strdup_ok [OF mem n(2,3)] n(1) w Inl by (simp add: load_assignment_def value_free_def Let_def)
    moreover have "sections_le c1 (K + 1)" using c1(2) by (auto simp: load_inv_def sections_le_def intro: le_SucI)
    ultimately show ?thesis using Inl out c1(2,3) by (simp add: load_inv_def)
  next
    case (Inr x)
    let ?o = "\<lparr>cv_section = None, cv_name = Some n, cv_value = Text (Some x)\<rparr>"
    let ?c2 = "c1\<lparr>cf_heap := (cf_heap c1)(?v := Some ?o)\<rparr>"
    have i2: "load_inv ?c2 s sv K" "cf_heap ?c2 ?v = Some ?o" "?v \<notin> lh_data (cf_data ?c2)" "?v < cf_next ?c2"
      using out c1(2,4) \<open>?v < cf_next c1\<close> by (simp_all add: load_inv_def)
    obtain tv c3 where c3: "(if strcmp t s \<noteq> 0 then find_section mem al ?c2 t else Some (Some sv, ?c2)) = Some (Some tv, c3)"
      "load_inv c3 t tv K" "\<forall>a b. conf_lookup c3 a b = conf_lookup ?c2 a b" "\<forall>q k. conf_at ?c2 q k \<longrightarrow> conf_at c3 q k"
      "?v \<notin> lh_data (cf_data c3)" "cf_heap c3 ?v = Some ?o"
    proof (cases "t = s")
      case True
      then show ?thesis using that [of sv ?c2] i2 by simp
    next
      case False
      have "conf_inv ?c2" "sections_le ?c2 K" using i2(1) by (simp_all add: load_inv_def)
      from find_section_ok [OF mem this ps(2,3)] show ?thesis using that False i2(2-4) by (metis strcmp_eq)
    qed
    have i3: "conf_inv c3" "conf_at c3 tv (Some t, None)" "sections_le c3 K" using c3(2) by (simp_all add: load_inv_def)
    obtain ov sk where o: "cf_heap c3 tv = Some ov" "cv_value ov = Section_stack sk" "st_num sk \<le> K" using section_object [OF i3] by blast
    have lt: "st_num sk < 2147483647" using o(3) K by simp
    obtain c4 sk' where c4: "add_string mem al c3 tv ?v = Some (True, c4)" "conf_upd c3 ?v (Some t, Some n) {?v, tv} c4"
      "cf_heap c4 ?v = Some (?o\<lparr>cv_section := Some t\<rparr>)" "cf_heap c4 tv = Some (ov\<lparr>cv_value := Section_stack sk'\<rparr>)" "st_num sk' \<le> st_num sk + 1"
      using add_string_ok [OF mem i3(1,2) o(1,2) lt ps(2,3) c3(5,6), of n x] by auto
    have at4: "conf_at c4 q k \<longleftrightarrow> (if k = (Some t, Some n) then q = ?v else conf_at c3 q k)" for q k using c4(2) unfolding conf_upd_def by blast
    have i4: "conf_inv c4" using c4(2) by (simp add: conf_upd_def)
    have "sections_le c4 (K + 1)"
      by (rule conf_upd_sections [OF i3(1) c4(2) i3(3)]) (use c4(3-5) o(3) in auto)
    moreover have "conf_at c4 sv (Some s, None)" using at4 c3(4) i2(1) by (simp add: load_inv_def)
    ultimately have "load_inv c4 s sv (K + 1)" using i4 s by (simp add: load_inv_def)
    moreover have "conf_lookup c4 a c = (if (a, c) = (t, n) then Some x else conf_lookup conf a c)" for a c
    proof (cases "(a, c) = (t, n)")
      case True
      have "conf_text_at c4 t n x" unfolding conf_text_at_def using at4 [of ?v "(Some t, Some n)"] c4(3) by auto
      then show ?thesis using True get_string_ok(2) [OF i4] by simp
    next
      case False
      have "\<not> conf_at c3 ?v (Some a, Some c)" "\<not> conf_at c3 tv (Some a, Some c)" using c3(5) i3(2) by (auto simp: conf_at_def)
      then have "conf_lookup c4 a c = conf_lookup c3 a c" using conf_upd_lookup [OF i3(1) c4(2)] False by simp
      then show ?thesis using False c3(3) out(3) c1(3) by auto
    qed
    moreover have "load_assignment mem al conf s sv b ps pname start = Some (Inr (), c4)"
      using c1(1) conf_strdup_ok [OF mem n(2,3)] n(1) w Inr ps(1) c3(1) c4(1) by (auto simp: load_assignment_def Let_def)
    ultimately show ?thesis using Inr by simp
  qed
qed

section \<open>Any input\<close>

lemma cstr_split:
  assumes "nul_at b z" "p \<le> z"
  shows "\<exists>u. b = take p b @ cstr (drop p b) @ 0 # u" "0 \<notin> set (cstr (drop p b))" "length (cstr (drop p b)) \<le> z - p" "p \<le> length b"
proof -
  let ?d = "drop p b" and ?k = "z - p"
  have k: "?k < length ?d" "?d ! ?k = 0" using assms by (auto simp: nul_at_def)
  then have le: "length (cstr ?d) \<le> ?k" unfolding cstr_def by (metis (mono_tags, lifting) not_le nth_mem set_takeWhileD takeWhile_nth)
  then show "length (cstr ?d) \<le> z - p" .
  show "0 \<notin> set (cstr ?d)" unfolding cstr_def by (metis (mono_tags, lifting) set_takeWhileD)
  have l: "length (cstr ?d) < length ?d" using le k(1) by simp
  have "?d ! length (cstr ?d) = 0" using nth_length_takeWhile [of "\<lambda>c. c \<noteq> 0" ?d] l by (simp add: cstr_def)
  then have "?d = cstr ?d @ 0 # drop (Suc (length (cstr ?d))) ?d"
    using id_take_nth_drop [OF l] takeWhile_eq_take [of "\<lambda>c. c \<noteq> 0" ?d] by (simp add: cstr_def)
  then show "\<exists>u. b = take p b @ cstr ?d @ 0 # u" by (metis append_take_drop_id)
  show "p \<le> length b" using assms by (simp add: nul_at_def)
qed

lemma str_copy_at:
  assumes "memory_ok mem al" "nul_at b z" "p \<le> z" "z < 2147483647"
  shows "str_copy mem b p = Some (value_text (cstr (drop p b)))"
proof -
  obtain u where u: "b = take p b @ cstr (drop p b) @ 0 # u" using cstr_split(1) [OF assms(2,3)] by blast
  have l: "length (take p b) = p" "length (cstr (drop p b)) < 2147483647" using cstr_split(3,4) [OF assms(2,3)] assms(4) by simp_all
  have "alloc_ok mem" "\<forall>m. mem m \<noteq> None" using assms(1) by (simp_all add: memory_ok_def)
  then show ?thesis using str_copy_ok [OF _ cstr_split(2) [OF assms(2,3)] l(2), of mem "take p b" u] l(1) u by metis
qed

lemma load_inv_mono: "load_inv conf s sv K \<Longrightarrow> K \<le> K' \<Longrightarrow> load_inv conf s sv K'"
  unfolding load_inv_def sections_le_def by (meson le_trans)

lemma load_line_ok:
  assumes mem: "memory_ok mem al" and inv: "load_inv conf s sv K" and K: "K < 2147483647" and z: "nul_at b z" "z < 2147483647"
  shows "\<exists>r conf'. load_line mem al conf s sv b = Some (r, conf') \<and> (\<exists>s' sv'. load_inv conf' s' sv' (K + 1)) \<and>
    (\<forall>s' sv' b'. r = Inr (s', sv', b') \<longrightarrow> load_inv conf' s' sv' (K + 1) \<and> length b' = length b)"
proof -
  have inv': "load_inv conf s sv (K + 1)" using load_inv_mono [OF inv] by simp
  obtain r where r: "scan_line b = Some r" "\<forall>x. r = Inr x \<longrightarrow> (\<exists>z' \<le> z. text_ok z' b x)" using scan_line_safe [OF z(1)] by blast
  show ?thesis
  proof (cases r)
    case (Inl e)
    then show ?thesis using r(1) inv' by (auto simp: load_line_def)
  next
    case (Inr x)
    obtain ct b' where x: "x = (ct, b')" by (cases x)
    obtain z' where z': "z' \<le> z" "nul_at b' z'" "length b' = length b" "text_ok z' b (ct, b')" using r(2) Inr x by (auto simp: text_ok_def)
    have z2: "z' < 2147483647" using z'(1) z(2) by simp
    have small: "length (cstr (drop p b')) < 2 ^ 61" if "p \<le> z'" for p using cstr_split(3) [OF z'(2) that] z2 by simp
    show ?thesis
    proof (cases ct)
      case Blank
      then show ?thesis using r(1) Inr x inv' z'(3) by (auto simp: load_line_def)
    next
      case (Header start)
      then have st: "start \<le> z'" using z'(4) by (simp add: text_ok_def)
      let ?w = "cstr (drop start b')"
      note c = str_copy_at [OF mem z'(2) st z2]
      show ?thesis
      proof (cases "value_text ?w")
        case (Inl e)
        then show ?thesis using r(1) Inr x Header c inv' by (auto simp: load_line_def load_header_def)
      next
        case (Inr sec)
        then have sec: "0 \<notin> set sec" "length sec < 2 ^ 61" using value_text_length [OF Inr] cstr_split(2) [OF z'(2) st] small [OF st] by auto
        have i: "conf_inv conf" "sections_le conf K" using inv by (simp_all add: load_inv_def)
        obtain p conf' where "find_section mem al conf sec = Some (Some p, conf')" "load_inv conf' sec p K" using find_section_ok [OF mem i sec] by blast
        then show ?thesis using r(1) \<open>r = Inr x\<close> x Header c Inr z'(3) load_inv_mono [of conf' sec p K "K + 1"] by (auto simp: load_line_def load_header_def)
      qed
    next
      case (Assignment ps n start)
      then have p: "\<And>q. ps = Some q \<Longrightarrow> q \<le> z'" "n \<le> z'" "start \<le> z'" using z'(4) by (simp_all add: text_ok_def)
      let ?t = "case ps of None \<Rightarrow> s | Some q \<Rightarrow> cstr (drop q b')"
      have t: "ps = None \<and> ?t = s \<or> (\<exists>q. ps = Some q \<and> ?t = cstr (drop q b'))" "0 \<notin> set ?t" "length ?t < 2 ^ 61"
        using p(1) cstr_split(2) [OF z'(2)] small inv by (auto simp: load_inv_def split: option.splits)
      from load_assignment_ok [OF mem inv K t refl cstr_split(2) [OF z'(2) p(2)] small [OF p(2)] str_copy_at [OF mem z'(2) p(3) z2]]
      obtain q conf' where "load_assignment mem al conf s sv b' ps n start = Some (q, conf')" "load_inv conf' s sv (K + 1)" by blast
      then show ?thesis using r(1) Inr x Assignment z'(3) by (auto simp: load_line_def map_sum_def split: sum.splits)
    qed
  qed
qed

lemma conf_gets_ok:
  assumes mem: "memory_ok mem al" and inv: "bm_inv buff" and n: "bufnum < 2147483647" and g: "length g \<le> 510"
  shows "\<exists>buff' pre post. conf_gets mem buff bufnum g = Some (Some buff') \<and> bm_inv buff' \<and> bm_data buff' = pre @ g @ 0 # post \<and> length pre = bufnum"
proof -
  have m: "alloc_ok mem" "\<forall>m. mem m \<noteq> None" using mem by (simp_all add: memory_ok_def)
  have "bufnum + 512 < SIZE_MOD" "bufnum + 512 \<noteq> 0" "\<not> 2 ^ 61 < bufnum + 512" using n by auto
  then obtain b where b: "BUF_MEM_grow mem buff (bufnum + 512) = Some (bufnum + 512, b)" "bm_inv b" "bm_length b = bufnum + 512"
    using bm_grow_ok [OF m(1) inv, of "bufnum + 512"] m(2) by blast
  let ?d = "bm_data b" and ?l = "length g"
  have l: "bufnum + 512 \<le> length ?d" using b(2,3) by (simp add: bm_inv_def)
  have w: "cells_write ?d bufnum (g @ [0]) = Some (take bufnum ?d @ g @ 0 # drop (bufnum + ?l + 1) ?d)"
    using l g by (simp add: cells_write_def)
  let ?e = "drop (bufnum + ?l + 1) ?d"
  have "(take bufnum ?d @ g @ 0 # ?e)[bufnum + 511 := 0] = take bufnum ?d @ g @ 0 # ?e[510 - ?l := 0]"
  proof -
    have "bufnum + 511 = length (take bufnum ?d @ g @ [0]) + (510 - ?l)" using l g by simp
    then have "((take bufnum ?d @ g @ [0]) @ ?e)[bufnum + 511 := 0] = (take bufnum ?d @ g @ [0]) @ ?e[510 - ?l := 0]"
      by (simp only: list_update_append) simp
    then show ?thesis by simp
  qed
  moreover have len: "length (take bufnum ?d @ g @ 0 # ?e) = length ?d" using l g by simp
  moreover define B where "B = b\<lparr>bm_data := take bufnum ?d @ g @ 0 # ?e[510 - ?l := 0]\<rparr>"
  ultimately have "conf_gets mem buff bufnum g = Some (Some B)"
    using b w l by (simp add: conf_gets_def CONFBUFSIZE_def add.commute [of 511])
  moreover have "bm_inv B" using b(2,3) len by (simp add: B_def bm_inv_def)
  moreover have "bm_data B = take bufnum ?d @ g @ 0 # ?e[510 - ?l := 0]" "length (take bufnum ?d) = bufnum" using l by (simp_all add: B_def)
  ultimately show ?thesis by blast
qed

text \<open>One iteration of the loop, for a string \<open>g\<close> that \<open>BIO_gets\<close> can store.\<close>

lemma cstr_nul: "cstr (g @ 0 # post) = cstr g"
  by (induction g) (auto simp: cstr_def)

definition loop_step ::
    "allocator \<Rightarrow> nat cell_allocator \<Rightarrow> bytes \<Rightarrow> bytes list \<Rightarrow> nat \<Rightarrow> bool \<Rightarrow> bytes \<Rightarrow> nat \<Rightarrow> conf \<Rightarrow>
      ((conf_error \<times> nat + unit) \<times> conf) option \<Rightarrow> BUF_MEM \<Rightarrow> nat \<Rightarrow> nat \<Rightarrow> bool" where
  "loop_step mem al g gs bufnum again s sv conf L buff i eline \<longleftrightarrow> bm_inv buff \<and> i \<le> length (cstr g) \<and>
     (length (cstr g) = 0 \<and> \<not> again \<longrightarrow> L = Some (Inr (), conf)) \<and>
     (length (cstr g) \<noteq> 0 \<or> again \<longrightarrow> continues (bm_data buff) (bufnum + i) \<longrightarrow> L = load_loop mem al gs buff (bufnum + i - 1) True eline s sv conf) \<and>
     (length (cstr g) \<noteq> 0 \<and> i = length (cstr g) \<longrightarrow> \<not> continues (bm_data buff) (bufnum + i) \<longrightarrow> L = load_loop mem al gs buff (bufnum + i) True eline s sv conf) \<and>
     (length (cstr g) = 0 \<and> again \<or> i \<noteq> length (cstr g) \<longrightarrow> nul_at (bm_data buff) (bufnum + i)) \<and>
     (length (cstr g) = 0 \<and> again \<or> i \<noteq> length (cstr g) \<longrightarrow> \<not> continues (bm_data buff) (bufnum + i) \<longrightarrow>
       L = (case load_line mem al conf s sv (bm_data buff) of
            None \<Rightarrow> None
          | Some (Inl e, conf) \<Rightarrow> Some (Inl (e, eline), conf)
          | Some (Inr (s, sv, d), conf) \<Rightarrow> load_loop mem al gs (buff\<lparr>bm_data := d\<rparr>) 0 False eline s sv conf))"

lemma load_loop_step:
  assumes mem: "memory_ok mem al" and buff: "bm_inv buff" and g: "(case gets of [] \<Rightarrow> [] | g # gs \<Rightarrow> g) = g" "tl gets = gs" "length g \<le> 510"
    and n: "bufnum + length g < 2147483647"
  shows "\<exists>buff' i eline'. loop_step mem al g gs bufnum again s sv conf (load_loop mem al gets buff bufnum again eline s sv conf) buff' i eline'"
proof -
  let ?w = "cstr g"
  have "bufnum < 2147483647" using n by simp
  then obtain b pre post where b: "conf_gets mem buff bufnum g = Some (Some b)" "bm_inv b" "bm_data b = pre @ g @ 0 # post" "length pre = bufnum"
    using conf_gets_ok [OF mem buff _ g(3)] by blast
  have "nul_at (g @ 0 # post) (length g)" by (simp add: nul_at_def)
  from cstr_split [OF this, of 0] have w: "\<exists>v. g @ 0 # post = ?w @ 0 # v" "0 \<notin> set ?w" "length ?w \<le> length g" by (simp_all add: cstr_nul)
  have "drop bufnum (bm_data b) = g @ 0 # post" using b(3,4) by simp
  then have len: "strlen (drop bufnum (bm_data b)) = Some (length ?w)" using w(1,2) by (metis strlen_append)
  define i where "i = strip_eol (bm_data b) bufnum (length ?w)"
  define b' where "b' = (if length ?w \<noteq> 0 \<and> i = length ?w then b else b\<lparr>bm_data := (bm_data b)[bufnum + i := 0]\<rparr>)"
  define eline' where "eline' = (if length ?w \<noteq> 0 \<and> i = length ?w then eline else eline + 1)"
  have i: "i \<le> length ?w" unfolding i_def by (rule strip_eol_le)
  have ok: "\<not> (of_nat (bufnum + i) :: u64) > 0x7fffffff"
    using i w(3) n unat_of_nat_less [of "bufnum + i", where ?'a = 64] by (simp add: word_less_nat_alt)
  have "bufnum + i < length (bm_data b)" using i w(3) b(3,4) by simp
  then have z: "length ?w = 0 \<or> i \<noteq> length ?w \<Longrightarrow> nul_at (bm_data b') (bufnum + i)" by (auto simp: nul_at_def b'_def)
  have inv: "bm_inv b'" using b(2) by (simp add: bm_inv_def b'_def)
  have L: "load_loop mem al gets buff bufnum again eline s sv conf =
      (if length ?w = 0 \<and> \<not> again then Some (Inr (), conf)
       else if continues (bm_data b') (bufnum + i) then load_loop mem al gs b' (bufnum + i - 1) True eline' s sv conf
       else if length ?w \<noteq> 0 \<and> i = length ?w then load_loop mem al gs b' (bufnum + i) True eline' s sv conf
       else case load_line mem al conf s sv (bm_data b') of
           None \<Rightarrow> None
         | Some (Inl e, conf) \<Rightarrow> Some (Inl (e, eline'), conf)
         | Some (Inr (s, sv, d), conf) \<Rightarrow> load_loop mem al gs (b'\<lparr>bm_data := d\<rparr>) 0 False eline' s sv conf)"
    unfolding load_loop.simps [of mem al gets buff bufnum] g(1,2) b(1) option.case len Let_def i_def [symmetric] b'_def [symmetric] eline'_def [symmetric] if_not_P [OF ok]
    by (rule refl)
  show ?thesis
    unfolding loop_step_def L using inv i z by (intro exI [of _ b'] exI [of _ i] exI [of _ eline']) auto
qed

text \<open>The results of loading that the loop may have: an error or the end, with a well-formed database.\<close>

definition load_ok :: "((conf_error \<times> nat + unit) \<times> conf) option \<Rightarrow> bool" where
  "load_ok x \<longleftrightarrow> (\<exists>r conf. x = Some (r, conf) \<and> conf_inv conf)"

lemma load_line_step:
  assumes mem: "memory_ok mem al" and inv: "load_inv conf s sv K" and K: "K < 2147483647" and buff: "bm_inv buff" "nul_at (bm_data buff) z" "z < 2147483647"
    and rest: "\<And>buff s sv conf. bm_inv buff \<Longrightarrow> load_inv conf s sv (K + 1) \<Longrightarrow> load_ok (f buff s sv conf)"
  shows "load_ok (case load_line mem al conf s sv (bm_data buff) of
      None \<Rightarrow> None
    | Some (Inl e, conf) \<Rightarrow> Some (Inl (e, eline), conf)
    | Some (Inr (s, sv, d), conf) \<Rightarrow> f (buff\<lparr>bm_data := d\<rparr>) s sv conf)"
proof -
  obtain r conf' where r: "load_line mem al conf s sv (bm_data buff) = Some (r, conf')" "\<exists>s' sv'. load_inv conf' s' sv' (K + 1)"
    "\<forall>s' sv' b'. r = Inr (s', sv', b') \<longrightarrow> load_inv conf' s' sv' (K + 1) \<and> length b' = length (bm_data buff)"
    using load_line_ok [OF mem inv K buff(2,3)] by blast
  show ?thesis
  proof (cases r)
    case (Inl e)
    then show ?thesis using r(1,2) by (auto simp: load_ok_def load_inv_def)
  next
    case (Inr x)
    obtain s' sv' d where x: "x = (s', sv', d)" by (cases x)
    then have "bm_inv (buff\<lparr>bm_data := d\<rparr>)" using r(3) Inr buff(1) by (simp add: bm_inv_def)
    then show ?thesis using rest [of "buff\<lparr>bm_data := d\<rparr>" conf' s' sv'] r(1,3) Inr x by simp
  qed
qed

text \<open>A result of the loop is fine if the results after its next step are.\<close>

lemma loop_step_ok:
  assumes mem: "memory_ok mem al" and inv: "load_inv conf s sv K" "K < 2147483647" and L: "loop_step mem al g gs bufnum again s sv conf L buff i eline"
    and n: "bufnum + i < 2147483647"
    and more: "\<And>b k. bm_inv b \<Longrightarrow> k \<le> bufnum + i \<Longrightarrow> (length (cstr g) = 0 \<Longrightarrow> k < bufnum) \<Longrightarrow> load_ok (load_loop mem al gs b k True eline s sv conf)"
    and line: "\<And>b s sv conf. bm_inv b \<Longrightarrow> load_inv conf s sv (K + 1) \<Longrightarrow> load_ok (load_loop mem al gs b 0 False eline s sv conf)"
  shows "load_ok L"
proof -
  have b: "bm_inv buff" "i \<le> length (cstr g)" using L by (simp_all add: loop_step_def)
  consider (stop) "length (cstr g) = 0" "\<not> again" | (cont) "length (cstr g) \<noteq> 0 \<or> again" "continues (bm_data buff) (bufnum + i)"
    | (long) "length (cstr g) \<noteq> 0 \<and> i = length (cstr g)" "\<not> continues (bm_data buff) (bufnum + i)"
    | (line) "length (cstr g) = 0 \<and> again \<or> i \<noteq> length (cstr g)" "\<not> continues (bm_data buff) (bufnum + i)" by blast
  then show ?thesis
  proof cases
    case stop
    then show ?thesis using L inv(1) by (simp add: loop_step_def load_ok_def load_inv_def)
  next
    case cont
    then have "L = load_loop mem al gs buff (bufnum + i - 1) True eline s sv conf" "bufnum + i \<ge> 1" using L by (auto simp: loop_step_def continues_def)
    moreover from this(2) have "length (cstr g) = 0 \<Longrightarrow> bufnum + i - 1 < bufnum" using b(2) by simp
    ultimately show ?thesis using more [OF b(1), of "bufnum + i - 1"] by simp
  next
    case long
    then have "L = load_loop mem al gs buff (bufnum + i) True eline s sv conf" using L by (auto simp: loop_step_def)
    then show ?thesis using more [of buff "bufnum + i"] b long by auto
  next
    case line': line
    have z: "nul_at (bm_data buff) (bufnum + i)" using L line' by (auto simp: loop_step_def)
    have e: "L = (case load_line mem al conf s sv (bm_data buff) of
            None \<Rightarrow> None
          | Some (Inl e, conf) \<Rightarrow> Some (Inl (e, eline), conf)
          | Some (Inr (s, sv, d), conf) \<Rightarrow> load_loop mem al gs (buff\<lparr>bm_data := d\<rparr>) 0 False eline s sv conf)"
      using L line' unfolding loop_step_def by blast
    show ?thesis unfolding e by (rule load_line_step [OF mem inv b(1) z n]) (rule line)
  qed
qed

lemma load_loop_end:
  assumes mem: "memory_ok mem al"
  shows "load_inv conf s sv K \<Longrightarrow> K < 2147483647 \<Longrightarrow> bm_inv buff \<Longrightarrow> bufnum < 2147483647 \<Longrightarrow>
    load_ok (load_loop mem al [] buff bufnum again eline s sv conf)"
proof (induction bufnum arbitrary: buff again eline rule: less_induct)
  case (less n)
  have e: "length (cstr []) = 0" by (simp add: cstr_def)
  have fin: "load_ok (load_loop mem al [] b 0 False e t p c)" if "bm_inv b" "load_inv c t p k" for b e t p c k
  proof -
    have "length (cstr []) = 0" by (simp add: cstr_def)
    then show ?thesis using load_loop_step [OF mem that(1), of "[]" "[]" "[]" 0 False t p c e] that(2)
      by (auto simp: load_ok_def load_inv_def loop_step_def)
  qed
  obtain b i l where L: "loop_step mem al [] [] n again s sv conf (load_loop mem al [] buff n again eline s sv conf) b i l"
    using load_loop_step [OF mem less.prems(3), of "[]" "[]" "[]" n again s sv conf eline] less.prems(4) by auto
  then have i: "i = 0" using e by (simp add: loop_step_def)
  show ?case
    by (rule loop_step_ok [OF mem less.prems(1,2) L]) (use i e less.prems(4) less.IH less.prems(1,2) fin in auto)
qed

lemma load_loop_ok:
  assumes mem: "memory_ok mem al"
  shows "load_inv conf s sv K \<Longrightarrow> bm_inv buff \<Longrightarrow> \<forall>g \<in> set gets. length g \<le> 510 \<Longrightarrow>
    bufnum + sum_list (map length gets) < 2147483647 \<Longrightarrow> K + length gets < 2147483647 \<Longrightarrow>
    load_ok (load_loop mem al gets buff bufnum again eline s sv conf)"
proof (induction gets arbitrary: conf s sv K buff bufnum again eline)
  case Nil
  then show ?case using load_loop_end [OF mem] by simp
next
  case (Cons g gets)
  have g: "length g \<le> 510" "bufnum + length g < 2147483647" "\<forall>g \<in> set gets. length g \<le> 510" "length (cstr g) \<le> length g"
    using Cons.prems(3,4) by (auto simp: cstr_def length_takeWhile_le)
  obtain b i l where L: "loop_step mem al g gets bufnum again s sv conf (load_loop mem al (g # gets) buff bufnum again eline s sv conf) b i l"
    using load_loop_step [OF mem Cons.prems(2) _ _ g(1,2), of "g # gets" gets again s sv conf eline] by auto
  then have i: "i \<le> length g" using g(4) by (simp add: loop_step_def)
  have K: "K < 2147483647" "K + length gets < 2147483647" "K + 1 + length gets < 2147483647" using Cons.prems(5) by simp_all
  show ?case
  proof (rule loop_step_ok [OF mem Cons.prems(1) K(1) L])
    show "bufnum + i < 2147483647" using i g(2) by simp
    fix b k assume "bm_inv b" "k \<le> bufnum + i"
    then show "load_ok (load_loop mem al gets b k True l s sv conf)"
      using Cons.prems(4) i by (intro Cons.IH [OF Cons.prems(1) _ g(3) _ K(2)]) auto
  next
    fix b s sv conf assume "bm_inv b" "load_inv conf s sv (K + 1)"
    then show "load_ok (load_loop mem al gets b 0 False l s sv conf)"
      using Cons.prems(4) by (intro Cons.IH [OF _ _ g(3) _ K(3)]) auto
  qed
qed

text \<open>Loading keeps the database well typed.\<close>

lemma default_name: "0 \<notin> set kDefaultSectionName" "length kDefaultSectionName < 2 ^ 61"
  by (simp_all add: kDefaultSectionName_def)

lemma load_bio_ok:
  assumes mem: "memory_ok mem al" and inv: "conf_inv conf" "sections_le conf K"
    and gets: "\<forall>g \<in> set gets. length g \<le> 510" "sum_list (map length gets) < 2147483647" "K + length gets < 2147483647"
  shows "load_ok (NCONF_load_bio mem al conf gets)"
proof -
  obtain buff where b: "BUF_MEM_new mem = Some buff" "bm_inv buff" using conf_malloc_live [OF mem, of 24] by (auto simp: BUF_MEM_new_def bm_inv_def)
  let ?s = kDefaultSectionName and ?p = "cf_next conf"
  obtain conf' sk where n: "NCONF_new_section mem al conf ?s = Some (Some ?p, conf')" "conf_upd conf ?p (Some ?s, None) {} conf'"
    "cf_heap conf' ?p = Some \<lparr>cv_section = Some ?s, cv_name = None, cv_value = Section_stack sk\<rparr>" "st_num sk = 0"
    using new_section_ok [OF mem inv(1) default_name] by blast
  have "sections_le conf' K" by (rule conf_upd_sections [OF inv(1) n(2) inv(2) order_refl]) (use n(3,4) in auto)
  then have "load_inv conf' ?s ?p K" using n(2) default_name by (simp add: load_inv_def conf_upd_def)
  then have "load_ok (load_loop mem al gets buff 0 False 0 ?s ?p conf')" using load_loop_ok [OF mem _ b(2) gets(1)] gets(2,3) by simp
  then show ?thesis using b(1) n(1) conf_strdup_ok [OF mem default_name] by (simp add: NCONF_load_bio_def)
qed

text \<open>A new database.\<close>

lemma conf_new_ok:
  assumes "NCONF_new mem method = Some conf"
  shows "conf_inv conf" "sections_le conf K" "conf_lookup conf s n = None"
proof -
  obtain lh where lh: "OPENSSL_lh_new mem = Some lh" "conf = \<lparr>cf_heap = (\<lambda>p. None), cf_next = 0, cf_data = lh\<rparr>"
    using assms by (auto simp: NCONF_new_def split: if_splits)
  have e: "lh_data (cf_data conf) = {}" using lh_new_ok [OF lh(1)] lh(2) by simp
  have "conf_lh_inv (cf_heap conf) lh" using lh_new_ok [OF lh(1)] by blast
  then show inv: "conf_inv conf" using e lh(2) by (simp add: conf_inv_def)
  show "sections_le conf K" using e by (simp add: sections_le_def)
  have "\<not> conf_text_at conf s n x" for x using e by (simp add: conf_text_at_def conf_at_def)
  then show "conf_lookup conf s n = None" using get_string_ok(2) [OF inv] by (metis option.exhaust)
qed

end
