(* ===== verification/Conf_Text.thy ===== *)
theory Conf_Text
  imports Conf_File
begin

text \<open>
  Files of the usual form: section headers and assignments, one on a line. Loading such a file gives the map that it describes.
\<close>

section \<open>Files\<close>

datatype conf_item = Section_line bytes | Value_line bytes bytes

fun item_line :: "conf_item \<Rightarrow> bytes" where
  "item_line (Section_line s) = 0x5b # s @ [0x5d]"
| "item_line (Value_line n v) = n @ 0x3d # v"

text \<open>
  Names consist of the characters that the scanner takes for names. Values have no outer white space and none of the characters with a
  special meaning (quotes, backslash, comment, dollar, line ends). A line fits into one call of \<open>BIO_gets\<close>.
\<close>

fun wf_item :: "conf_item \<Rightarrow> bool" where
  "wf_item (Section_line s) \<longleftrightarrow> conf_name s \<and> length s \<le> 507"
| "wf_item (Value_line n v) \<longleftrightarrow> conf_name n \<and> plain_value v \<and> plain_line v \<and> (\<forall>c \<in> set v. c \<noteq> 0x24 \<and> c \<noteq> 0x0a \<and> c \<noteq> 0x0d) \<and> length n + length v \<le> 508"

fun item_step :: "conf_item \<Rightarrow> bytes \<times> (bytes \<Rightarrow> bytes \<Rightarrow> bytes option) \<Rightarrow> bytes \<times> (bytes \<Rightarrow> bytes \<Rightarrow> bytes option)" where
  "item_step (Section_line s) (cur, m) = (s, m)"
| "item_step (Value_line n v) (cur, m) = (cur, \<lambda>a b. if (a, b) = (cur, n) then Some v else m a b)"

section \<open>One line\<close>

lemma value_text_plain: "plain_line v \<Longrightarrow> 0x24 \<notin> set v \<Longrightarrow> value_text v = Inr v"
  by (induction v) (auto simp: plain_line_def)

lemma name_text: "conf_name s \<Longrightarrow> value_text s = Inr s \<and> 0 \<notin> set s"
  using name_plain [of s] IS_ALPHA_NUMERIC_PUNCT_special value_text_plain [of s] unfolding conf_name_def by (auto simp: plain_line_def)

lemma item_line_ok:
  assumes "wf_item it"
  shows "plain_line (item_line it)" "length (item_line it) \<le> 509" "item_line it \<noteq> []" "last (item_line it) \<noteq> 0x0a \<and> last (item_line it) \<noteq> 0x0d"
    "\<forall>c \<in> set (item_line it). c \<noteq> 0x0a"
proof -
  have n: "plain_line n \<and> (\<forall>c \<in> set n. c \<noteq> 0x0a \<and> c \<noteq> 0x0d) \<and> n \<noteq> []" if "conf_name n" for n
    using that name_plain [of n] ws_not_name [of 10] ws_not_name [of 13] by (auto simp: conf_name_def)
  show "plain_line (item_line it)" "length (item_line it) \<le> 509" "item_line it \<noteq> []" "last (item_line it) \<noteq> 0x0a \<and> last (item_line it) \<noteq> 0x0d"
    "\<forall>c \<in> set (item_line it). c \<noteq> 0x0a"
    using assms n by (cases it; auto split: if_splits)+
qed

lemma strip_eol_line:
  assumes "l \<noteq> []" "last l \<noteq> 0x0a \<and> last l \<noteq> 0x0d"
  shows "strip_eol (l @ 0x0a # r) 0 (Suc (length l)) = length l"
proof -
  obtain k where k: "length l = Suc k" using assms(1) by (cases l) auto
  then have "l ! k = last l" using assms(1) by (simp add: last_conv_nth)
  then show ?thesis using assms(2) k by (simp add: nth_append)
qed

text \<open>A line of a file goes through the loop once.\<close>

lemma load_loop_line:
  assumes mem: "memory_ok mem al" and buff: "bm_inv buff" and it: "wf_item it"
  shows "\<exists>buff' post. bm_inv buff' \<and> bm_data buff' = item_line it @ 0 # post \<and>
    load_loop mem al ((item_line it @ [0x0a]) # gs) buff 0 False eline s sv conf =
      (case load_line mem al conf s sv (bm_data buff') of
         None \<Rightarrow> None
       | Some (Inl e, conf) \<Rightarrow> Some (Inl (e, eline + 1), conf)
       | Some (Inr (s, sv, d), conf) \<Rightarrow> load_loop mem al gs (buff'\<lparr>bm_data := d\<rparr>) 0 False (eline + 1) s sv conf)"
proof -
  note l = item_line_ok [OF it]
  let ?l = "item_line it" and ?g = "item_line it @ [0x0a]"
  have g: "length ?g \<le> 510" using l(2) by simp
  obtain b pre post where b: "conf_gets mem buff 0 ?g = Some (Some b)" "bm_inv b" "bm_data b = pre @ ?g @ 0 # post" "length pre = 0"
    using conf_gets_ok [OF mem buff _ g, of 0] by auto
  then have d: "bm_data b = ?l @ 0x0a # 0 # post" by simp
  have z: "0 \<notin> set ?g" using l(1) by (auto simp: plain_line_def)
  have len: "strlen (drop 0 (bm_data b)) = Some (Suc (length ?l))" using strlen_append [OF z, of post] d by simp
  have st: "strip_eol (bm_data b) 0 (Suc (length ?l)) = length ?l" unfolding d by (rule strip_eol_line [OF l(3,4)])
  let ?b = "b\<lparr>bm_data := (bm_data b)[0 + length ?l := 0]\<rparr>"
  have d': "bm_data ?b = ?l @ 0 # 0 # post" by (simp add: d list_update_append)
  have nc: "\<not> continues (bm_data ?b) (0 + length ?l)"
  proof -
    have "?l ! (length ?l - 1) = last ?l" using l(3) by (simp add: last_conv_nth)
    moreover have "last ?l \<noteq> 0x5c" using l(1,3) by (auto simp: plain_line_def)
    ultimately show ?thesis using l(3) unfolding continues_def d' by (simp add: nth_append)
  qed
  have ok: "\<not> (of_nat (0 + length ?l) :: u64) > 0x7fffffff"
    using l(2) unat_of_nat_less [of "length ?l", where ?'a = 64] by (simp add: word_less_nat_alt)
  have ne: "\<not> (Suc (length ?l) \<noteq> 0 \<and> length ?l = Suc (length ?l))" "\<not> (Suc (length ?l) = 0 \<and> \<not> False)" by simp_all
  have "load_loop mem al (?g # gs) buff 0 False eline s sv conf =
      (case load_line mem al conf s sv (bm_data ?b) of
         None \<Rightarrow> None
       | Some (Inl e, conf) \<Rightarrow> Some (Inl (e, eline + 1), conf)
       | Some (Inr (s, sv, d), conf) \<Rightarrow> load_loop mem al gs (?b\<lparr>bm_data := d\<rparr>) 0 False (eline + 1) s sv conf)"
    unfolding load_loop.simps [of mem al "?g # gs" buff 0 False] list.case b(1) option.case len Let_def st if_not_P [OF ne(1)] if_not_P [OF ne(2)] if_not_P [OF ok] if_not_P [OF nc] list.sel
    by (rule refl)
  moreover have "bm_inv ?b" using b(2) by (simp add: bm_inv_def)
  ultimately show ?thesis using d' by blast
qed

text \<open>What the line does to the database.\<close>

lemma str_copy_text:
  assumes "memory_ok mem al" "b = pre @ w @ 0 # post" "0 \<notin> set w" "length w < 2147483647"
  shows "str_copy mem b (length pre) = Some (value_text w)"
proof -
  have "alloc_ok mem" "\<forall>m. mem m \<noteq> None" using assms(1) by (simp_all add: memory_ok_def)
  then show ?thesis using str_copy_ok [OF _ assms(3,4)] assms(2) by blast
qed

lemma load_line_item:
  assumes mem: "memory_ok mem al" and inv: "load_inv conf s sv K" and K: "K < 2147483647" and it: "wf_item it" and b: "b = item_line it @ 0 # post"
  shows "\<exists>s' sv' d conf'. load_line mem al conf s sv b = Some (Inr (s', sv', d), conf') \<and> load_inv conf' s' sv' (K + 1) \<and> length d = length b \<and>
    (s', conf_lookup conf') = item_step it (s, conf_lookup conf)"
proof -
  have z: "nul_at b (length (item_line it))" "length (item_line it) < 2147483647" using b item_line_ok(2) [OF it] by (simp_all add: nul_at_def)
  have ci: "conf_inv conf" "sections_le conf K" "0 \<notin> set s" "length s < 2 ^ 61" using inv by (simp_all add: load_inv_def)
  obtain s' sv' d conf' where L: "load_line mem al conf s sv b = Some (Inr (s', sv', d), conf')" "(s', conf_lookup conf') = item_step it (s, conf_lookup conf)"
  proof (cases it)
    case (Section_line n)
    have n: "conf_name n" "length n \<le> 507" using it Section_line by simp_all
    then have t: "value_text n = Inr n" "0 \<notin> set n" using name_text [OF n(1)] by simp_all
    have "b = [] @ 0x5b # [] @ n @ [] @ 0x5d # [] @ 0 # post" using b Section_line by simp
    from scan_line_header [OF _ n(1) _ this] obtain u where u: "scan_line b = Some (Inr (Header 1, [0x5b] @ n @ 0 # u))" by auto
    have "str_copy mem ([0x5b] @ n @ 0 # u) 1 = Some (Inr n)" using str_copy_text [OF mem refl t(2), of "[0x5b]" u] n(2) t(1) by simp
    moreover obtain p conf' where "find_section mem al conf n = Some (Some p, conf')" "\<forall>a b. conf_lookup conf' a b = conf_lookup conf a b"
      using find_section_ok [OF mem ci(1,2) t(2)] n(2) by auto
    ultimately have "load_line mem al conf s sv b = Some (Inr (n, p, [0x5b] @ n @ 0 # u), conf')" "conf_lookup conf' = conf_lookup conf"
      using u by (auto simp: load_line_def load_header_def)
    then show ?thesis using that Section_line by simp
  next
    case (Value_line n v)
    have n: "conf_name n" "plain_value v" "plain_line v" "0x24 \<notin> set v" "length n \<le> 508" "length v \<le> 508" using it Value_line by auto
    have t: "value_text v = Inr v" "0 \<notin> set v" "0 \<notin> set n" using value_text_plain [OF n(3,4)] n(2) name_text [OF n(1)] by (simp_all add: plain_value_def)
    have "b = [] @ n @ [] @ 0x3d # [] @ v @ [] @ 0 # post" using b Value_line by simp
    from scan_line_assignment [OF _ n(1-3) _ this] obtain d start u u' where u: "scan_line b = Some (Inr (Assignment None 0 start, d))"
      "d = n @ 0 # u" "d = take start d @ v @ 0 # u'" "start \<le> length d" by auto
    have c: "str_copy mem d start = Some (value_text v)" using str_copy_text [OF mem u(3) t(2)] n(6) u(4) by simp
    have nm: "cstr (drop 0 d) = n" using u(2) t(3) by simp
    have ll: "length n < 2 ^ 61" using n(5) by simp
    obtain conf' where "load_assignment mem al conf s sv d None 0 start = Some (Inr (), conf')"
      "\<forall>a c. conf_lookup conf' a c = (if (a, c) = (s, n) then Some v else conf_lookup conf a c)"
      using load_assignment_ok [OF mem inv K _ ci(3,4) nm t(3) ll c, of None] t(1) by auto
    then show ?thesis using that [of s sv d conf'] u(1) Value_line by (auto simp: load_line_def)
  qed
  then show ?thesis using load_line_ok [OF mem inv K z] by auto
qed

section \<open>A file\<close>

lemma load_loop_done:
  assumes "memory_ok mem al" "bm_inv buff"
  shows "load_loop mem al [] buff 0 False eline s sv conf = Some (Inr (), conf)"
  using load_loop_step [OF assms, of "[]" "[]" "[]" 0 False s sv conf eline] by (auto simp: loop_step_def cstr_def)

lemma load_loop_items:
  assumes mem: "memory_ok mem al"
  shows "load_inv conf s sv K \<Longrightarrow> bm_inv buff \<Longrightarrow> \<forall>it \<in> set items. wf_item it \<Longrightarrow> K + length items < 2147483647 \<Longrightarrow>
    \<exists>conf'. load_loop mem al (map (\<lambda>it. item_line it @ [0x0a]) items) buff 0 False eline s sv conf = Some (Inr (), conf') \<and> conf_inv conf' \<and>
      conf_lookup conf' = snd (fold item_step items (s, conf_lookup conf))"
proof (induction items arbitrary: conf s sv K buff eline)
  case Nil
  then show ?case using load_loop_done [OF mem] by (simp add: load_inv_def)
next
  case (Cons it items)
  have it: "wf_item it" and K: "K < 2147483647" "K + 1 + length items < 2147483647" using Cons.prems(3,4) by simp_all
  obtain b post where b: "bm_inv b" "bm_data b = item_line it @ 0 # post" and
    L: "load_loop mem al ((item_line it @ [0x0a]) # map (\<lambda>it. item_line it @ [0x0a]) items) buff 0 False eline s sv conf =
      (case load_line mem al conf s sv (bm_data b) of
         None \<Rightarrow> None
       | Some (Inl e, conf) \<Rightarrow> Some (Inl (e, eline + 1), conf)
       | Some (Inr (s, sv, d), conf) \<Rightarrow> load_loop mem al (map (\<lambda>it. item_line it @ [0x0a]) items) (b\<lparr>bm_data := d\<rparr>) 0 False (eline + 1) s sv conf)"
    using load_loop_line [OF mem Cons.prems(2) it] by blast
  obtain s' sv' d conf' where l: "load_line mem al conf s sv (bm_data b) = Some (Inr (s', sv', d), conf')" "load_inv conf' s' sv' (K + 1)" "length d = length (bm_data b)"
    "(s', conf_lookup conf') = item_step it (s, conf_lookup conf)"
    using load_line_item [OF mem Cons.prems(1) K(1) it b(2)] by blast
  have i: "bm_inv (b\<lparr>bm_data := d\<rparr>)" using b(1) l(3) by (simp add: bm_inv_def)
  have w: "\<forall>it \<in> set items. wf_item it" using Cons.prems(3) by simp
  have f: "fold item_step (it # items) (s, conf_lookup conf) = fold item_step items (s', conf_lookup conf')" using l(4) by simp
  from Cons.IH [OF l(2) i w K(2), of "eline + 1"] show ?case unfolding f list.map L l(1) by simp
qed

text \<open>
  The database after loading a file: the assignments of the file, later ones replacing earlier ones, on top of what was there.
\<close>

lemma load_bio_items:
  assumes mem: "memory_ok mem al" and inv: "conf_inv conf" "sections_le conf K" and items: "\<forall>it \<in> set items. wf_item it" "K + length items < 2147483647"
  shows "\<exists>conf'. NCONF_load_bio mem al conf (map (\<lambda>it. item_line it @ [0x0a]) items) = Some (Inr (), conf') \<and> conf_inv conf' \<and>
    conf_lookup conf' = snd (fold item_step items (kDefaultSectionName, conf_lookup conf))"
proof -
  obtain buff where b: "BUF_MEM_new mem = Some buff" "bm_inv buff" using conf_malloc_live [OF mem, of 24] by (auto simp: BUF_MEM_new_def bm_inv_def)
  let ?s = kDefaultSectionName and ?p = "cf_next conf"
  obtain conf' sk where n: "NCONF_new_section mem al conf ?s = Some (Some ?p, conf')" "conf_upd conf ?p (Some ?s, None) {} conf'"
    "cf_heap conf' ?p = Some \<lparr>cv_section = Some ?s, cv_name = None, cv_value = Section_stack sk\<rparr>" "st_num sk = 0"
    using new_section_ok [OF mem inv(1) default_name] by blast
  have "sections_le conf' K" by (rule conf_upd_sections [OF inv(1) n(2) inv(2) order_refl]) (use n(3,4) in auto)
  then have "load_inv conf' ?s ?p K" using n(2) default_name by (simp add: load_inv_def conf_upd_def)
  moreover have "conf_lookup conf' = conf_lookup conf" using conf_upd_lookup [OF inv(1) n(2)] by auto
  ultimately show ?thesis using load_loop_items [OF mem _ b(2) items, of conf' ?s ?p 0] b(1) n(1) conf_strdup_ok [OF mem default_name]
    by (simp add: NCONF_load_bio_def)
qed

end
