(* ===== verification/Bio_Base.thy ===== *)
theory Bio_Base
  imports Buf
begin

text \<open>
  The \<open>BIO\<close> structure of \<open>include/CNIOBoringSSL_bio.h\<close> and the functions of \<open>crypto/bio/bio.c\<close> that work on one object: flags, fields and the
  reference count. The objects live in a store, the list of all that were ever allocated; a pointer is an index into it, and a freed object
  is \<open>None\<close>. The method tables are those of the memory \<open>BIO\<close> and of the \<open>BIO\<close> pair.
\<close>

section \<open>Data\<close>

datatype bio_method = mem_method | methods_biop

text \<open>
  The pointer \<open>data\<close> of a \<open>BUF_MEM\<close> can move in its array while a read-only \<open>BIO\<close> is read; \<open>mp_off\<close> is its distance from the start.
\<close>

record mem_ptr =
  mp_buf :: BUF_MEM
  mp_off :: nat

record bio_bio_st =
  bb_peer :: "nat option"
  bb_closed :: bool
  bb_len :: nat
  bb_offset :: nat
  bb_size :: nat
  bb_buf :: "bytes option"
  bb_request :: nat

datatype bio_ptr = Null_ptr | Mem_ptr mem_ptr | Pair_ptr bio_bio_st

record bio =
  b_method :: "bio_method option"
  b_init :: bool
  b_shutdown :: int
  b_flags :: u32
  b_retry_reason :: int
  b_num :: int
  b_references :: u32
  b_ptr :: bio_ptr
  b_next_bio :: "nat option"
  b_num_read :: u64
  b_num_write :: u64

type_synonym bios = "bio option list"

definition bio_at :: "bios \<Rightarrow> nat \<Rightarrow> bio option" where
  "bio_at h p = (if p < length h then h ! p else None)"

text \<open>The arguments and results of \<open>BIO_ctrl\<close> that are passed through \<open>void*\<close>.\<close>

datatype bio_arg = No_arg | Out_arg | Buf_mem_arg BUF_MEM | Bio_arg nat

datatype bio_out = No_out | Data_out bytes | Buf_mem_out mem_ptr

datatype bio_cmd =
    BIO_CTRL_RESET | BIO_CTRL_EOF | BIO_CTRL_INFO | BIO_CTRL_GET_CLOSE | BIO_CTRL_SET_CLOSE | BIO_CTRL_PENDING | BIO_CTRL_FLUSH
  | BIO_CTRL_WPENDING | BIO_C_SET_BUF_MEM | BIO_C_GET_BUF_MEM_PTR | BIO_C_SET_BUF_MEM_EOF_RETURN | BIO_C_GET_WRITE_BUF_SIZE
  | BIO_C_GET_WRITE_GUARANTEE | BIO_C_GET_READ_REQUEST | BIO_C_SHUTDOWN_WR | BIO_C_RESET_READ_REQUEST | Other_cmd int

section \<open>Flags\<close>

definition BIO_FLAGS_READ :: u32 where "BIO_FLAGS_READ = 0x01"
definition BIO_FLAGS_WRITE :: u32 where "BIO_FLAGS_WRITE = 0x02"
definition BIO_FLAGS_IO_SPECIAL :: u32 where "BIO_FLAGS_IO_SPECIAL = 0x04"
definition BIO_FLAGS_RWS :: u32 where "BIO_FLAGS_RWS = BIO_FLAGS_READ OR BIO_FLAGS_WRITE OR BIO_FLAGS_IO_SPECIAL"
definition BIO_FLAGS_SHOULD_RETRY :: u32 where "BIO_FLAGS_SHOULD_RETRY = 0x08"
definition BIO_FLAGS_MEM_RDONLY :: u32 where "BIO_FLAGS_MEM_RDONLY = 0x200"
definition kRetryFlags :: u32 where "kRetryFlags = BIO_FLAGS_RWS OR BIO_FLAGS_SHOULD_RETRY"

definition BIO_set_flags :: "bio \<Rightarrow> u32 \<Rightarrow> bio" where
  "BIO_set_flags bio flags = bio\<lparr>b_flags := b_flags bio OR flags\<rparr>"

definition BIO_test_flags :: "bio \<Rightarrow> u32 \<Rightarrow> u32" where
  "BIO_test_flags bio flags = b_flags bio AND flags"

definition BIO_should_read :: "bio \<Rightarrow> u32" where
  "BIO_should_read bio = BIO_test_flags bio BIO_FLAGS_READ"

definition BIO_should_write :: "bio \<Rightarrow> u32" where
  "BIO_should_write bio = BIO_test_flags bio BIO_FLAGS_WRITE"

definition BIO_should_retry :: "bio \<Rightarrow> u32" where
  "BIO_should_retry bio = BIO_test_flags bio BIO_FLAGS_SHOULD_RETRY"

definition BIO_should_io_special :: "bio \<Rightarrow> u32" where
  "BIO_should_io_special bio = BIO_test_flags bio BIO_FLAGS_IO_SPECIAL"

definition BIO_clear_flags :: "bio \<Rightarrow> u32 \<Rightarrow> bio" where
  "BIO_clear_flags bio flags = bio\<lparr>b_flags := b_flags bio AND NOT flags\<rparr>"

definition BIO_set_retry_read :: "bio \<Rightarrow> bio" where
  "BIO_set_retry_read bio = bio\<lparr>b_flags := b_flags bio OR (BIO_FLAGS_READ OR BIO_FLAGS_SHOULD_RETRY)\<rparr>"

definition BIO_set_retry_write :: "bio \<Rightarrow> bio" where
  "BIO_set_retry_write bio = bio\<lparr>b_flags := b_flags bio OR (BIO_FLAGS_WRITE OR BIO_FLAGS_SHOULD_RETRY)\<rparr>"

definition BIO_set_retry_special :: "bio \<Rightarrow> bio" where
  "BIO_set_retry_special bio = bio\<lparr>b_flags := b_flags bio OR (BIO_FLAGS_READ OR BIO_FLAGS_IO_SPECIAL)\<rparr>"

definition BIO_get_retry_flags :: "bio \<Rightarrow> u32" where
  "BIO_get_retry_flags bio = b_flags bio AND kRetryFlags"

definition BIO_clear_retry_flags :: "bio \<Rightarrow> bio" where
  "BIO_clear_retry_flags bio = bio\<lparr>b_flags := b_flags bio AND NOT kRetryFlags, b_retry_reason := 0\<rparr>"

text \<open>\<open>BIO_copy_next_retry\<close> of a filter and the next \<open>BIO\<close> of its chain.\<close>

definition BIO_copy_next_retry :: "bio \<Rightarrow> bio \<Rightarrow> bio" where
  "BIO_copy_next_retry bio next_bio =
     (BIO_set_flags (BIO_clear_retry_flags bio) (BIO_get_retry_flags next_bio))\<lparr>b_retry_reason := b_retry_reason next_bio\<rparr>"

lemmas bio_flag_defs = BIO_FLAGS_READ_def BIO_FLAGS_WRITE_def BIO_FLAGS_IO_SPECIAL_def BIO_FLAGS_RWS_def BIO_FLAGS_SHOULD_RETRY_def
  BIO_FLAGS_MEM_RDONLY_def kRetryFlags_def

section \<open>Reference counts\<close>

text \<open>\<open>crypto/refcount.c\<close>, without interference of other threads. A count at its maximum never changes; \<open>None\<close> is the call of \<open>abort\<close>.\<close>

definition CRYPTO_REFCOUNT_MAX :: u32 where "CRYPTO_REFCOUNT_MAX = 0xffffffff"

definition CRYPTO_refcount_inc :: "u32 \<Rightarrow> u32" where
  "CRYPTO_refcount_inc n = (if n \<noteq> CRYPTO_REFCOUNT_MAX then n + 1 else n)"

definition CRYPTO_refcount_dec_and_test_zero :: "u32 \<Rightarrow> (bool \<times> u32) option" where
  "CRYPTO_refcount_dec_and_test_zero n =
     (if n = 0 then None
      else if n = CRYPTO_REFCOUNT_MAX then Some (False, n)
      else Some (n - 1 = 0, n - 1))"

lemma refcount_inc_dec:
  assumes "0 < unat c" "unat c < 2 ^ 32 - 2"
  shows "CRYPTO_refcount_dec_and_test_zero (CRYPTO_refcount_inc c) = Some (False, c)"
proof -
  have "c \<noteq> CRYPTO_REFCOUNT_MAX" "c + 1 \<noteq> CRYPTO_REFCOUNT_MAX" "c + 1 \<noteq> 0" "c \<noteq> 0"
    using assms by (auto simp: CRYPTO_REFCOUNT_MAX_def unat_plus_if' word_eq_iff_unsigned unat_arith_simps split: if_splits)
  then show ?thesis by (simp add: CRYPTO_refcount_inc_def CRYPTO_refcount_dec_and_test_zero_def)
qed

section \<open>Retry flags\<close>

lemma retry_flags_cleared [simp]:
  "b_flags (BIO_clear_retry_flags bio) AND BIO_FLAGS_MEM_RDONLY = b_flags bio AND BIO_FLAGS_MEM_RDONLY"
  "BIO_should_retry (BIO_clear_retry_flags bio) = 0" "BIO_should_read (BIO_clear_retry_flags bio) = 0" "BIO_should_write (BIO_clear_retry_flags bio) = 0"
  by (simp_all add: BIO_clear_retry_flags_def BIO_should_retry_def BIO_should_read_def BIO_should_write_def BIO_test_flags_def bio_flag_defs and.assoc)

lemma retry_flags_twice [simp]: "BIO_clear_retry_flags (BIO_clear_retry_flags bio) = BIO_clear_retry_flags bio"
  by (simp add: BIO_clear_retry_flags_def and.assoc)

lemma retry_flags_fields [simp]:
  "b_ptr (BIO_clear_retry_flags bio) = b_ptr bio" "b_num (BIO_clear_retry_flags bio) = b_num bio" "b_init (BIO_clear_retry_flags bio) = b_init bio"
  "b_method (BIO_clear_retry_flags bio) = b_method bio" "b_num_read (BIO_clear_retry_flags bio) = b_num_read bio"
  "b_num_write (BIO_clear_retry_flags bio) = b_num_write bio" "b_next_bio (BIO_clear_retry_flags bio) = b_next_bio bio"
  "b_shutdown (BIO_clear_retry_flags bio) = b_shutdown bio" "b_references (BIO_clear_retry_flags bio) = b_references bio"
  by (simp_all add: BIO_clear_retry_flags_def)

end
