(* ===== verification/Bio_Mem.thy ===== *)
theory Bio_Mem
  imports Bio_Base
begin

text \<open>
  The memory \<open>BIO\<close>, \<open>crypto/bio/bio_mem.c\<close>: a queue of bytes, either in a growing buffer of its own or read-only over the caller's array.
  The outer \<open>None\<close> is undefined behaviour. A read returns its result and the bytes stored in the output.
  The arguments of control calls are taken as the \<open>int\<close> that the code casts them to, and a pending length as the \<open>long\<close>.
\<close>

section \<open>The model\<close>

definition mem_rdonly :: "bio \<Rightarrow> bool" where
  "mem_rdonly bio \<longleftrightarrow> b_flags bio AND BIO_FLAGS_MEM_RDONLY \<noteq> 0"

definition mem_new :: "allocator \<Rightarrow> bio \<Rightarrow> bio option" where
  "mem_new mem bio =
     map_option (\<lambda>b. bio\<lparr>b_shutdown := 1, b_init := True, b_num := - 1, b_ptr := Mem_ptr \<lparr>mp_buf = b, mp_off = 0\<rparr>\<rparr>) (BUF_MEM_new mem)"

definition mem_free :: "bio \<Rightarrow> bio" where
  "mem_free bio = (if b_shutdown bio = 0 \<or> \<not> b_init bio \<or> b_ptr bio = Null_ptr then bio else bio\<lparr>b_ptr := Null_ptr\<rparr>)"

definition mem_read :: "bio \<Rightarrow> int \<Rightarrow> (int \<times> bytes \<times> bio) option" where
  "mem_read bio outl =
     (let bio = BIO_clear_retry_flags bio
      in if outl \<le> 0 then Some (0, [], bio)
         else case b_ptr bio of
             Mem_ptr m \<Rightarrow>
               let b = mp_buf m; off = mp_off m;
                   ret = (if nat outl > bm_length b then bm_length b else nat outl)
               in if ret > 0 then
                    if off + ret > length (bm_data b) then None
                    else
                      let out = take ret (drop off (bm_data b)); b = b\<lparr>bm_length := bm_length b - ret\<rparr>
                      in if mem_rdonly bio then Some (int ret, out, bio\<lparr>b_ptr := Mem_ptr \<lparr>mp_buf = b, mp_off = off + ret\<rparr>\<rparr>)
                         else map_option (\<lambda>d. (int ret, out, bio\<lparr>b_ptr := Mem_ptr \<lparr>mp_buf = b\<lparr>bm_data := d\<rparr>, mp_off = off\<rparr>\<rparr>))
                                (cells_move (bm_data b) off (off + ret) (bm_length b))
                  else if bm_length b = 0 then
                    Some (b_num bio, [], if b_num bio \<noteq> 0 then BIO_set_retry_read bio else bio)
                  else Some (int ret, [], bio)
           | _ \<Rightarrow> None)"

text \<open>\<open>BUF_MEM_append\<close> writes at \<open>data\<close>, which is the start of the array in a \<open>BIO\<close> that is not read-only.\<close>

definition mem_write :: "allocator \<Rightarrow> bio \<Rightarrow> bytes \<Rightarrow> (int \<times> bio) option" where
  "mem_write mem bio input =
     (let bio = BIO_clear_retry_flags bio
      in if input = [] then Some (0, bio)
         else if mem_rdonly bio then Some (- 1, bio)
         else case b_ptr bio of
             Mem_ptr m \<Rightarrow>
               if mp_off m \<noteq> 0 then None
               else map_option (\<lambda>(ok, b). (if ok then int (length input) else - 1, bio\<lparr>b_ptr := Mem_ptr (m\<lparr>mp_buf := b\<rparr>)\<rparr>))
                      (BUF_MEM_append mem (mp_buf m) input)
           | _ \<Rightarrow> None)"

definition mem_gets :: "bio \<Rightarrow> int \<Rightarrow> (int \<times> bytes \<times> bio) option" where
  "mem_gets bio n =
     (let bio = BIO_clear_retry_flags bio
      in if n \<le> 0 then Some (0, [], bio)
         else case b_ptr bio of
             Mem_ptr m \<Rightarrow>
               let b = mp_buf m;
                   ret = nat n - 1;
                   ret = (if ret > bm_length b then bm_length b else ret)
               in if mp_off m + ret > length (bm_data b) then None
                  else
                    let ret = (case OPENSSL_memchr (take ret (drop (mp_off m) (bm_data b))) 0x0a of None \<Rightarrow> ret | Some i \<Rightarrow> i + 1)
                    in map_option (\<lambda>(r, out, bio). (r, if r \<ge> 0 then out @ [0] else out, bio)) (mem_read bio (int ret))
           | _ \<Rightarrow> None)"

text \<open>
  The commands of \<open>mem_ctrl\<close>. \<open>BIO_CTRL_INFO\<close> stores the pointer \<open>data\<close>, given here by the bytes it points to; \<open>BIO_C_GET_BUF_MEM_PTR\<close> the
  pointer to the structure, given by its value at the time of the call. A reset of a read-only \<open>BIO\<close> moves \<open>data\<close> back.
\<close>

definition mem_ctrl_buf :: "bio \<Rightarrow> bio_cmd \<Rightarrow> int \<Rightarrow> bio_arg \<Rightarrow> mem_ptr \<Rightarrow> (int \<times> bio_out \<times> bio) option" where
  "mem_ctrl_buf bio cmd num ptr m =
     (let b = mp_buf m
      in case cmd of
          BIO_CTRL_RESET \<Rightarrow>
            if bm_data b = [] then Some (1, No_out, bio)
            else if mem_rdonly bio then
              if bm_length b \<le> bm_max b \<and> bm_max b - bm_length b \<le> mp_off m
              then Some (1, No_out, bio\<lparr>b_ptr := Mem_ptr \<lparr>mp_buf = b\<lparr>bm_length := bm_max b\<rparr>, mp_off = mp_off m - (bm_max b - bm_length b)\<rparr>\<rparr>)
              else None
            else map_option (\<lambda>d. (1, No_out, bio\<lparr>b_ptr := Mem_ptr (m\<lparr>mp_buf := b\<lparr>bm_data := d, bm_length := 0\<rparr>\<rparr>)\<rparr>))
                   (cells_write (bm_data b) (mp_off m) (replicate (bm_max b) 0))
        | BIO_CTRL_EOF \<Rightarrow> Some (if bm_length b = 0 then 1 else 0, No_out, bio)
        | BIO_CTRL_INFO \<Rightarrow> Some (int (bm_length b), if ptr \<noteq> No_arg then Data_out (drop (mp_off m) (bm_data b)) else No_out, bio)
        | BIO_C_GET_BUF_MEM_PTR \<Rightarrow> Some (1, if ptr \<noteq> No_arg then Buf_mem_out m else No_out, bio)
        | BIO_CTRL_PENDING \<Rightarrow> Some (int (bm_length b), No_out, bio)
        | _ \<Rightarrow> None)"

definition mem_ctrl :: "bio \<Rightarrow> bio_cmd \<Rightarrow> int \<Rightarrow> bio_arg \<Rightarrow> (int \<times> bio_out \<times> bio) option" where
  "mem_ctrl bio cmd num ptr =
     (case cmd of
        BIO_C_SET_BUF_MEM_EOF_RETURN \<Rightarrow> Some (1, No_out, bio\<lparr>b_num := num\<rparr>)
      | BIO_C_SET_BUF_MEM \<Rightarrow>
          Some (1, No_out, (mem_free bio)\<lparr>b_shutdown := num,
            b_ptr := (case ptr of Buf_mem_arg b \<Rightarrow> Mem_ptr \<lparr>mp_buf = b, mp_off = 0\<rparr> | _ \<Rightarrow> Null_ptr)\<rparr>)
      | BIO_CTRL_GET_CLOSE \<Rightarrow> Some (b_shutdown bio, No_out, bio)
      | BIO_CTRL_SET_CLOSE \<Rightarrow> Some (1, No_out, bio\<lparr>b_shutdown := num\<rparr>)
      | BIO_CTRL_WPENDING \<Rightarrow> Some (0, No_out, bio)
      | BIO_CTRL_FLUSH \<Rightarrow> Some (1, No_out, bio)
      | BIO_CTRL_RESET \<Rightarrow> (case b_ptr bio of Mem_ptr m \<Rightarrow> mem_ctrl_buf bio cmd num ptr m | _ \<Rightarrow> None)
      | BIO_CTRL_EOF \<Rightarrow> (case b_ptr bio of Mem_ptr m \<Rightarrow> mem_ctrl_buf bio cmd num ptr m | _ \<Rightarrow> None)
      | BIO_CTRL_INFO \<Rightarrow> (case b_ptr bio of Mem_ptr m \<Rightarrow> mem_ctrl_buf bio cmd num ptr m | _ \<Rightarrow> None)
      | BIO_C_GET_BUF_MEM_PTR \<Rightarrow> (case b_ptr bio of Mem_ptr m \<Rightarrow> mem_ctrl_buf bio cmd num ptr m | _ \<Rightarrow> None)
      | BIO_CTRL_PENDING \<Rightarrow> (case b_ptr bio of Mem_ptr m \<Rightarrow> mem_ctrl_buf bio cmd num ptr m | _ \<Rightarrow> None)
      | _ \<Rightarrow> Some (0, No_out, bio))"

section \<open>The queue of bytes\<close>

definition mem_bytes :: "bio \<Rightarrow> bytes" where
  "mem_bytes bio = (case b_ptr bio of Mem_ptr m \<Rightarrow> take (bm_length (mp_buf m)) (drop (mp_off m) (bm_data (mp_buf m))) | _ \<Rightarrow> [])"

definition mem_inv :: "bio \<Rightarrow> bool" where
  "mem_inv bio \<longleftrightarrow> (\<exists>m. b_ptr bio = Mem_ptr m \<and> bm_inv (mp_buf m) \<and>
     (if mem_rdonly bio then mp_off m + bm_length (mp_buf m) = bm_max (mp_buf m) else mp_off m = 0))"

lemma mem_rdonly_clear [simp]: "mem_rdonly (BIO_clear_retry_flags bio) = mem_rdonly bio"
  by (simp add: mem_rdonly_def)

lemma mem_rdonly_ptr [simp]: "mem_rdonly (bio\<lparr>b_ptr := p\<rparr>) = mem_rdonly bio"
  by (simp add: mem_rdonly_def)

lemma mem_bytes_ptr [simp]:
  "mem_bytes (bio\<lparr>b_ptr := Mem_ptr m\<rparr>) = take (bm_length (mp_buf m)) (drop (mp_off m) (bm_data (mp_buf m)))"
  by (simp add: mem_bytes_def)

lemma mem_inv_ptr:
  "mem_inv (bio\<lparr>b_ptr := Mem_ptr m\<rparr>) \<longleftrightarrow> bm_inv (mp_buf m) \<and>
     (if mem_rdonly bio then mp_off m + bm_length (mp_buf m) = bm_max (mp_buf m) else mp_off m = 0)"
  by (simp add: mem_inv_def)

lemma mem_inv_clear [simp]: "mem_inv (BIO_clear_retry_flags bio) = mem_inv bio" "mem_bytes (BIO_clear_retry_flags bio) = mem_bytes bio"
  by (simp_all add: mem_inv_def mem_bytes_def)

lemma retry_read_fields [simp]:
  "b_ptr (BIO_set_retry_read bio) = b_ptr bio" "b_num (BIO_set_retry_read bio) = b_num bio" "b_init (BIO_set_retry_read bio) = b_init bio"
  "b_method (BIO_set_retry_read bio) = b_method bio" "mem_rdonly (BIO_set_retry_read bio) = mem_rdonly bio"
  by (simp_all add: BIO_set_retry_read_def mem_rdonly_def bio_flag_defs bit.conj_disj_distrib2)

lemma mem_inv_retry [simp]: "mem_inv (BIO_set_retry_read bio) = mem_inv bio" "mem_bytes (BIO_set_retry_read bio) = mem_bytes bio"
  by (simp_all add: mem_inv_def mem_bytes_def)

text \<open>The fields that reading and writing leave alone.\<close>

definition same_fields :: "bio \<Rightarrow> bio \<Rightarrow> bool" where
  "same_fields bio bio' \<longleftrightarrow> b_method bio' = b_method bio \<and> b_init bio' = b_init bio \<and> b_shutdown bio' = b_shutdown bio \<and> b_num bio' = b_num bio \<and>
     b_references bio' = b_references bio \<and> b_next_bio bio' = b_next_bio bio \<and> mem_rdonly bio' = mem_rdonly bio"

lemma same_fields_clear: "same_fields bio ((BIO_clear_retry_flags bio)\<lparr>b_ptr := p\<rparr>)" "same_fields bio (BIO_clear_retry_flags bio)"
  "same_fields (BIO_clear_retry_flags bio) bio' \<longleftrightarrow> same_fields bio bio'"
  by (simp_all add: same_fields_def)

lemma mem_read_ok:
  assumes inv: "mem_inv bio" and n: "0 < n" and bs: "mem_bytes bio \<noteq> []"
  shows "\<exists>bio'. mem_read bio n = Some (int (length (take (nat n) (mem_bytes bio))), take (nat n) (mem_bytes bio), bio') \<and>
    mem_inv bio' \<and> mem_bytes bio' = drop (nat n) (mem_bytes bio) \<and> same_fields bio bio' \<and>
    b_num_read bio' = b_num_read bio \<and> b_num_write bio' = b_num_write bio"
proof -
  obtain m where m: "b_ptr bio = Mem_ptr m" "bm_inv (mp_buf m)"
    and off: "if mem_rdonly bio then mp_off m + bm_length (mp_buf m) = bm_max (mp_buf m) else mp_off m = 0"
    using inv unfolding mem_inv_def by blast
  let ?b = "mp_buf m" and ?c = "BIO_clear_retry_flags bio"
  define k where "k = (if nat n > bm_length ?b then bm_length ?b else nat n)"
  have len: "mp_off m + bm_length ?b \<le> length (bm_data ?b)" using m(2) off by (simp add: bm_inv_def split: if_splits)
  have mb: "mem_bytes bio = take (bm_length ?b) (drop (mp_off m) (bm_data ?b))" using m(1) by (simp add: mem_bytes_def)
  have k: "0 < k" "k \<le> bm_length ?b" using n bs mb by (auto simp: k_def)
  have tk: "take (nat n) (mem_bytes bio) = take k (drop (mp_off m) (bm_data ?b))" unfolding mb by (simp add: k_def min_def)
  have dk: "drop (nat n) (mem_bytes bio) = take (bm_length ?b - k) (drop (mp_off m + k) (bm_data ?b))"
    unfolding mb by (auto simp: k_def drop_take add.commute)
  have l: "length (take (nat n) (mem_bytes bio)) = k" unfolding tk using len k(2) by simp
  show ?thesis
  proof (cases "mem_rdonly bio")
    case True
    let ?r = "?c\<lparr>b_ptr := Mem_ptr \<lparr>mp_buf = ?b\<lparr>bm_length := bm_length ?b - k\<rparr>, mp_off = mp_off m + k\<rparr>\<rparr>"
    have "mem_read bio n = Some (int k, take k (drop (mp_off m) (bm_data ?b)), ?r)"
      using n m(1) k len True by (simp add: mem_read_def k_def [symmetric] Let_def)
    moreover have "mem_inv ?r" using m(2) off True k by (simp add: mem_inv_ptr bm_inv_def)
    ultimately show ?thesis unfolding l by (intro exI [of _ ?r]) (simp add: same_fields_clear tk dk)
  next
    case False
    then have o: "mp_off m = 0" using off by simp
    let ?d = "take (bm_length ?b - k) (drop k (bm_data ?b)) @ drop (bm_length ?b - k) (bm_data ?b)"
    let ?r = "?c\<lparr>b_ptr := Mem_ptr \<lparr>mp_buf = ?b\<lparr>bm_length := bm_length ?b - k, bm_data := ?d\<rparr>, mp_off = 0\<rparr>\<rparr>"
    have mv: "cells_move (bm_data ?b) 0 k (bm_length ?b - k) = Some ?d"
      using k len o by (auto simp: cells_move_def cells_write_def min_absorb2)
    have "mem_read bio n = Some (int k, take k (drop (mp_off m) (bm_data ?b)), ?r)"
      using n m(1) k len False o mv by (simp add: mem_read_def k_def [symmetric] Let_def)
    moreover have "mem_inv ?r" using m(2) False k by (auto simp: mem_inv_ptr bm_inv_def)
    ultimately show ?thesis unfolding l using o k len by (intro exI [of _ ?r]) (simp add: same_fields_clear tk dk)
  qed
qed

text \<open>At the end of the data the result is \<open>num\<close>, with the retry flags set unless it is 0.\<close>

lemma mem_read_end:
  assumes "mem_inv bio" "0 < n" "mem_bytes bio = []"
  shows "mem_read bio n = Some (b_num bio, [], if b_num bio = 0 then BIO_clear_retry_flags bio else BIO_set_retry_read (BIO_clear_retry_flags bio))"
proof -
  obtain m where m: "b_ptr bio = Mem_ptr m" "bm_inv (mp_buf m)"
    "if mem_rdonly bio then mp_off m + bm_length (mp_buf m) = bm_max (mp_buf m) else mp_off m = 0"
    using assms(1) unfolding mem_inv_def by blast
  then have "bm_length (mp_buf m) = 0" using assms(3) by (auto simp: mem_bytes_def bm_inv_def split: if_splits)
  then show ?thesis using m assms(2) by (simp add: mem_read_def)
qed

text \<open>A write appends everything or, without memory or read-only, nothing.\<close>

lemma mem_write_any:
  assumes mem: "alloc_ok mem" and inv: "mem_inv bio" and x: "length x < SIZE_MOD"
  shows "\<exists>r bio'. mem_write mem bio x = Some (r, bio') \<and> mem_inv bio' \<and> mem_bytes bio' = mem_bytes bio @ take (nat r) x \<and> same_fields bio bio' \<and>
    (r = int (length x) \<or> r = - 1 \<and> (mem_rdonly bio \<or> 2 ^ 61 < length (mem_bytes bio) + length x \<or> (\<exists>n. mem n = None)))"
proof -
  let ?c = "BIO_clear_retry_flags bio"
  consider "x = []" | "x \<noteq> []" "mem_rdonly bio" | "x \<noteq> []" "\<not> mem_rdonly bio" by blast
  then show ?thesis
  proof cases
    case 3
    obtain m where m: "b_ptr bio = Mem_ptr m" "bm_inv (mp_buf m)" "mp_off m = 0" using inv 3(2) unfolding mem_inv_def by auto
    have mb: "mem_bytes bio = bm_bytes (mp_buf m)" "length (mem_bytes bio) = bm_length (mp_buf m)"
      using m by (simp_all add: mem_bytes_def bm_bytes_def bm_inv_def)
    obtain ok b where b: "BUF_MEM_append mem (mp_buf m) x = Some (ok, b)" "bm_inv b"
      "ok \<and> bm_bytes b = bm_bytes (mp_buf m) @ x \<or> \<not> ok \<and> b = mp_buf m \<and> (2 ^ 61 < bm_length (mp_buf m) + length x \<or> (\<exists>m. mem m = None))"
      using bm_append_ok [OF mem m(2) x] by blast
    let ?r = "?c\<lparr>b_ptr := Mem_ptr (m\<lparr>mp_buf := b\<rparr>)\<rparr>"
    have "mem_write mem bio x = Some (if ok then int (length x) else - 1, ?r)" using 3 m b(1) by (simp add: mem_write_def)
    moreover have "mem_inv ?r" "mem_bytes ?r = bm_bytes b" using 3(2) m(3) b(2) by (simp_all add: mem_inv_ptr bm_bytes_def)
    ultimately show ?thesis using b(3) mb same_fields_clear(1) by (cases ok) auto
  qed (use inv in \<open>auto simp: mem_write_def same_fields_clear\<close>)
qed

lemma mem_write_rdonly: "mem_rdonly bio \<Longrightarrow> x \<noteq> [] \<Longrightarrow> mem_write mem bio x = Some (- 1, BIO_clear_retry_flags bio)"
  by (simp add: mem_write_def)

text \<open>A line of at most \<open>n - 1\<close> bytes, with its line feed, is the next result of \<open>mem_gets\<close>.\<close>

definition gets_line :: "nat \<Rightarrow> bytes \<Rightarrow> bytes" where
  "gets_line n w = take (n - 1) (takeWhile (\<lambda>c. c \<noteq> 0x0a) w @ take 1 (dropWhile (\<lambda>c. c \<noteq> 0x0a) w))"

lemma gets_line_prefix: "gets_line n w = take (length (gets_line n w)) w"
proof -
  have "w = (takeWhile (\<lambda>c. c \<noteq> 0x0a) w @ take 1 (dropWhile (\<lambda>c. c \<noteq> 0x0a) w)) @ drop 1 (dropWhile (\<lambda>c. c \<noteq> 0x0a) w)"
    by (metis append.assoc append_take_drop_id takeWhile_dropWhile_id)
  then have "take (length (gets_line n w)) w = gets_line n w" unfolding gets_line_def
    by (metis (no_types, lifting) append_eq_conv_conj length_take take_all_iff take_append take_take)
  then show ?thesis by simp
qed

lemma memchr_line:
  "(case OPENSSL_memchr (take n w) 0x0a of None \<Rightarrow> min n (length w) | Some i \<Rightarrow> i + 1) = length (gets_line (Suc n) w)"
proof -
  let ?P = "\<lambda>c::u8. c \<noteq> 0x0a"
  let ?k = "length (takeWhile ?P w)"
  have "length (takeWhile ?P (take n w)) = min n ?k" by (induction w arbitrary: n) (auto simp: take_Cons split: nat.splits)
  moreover have "?k \<le> length w" by (rule length_takeWhile_le)
  moreover have "length (dropWhile ?P w) = length w - ?k" by (metis add_diff_cancel_left' length_append takeWhile_dropWhile_id)
  ultimately show ?thesis by (auto simp: OPENSSL_memchr_def gets_line_def Let_def)
qed

lemma mem_gets_ok:
  assumes inv: "mem_inv bio" and n: "1 < n"
  shows "\<exists>bio'. mem_gets bio n = Some (int (length (gets_line (nat n) (mem_bytes bio))), gets_line (nat n) (mem_bytes bio) @ [0], bio') \<and>
    mem_inv bio' \<and> mem_bytes bio' = drop (length (gets_line (nat n) (mem_bytes bio))) (mem_bytes bio) \<and> same_fields bio bio' \<and>
    b_num_read bio' = b_num_read bio \<and> b_num_write bio' = b_num_write bio"
proof -
  let ?c = "BIO_clear_retry_flags bio" and ?w = "mem_bytes bio"
  let ?g = "gets_line (nat n) ?w"
  obtain m where m: "b_ptr bio = Mem_ptr m" "bm_inv (mp_buf m)"
    "if mem_rdonly bio then mp_off m + bm_length (mp_buf m) = bm_max (mp_buf m) else mp_off m = 0"
    using inv unfolding mem_inv_def by blast
  have len: "mp_off m + bm_length (mp_buf m) \<le> length (bm_data (mp_buf m))" using m(2,3) by (simp add: bm_inv_def split: if_splits)
  have w: "?w = take (bm_length (mp_buf m)) (drop (mp_off m) (bm_data (mp_buf m)))" "length ?w = bm_length (mp_buf m)"
    using m(1) len by (simp_all add: mem_bytes_def)
  define k where "k = (if nat n - 1 > bm_length (mp_buf m) then bm_length (mp_buf m) else nat n - 1)"
  have k: "k = min (nat n - 1) (length ?w)" "take k (drop (mp_off m) (bm_data (mp_buf m))) = take (nat n - 1) ?w" "k \<le> bm_length (mp_buf m)"
    using len by (auto simp: k_def min_def w)
  have "Suc (nat n - 1) = nat n" using n by simp
  then have r: "(case OPENSSL_memchr (take (nat n - 1) ?w) 0x0a of None \<Rightarrow> k | Some i \<Rightarrow> i + 1) = length ?g"
    using memchr_line [of "nat n - 1" ?w, folded k(1)] by simp
  have g: "mem_gets bio n = map_option (\<lambda>(r, out, bio). (r, if r \<ge> 0 then out @ [0] else out, bio)) (mem_read ?c (int (length ?g)))"
  proof -
    have "\<not> n \<le> 0" "\<not> mp_off m + k > length (bm_data (mp_buf m))" using n len k(3) by simp_all
    then show ?thesis
      unfolding mem_gets_def Let_def retry_flags_fields m(1) bio_ptr.case k_def [symmetric] k(2) r by simp
  qed
  show ?thesis
  proof (cases "?g = []")
    case True
    then show ?thesis unfolding g using inv by (simp add: mem_read_def same_fields_clear)
  next
    case False
    have t: "take (length ?g) ?w = ?g" "?w \<noteq> []" using gets_line_prefix [of "nat n" ?w] False by auto
    have "mem_inv ?c" "0 < int (length ?g)" "mem_bytes ?c \<noteq> []" using inv False t(2) by simp_all
    from mem_read_ok [OF this] obtain b where "mem_read ?c (int (length ?g)) = Some (int (length ?g), ?g, b)" "mem_inv b"
      "mem_bytes b = drop (length ?g) ?w" "same_fields ?c b" "b_num_read b = b_num_read ?c" "b_num_write b = b_num_write ?c"
      using t(1) by auto
    then show ?thesis unfolding g by (intro exI [of _ b]) (simp add: same_fields_clear)
  qed
qed

text \<open>
  \<open>BIO_C_SET_BUF_MEM\<close> leaves the read-only flag as it is: after it a reset of a \<open>BIO\<close> that was created read-only moves \<open>data\<close> in front of its array.
\<close>

lemma mem_set_buf_reset:
  assumes "mem_rdonly bio" "bm_length b < bm_max b" "bm_data b \<noteq> []"
  shows "\<exists>bio'. mem_ctrl bio BIO_C_SET_BUF_MEM 1 (Buf_mem_arg b) = Some (1, No_out, bio') \<and> mem_ctrl bio' BIO_CTRL_RESET 0 No_arg = None"
  using assms by (simp add: mem_ctrl_def mem_ctrl_buf_def mem_free_def mem_rdonly_def)

end
