(* ===== verification/Bio_Pair.thy ===== *)
theory Bio_Pair
  imports Bio_Base
begin

text \<open>
  The \<open>BIO\<close> pair, \<open>crypto/bio/pair.c\<close>: each end writes into its own ring buffer, from which its peer reads. The methods work on the store of objects;
  \<open>None\<close> is a failed assertion, an access outside a buffer or a loop that does not end. The sums of an offset and a length inside one ring are below twice its size and are
  not reduced at 64 bits, which is exact for every buffer of at most \<open>2 ^ 63\<close> bytes; the argument of a control call is taken as the \<open>int\<close> it is cast to.
\<close>

section \<open>The model\<close>

definition pair_at :: "bios \<Rightarrow> nat \<Rightarrow> bio_bio_st option" where
  "pair_at h p = (case bio_at h p of Some bio \<Rightarrow> (case b_ptr bio of Pair_ptr b \<Rightarrow> Some b | _ \<Rightarrow> None) | None \<Rightarrow> None)"

definition set_pair :: "bios \<Rightarrow> nat \<Rightarrow> bio_bio_st \<Rightarrow> bios" where
  "set_pair h p b = h[p := map_option (\<lambda>bio. bio\<lparr>b_ptr := Pair_ptr b\<rparr>) (h ! p)]"

definition bio_new :: "allocator \<Rightarrow> bio \<Rightarrow> bio option" where
  "bio_new mem bio =
     (if OPENSSL_malloc mem 56 = None then None
      else Some (bio\<lparr>b_ptr := Pair_ptr \<lparr>bb_peer = None, bb_closed = False, bb_len = 0, bb_offset = 0, bb_size = 17 * 1024, bb_buf = None, bb_request = 0\<rparr>\<rparr>))"

definition set_init :: "bios \<Rightarrow> nat \<Rightarrow> bool \<Rightarrow> bios" where
  "set_init h p i = h[p := map_option (\<lambda>bio. bio\<lparr>b_init := i\<rparr>) (h ! p)]"

definition bio_destroy_pair :: "bios \<Rightarrow> nat \<Rightarrow> bios option" where
  "bio_destroy_pair h p =
     (case bio_at h p of
        None \<Rightarrow> None
      | Some bio \<Rightarrow>
          (case b_ptr bio of
             Null_ptr \<Rightarrow> Some h
           | Mem_ptr m \<Rightarrow> None
           | Pair_ptr b \<Rightarrow>
               (case bb_peer b of
                  None \<Rightarrow> Some h
                | Some q \<Rightarrow>
                    (case pair_at h q of
                       None \<Rightarrow> None
                     | Some peer_b \<Rightarrow>
                         if bb_peer peer_b \<noteq> Some p \<or> bb_buf peer_b = None then None
                         else
                           let h = set_init (set_pair h q (peer_b\<lparr>bb_peer := None, bb_len := 0, bb_offset := 0\<rparr>)) q False
                           in case pair_at h p of
                                None \<Rightarrow> None
                              | Some b \<Rightarrow>
                                  if bb_buf b = None then None
                                  else Some (set_init (set_pair h p (b\<lparr>bb_peer := None, bb_len := 0, bb_offset := 0\<rparr>)) p False)))))"

text \<open>The bytes copied out by the loop of \<open>bio_read\<close>, and the buffer after it.\<close>

partial_function (option) ring_read :: "bio_bio_st \<Rightarrow> nat \<Rightarrow> (bytes \<times> bio_bio_st) option" where
  "ring_read b rest =
     (if \<not> rest \<le> bb_len b then None
      else
        let chunk = (if bb_offset b + rest \<le> bb_size b then rest else bb_size b - bb_offset b)
        in if \<not> bb_offset b + chunk \<le> bb_size b then None
           else case bb_buf b of
               None \<Rightarrow> None
             | Some d \<Rightarrow>
                 if bb_offset b + chunk > length d then None
                 else
                   let out = take chunk (drop (bb_offset b) d); len = bb_len b - chunk
                   in if len \<noteq> 0 then
                        let offset = bb_offset b + chunk;
                            b = b\<lparr>bb_len := len, bb_offset := (if offset = bb_size b then 0 else offset)\<rparr>
                        in if rest - chunk = 0 then Some (out, b)
                           else Option.bind (ring_read b (rest - chunk)) (\<lambda>(out', b). Some (out @ out', b))
                      else if chunk \<noteq> rest then None
                      else Some (out, b\<lparr>bb_len := len, bb_offset := 0\<rparr>))"

text \<open>The loop of \<open>bio_write\<close>.\<close>

partial_function (option) ring_write :: "bio_bio_st \<Rightarrow> bytes \<Rightarrow> bio_bio_st option" where
  "ring_write b buf =
     (if \<not> bb_len b + length buf \<le> bb_size b then None
      else
        let write_offset = bb_offset b + bb_len b;
            write_offset = (if write_offset \<ge> bb_size b then write_offset - bb_size b else write_offset);
            chunk = (if write_offset + length buf \<le> bb_size b then length buf else bb_size b - write_offset)
        in case bb_buf b of
            None \<Rightarrow> None
          | Some d \<Rightarrow>
              (case cells_write d write_offset (take chunk buf) of
                 None \<Rightarrow> None
               | Some d \<Rightarrow>
                   let b = b\<lparr>bb_buf := Some d, bb_len := bb_len b + chunk\<rparr>
                   in if \<not> bb_len b \<le> bb_size b then None
                      else if drop chunk buf = [] then Some b
                      else ring_write b (drop chunk buf)))"

definition bio_read :: "bios \<Rightarrow> nat \<Rightarrow> int \<Rightarrow> (int \<times> bytes \<times> bios) option" where
  "bio_read h p n =
     (case bio_at h p of
        None \<Rightarrow> None
      | Some bio \<Rightarrow>
          let bio = BIO_clear_retry_flags bio; h = h[p := Some bio]; n = unat (of_int n :: u64)
          in if \<not> b_init bio then Some (0, [], h)
             else case pair_at h p of
                 None \<Rightarrow> None
               | Some b \<Rightarrow>
                   (case bb_peer b of
                      None \<Rightarrow> None
                    | Some q \<Rightarrow>
                        (case pair_at h q of
                           None \<Rightarrow> None
                         | Some peer_b \<Rightarrow>
                             if bb_buf peer_b = None then None
                             else
                               let peer_b = peer_b\<lparr>bb_request := 0\<rparr>
                               in if n = 0 then Some (0, [], set_pair h q peer_b)
                                  else if bb_len peer_b = 0 then
                                    if bb_closed peer_b then Some (0, [], set_pair h q peer_b)
                                    else
                                      let h = set_pair h q (peer_b\<lparr>bb_request := (if n \<le> bb_size peer_b then n else bb_size peer_b)\<rparr>)
                                      in Some (- 1, [], h[p := map_option BIO_set_retry_read (bio_at h p)])
                                  else
                                    let n = (if bb_len peer_b < n then bb_len peer_b else n)
                                    in map_option (\<lambda>(out, peer_b). (int n, out, set_pair h q peer_b)) (ring_read peer_b n))))"

definition bio_write :: "bios \<Rightarrow> nat \<Rightarrow> bytes \<Rightarrow> (int \<times> bios) option" where
  "bio_write h p buf =
     (case bio_at h p of
        None \<Rightarrow> None
      | Some bio \<Rightarrow>
          let bio = BIO_clear_retry_flags bio; h = h[p := Some bio]
          in if \<not> b_init bio \<or> buf = [] then Some (0, h)
             else case b_ptr bio of
                 Pair_ptr b \<Rightarrow>
                   if bb_peer b = None \<or> bb_buf b = None then None
                   else
                     let b = b\<lparr>bb_request := 0\<rparr>; h = set_pair h p b
                     in if bb_closed b then Some (- 1, h)
                        else if \<not> bb_len b \<le> bb_size b then None
                        else if bb_len b = bb_size b then Some (- 1, h[p := map_option BIO_set_retry_write (bio_at h p)])
                        else
                          let num = (if length buf > bb_size b - bb_len b then bb_size b - bb_len b else length buf)
                          in map_option (\<lambda>b. (int num, set_pair h p b)) (ring_write b (take num buf))
               | _ \<Rightarrow> None)"

text \<open>The part of \<open>bio_make_pair\<close> that gives one end its buffer; the inner \<open>None\<close> is a failed allocation.\<close>

definition pair_buffer :: "allocator \<Rightarrow> bio_bio_st \<Rightarrow> nat \<Rightarrow> bio_bio_st \<times> bool" where
  "pair_buffer mem b writebuf_len =
     (if bb_buf b = None then
        let b = (if writebuf_len \<noteq> 0 then b\<lparr>bb_size := writebuf_len\<rparr> else b)
        in case OPENSSL_malloc mem (bb_size b) of
             None \<Rightarrow> (b, False)
           | Some d \<Rightarrow> (b\<lparr>bb_buf := Some d, bb_len := 0, bb_offset := 0\<rparr>, True)
      else (b, True))"

definition bio_make_pair :: "allocator \<Rightarrow> bios \<Rightarrow> nat \<Rightarrow> nat \<Rightarrow> nat \<Rightarrow> nat \<Rightarrow> (bool \<times> bios) option" where
  "bio_make_pair mem h p1 p2 writebuf1_len writebuf2_len =
     (case (pair_at h p1, pair_at h p2) of
        (Some b1, Some b2) \<Rightarrow>
          if bb_peer b1 \<noteq> None \<or> bb_peer b2 \<noteq> None then Some (False, h)
          else
            (case pair_buffer mem b1 writebuf1_len of
               (b1, False) \<Rightarrow> Some (False, set_pair h p1 b1)
             | (b1, True) \<Rightarrow>
                 let h = set_pair h p1 b1
                 in case pair_at h p2 of
                      None \<Rightarrow> None
                    | Some b2 \<Rightarrow>
                        (case pair_buffer mem b2 writebuf2_len of
                           (b2, False) \<Rightarrow> Some (False, set_pair h p2 b2)
                         | (b2, True) \<Rightarrow>
                             let h = set_pair h p2 b2;
                                 h = set_pair h p1 ((the (pair_at h p1))\<lparr>bb_peer := Some p2, bb_closed := False, bb_request := 0\<rparr>);
                                 h = set_pair h p2 ((the (pair_at h p2))\<lparr>bb_peer := Some p1, bb_closed := False, bb_request := 0\<rparr>)
                             in Some (True, set_init (set_init h p1 True) p2 True)))
      | _ \<Rightarrow> None)"

definition bio_ctrl :: "bios \<Rightarrow> nat \<Rightarrow> bio_cmd \<Rightarrow> int \<Rightarrow> bio_arg \<Rightarrow> (int \<times> bios) option" where
  "bio_ctrl h p cmd num ptr =
     (case bio_at h p of
        None \<Rightarrow> None
      | Some bio \<Rightarrow>
          (case b_ptr bio of
             Pair_ptr b \<Rightarrow>
               (case cmd of
                  BIO_C_GET_WRITE_BUF_SIZE \<Rightarrow> Some (int (bb_size b), h)
                | BIO_C_GET_WRITE_GUARANTEE \<Rightarrow> Some (if bb_peer b = None \<or> bb_closed b then 0 else int (bb_size b) - int (bb_len b), h)
                | BIO_C_GET_READ_REQUEST \<Rightarrow> Some (int (bb_request b), h)
                | BIO_C_RESET_READ_REQUEST \<Rightarrow> Some (1, set_pair h p (b\<lparr>bb_request := 0\<rparr>))
                | BIO_C_SHUTDOWN_WR \<Rightarrow> Some (1, set_pair h p (b\<lparr>bb_closed := True\<rparr>))
                | BIO_CTRL_GET_CLOSE \<Rightarrow> Some (b_shutdown bio, h)
                | BIO_CTRL_SET_CLOSE \<Rightarrow> Some (1, h[p := Some (bio\<lparr>b_shutdown := num\<rparr>)])
                | BIO_CTRL_PENDING \<Rightarrow>
                    (case bb_peer b of None \<Rightarrow> Some (0, h) | Some q \<Rightarrow> map_option (\<lambda>peer_b. (int (bb_len peer_b), h)) (pair_at h q))
                | BIO_CTRL_WPENDING \<Rightarrow> Some (if bb_buf b \<noteq> None then int (bb_len b) else 0, h)
                | BIO_CTRL_FLUSH \<Rightarrow> Some (1, h)
                | BIO_CTRL_EOF \<Rightarrow>
                    (case ptr of
                       No_arg \<Rightarrow> Some (1, h)
                     | Bio_arg q \<Rightarrow> map_option (\<lambda>other_b. (if bb_len other_b = 0 \<and> bb_closed other_b then 1 else 0, h)) (pair_at h q)
                     | _ \<Rightarrow> None)
                | _ \<Rightarrow> Some (0, h))
           | _ \<Rightarrow> None))"

declare ring_read.simps [code] ring_write.simps [code]

section \<open>The ring buffer as a queue\<close>

definition ring_inv :: "bio_bio_st \<Rightarrow> bool" where
  "ring_inv b \<longleftrightarrow> (\<exists>d. bb_buf b = Some d \<and> length d = bb_size b) \<and> bb_len b \<le> bb_size b \<and> 0 < bb_size b \<and> bb_offset b < bb_size b"

definition ring_bytes :: "bio_bio_st \<Rightarrow> bytes" where
  "ring_bytes b = take (bb_len b) (rotate (bb_offset b) (the (bb_buf b)))"

text \<open>Everything but the queue.\<close>

definition ring_frame :: "bio_bio_st \<Rightarrow> bio_bio_st \<Rightarrow> bool" where
  "ring_frame b b' \<longleftrightarrow> bb_peer b' = bb_peer b \<and> bb_closed b' = bb_closed b \<and> bb_size b' = bb_size b \<and> bb_request b' = bb_request b"

lemma ring_frame_trans: "ring_frame a b \<Longrightarrow> ring_frame b c \<Longrightarrow> ring_frame a c"
  by (simp add: ring_frame_def)

lemma length_ring_bytes: "ring_inv b \<Longrightarrow> length (ring_bytes b) = bb_len b"
  by (auto simp: ring_inv_def ring_bytes_def)

lemma ring_bytes_nth:
  assumes "ring_inv b" "bb_buf b = Some d" "i < bb_len b"
  shows "ring_bytes b ! i = d ! ((bb_offset b + i) mod bb_size b)"
  using assms by (simp add: ring_inv_def ring_bytes_def nth_rotate)

lemma ring_read_step:
  assumes inv: "ring_inv b" and d: "bb_buf b = Some d" and c: "c \<le> bb_len b" "bb_offset b + c \<le> bb_size b"
    and b': "b' = b\<lparr>bb_len := bb_len b - c, bb_offset := (if bb_len b = c \<or> bb_offset b + c = bb_size b then 0 else bb_offset b + c)\<rparr>"
  shows "ring_inv b' \<and> ring_frame b b' \<and> ring_bytes b' = drop c (ring_bytes b) \<and> take c (drop (bb_offset b) d) = take c (ring_bytes b)"
proof -
  have len: "length d = bb_size b" "bb_len b \<le> bb_size b" "bb_offset b < bb_size b" using inv d by (simp_all add: ring_inv_def)
  have inv': "ring_inv b'" unfolding b' using inv c by (auto simp: ring_inv_def)
  have "ring_bytes b' = drop c (ring_bytes b)"
  proof (rule nth_equalityI)
    show "length (ring_bytes b') = length (drop c (ring_bytes b))" using length_ring_bytes [OF inv] length_ring_bytes [OF inv'] by (simp add: b')
    fix i assume "i < length (ring_bytes b')"
    then have i: "i < bb_len b - c" using length_ring_bytes [OF inv'] by (simp add: b')
    then have "ring_bytes b' ! i = d ! ((bb_offset b' + i) mod bb_size b)" using ring_bytes_nth [OF inv', of d i] d by (simp add: b')
    also have "(bb_offset b' + i) mod bb_size b = (bb_offset b + (c + i)) mod bb_size b"
      using i c by (auto simp: b' add.assoc [symmetric])
    also have "d ! ((bb_offset b + (c + i)) mod bb_size b) = ring_bytes b ! (c + i)" using ring_bytes_nth [OF inv d, of "c + i"] i by simp
    finally show "ring_bytes b' ! i = drop c (ring_bytes b) ! i" using i length_ring_bytes [OF inv] by simp
  qed
  moreover have "take c (drop (bb_offset b) d) = take c (ring_bytes b)"
  proof (rule nth_equalityI)
    show "length (take c (drop (bb_offset b) d)) = length (take c (ring_bytes b))" using length_ring_bytes [OF inv] c len by simp
    fix i assume "i < length (take c (drop (bb_offset b) d))"
    then have i: "i < c" by simp
    then have "ring_bytes b ! i = d ! (bb_offset b + i)" using ring_bytes_nth [OF inv d, of i] c by simp
    then show "take c (drop (bb_offset b) d) ! i = take c (ring_bytes b) ! i" using i c len by simp
  qed
  ultimately show ?thesis using inv' by (simp add: b' ring_frame_def)
qed

text \<open>Reading takes bytes off the front.\<close>

lemma ring_read_ok:
  assumes "ring_inv b" "0 < n" "n \<le> bb_len b"
  shows "\<exists>b'. ring_read b n = Some (take n (ring_bytes b), b') \<and> ring_inv b' \<and> ring_frame b b' \<and> ring_bytes b' = drop n (ring_bytes b)"
  using assms
proof (induction n arbitrary: b rule: less_induct)
  case (less n)
  obtain d where d: "bb_buf b = Some d" "length d = bb_size b" "bb_offset b < bb_size b" using less.prems(1) by (auto simp: ring_inv_def)
  define c where "c = (if bb_offset b + n \<le> bb_size b then n else bb_size b - bb_offset b)"
  define b1 where "b1 = b\<lparr>bb_len := bb_len b - c, bb_offset := (if bb_len b = c \<or> bb_offset b + c = bb_size b then 0 else bb_offset b + c)\<rparr>"
  have c: "c \<le> n" "0 < c" "bb_offset b + c \<le> bb_size b" "c \<le> bb_len b" using d(3) less.prems by (auto simp: c_def)
  note s = ring_read_step [OF less.prems(1) d(1) c(4,3) b1_def]
  have R: "ring_read b n = (if n - c = 0 then Some (take c (ring_bytes b), b1)
      else Option.bind (ring_read b1 (n - c)) (\<lambda>(out', b'). Some (take c (ring_bytes b) @ out', b')))"
    if "bb_len b = c \<longrightarrow> c = n"
  proof -
    have "\<not> bb_len b < n" "\<not> bb_size b < bb_offset b + c" "take c (drop (bb_offset b) d) = take c (ring_bytes b)"
      using less.prems(3) c(3) s by simp_all
    then show ?thesis using that c(1) d(1,2)
      unfolding ring_read.simps [of b n] c_def [symmetric] Let_def by (auto simp: b1_def)
  qed
  show ?case
  proof (cases "c = n")
    case True
    then show ?thesis using R s by simp
  next
    case False
    have l: "0 < n - c" "n - c < n" "n - c \<le> bb_len b1" using c False less.prems(3) by (simp_all add: b1_def)
    obtain b2 where b2: "ring_read b1 (n - c) = Some (take (n - c) (ring_bytes b1), b2)" "ring_inv b2" "ring_frame b1 b2"
      "ring_bytes b2 = drop (n - c) (ring_bytes b1)"
      using less.IH [OF l(2) _ l(1,3)] s by blast
    have "take c (ring_bytes b) @ take (n - c) (drop c (ring_bytes b)) = take n (ring_bytes b)" using c(1) take_add [of c "n - c" "ring_bytes b"] by simp
    moreover have "drop (n - c) (drop c (ring_bytes b)) = drop n (ring_bytes b)" using c(1) by simp
    moreover have "bb_len b \<noteq> c" using less.prems(3) False c(1) by simp
    then have "ring_read b n = Some (take c (ring_bytes b) @ take (n - c) (ring_bytes b1), b2)" using R b2(1) l(1) by simp
    moreover have "ring_frame b b2" using s b2(3) ring_frame_trans by blast
    ultimately show ?thesis using b2 s by (intro exI [of _ b2]) simp
  qed
qed

lemma ring_write_step:
  assumes inv: "ring_inv b" and d: "bb_buf b = Some d" and wo: "wo = (if bb_offset b + bb_len b \<ge> bb_size b then bb_offset b + bb_len b - bb_size b else bb_offset b + bb_len b)"
    and x: "wo + length x \<le> bb_size b" "bb_len b + length x \<le> bb_size b"
    and b': "b' = b\<lparr>bb_buf := Some (take wo d @ x @ drop (wo + length x) d), bb_len := bb_len b + length x\<rparr>"
  shows "ring_inv b' \<and> ring_frame b b' \<and> ring_bytes b' = ring_bytes b @ x"
proof -
  let ?e = "take wo d @ x @ drop (wo + length x) d"
  have len: "length d = bb_size b" "bb_len b \<le> bb_size b" "bb_offset b < bb_size b" using inv d by (simp_all add: ring_inv_def)
  have inv': "ring_inv b'" unfolding b' using inv x len by (auto simp: ring_inv_def)
  have "ring_bytes b' = ring_bytes b @ x"
  proof (rule nth_equalityI)
    show "length (ring_bytes b') = length (ring_bytes b @ x)" using length_ring_bytes [OF inv] length_ring_bytes [OF inv'] by (simp add: b')
    fix i assume "i < length (ring_bytes b')"
    then have i: "i < bb_len b + length x" using length_ring_bytes [OF inv'] by (simp add: b')
    then have n: "ring_bytes b' ! i = ?e ! ((bb_offset b + i) mod bb_size b)" using ring_bytes_nth [OF inv', of ?e i] by (simp add: b')
    show "ring_bytes b' ! i = (ring_bytes b @ x) ! i"
    proof (cases "i < bb_len b")
      case True
      have "(bb_offset b + i) mod bb_size b < wo \<or> wo + length x \<le> (bb_offset b + i) mod bb_size b \<and> (bb_offset b + i) mod bb_size b < bb_size b"
        using True len x by (auto simp: wo mod_if)
      then have "?e ! ((bb_offset b + i) mod bb_size b) = d ! ((bb_offset b + i) mod bb_size b)" using x len by (auto simp: nth_append)
      then show ?thesis using n True ring_bytes_nth [OF inv d True] length_ring_bytes [OF inv] by (simp add: nth_append)
    next
      case False
      then obtain j where j: "i = bb_len b + j" "j < length x" using i by (metis add_diff_inverse_nat nat_add_left_cancel_less)
      then have "(bb_offset b + i) mod bb_size b = wo + j" using len x by (auto simp: wo mod_if)
      then show ?thesis using n j x len length_ring_bytes [OF inv] by (simp add: nth_append)
    qed
  qed
  then show ?thesis using inv' by (simp add: b' ring_frame_def)
qed

text \<open>Writing appends at the end.\<close>

lemma ring_write_ok:
  assumes "ring_inv b" "x \<noteq> []" "bb_len b + length x \<le> bb_size b"
  shows "\<exists>b'. ring_write b x = Some b' \<and> ring_inv b' \<and> ring_frame b b' \<and> ring_bytes b' = ring_bytes b @ x"
  using assms
proof (induction "length x" arbitrary: b x rule: less_induct)
  case less
  obtain d where d: "bb_buf b = Some d" "length d = bb_size b" "bb_offset b < bb_size b" "bb_len b \<le> bb_size b"
    using less.prems(1) by (auto simp: ring_inv_def)
  define wo where "wo = (if bb_offset b + bb_len b \<ge> bb_size b then bb_offset b + bb_len b - bb_size b else bb_offset b + bb_len b)"
  define c where "c = (if wo + length x \<le> bb_size b then length x else bb_size b - wo)"
  have wo: "wo < bb_size b" using d(3,4) by (auto simp: wo_def)
  have c: "c \<le> length x" "0 < c" "wo + c \<le> bb_size b" "bb_len b + c \<le> bb_size b" using wo less.prems(2,3) by (auto simp: c_def)
  have lc: "length (take c x) = c" using c(1) by simp
  define b1 where "b1 = b\<lparr>bb_buf := Some (take wo d @ take c x @ drop (wo + length (take c x)) d), bb_len := bb_len b + length (take c x)\<rparr>"
  note s = ring_write_step [OF less.prems(1) d(1) wo_def _ _ b1_def, unfolded lc, OF c(3,4)]
  have cw: "cells_write d wo (take c x) = Some (take wo d @ take c x @ drop (wo + length (take c x)) d)" using lc c(3) d(2) by (simp add: cells_write_def)
  have R: "ring_write b x = (if drop c x = [] then Some b1 else ring_write b1 (drop c x))"
    using less.prems(3) d(1) cw lc c(1,4) unfolding ring_write.simps [of b x] wo_def [symmetric] Let_def c_def [symmetric]
    by (auto simp: b1_def)
  show ?case
  proof (cases "drop c x = []")
    case True
    then show ?thesis using R s by simp
  next
    case False
    have "length (drop c x) < length x" "bb_len b1 + length (drop c x) \<le> bb_size b1" using c(1,2) less.prems(3) lc by (simp_all add: b1_def)
    then obtain b2 where "ring_write b1 (drop c x) = Some b2" "ring_inv b2" "ring_frame b1 b2" "ring_bytes b2 = ring_bytes b1 @ drop c x"
      using less.hyps [of "drop c x" b1] s False by blast
    then show ?thesis using R False s ring_frame_trans by (intro exI [of _ b2]) auto
  qed
qed

section \<open>A pair as two pipes\<close>

record pipe =
  pi_queue :: bytes
  pi_cap :: nat
  pi_closed :: bool

definition pipe_write :: "pipe \<Rightarrow> bytes \<Rightarrow> int \<times> pipe" where
  "pipe_write a x =
     (if x = [] then (0, a)
      else if pi_closed a \<or> length (pi_queue a) = pi_cap a then (- 1, a)
      else let n = min (length x) (pi_cap a - length (pi_queue a)) in (int n, a\<lparr>pi_queue := pi_queue a @ take n x\<rparr>))"

definition pipe_read :: "pipe \<Rightarrow> nat \<Rightarrow> int \<times> bytes \<times> pipe" where
  "pipe_read a n =
     (if n = 0 then (0, [], a)
      else if pi_queue a = [] then (if pi_closed a then 0 else - 1, [], a)
      else (int (min n (length (pi_queue a))), take n (pi_queue a), a\<lparr>pi_queue := drop n (pi_queue a)\<rparr>))"

definition pair_end :: "bios \<Rightarrow> nat \<Rightarrow> nat \<Rightarrow> bool" where
  "pair_end h p q \<longleftrightarrow> (\<exists>bio b. bio_at h p = Some bio \<and> b_method bio = Some methods_biop \<and> b_init bio \<and> b_ptr bio = Pair_ptr b \<and> bb_peer b = Some q \<and> ring_inv b)"

definition pair_inv :: "bios \<Rightarrow> nat \<Rightarrow> nat \<Rightarrow> bool" where
  "pair_inv h p q \<longleftrightarrow> p \<noteq> q \<and> pair_end h p q \<and> pair_end h q p"

definition pair_pipe :: "bios \<Rightarrow> nat \<Rightarrow> pipe" where
  "pair_pipe h p = (let b = the (pair_at h p) in \<lparr>pi_queue = ring_bytes b, pi_cap = bb_size b, pi_closed = bb_closed b\<rparr>)"

lemma bio_at_update: "bio_at (h[p := x]) q = (if p = q \<and> p < length h then x else bio_at h q)"
  by (auto simp: bio_at_def)

lemma bio_at_less: "bio_at h p = Some bio \<Longrightarrow> p < length h \<and> h ! p = Some bio"
  by (simp add: bio_at_def split: if_splits)

lemma bio_at_set_pair: "bio_at (set_pair h p b) q = (if p = q then map_option (\<lambda>bio. bio\<lparr>b_ptr := Pair_ptr b\<rparr>) (bio_at h p) else bio_at h q)"
  by (auto simp: set_pair_def bio_at_update) (simp_all add: bio_at_def)

lemma length_set_pair [simp]: "length (set_pair h p b) = length h"
  by (simp add: set_pair_def)

lemma pair_at_simp: "bio_at h p = Some bio \<Longrightarrow> b_ptr bio = Pair_ptr b \<Longrightarrow> pair_at h p = Some b"
  by (simp add: pair_at_def)

lemma pair_inv_sym: "pair_inv h p q \<Longrightarrow> pair_inv h q p"
  by (auto simp: pair_inv_def)

text \<open>How an update of one end shows in the two pipes.\<close>

lemma pair_update:
  assumes inv: "pair_inv h p q" and r: "r = p \<or> r = q" and bio: "bio_at h r = Some bio" "b_ptr bio = Pair_ptr b"
    and bio': "bio_at h' r = Some bio'" "b_ptr bio' = Pair_ptr b'" "b_method bio' = b_method bio" "b_init bio'" "bb_peer b' = bb_peer b" "ring_inv b'"
    and rest: "\<forall>s. s \<noteq> r \<longrightarrow> bio_at h' s = bio_at h s"
  shows "pair_inv h' p q" "pair_pipe h' r = \<lparr>pi_queue = ring_bytes b', pi_cap = bb_size b', pi_closed = bb_closed b'\<rparr>"
    "s \<noteq> r \<Longrightarrow> pair_pipe h' s = pair_pipe h s"
proof -
  show "pair_inv h' p q" using inv r bio bio' rest unfolding pair_inv_def pair_end_def by auto
  show "pair_pipe h' r = \<lparr>pi_queue = ring_bytes b', pi_cap = bb_size b', pi_closed = bb_closed b'\<rparr>"
    using pair_at_simp [OF bio'(1,2)] by (simp add: pair_pipe_def)
  show "pair_pipe h' s = pair_pipe h s" if "s \<noteq> r" using rest that by (simp add: pair_pipe_def pair_at_def)
qed

lemma ring_inv_request [simp]: "ring_inv (b\<lparr>bb_request := r\<rparr>) = ring_inv b" "ring_bytes (b\<lparr>bb_request := r\<rparr>) = ring_bytes b"
  by (simp_all add: ring_inv_def ring_bytes_def)

text \<open>Writing at one end is a write into its pipe.\<close>

lemma bio_write_refines:
  assumes inv: "pair_inv h p q"
  shows "\<exists>h'. bio_write h p x = Some (fst (pipe_write (pair_pipe h p) x), h') \<and> pair_inv h' p q \<and>
    pair_pipe h' p = snd (pipe_write (pair_pipe h p) x) \<and> pair_pipe h' q = pair_pipe h q \<and> length h' = length h"
proof -
  obtain bio b where bio: "bio_at h p = Some bio" "b_method bio = Some methods_biop" "b_init bio" "b_ptr bio = Pair_ptr b" "bb_peer b = Some q" "ring_inv b"
    and pq: "p \<noteq> q" using inv unfolding pair_inv_def pair_end_def by blast
  let ?c = "BIO_clear_retry_flags bio" and ?b0 = "b\<lparr>bb_request := 0\<rparr>"
  let ?h1 = "h[p := Some ?c]"
  note p = bio_at_less [OF bio(1)]
  obtain d where buf: "bb_buf b = Some d" "bb_len b \<le> bb_size b" using bio(6) by (auto simp: ring_inv_def)
  have pipe: "pair_pipe h p = \<lparr>pi_queue = ring_bytes b, pi_cap = bb_size b, pi_closed = bb_closed b\<rparr>" "length (ring_bytes b) = bb_len b"
    using pair_at_simp [OF bio(1,4)] length_ring_bytes [OF bio(6)] by (simp_all add: pair_pipe_def)
  have upd: "pair_inv h' p q \<and> pair_pipe h' p = \<lparr>pi_queue = ring_bytes b', pi_cap = bb_size b', pi_closed = bb_closed b'\<rparr> \<and> pair_pipe h' q = pair_pipe h q"
    if "bio_at h' p = Some bio'" "b_ptr bio' = Pair_ptr b'" "b_method bio' = b_method bio" "b_init bio'" "bb_peer b' = bb_peer b" "ring_inv b'"
      "\<forall>s. s \<noteq> p \<longrightarrow> bio_at h' s = bio_at h s" for h' bio' b'
    using pair_update(1,2) [OF inv disjI1 [OF refl] bio(1,4) that] pair_update(3) [OF inv disjI1 [OF refl] bio(1,4) that, of q] pq by simp
  show ?thesis
  proof (cases "x = []")
    case True
    have "bio_write h p x = Some (0, ?h1)" using True bio(1) by (simp add: bio_write_def)
    moreover have "bio_at ?h1 p = Some ?c" "\<forall>s. s \<noteq> p \<longrightarrow> bio_at ?h1 s = bio_at h s" using p by (simp_all add: bio_at_update)
    ultimately show ?thesis using upd [of ?h1 ?c b] bio True pipe by (simp add: pipe_write_def)
  next
    case False
    let ?h2 = "set_pair ?h1 p ?b0"
    have h2: "bio_at ?h2 p = Some (?c\<lparr>b_ptr := Pair_ptr ?b0\<rparr>)" "\<forall>s. s \<noteq> p \<longrightarrow> bio_at ?h2 s = bio_at h s" "length ?h2 = length h"
      using p by (simp_all add: bio_at_set_pair bio_at_update)
    show ?thesis
    proof (cases "bb_closed b \<or> bb_len b = bb_size b")
      case stop: True
      define h3 where "h3 = (if bb_closed b then ?h2 else ?h2[p := map_option BIO_set_retry_write (bio_at ?h2 p)])"
      have "bio_write h p x = Some (- 1, h3)"
        using False stop bio buf by (auto simp: bio_write_def Let_def h3_def)
      moreover have "\<exists>bio'. bio_at h3 p = Some bio' \<and> b_ptr bio' = Pair_ptr ?b0 \<and> b_method bio' = b_method bio \<and> b_init bio'"
        using h2 p bio(3) by (simp add: h3_def bio_at_update BIO_set_retry_write_def)
      then obtain bio' where "bio_at h3 p = Some bio'" "b_ptr bio' = Pair_ptr ?b0" "b_method bio' = b_method bio" "b_init bio'" by blast
      moreover have "\<forall>s. s \<noteq> p \<longrightarrow> bio_at h3 s = bio_at h s" "length h3 = length h" using h2 by (simp_all add: h3_def bio_at_update)
      ultimately show ?thesis using upd [of h3 bio' ?b0] bio False stop pipe by (auto simp: pipe_write_def)
    next
      case go: False
      define n where "n = (if length x > bb_size b - bb_len b then bb_size b - bb_len b else length x)"
      have n: "n = min (length x) (bb_size b - bb_len b)" "take n x \<noteq> []" using go buf(2) False by (auto simp: n_def)
      then have "\<exists>b'. ring_write ?b0 (take n x) = Some b' \<and> ring_inv b' \<and> ring_frame ?b0 b' \<and> ring_bytes b' = ring_bytes ?b0 @ take n x"
        using bio(6) buf(2) by (intro ring_write_ok) auto
      then obtain b' where b': "ring_write ?b0 (take n x) = Some b'" "ring_inv b'" "ring_frame ?b0 b'" "ring_bytes b' = ring_bytes b @ take n x" by auto
      let ?h3 = "set_pair ?h2 p b'"
      have "bio_write h p x = Some (int n, ?h3)"
        using False go bio buf b'(1) unfolding n_def by (simp add: bio_write_def Let_def split: if_splits)
      moreover have "bio_at ?h3 p = Some (?c\<lparr>b_ptr := Pair_ptr b'\<rparr>)" "\<forall>s. s \<noteq> p \<longrightarrow> bio_at ?h3 s = bio_at h s" "length ?h3 = length h"
        using p by (simp_all add: bio_at_set_pair bio_at_update)
      ultimately show ?thesis using upd [of ?h3 "?c\<lparr>b_ptr := Pair_ptr b'\<rparr>" b'] bio False go pipe b'(2-4) n(1)
        by (auto simp: pipe_write_def ring_frame_def Let_def)
    qed
  qed
qed

text \<open>Reading at the other end is a read from that pipe.\<close>

lemma bio_read_refines:
  assumes inv: "pair_inv h p q" and n: "0 \<le> n" "n < 2147483648"
  shows "\<exists>h'. bio_read h q n = Some (fst (pipe_read (pair_pipe h p) (nat n)), fst (snd (pipe_read (pair_pipe h p) (nat n))), h') \<and> pair_inv h' p q \<and>
    pair_pipe h' p = snd (snd (pipe_read (pair_pipe h p) (nat n))) \<and> pair_pipe h' q = pair_pipe h q \<and> length h' = length h"
proof -
  obtain P b Q bq where bio: "bio_at h p = Some P" "b_method P = Some methods_biop" "b_init P" "b_ptr P = Pair_ptr b" "bb_peer b = Some q" "ring_inv b"
    "bio_at h q = Some Q" "b_method Q = Some methods_biop" "b_init Q" "b_ptr Q = Pair_ptr bq" "bb_peer bq = Some p" "ring_inv bq"
    and pq: "p \<noteq> q" using inv unfolding pair_inv_def pair_end_def by blast
  let ?c = "BIO_clear_retry_flags Q" and ?b0 = "b\<lparr>bb_request := 0\<rparr>" and ?m = "unat (of_int n :: u64)"
  let ?h1 = "h[q := Some ?c]"
  have m: "?m = nat n"
  proof -
    have "(of_int n :: u64) = of_nat (nat n)" using n(1) by simp
    then show ?thesis using n unat_of_nat_less [of "nat n", where ?'a = 64] by simp
  qed
  note l = bio_at_less [OF bio(1)] bio_at_less [OF bio(7)]
  have h1: "bio_at ?h1 q = Some ?c" "\<forall>s. s \<noteq> q \<longrightarrow> bio_at ?h1 s = bio_at h s" using l by (simp_all add: bio_at_update)
  have inv1: "pair_inv ?h1 p q" "pair_pipe ?h1 p = pair_pipe h p" "pair_pipe ?h1 q = pair_pipe h q"
    using pair_update [OF inv disjI2 [OF refl] bio(7,10) h1(1) _ _ _ refl bio(12) h1(2)] bio(7-10) pq pair_at_simp [OF bio(7,10)]
    by (simp_all add: pair_pipe_def Let_def)
  have P: "bio_at ?h1 p = Some P" using h1(2) pq bio(1) by simp
  have at: "pair_at ?h1 q = Some bq" "pair_at ?h1 p = Some b" using pair_at_simp [OF h1(1)] pair_at_simp [OF P] bio(4,10) by simp_all
  obtain d where buf: "bb_buf b = Some d" "bb_len b \<le> bb_size b" using bio(6) by (auto simp: ring_inv_def)
  have pipe: "pair_pipe h p = \<lparr>pi_queue = ring_bytes b, pi_cap = bb_size b, pi_closed = bb_closed b\<rparr>" "length (ring_bytes b) = bb_len b"
    using pair_at_simp [OF bio(1,4)] length_ring_bytes [OF bio(6)] by (simp_all add: pair_pipe_def)
  have upd: "pair_inv h' p q \<and> pair_pipe h' p = \<lparr>pi_queue = ring_bytes b', pi_cap = bb_size b', pi_closed = bb_closed b'\<rparr> \<and> pair_pipe h' q = pair_pipe h q \<and> length h' = length h"
    if "h' = set_pair ?h1 p b'" "bb_peer b' = bb_peer b" "ring_inv b'" for h' b'
  proof -
    have "bio_at h' p = Some (P\<lparr>b_ptr := Pair_ptr b'\<rparr>)" "\<forall>s. s \<noteq> p \<longrightarrow> bio_at h' s = bio_at ?h1 s" "length h' = length h"
      unfolding that(1) using P by (simp_all add: bio_at_set_pair)
    note u = pair_update [OF inv1(1) disjI1 [OF refl] P bio(4) this(1) _ _ _ that(2,3) this(2)]
    show ?thesis using u(1,2) u(3) [of q] \<open>length h' = length h\<close> bio(3) inv1(3) pq by simp
  qed
  have R: "bio_read h q n =
      (if nat n = 0 then Some (0, [], set_pair ?h1 p ?b0)
       else if bb_len b = 0 then
         if bb_closed b then Some (0, [], set_pair ?h1 p ?b0)
         else let h = set_pair ?h1 p (b\<lparr>bb_request := (if nat n \<le> bb_size b then nat n else bb_size b)\<rparr>)
              in Some (- 1, [], h[q := map_option BIO_set_retry_read (bio_at h q)])
       else let n = (if bb_len b < nat n then bb_len b else nat n)
            in map_option (\<lambda>(out, peer_b). (int n, out, set_pair ?h1 p peer_b)) (ring_read ?b0 n))"
    using bio at buf by (simp add: bio_read_def Let_def m)
  consider "nat n = 0 \<or> bb_len b = 0 \<and> bb_closed b" | "nat n \<noteq> 0" "bb_len b = 0" "\<not> bb_closed b" | "nat n \<noteq> 0" "bb_len b \<noteq> 0" by blast
  then show ?thesis
  proof cases
    case 1
    then have "bio_read h q n = Some (0, [], set_pair ?h1 p ?b0)" using R by auto
    then show ?thesis using upd [OF refl, of ?b0] 1 bio pipe by (auto simp: pipe_read_def)
  next
    case 2
    let ?b1 = "b\<lparr>bb_request := (if nat n \<le> bb_size b then nat n else bb_size b)\<rparr>"
    let ?h2 = "set_pair ?h1 p ?b1"
    have i2: "pair_inv ?h2 p q" "pair_pipe ?h2 p = pair_pipe h p" "pair_pipe ?h2 q = pair_pipe h q" "length ?h2 = length h" using upd [OF refl, of ?b1] bio pipe by simp_all
    have q2: "bio_at ?h2 q = Some ?c" using h1(1) pq by (simp add: bio_at_set_pair)
    let ?h3 = "?h2[q := Some (BIO_set_retry_read ?c)]"
    have h3: "bio_at ?h3 q = Some (BIO_set_retry_read ?c)" "\<forall>s. s \<noteq> q \<longrightarrow> bio_at ?h3 s = bio_at ?h2 s" using l i2(4) by (simp_all add: bio_at_update)
    have "pair_inv ?h3 p q" "pair_pipe ?h3 p = pair_pipe h p" "pair_pipe ?h3 q = pair_pipe h q"
      using pair_update [OF i2(1) disjI2 [OF refl] q2 _ h3(1) _ _ _ refl bio(12) h3(2)] bio(7-10) pq i2 pair_at_simp [OF bio(7,10)]
      by (simp_all add: BIO_set_retry_read_def pair_pipe_def Let_def)
    then show ?thesis using R 2 pipe q2 i2(4) by (simp add: Let_def pipe_read_def)
  next
    case 3
    define k where "k = (if bb_len b < nat n then bb_len b else nat n)"
    have k: "k = min (nat n) (bb_len b)" "0 < k" "k \<le> bb_len b" using 3 by (auto simp: k_def)
    have "\<exists>b'. ring_read ?b0 k = Some (take k (ring_bytes ?b0), b') \<and> ring_inv b' \<and> ring_frame ?b0 b' \<and> ring_bytes b' = drop k (ring_bytes ?b0)"
      using bio(6) k(2,3) by (intro ring_read_ok) simp_all
    then obtain b' where b': "ring_read ?b0 k = Some (take k (ring_bytes b), b')" "ring_inv b'" "ring_frame ?b0 b'" "ring_bytes b' = drop k (ring_bytes b)" by auto
    have t: "take k (ring_bytes b) = take (nat n) (ring_bytes b)" "drop k (ring_bytes b) = drop (nat n) (ring_bytes b)" using pipe(2) by (auto simp: k_def)
    have "bio_read h q n = Some (int k, take k (ring_bytes b), set_pair ?h1 p b')" using R 3 b'(1) by (simp add: k_def [symmetric])
    moreover have "bb_peer b' = bb_peer b" "bb_size b' = bb_size b" "bb_closed b' = bb_closed b" using b'(3) by (simp_all add: ring_frame_def)
    moreover have "ring_bytes b \<noteq> []" using 3(2) pipe(2) by auto
    ultimately show ?thesis using upd [OF refl, of b'] b'(2,4) 3(1) pipe t k(1) by (simp add: pipe_read_def)
  qed
qed

end
