(* ===== verification/Bio.thy ===== *)
theory Bio
  imports Bio_Mem Bio_Pair
begin

text \<open>
  The interface of \<open>crypto/bio/bio.c\<close>: creation and destruction, reading and writing through the method tables, control commands and chains.
  A pointer argument is \<open>None\<close> where the C code allows \<open>NULL\<close>. The outer \<open>None\<close> is undefined behaviour, an abort or a loop that does not end.
\<close>

section \<open>Method tables\<close>

definition method_type :: "bio_method \<Rightarrow> u32" where
  "method_type m = (case m of mem_method \<Rightarrow> 1 OR 0x0400 | methods_biop \<Rightarrow> 19 OR 0x0400)"

definition method_bread :: "bio_method \<Rightarrow> bios \<Rightarrow> nat \<Rightarrow> int \<Rightarrow> (int \<times> bytes \<times> bios) option" where
  "method_bread m h p n =
     (case m of
        mem_method \<Rightarrow> Option.bind (bio_at h p) (\<lambda>bio. map_option (\<lambda>(r, out, bio). (r, out, h[p := Some bio])) (mem_read bio n))
      | methods_biop \<Rightarrow> bio_read h p n)"

definition method_bwrite :: "allocator \<Rightarrow> bio_method \<Rightarrow> bios \<Rightarrow> nat \<Rightarrow> bytes \<Rightarrow> (int \<times> bios) option" where
  "method_bwrite mem m h p x =
     (case m of
        mem_method \<Rightarrow> Option.bind (bio_at h p) (\<lambda>bio. map_option (\<lambda>(r, bio). (r, h[p := Some bio])) (mem_write mem bio x))
      | methods_biop \<Rightarrow> bio_write h p x)"

text \<open>The pair has no \<open>gets\<close>.\<close>

definition method_bgets :: "bio_method \<Rightarrow> (bios \<Rightarrow> nat \<Rightarrow> int \<Rightarrow> (int \<times> bytes \<times> bios) option) option" where
  "method_bgets m =
     (case m of
        mem_method \<Rightarrow> Some (\<lambda>h p n. Option.bind (bio_at h p) (\<lambda>bio. map_option (\<lambda>(r, out, bio). (r, out, h[p := Some bio])) (mem_gets bio n)))
      | methods_biop \<Rightarrow> None)"

definition method_ctrl :: "bio_method \<Rightarrow> bios \<Rightarrow> nat \<Rightarrow> bio_cmd \<Rightarrow> int \<Rightarrow> bio_arg \<Rightarrow> (int \<times> bio_out \<times> bios) option" where
  "method_ctrl m h p cmd num ptr =
     (case m of
        mem_method \<Rightarrow> Option.bind (bio_at h p) (\<lambda>bio. map_option (\<lambda>(r, out, bio). (r, out, h[p := Some bio])) (mem_ctrl bio cmd num ptr))
      | methods_biop \<Rightarrow> map_option (\<lambda>(r, h). (r, No_out, h)) (bio_ctrl h p cmd num ptr))"

definition method_create :: "allocator \<Rightarrow> bio_method \<Rightarrow> bio \<Rightarrow> bio option" where
  "method_create mem m bio = (case m of mem_method \<Rightarrow> mem_new mem bio | methods_biop \<Rightarrow> bio_new mem bio)"

definition bio_free :: "bios \<Rightarrow> nat \<Rightarrow> bios option" where
  "bio_free h p =
     (case pair_at h p of
        None \<Rightarrow> None
      | Some b \<Rightarrow> if bb_peer b \<noteq> None then bio_destroy_pair h p else Some h)"

definition method_destroy :: "bio_method \<Rightarrow> bios \<Rightarrow> nat \<Rightarrow> bios option" where
  "method_destroy m h p =
     (case m of
        mem_method \<Rightarrow> map_option (\<lambda>bio. h[p := Some (mem_free bio)]) (bio_at h p)
      | methods_biop \<Rightarrow> bio_free h p)"

section \<open>Creation and destruction\<close>

text \<open>The structure \<open>BIO\<close> has 64 bytes. The new object is the last of the store.\<close>

definition BIO_new :: "allocator \<Rightarrow> bios \<Rightarrow> bio_method \<Rightarrow> nat option \<times> bios" where
  "BIO_new mem h m =
     (if OPENSSL_malloc mem 64 = None then (None, h)
      else
        case method_create mem m \<lparr>b_method = Some m, b_init = False, b_shutdown = 1, b_flags = 0, b_retry_reason = 0, b_num = 0, b_references = 1,
            b_ptr = Null_ptr, b_next_bio = None, b_num_read = 0, b_num_write = 0\<rparr> of
          None \<Rightarrow> (None, h)
        | Some bio \<Rightarrow> (Some (length h), h @ [Some bio]))"

definition BIO_pop :: "bios \<Rightarrow> nat option \<Rightarrow> (nat option \<times> bios) option" where
  "BIO_pop h p =
     (case p of
        None \<Rightarrow> Some (None, h)
      | Some p \<Rightarrow> map_option (\<lambda>bio. (b_next_bio bio, h[p := Some (bio\<lparr>b_next_bio := None\<rparr>)])) (bio_at h p))"

partial_function (option) BIO_free :: "bios \<Rightarrow> nat option \<Rightarrow> (int \<times> bios) option" where
  "BIO_free h p =
     (case p of
        None \<Rightarrow> Some (1, h)
      | Some p \<Rightarrow>
          (case bio_at h p of
             None \<Rightarrow> None
           | Some bio \<Rightarrow>
               (case CRYPTO_refcount_dec_and_test_zero (b_references bio) of
                  None \<Rightarrow> None
                | Some (zero, n) \<Rightarrow>
                    let h = h[p := Some (bio\<lparr>b_references := n\<rparr>)]
                    in if \<not> zero then Some (0, h)
                       else
                         (case BIO_pop h (Some p) of
                            None \<Rightarrow> None
                          | Some (next_bio, h) \<Rightarrow>
                              (case (case b_method bio of None \<Rightarrow> Some h | Some m \<Rightarrow> method_destroy m h p) of
                                 None \<Rightarrow> None
                               | Some h \<Rightarrow> BIO_free (h[p := None]) next_bio)))))"

definition BIO_up_ref :: "bio \<Rightarrow> bio" where
  "BIO_up_ref bio = bio\<lparr>b_references := CRYPTO_refcount_inc (b_references bio)\<rparr>"

text \<open>\<open>strlen\<close> is evaluated before the test for \<open>NULL\<close>.\<close>

definition BIO_new_mem_buf :: "allocator \<Rightarrow> bios \<Rightarrow> bytes option \<Rightarrow> int \<Rightarrow> (nat option \<times> bios) option" where
  "BIO_new_mem_buf mem h buf len =
     (case (if len < 0 then Option.bind buf strlen else Some (nat len)) of
        None \<Rightarrow> None
      | Some n \<Rightarrow>
          if buf = None \<and> len \<noteq> 0 then Some (None, h)
          else
            (case BIO_new mem h mem_method of
               (None, h) \<Rightarrow> Some (None, h)
             | (Some p, h) \<Rightarrow>
                 let data = take n (case buf of None \<Rightarrow> [] | Some b \<Rightarrow> b)
                 in if length data < n then None
                    else map_option (\<lambda>bio. (Some p, h[p := Some (bio\<lparr>b_ptr := Mem_ptr \<lparr>mp_buf = \<lparr>bm_length = n, bm_data = data, bm_max = n\<rparr>, mp_off = 0\<rparr>,
                           b_flags := b_flags bio OR BIO_FLAGS_MEM_RDONLY, b_num := 0\<rparr>)])) (bio_at h p)))"

definition BIO_new_bio_pair :: "allocator \<Rightarrow> bios \<Rightarrow> nat \<Rightarrow> nat \<Rightarrow> ((nat \<times> nat) option \<times> bios) option" where
  "BIO_new_bio_pair mem h writebuf1_len writebuf2_len =
     (let (bio1, h) = BIO_new mem h methods_biop; (bio2, h) = BIO_new mem h methods_biop
      in case (case (bio1, bio2) of
                (Some p1, Some p2) \<Rightarrow> bio_make_pair mem h p1 p2 writebuf1_len writebuf2_len
              | _ \<Rightarrow> Some (False, h)) of
           None \<Rightarrow> None
         | Some (True, h) \<Rightarrow> Some (Some (the bio1, the bio2), h)
         | Some (False, h) \<Rightarrow>
             Option.bind (BIO_free h bio1) (\<lambda>(r, h). Option.bind (BIO_free h bio2) (\<lambda>(r, h). Some (None, h))))"

section \<open>Reading and writing\<close>

definition add_num_read :: "bios \<Rightarrow> nat \<Rightarrow> int \<Rightarrow> bios" where
  "add_num_read h p ret = (if ret > 0 then h[p := map_option (\<lambda>bio. bio\<lparr>b_num_read := b_num_read bio + of_int ret\<rparr>) (bio_at h p)] else h)"

definition add_num_write :: "bios \<Rightarrow> nat \<Rightarrow> int \<Rightarrow> bios" where
  "add_num_write h p ret = (if ret > 0 then h[p := map_option (\<lambda>bio. bio\<lparr>b_num_write := b_num_write bio + of_int ret\<rparr>) (bio_at h p)] else h)"

definition BIO_read :: "bios \<Rightarrow> nat option \<Rightarrow> int \<Rightarrow> (int \<times> bytes \<times> bios) option" where
  "BIO_read h p n =
     (case p of
        None \<Rightarrow> Some (- 2, [], h)
      | Some p \<Rightarrow>
          (case bio_at h p of
             None \<Rightarrow> None
           | Some bio \<Rightarrow>
               (case b_method bio of
                  None \<Rightarrow> Some (- 2, [], h)
                | Some m \<Rightarrow>
                    if \<not> b_init bio then Some (- 2, [], h)
                    else if n \<le> 0 then Some (0, [], h)
                    else map_option (\<lambda>(ret, out, h). (ret, out, add_num_read h p ret)) (method_bread m h p n))))"

definition BIO_gets :: "bios \<Rightarrow> nat option \<Rightarrow> int \<Rightarrow> (int \<times> bytes \<times> bios) option" where
  "BIO_gets h p n =
     (case p of
        None \<Rightarrow> Some (- 2, [], h)
      | Some p \<Rightarrow>
          (case bio_at h p of
             None \<Rightarrow> None
           | Some bio \<Rightarrow>
               (case Option.bind (b_method bio) method_bgets of
                  None \<Rightarrow> Some (- 2, [], h)
                | Some bgets \<Rightarrow>
                    if \<not> b_init bio then Some (- 2, [], h)
                    else if n \<le> 0 then Some (0, [], h)
                    else map_option (\<lambda>(ret, out, h). (ret, out, add_num_read h p ret)) (bgets h p n))))"

definition BIO_write :: "allocator \<Rightarrow> bios \<Rightarrow> nat option \<Rightarrow> bytes \<Rightarrow> (int \<times> bios) option" where
  "BIO_write mem h p x =
     (case p of
        None \<Rightarrow> Some (- 2, h)
      | Some p \<Rightarrow>
          (case bio_at h p of
             None \<Rightarrow> None
           | Some bio \<Rightarrow>
               (case b_method bio of
                  None \<Rightarrow> Some (- 2, h)
                | Some m \<Rightarrow>
                    if \<not> b_init bio then Some (- 2, h)
                    else if x = [] then Some (0, h)
                    else map_option (\<lambda>(ret, h). (ret, add_num_write h p ret)) (method_bwrite mem m h p x))))"

definition int_max :: int where "int_max = 2147483647"

function BIO_write_all :: "allocator \<Rightarrow> bios \<Rightarrow> nat option \<Rightarrow> bytes \<Rightarrow> (bool \<times> bios) option" where
  "BIO_write_all mem h p data =
     (if data = [] then Some (True, h)
      else
        case BIO_write mem h p (take (nat (min (int (length data)) int_max)) data) of
          None \<Rightarrow> None
        | Some (ret, h) \<Rightarrow>
            if ret \<le> 0 then Some (False, h)
            else if nat ret > length data then None
            else BIO_write_all mem h p (drop (nat ret) data))"
  by pat_completeness auto
termination BIO_write_all
  by (relation "measure (\<lambda>(mem, h, p, data). length data)") auto

declare BIO_write_all.simps [simp del]

definition BIO_puts :: "allocator \<Rightarrow> bios \<Rightarrow> nat option \<Rightarrow> bytes \<Rightarrow> (int \<times> bios) option" where
  "BIO_puts mem h p s =
     (case strlen s of
        None \<Rightarrow> None
      | Some n \<Rightarrow> if int n > int_max then Some (- 1, h) else BIO_write mem h p (take n s))"

definition BIO_indent :: "allocator \<Rightarrow> bios \<Rightarrow> nat option \<Rightarrow> nat \<Rightarrow> nat \<Rightarrow> (bool \<times> bios) option" where
  "BIO_indent mem h p indent max_indent =
     (let indent = (if indent > max_indent then max_indent else indent)
      in rec_nat (\<lambda>h. Some (True, h))
           (\<lambda>_ loop h. case BIO_puts mem h p [0x20, 0] of None \<Rightarrow> None | Some (r, h) \<Rightarrow> if r \<noteq> 1 then Some (False, h) else loop h) indent h)"

section \<open>Control\<close>

definition BIO_ctrl :: "bios \<Rightarrow> nat option \<Rightarrow> bio_cmd \<Rightarrow> int \<Rightarrow> bio_arg \<Rightarrow> (int \<times> bio_out \<times> bios) option" where
  "BIO_ctrl h p cmd larg parg =
     (case p of
        None \<Rightarrow> Some (0, No_out, h)
      | Some p \<Rightarrow>
          (case bio_at h p of
             None \<Rightarrow> None
           | Some bio \<Rightarrow>
               (case b_method bio of
                  None \<Rightarrow> Some (- 2, No_out, h)
                | Some m \<Rightarrow> method_ctrl m h p cmd larg parg)))"

definition BIO_flush :: "bios \<Rightarrow> nat option \<Rightarrow> (int \<times> bio_out \<times> bios) option" where
  "BIO_flush h p = BIO_ctrl h p BIO_CTRL_FLUSH 0 No_arg"

definition BIO_reset :: "bios \<Rightarrow> nat option \<Rightarrow> (int \<times> bio_out \<times> bios) option" where
  "BIO_reset h p = BIO_ctrl h p BIO_CTRL_RESET 0 No_arg"

definition BIO_eof :: "bios \<Rightarrow> nat option \<Rightarrow> (int \<times> bio_out \<times> bios) option" where
  "BIO_eof h p = BIO_ctrl h p BIO_CTRL_EOF 0 No_arg"

text \<open>The assertions of \<open>BIO_pending\<close> and \<open>BIO_wpending\<close> that the result is not negative are explicit.\<close>

definition BIO_pending :: "bios \<Rightarrow> nat option \<Rightarrow> nat option" where
  "BIO_pending h p = (case BIO_ctrl h p BIO_CTRL_PENDING 0 No_arg of None \<Rightarrow> None | Some (r, out, h) \<Rightarrow> if r < 0 then None else Some (nat r))"

definition BIO_wpending :: "bios \<Rightarrow> nat option \<Rightarrow> nat option" where
  "BIO_wpending h p = (case BIO_ctrl h p BIO_CTRL_WPENDING 0 No_arg of None \<Rightarrow> None | Some (r, out, h) \<Rightarrow> if r < 0 then None else Some (nat r))"

definition BIO_set_close :: "bios \<Rightarrow> nat option \<Rightarrow> int \<Rightarrow> (int \<times> bio_out \<times> bios) option" where
  "BIO_set_close h p close_flag = BIO_ctrl h p BIO_CTRL_SET_CLOSE close_flag No_arg"

definition BIO_get_mem_data :: "bios \<Rightarrow> nat option \<Rightarrow> (int \<times> bio_out \<times> bios) option" where
  "BIO_get_mem_data h p = BIO_ctrl h p BIO_CTRL_INFO 0 Out_arg"

definition BIO_get_mem_ptr :: "bios \<Rightarrow> nat option \<Rightarrow> (int \<times> bio_out \<times> bios) option" where
  "BIO_get_mem_ptr h p = BIO_ctrl h p BIO_C_GET_BUF_MEM_PTR 0 Out_arg"

definition BIO_set_mem_buf :: "bios \<Rightarrow> nat option \<Rightarrow> BUF_MEM \<Rightarrow> int \<Rightarrow> (int \<times> bio_out \<times> bios) option" where
  "BIO_set_mem_buf h p b take_ownership = BIO_ctrl h p BIO_C_SET_BUF_MEM take_ownership (Buf_mem_arg b)"

definition BIO_set_mem_eof_return :: "bios \<Rightarrow> nat option \<Rightarrow> int \<Rightarrow> (int \<times> bio_out \<times> bios) option" where
  "BIO_set_mem_eof_return h p eof_value = BIO_ctrl h p BIO_C_SET_BUF_MEM_EOF_RETURN eof_value No_arg"

definition BIO_mem_contents :: "bios \<Rightarrow> nat \<Rightarrow> bytes option option" where
  "BIO_mem_contents h p =
     (case bio_at h p of
        None \<Rightarrow> None
      | Some bio \<Rightarrow>
          if b_method bio \<noteq> Some mem_method then Some None
          else case b_ptr bio of
              Mem_ptr m \<Rightarrow> Some (Some (take (bm_length (mp_buf m)) (drop (mp_off m) (bm_data (mp_buf m)))))
            | _ \<Rightarrow> None)"

definition BIO_ctrl_get_read_request :: "bios \<Rightarrow> nat option \<Rightarrow> (int \<times> bio_out \<times> bios) option" where
  "BIO_ctrl_get_read_request h p = BIO_ctrl h p BIO_C_GET_READ_REQUEST 0 No_arg"

definition BIO_ctrl_get_write_guarantee :: "bios \<Rightarrow> nat option \<Rightarrow> (int \<times> bio_out \<times> bios) option" where
  "BIO_ctrl_get_write_guarantee h p = BIO_ctrl h p BIO_C_GET_WRITE_GUARANTEE 0 No_arg"

definition BIO_shutdown_wr :: "bios \<Rightarrow> nat option \<Rightarrow> (int \<times> bio_out \<times> bios) option" where
  "BIO_shutdown_wr h p = BIO_ctrl h p BIO_C_SHUTDOWN_WR 0 No_arg"

section \<open>Chains\<close>

partial_function (option) chain_last :: "bios \<Rightarrow> nat \<Rightarrow> nat option" where
  "chain_last h p =
     (case bio_at h p of
        None \<Rightarrow> None
      | Some bio \<Rightarrow> (case b_next_bio bio of None \<Rightarrow> Some p | Some q \<Rightarrow> chain_last h q))"

definition BIO_push :: "bios \<Rightarrow> nat option \<Rightarrow> nat option \<Rightarrow> (nat option \<times> bios) option" where
  "BIO_push h p appended_bio =
     (case p of
        None \<Rightarrow> Some (None, h)
      | Some p \<Rightarrow>
          (case chain_last h p of
             None \<Rightarrow> None
           | Some q \<Rightarrow> Some (Some p, h[q := map_option (\<lambda>bio. bio\<lparr>b_next_bio := appended_bio\<rparr>) (bio_at h q)])))"

definition BIO_next :: "bios \<Rightarrow> nat option \<Rightarrow> nat option option" where
  "BIO_next h p = (case p of None \<Rightarrow> Some None | Some p \<Rightarrow> map_option b_next_bio (bio_at h p))"

partial_function (option) BIO_find_type :: "bios \<Rightarrow> nat option \<Rightarrow> u32 \<Rightarrow> nat option option" where
  "BIO_find_type h p type =
     (case p of
        None \<Rightarrow> Some None
      | Some q \<Rightarrow>
          (case bio_at h q of
             None \<Rightarrow> None
           | Some bio \<Rightarrow>
               if (case b_method bio of
                     None \<Rightarrow> False
                   | Some m \<Rightarrow> if type AND 0xff = 0 then method_type m AND type \<noteq> 0 else method_type m = type)
               then Some (Some q)
               else BIO_find_type h (b_next_bio bio) type))"

declare BIO_free.simps [code] chain_last.simps [code] BIO_find_type.simps [code]

end
