(* ===== verification/Bio_Asn1.thy ===== *)
theory Bio_Asn1
  imports Bio Der
begin

text \<open>
  Reading an ASN.1 element from a \<open>BIO\<close>: \<open>bio_read_all\<close>, \<open>bio_read_full\<close> and \<open>BIO_read_asn1\<close> of \<open>crypto/bio/bio.c\<close>. A \<open>None\<close> is undefined
  behaviour or a loop that does not end; it includes the use of bytes that a \<open>BIO\<close> has counted and not stored, as a memory \<open>BIO\<close> with a positive
  end-of-file value does.
\<close>

section \<open>The model\<close>

datatype bio_error = ASN1_R_DECODE_ERROR | ASN1_R_HEADER_TOO_LONG | ASN1_R_NOT_ENOUGH_DATA | ASN1_R_TOO_LONG | BIO_MALLOC_FAILURE

definition kChunkSize :: nat where "kChunkSize = 4096"

text \<open>
  The loop of \<open>bio_read_all\<close> with the buffer of \<open>len\<close> bytes. A negative result other than \<open>- 1\<close> is added to \<open>done\<close> as well.
\<close>

partial_function (option) read_all_loop ::
    "allocator \<Rightarrow> bios \<Rightarrow> nat option \<Rightarrow> bytes \<Rightarrow> nat \<Rightarrow> nat \<Rightarrow> (bytes option \<times> bios) option" where
  "read_all_loop mem h p out done max_len =
     (let len = length out
      in if done = len then Some (None, h)
         else
           case BIO_read h p (min (int (len - done)) int_max) of
             None \<Rightarrow> None
           | Some (n, x, h) \<Rightarrow>
               if n = 0 then Some (Some (take done out), h)
               else if n = - 1 then Some (None, h)
               else if n > 0 \<and> length x \<noteq> nat n then None
               else
                 (case cells_write out done x of
                    None \<Rightarrow> None
                  | Some out \<Rightarrow>
                      if int done + n < 0 then None
                      else
                        let done = nat (int done + n)
                        in if len < max_len \<and> len - done < kChunkSize div 2 then
                             let len' = size_add len kChunkSize;
                                 len' = (if len' < kChunkSize \<or> len' > max_len then max_len else len')
                             in case OPENSSL_realloc mem out len' of
                                  None \<Rightarrow> Some (None, h)
                                | Some out \<Rightarrow> read_all_loop mem h p out done max_len
                           else read_all_loop mem h p out done max_len))"

definition bio_read_all :: "allocator \<Rightarrow> bios \<Rightarrow> nat option \<Rightarrow> bytes \<Rightarrow> nat \<Rightarrow> (bytes option \<times> bios) option" where
  "bio_read_all mem h p prefix max_len =
     (let len = size_add (length prefix) kChunkSize;
          len = (if len > max_len then max_len else len)
      in if len < length prefix then Some (None, h)
         else case OPENSSL_malloc mem len of
             None \<Rightarrow> Some (None, h)
           | Some out \<Rightarrow>
               (case cells_write out 0 prefix of
                  None \<Rightarrow> None
                | Some out \<Rightarrow> read_all_loop mem h p out (length prefix) max_len))"

text \<open>The bytes read, or \<open>Inl\<close> of the flag \<open>*out_eof_on_first_read\<close>.\<close>

function bio_read_full :: "bios \<Rightarrow> nat option \<Rightarrow> nat \<Rightarrow> bool \<Rightarrow> ((bool + bytes) \<times> bios) option" where
  "bio_read_full h p len first_read =
     (if len = 0 then Some (Inr [], h)
      else
        case BIO_read h p (min (int len) int_max) of
          None \<Rightarrow> None
        | Some (ret, x, h) \<Rightarrow>
            if ret \<le> 0 then Some (Inl (first_read \<and> ret = 0), h)
            else if nat ret > len \<or> length x \<noteq> nat ret then None
            else map_option (\<lambda>(r, h). (map_sum id ((@) x) r, h)) (bio_read_full h p (len - nat ret) False))"
  by pat_completeness auto
termination bio_read_full
  by (relation "measure (\<lambda>(h, p, len, first_read). len)") auto

declare bio_read_full.simps [simp del]

definition kInitialHeaderLen :: nat where "kInitialHeaderLen = 2"

text \<open>The part after the header: the checks on the length, and the body.\<close>

definition read_asn1_body :: "allocator \<Rightarrow> bios \<Rightarrow> nat option \<Rightarrow> bytes \<Rightarrow> nat \<Rightarrow> nat \<Rightarrow> ((bio_error + bytes) \<times> bios) option" where
  "read_asn1_body mem h p header len max_len =
     (let header_len = length header
      in if size_add len header_len < len \<or> size_add len header_len > max_len \<or> int len > int_max then Some (Inl ASN1_R_TOO_LONG, h)
         else
           let total = size_add len header_len
           in if OPENSSL_malloc mem total = None then Some (Inl BIO_MALLOC_FAILURE, h)
              else
                case bio_read_full h p (total - header_len) True of
                  None \<Rightarrow> None
                | Some (Inl eof, h) \<Rightarrow> Some (Inl ASN1_R_NOT_ENOUGH_DATA, h)
                | Some (Inr body, h) \<Rightarrow> Some (Inr (header @ body), h))"

definition BIO_read_asn1 :: "allocator \<Rightarrow> bios \<Rightarrow> nat option \<Rightarrow> nat \<Rightarrow> ((bio_error + bytes) \<times> bios) option" where
  "BIO_read_asn1 mem h p max_len =
     (case bio_read_full h p kInitialHeaderLen True of
        None \<Rightarrow> None
      | Some (Inl eof, h) \<Rightarrow> Some (Inl (if eof then ASN1_R_HEADER_TOO_LONG else ASN1_R_NOT_ENOUGH_DATA), h)
      | Some (Inr header, h) \<Rightarrow>
          let tag = header ! 0; length_byte = header ! 1
          in if tag AND 0x1f = 0x1f then Some (Inl ASN1_R_DECODE_ERROR, h)
             else if length_byte AND 0x80 = 0 then read_asn1_body mem h p header (unat length_byte) max_len
             else
               let num_bytes = unat (length_byte AND 0x7f)
               in if tag AND 0x20 \<noteq> 0 \<and> num_bytes = 0 then
                    map_option (\<lambda>(r, h). (case r of None \<Rightarrow> Inl ASN1_R_NOT_ENOUGH_DATA | Some out \<Rightarrow> Inr out, h)) (bio_read_all mem h p header max_len)
                  else if num_bytes = 0 \<or> num_bytes > 4 then Some (Inl ASN1_R_DECODE_ERROR, h)
                  else
                    case bio_read_full h p num_bytes True of
                      None \<Rightarrow> None
                    | Some (Inl eof, h) \<Rightarrow> Some (Inl ASN1_R_NOT_ENOUGH_DATA, h)
                    | Some (Inr len_bytes, h) \<Rightarrow>
                        let len32 = foldl (\<lambda>l b. push_bit 8 l OR (ucast b :: u32)) 0 len_bytes
                        in if len32 < 128 then Some (Inl ASN1_R_DECODE_ERROR, h)
                           else if drop_bit ((num_bytes - 1) * 8) len32 = 0 then Some (Inl ASN1_R_DECODE_ERROR, h)
                           else read_asn1_body mem h p (header @ len_bytes) (unat len32) max_len)"

declare read_all_loop.simps [code]

section \<open>Memory as the source\<close>

text \<open>A memory \<open>BIO\<close> at \<open>p\<close> with the bytes \<open>w\<close> and the end-of-file value \<open>e\<close>.\<close>

definition mem_bio :: "bios \<Rightarrow> nat \<Rightarrow> bytes \<Rightarrow> int \<Rightarrow> bool" where
  "mem_bio h p w e \<longleftrightarrow> (\<exists>bio. bio_at h p = Some bio \<and> b_method bio = Some mem_method \<and> b_init bio \<and> mem_inv bio \<and> mem_bytes bio = w \<and> b_num bio = e)"

lemma mem_bytes_num [simp]: "mem_bytes (bio\<lparr>b_num_read := n\<rparr>) = mem_bytes bio" "mem_inv (bio\<lparr>b_num_read := n\<rparr>) = mem_inv bio"
  by (simp_all add: mem_bytes_def mem_inv_def mem_rdonly_def)

lemma mem_bio_update:
  assumes "bio_at h p = Some bio0" "b_method bio = Some mem_method" "b_init bio" "mem_inv bio"
  shows "mem_bio (add_num_read (h[p := Some bio]) p r) p (mem_bytes bio) (b_num bio)"
  using assms bio_at_less [OF assms(1)] unfolding mem_bio_def add_num_read_def by (auto simp: bio_at_update)

lemma BIO_read_mem:
  assumes b: "mem_bio h p w e" and w: "w \<noteq> []" and n: "0 < n"
  shows "\<exists>h'. BIO_read h (Some p) n = Some (int (length (take (nat n) w)), take (nat n) w, h') \<and> mem_bio h' p (drop (nat n) w) e"
proof -
  obtain bio where bio: "bio_at h p = Some bio" "b_method bio = Some mem_method" "b_init bio" "mem_inv bio" "mem_bytes bio = w" "b_num bio = e"
    using b unfolding mem_bio_def by blast
  obtain bio' where r: "mem_read bio n = Some (int (length (take (nat n) w)), take (nat n) w, bio')" "mem_inv bio'" "mem_bytes bio' = drop (nat n) w" "same_fields bio bio'"
    using mem_read_ok [OF bio(4) n] w bio(5) by auto
  have f: "b_method bio' = Some mem_method" "b_init bio'" "b_num bio' = e" using r(4) bio by (simp_all add: same_fields_def)
  have "BIO_read h (Some p) n = Some (int (length (take (nat n) w)), take (nat n) w, add_num_read (h[p := Some bio']) p (int (length (take (nat n) w))))"
    using bio(1-3) n r(1) by (simp add: BIO_read_def method_bread_def)
  then show ?thesis using mem_bio_update [OF bio(1) f(1,2) r(2)] r(3) f(3) by simp
qed

lemma BIO_read_mem_end:
  assumes b: "mem_bio h p [] e" and n: "0 < n"
  shows "\<exists>h'. BIO_read h (Some p) n = Some (e, [], h') \<and> mem_bio h' p [] e"
proof -
  obtain bio where bio: "bio_at h p = Some bio" "b_method bio = Some mem_method" "b_init bio" "mem_inv bio" "mem_bytes bio = []" "b_num bio = e"
    using b unfolding mem_bio_def by blast
  let ?b = "if b_num bio = 0 then BIO_clear_retry_flags bio else BIO_set_retry_read (BIO_clear_retry_flags bio)"
  have f: "b_method ?b = Some mem_method" "b_init ?b" "mem_inv ?b" "mem_bytes ?b = []" "b_num ?b = e" using bio by simp_all
  have "BIO_read h (Some p) n = Some (e, [], add_num_read (h[p := Some ?b]) p e)"
    using bio n mem_read_end [OF bio(4) n bio(5)] by (simp add: BIO_read_def method_bread_def)
  then show ?thesis using mem_bio_update [OF bio(1) f(1-3)] f(4,5) by simp
qed

lemma read_full_ok:
  "mem_bio h p w e \<Longrightarrow> n \<le> length w \<Longrightarrow> \<exists>h'. bio_read_full h (Some p) n fr = Some (Inr (take n w), h') \<and> mem_bio h' p (drop n w) e"
proof (induction n arbitrary: h w fr rule: less_induct)
  case (less n)
  show ?case
  proof (cases "n = 0")
    case True
    then show ?thesis using less.prems(1) by (simp add: bio_read_full.simps)
  next
    case False
    define k where "k = nat (min (int n) int_max)"
    have k: "0 < k" "k \<le> n" "0 < min (int n) int_max" using False by (auto simp: k_def int_max_def)
    have w: "w \<noteq> []" using less.prems(2) False by auto
    obtain h1 where h1: "BIO_read h (Some p) (min (int n) int_max) = Some (int k, take k w, h1)" "mem_bio h1 p (drop k w) e"
      using BIO_read_mem [OF less.prems(1) w k(3)] k(2) less.prems(2) by (auto simp: k_def [symmetric])
    obtain h2 where h2: "bio_read_full h1 (Some p) (n - k) False = Some (Inr (take (n - k) (drop k w)), h2)" "mem_bio h2 p (drop (n - k) (drop k w)) e"
      using less.IH [OF _ h1(2), of "n - k" False] k less.prems(2) by fastforce
    have "take k w @ take (n - k) (drop k w) = take n w" using k(2) take_add [of k "n - k" w] by simp
    then show ?thesis using h1 h2 k False less.prems(2) by (simp add: bio_read_full.simps [of h "Some p" n])
  qed
qed

lemma read_full_short:
  "mem_bio h p w e \<Longrightarrow> length w < n \<Longrightarrow> e \<le> 0 \<Longrightarrow>
    \<exists>h'. bio_read_full h (Some p) n fr = Some (Inl (fr \<and> w = [] \<and> e = 0), h') \<and> mem_bio h' p [] e"
proof (induction n arbitrary: h w fr rule: less_induct)
  case (less n)
  define k where "k = nat (min (int n) int_max)"
  have k: "0 < k" "k \<le> n" "0 < min (int n) int_max" using less.prems(2) by (auto simp: k_def int_max_def)
  show ?case
  proof (cases "w = []")
    case True
    then obtain h1 where "BIO_read h (Some p) (min (int n) int_max) = Some (e, [], h1)" "mem_bio h1 p [] e"
      using BIO_read_mem_end [OF _ k(3)] less.prems(1) by blast
    then show ?thesis using True less.prems(2,3) by (simp add: bio_read_full.simps [of h "Some p" n])
  next
    case False
    define j where "j = length (take k w)"
    obtain h1 where h1: "BIO_read h (Some p) (min (int n) int_max) = Some (int j, take k w, h1)" "mem_bio h1 p (drop k w) e"
      using BIO_read_mem [OF less.prems(1) False k(3)] unfolding k_def j_def by blast
    have j: "0 < j" "j \<le> n" "length (drop k w) < n - j" "n - j < n" using k False less.prems(2) by (auto simp: j_def min_def)
    obtain h2 where h2: "bio_read_full h1 (Some p) (n - j) False = Some (Inl False, h2)" "mem_bio h2 p [] e"
      using less.IH [OF j(4) h1(2) j(3) less.prems(3), of False] by auto
    moreover have "\<not> int j \<le> 0" "n \<noteq> 0" using j(1) less.prems(2) by linarith+
    ultimately show ?thesis using h1(1) j(2) False unfolding bio_read_full.simps [of h "Some p" n] by (simp add: j_def [symmetric] del: length_take)
  qed
qed

section \<open>One element\<close>

lemma foldl_be_u32:
  "foldl (\<lambda>l b. push_bit 8 l OR (ucast b :: u32)) (of_nat n) (data::bytes) = of_nat (n * 256 ^ length data + be_nat data)"
proof (induction data rule: rev_induct)
  case (snoc b data)
  have "unat (ucast b :: u32) = unat b" by (simp add: unat_ucast_le)
  then have "push_bit 8 (of_nat m :: u32) OR ucast b = of_nat (m * 256 + unat b)" for m
    using push_bit_or_of_nat [of "ucast b :: u32" 8 m] by simp
  with snoc show ?case by (simp add: algebra_simps del: of_nat_add of_nat_mult)
qed simp

lemma len32_value:
  assumes "length L \<le> 4"
  shows "unat (foldl (\<lambda>l b. push_bit 8 l OR (ucast b :: u32)) 0 L) = be_nat L"
proof -
  have "be_nat L < 256 ^ 4" using be_nat_less [of L] power_increasing [OF assms, of "256::nat"] by simp
  then show ?thesis using foldl_be_u32 [of 0 L] unat_of_nat_less [of "be_nat L", where ?'a = 32] by simp
qed

text \<open>The two tests accept exactly the minimal lengths.\<close>

lemma len32_tests:
  assumes "0 < length L" "length L \<le> 4" "n = foldl (\<lambda>l b. push_bit 8 l OR (ucast b :: u32)) 0 L"
  shows "n < 128 \<or> drop_bit ((length L - 1) * 8) n = 0 \<longleftrightarrow> \<not> (128 \<le> be_nat L \<and> 256 ^ (length L - 1) \<le> be_nat L)"
proof -
  have "unat n = be_nat L" using len32_value assms(2,3) by simp
  then show ?thesis using drop_bit_eq_0_iff [of "(length L - 1) * 8" n] power_mult [of "2::nat" 8 "length L - 1"]
    by (auto simp: word_less_nat_alt mult.commute)
qed

lemma read_header:
  assumes b: "mem_bio h p (t # lb # r) e"
  shows "\<exists>h'. bio_read_full h (Some p) kInitialHeaderLen True = Some (Inr [t, lb], h') \<and> mem_bio h' p r e"
  using read_full_ok [OF b, of 2 True] by (simp add: kInitialHeaderLen_def numeral_2_eq_2)

lemma read_asn1_definite:
  assumes b: "mem_bio h p (t # der_length n @ r) e" and t: "t AND 0x1f \<noteq> 0x1f" and n: "n < 2 ^ 32"
  shows "\<exists>h'. BIO_read_asn1 mem h (Some p) max_len = read_asn1_body mem h' (Some p) (t # der_length n) n max_len \<and> mem_bio h' p r e"
  using n
proof (cases rule: der_length_cases)
  case 1
  have lb: "unat (of_nat n :: u8) = n" using 1(1) unat_of_nat_less [of n, where ?'a = 8] by simp
  have w: "t # der_length n @ r = t # of_nat n # r" using 1(2) by simp
  obtain h' where "bio_read_full h (Some p) kInitialHeaderLen True = Some (Inr [t, of_nat n], h')" "mem_bio h' p r e"
    using read_header [OF b [unfolded w]] by blast
  then show ?thesis using t 1 lb by (intro exI [of _ h']) (simp add: BIO_read_asn1_def u8_and_80)
next
  case (2 k)
  let ?lb = "of_nat (128 + k) :: u8" and ?L = "be_bytes k n"
  have lb: "unat ?lb = 128 + k" using unat_long_length_byte [of k] 2(2) by simp
  have w: "t # der_length n @ r = t # ?lb # ?L @ r" using 2(6) by simp
  obtain h1 where h1: "bio_read_full h (Some p) kInitialHeaderLen True = Some (Inr [t, ?lb], h1)" "mem_bio h1 p (?L @ r) e"
    using read_header [OF b [unfolded w]] by blast
  obtain h2 where h2: "bio_read_full h1 (Some p) k True = Some (Inr ?L, h2)" "mem_bio h2 p r e" using read_full_ok [OF h1(2), of k True] by auto
  have v: "be_nat ?L = n" using 2(5) by (simp add: be_nat_be_bytes)
  have nb: "unat (?lb AND 0x7f) = k" "\<not> ?lb AND 0x80 = 0" using lb 2(2) by (simp_all add: u8_and_7f u8_and_80)
  have "\<not> (foldl (\<lambda>l b. push_bit 8 l OR (ucast b :: u32)) 0 ?L < 128 \<or> drop_bit ((k - 1) * 8) (foldl (\<lambda>l b. push_bit 8 l OR (ucast b :: u32)) 0 ?L) = 0)"
    using len32_tests [of ?L, OF _ _ refl] 2(1-4) v by simp
  moreover have "unat (foldl (\<lambda>l b. push_bit 8 l OR (ucast b :: u32)) 0 ?L) = n" using len32_value [of ?L] 2(2) v by simp
  ultimately show ?thesis using t h1(1) h2 nb 2(1,2,6) by (intro exI [of _ h2]) (simp add: BIO_read_asn1_def Let_def)
qed

lemma read_asn1_body_ok:
  assumes mem: "\<forall>m. mem m \<noteq> None" and b: "mem_bio h p r e" "e \<le> 0" and n: "n < 2 ^ 32" "length header \<le> 6"
  shows "\<exists>h'. read_asn1_body mem h (Some p) header n max_len =
      Some (if length header + n > max_len \<or> int n > int_max then Inl ASN1_R_TOO_LONG
            else if n \<le> length r then Inr (header @ take n r) else Inl ASN1_R_NOT_ENOUGH_DATA, h') \<and>
    (length header + n \<le> max_len \<and> int n \<le> int_max \<and> n \<le> length r \<longrightarrow> mem_bio h' p (drop n r) e)"
proof -
  have s: "size_add n (length header) = length header + n" using n size_add_small [of n "length header"] by simp
  obtain x where m: "OPENSSL_malloc mem (length header + n) = Some x" using OPENSSL_malloc_live [OF mem, of "length header + n"] n by auto
  show ?thesis
  proof (cases "length header + n > max_len \<or> int n > int_max")
    case True
    then show ?thesis using s by (intro exI [of _ h]) (auto simp: read_asn1_body_def Let_def)
  next
    case ok: False
    show ?thesis
    proof (cases "n \<le> length r")
      case True
      then obtain h' where "bio_read_full h (Some p) n True = Some (Inr (take n r), h')" "mem_bio h' p (drop n r) e" using read_full_ok [OF b(1)] by blast
      then show ?thesis using ok True s m by (simp add: read_asn1_body_def Let_def)
    next
      case False
      then obtain h' y where "bio_read_full h (Some p) n True = Some (Inl y, h')" using read_full_short [OF b(1) _ b(2), of n True] by auto
      then show ?thesis using ok False s m by (simp add: read_asn1_body_def Let_def)
    qed
  qed
qed

text \<open>Without a minimal definite length, and without the start of an indefinite one, there is an error.\<close>

lemma read_asn1_reject:
  assumes b: "mem_bio h p w e" "e \<le> 0" and def: "\<nexists>t n r. w = t # der_length n @ r \<and> t AND 0x1f \<noteq> 0x1f \<and> n < 2 ^ 32"
    and ind: "\<nexists>t r. w = t # 0x80 # r \<and> t AND 0x1f \<noteq> 0x1f \<and> t AND 0x20 \<noteq> 0"
  shows "\<exists>x h'. BIO_read_asn1 mem h (Some p) max_len = Some (Inl x, h')"
proof (cases "length w < 2")
  case True
  then obtain h' where "bio_read_full h (Some p) 2 True = Some (Inl (w = [] \<and> e = 0), h')" using read_full_short [OF b(1) _ b(2), of 2 True] by auto
  then show ?thesis by (simp add: BIO_read_asn1_def kInitialHeaderLen_def)
next
  case False
  then obtain t lb r where w: "w = t # lb # r" by (metis Suc_length_conv add_2_eq_Suc le_Suc_ex not_less)
  obtain h1 where h1: "bio_read_full h (Some p) kInitialHeaderLen True = Some (Inr [t, lb], h1)" "mem_bio h1 p r e"
    using read_header b(1) w by blast
  show ?thesis
  proof (cases "t AND 0x1f = 0x1f")
    case True
    then show ?thesis using h1(1) by (simp add: BIO_read_asn1_def)
  next
    case t: False
    have lb: "\<not> unat lb < 128"
    proof
      assume "unat lb < 128"
      then have "w = t # der_length (unat lb) @ r" using w by (simp add: der_length_def)
      moreover have "unat lb < 2 ^ 32" using \<open>unat lb < 128\<close> by simp
      ultimately show False using def t by blast
    qed
    define k where "k = unat (lb AND 0x7f)"
    have k: "unat lb = 128 + k" using lb unat_u8_less [of lb] by (simp add: k_def u8_and_7f u8_mod_128)
    then have lbk: "lb = of_nat (128 + k)" by (metis of_nat_unat ucast_id)
    show ?thesis
    proof (cases "k = 0 \<or> k > 4")
      case True
      have "\<not> (t AND 0x20 \<noteq> 0 \<and> k = 0)" using ind w t lbk by auto
      then show ?thesis using True h1(1) t lb by (auto simp: BIO_read_asn1_def Let_def u8_and_80 k_def)
    next
      case k4: False
      show ?thesis
      proof (cases "length r < k")
        case True
        then obtain h' y where "bio_read_full h1 (Some p) k True = Some (Inl y, h')" using read_full_short [OF h1(2) _ b(2), of k True] by auto
        then show ?thesis using h1(1) t lb k4 by (simp add: BIO_read_asn1_def Let_def u8_and_80 k_def)
      next
        case False
        let ?L = "take k r"
        obtain h2 where h2: "bio_read_full h1 (Some p) k True = Some (Inr ?L, h2)" using read_full_ok [OF h1(2), of k True] False by auto
        have "\<not> (128 \<le> be_nat ?L \<and> 256 ^ (k - 1) \<le> be_nat ?L)"
        proof
          assume a: "128 \<le> be_nat ?L \<and> 256 ^ (k - 1) \<le> be_nat ?L"
          have l: "length ?L = k" using False by simp
          then have s: "be_nat ?L < 256 ^ k" "be_bytes k (be_nat ?L) = ?L" using be_nat_less [of ?L] be_bytes_be_nat [of ?L] by simp_all
          have "der_length (be_nat ?L) = lb # ?L" using der_length_long [of k "be_nat ?L"] k4 a s lbk by simp
          then have "w = t # der_length (be_nat ?L) @ drop k r" using w by simp
          moreover have "be_nat ?L < 2 ^ 32" using s(1) k4 power_increasing [of k 4 "256::nat"] by simp
          ultimately show False using def t by blast
        qed
        then have "foldl (\<lambda>l b. push_bit 8 l OR (ucast b :: u32)) 0 ?L < 128 \<or> drop_bit ((k - 1) * 8) (foldl (\<lambda>l b. push_bit 8 l OR (ucast b :: u32)) 0 ?L) = 0"
          using len32_tests [of ?L, OF _ _ refl] k4 False by simp
        then show ?thesis using h1(1) h2 t lb k4 by (auto simp: BIO_read_asn1_def Let_def u8_and_80 k_def [symmetric])
      qed
    qed
  qed
qed

text \<open>Everything up to the end of the data.\<close>

lemma read_all_step:
  assumes mem: "alloc_ok mem" "\<forall>m. mem m \<noteq> None" and b: "mem_bio h p w e" "w \<noteq> []" and dl: "done < length out" and out: "length out \<le> max_len" "max_len < 2 ^ 61"
  shows "\<exists>h' out' done' j. read_all_loop mem h (Some p) out done max_len = read_all_loop mem h' (Some p) out' done' max_len \<and>
    mem_bio h' p (drop j w) e \<and> 0 < j \<and> j \<le> length w \<and> done' = done + j \<and> done' \<le> length out' \<and> length out' \<le> max_len \<and>
    take done' out' = take done out @ take j w \<and> (done' = length out' \<longrightarrow> length out' = max_len)"
proof -
  define k where "k = nat (min (int (length out - done)) int_max)"
  define j where "j = length (take k w)"
  have k: "0 < k" "k \<le> length out - done" "0 < min (int (length out - done)) int_max" using dl by (auto simp: k_def int_max_def)
  have j: "0 < j" "j \<le> length w" "done + j \<le> length out" "take k w = take j w" "drop k w = drop j w" using k b(2) dl by (auto simp: j_def min_def)
  obtain h' where h': "BIO_read h (Some p) (min (int (length out - done)) int_max) = Some (int j, take j w, h')" "mem_bio h' p (drop j w) e"
    using BIO_read_mem [OF b k(3)] j(4,5) unfolding k_def [symmetric] j_def by auto
  define o1 where "o1 = take done out @ take j w @ drop (done + j) out"
  have o1: "cells_write out done (take j w) = Some o1" "length o1 = length out" "take (done + j) o1 = take done out @ take j w"
    using j dl by (simp_all add: o1_def cells_write_def)
  define go where "go = (\<lambda>out. read_all_loop mem h' (Some p) out (done + j) max_len)"
  have L: "read_all_loop mem h (Some p) out done max_len =
      (if length out < max_len \<and> length out - (done + j) < kChunkSize div 2 then
         let len' = size_add (length out) kChunkSize; len' = (if len' < kChunkSize \<or> len' > max_len then max_len else len')
         in case OPENSSL_realloc mem o1 len' of None \<Rightarrow> Some (None, h') | Some out \<Rightarrow> go out
       else go o1)"
    using dl h'(1) o1(1) j(1,2) unfolding go_def by (subst read_all_loop.simps) (simp add: Let_def nat_int_add)
  show ?thesis
  proof (cases "length out < max_len \<and> length out - (done + j) < kChunkSize div 2")
    case True
    define n where "n = min (length out + kChunkSize) max_len"
    have s: "size_add (length out) kChunkSize = length out + kChunkSize" using out size_add_small [of "length out" kChunkSize] by (simp add: kChunkSize_def)
    have n: "(if size_add (length out) kChunkSize < kChunkSize \<or> size_add (length out) kChunkSize > max_len then max_len else size_add (length out) kChunkSize) = n"
      "length out < n" "n \<le> max_len" unfolding s using True by (auto simp: n_def kChunkSize_def)
    obtain o2 where o2: "OPENSSL_realloc mem o1 n = Some o2" "length o2 = n" "take (length o1) o2 = o1"
    proof -
      obtain x where x: "OPENSSL_malloc mem n = Some x" using OPENSSL_malloc_live [OF mem(2), of n] n(3) out(2) by auto
      then have "length x = n" using OPENSSL_malloc_length [OF mem(1) _ x] n(3) out(2) by simp
      then show ?thesis using that x n(2) o1(2) by (simp add: OPENSSL_realloc_def Let_def)
    qed
    have "take (done + j) o2 = take done out @ take j w" using o1(2,3) o2(3) j(3) by (metis min.absorb1 take_take)
    moreover have "read_all_loop mem h (Some p) out done max_len = go o2" unfolding L Let_def n(1) using True o2(1) by simp
    ultimately show ?thesis using h'(2) j n o2(2) unfolding go_def by (intro exI [of _ h'] exI [of _ o2] exI [of _ "done + j"] exI [of _ j]) auto
  next
    case False
    then have "done + j = length o1 \<longrightarrow> length o1 = max_len" using out(1) o1(2) by (auto simp: kChunkSize_def)
    moreover have "read_all_loop mem h (Some p) out done max_len = go o1" unfolding L if_not_P [OF False] by (rule refl)
    ultimately show ?thesis using h'(2) j o1 out(1) unfolding go_def by (intro exI [of _ h'] exI [of _ o1] exI [of _ "done + j"] exI [of _ j]) auto
  qed
qed

lemma read_all_loop_ok:
  assumes mem: "alloc_ok mem" "\<forall>m. mem m \<noteq> None" and max: "max_len < 2 ^ 61" and e: "e = 0 \<or> e = - 1"
  shows "mem_bio h p w e \<Longrightarrow> done \<le> length out \<Longrightarrow> length out \<le> max_len \<Longrightarrow> (done = length out \<longrightarrow> length out = max_len) \<Longrightarrow>
    \<exists>h'. read_all_loop mem h (Some p) out done max_len = Some (if e = 0 \<and> done + length w < max_len then Some (take done out @ w) else None, h') \<and>
      (e = 0 \<and> done + length w < max_len \<longrightarrow> mem_bio h' p [] e)"
proof (induction "length w" arbitrary: h w out "done" rule: less_induct)
  case less
  show ?case
  proof (cases "done = length out")
    case True
    then show ?thesis using less.prems(4) by (subst read_all_loop.simps) simp
  next
    case False
    then have d: "done < length out" using less.prems(2) by simp
    show ?thesis
    proof (cases "w = []")
      case True
      have m: "0 < min (int (length out - done)) int_max" using d by (simp add: int_max_def)
      obtain h' where "BIO_read h (Some p) (min (int (length out - done)) int_max) = Some (e, [], h')" "mem_bio h' p [] e"
        using BIO_read_mem_end [OF _ m] less.prems(1) True by blast
      then show ?thesis using d True less.prems(3) e by (subst read_all_loop.simps) (auto simp: Let_def)
    next
      case w: False
      obtain h' out' done' j where s: "read_all_loop mem h (Some p) out done max_len = read_all_loop mem h' (Some p) out' done' max_len"
        "mem_bio h' p (drop j w) e" "0 < j" "j \<le> length w" "done' = done + j" "done' \<le> length out'" "length out' \<le> max_len"
        "take done' out' = take done out @ take j w" "done' = length out' \<longrightarrow> length out' = max_len"
        using read_all_step [OF mem less.prems(1) w d less.prems(3) max] by blast
      have "length (drop j w) < length w" using s(3) w by simp
      moreover have "take done' out' @ drop j w = take done out @ w" "done' + length (drop j w) = done + length w" using s(4,5,8) by simp_all
      ultimately show ?thesis using less.hyps [OF _ s(2,6,7,9)] unfolding s(1) by metis
    qed
  qed
qed

lemma bio_read_all_ok:
  assumes mem: "alloc_ok mem" "\<forall>m. mem m \<noteq> None" and max: "max_len < 2 ^ 61" and e: "e = 0 \<or> e = - 1" and b: "mem_bio h p w e" and pre: "length prefix \<le> 6"
  shows "\<exists>h'. bio_read_all mem h (Some p) prefix max_len = Some (if e = 0 \<and> length prefix + length w < max_len then Some (prefix @ w) else None, h') \<and>
      (e = 0 \<and> length prefix + length w < max_len \<longrightarrow> mem_bio h' p [] e)"
proof -
  define n where "n = (if size_add (length prefix) kChunkSize > max_len then max_len else size_add (length prefix) kChunkSize)"
  have s: "size_add (length prefix) kChunkSize = length prefix + kChunkSize" using pre size_add_small [of "length prefix" kChunkSize] by (simp add: kChunkSize_def)
  show ?thesis
  proof (cases "n < length prefix")
    case True
    then show ?thesis by (auto simp: bio_read_all_def n_def s Let_def split: if_splits)
  next
    case False
    have n: "n \<le> max_len" "n = length prefix \<longrightarrow> n = max_len" using False unfolding n_def s by (auto simp: kChunkSize_def)
    obtain x where x: "OPENSSL_malloc mem n = Some x" using OPENSSL_malloc_live [OF mem(2), of n] n(1) max by auto
    then have "length x = n" using OPENSSL_malloc_length [OF mem(1) _ x] n(1) max by simp
    then have ow: "cells_write x 0 prefix = Some (prefix @ drop (length prefix) x)" "length (prefix @ drop (length prefix) x) = n"
      using False by (simp_all add: cells_write_def)
    have "bio_read_all mem h (Some p) prefix max_len = read_all_loop mem h (Some p) (prefix @ drop (length prefix) x) (length prefix) max_len"
      unfolding bio_read_all_def Let_def n_def [symmetric] using False x ow(1) by simp
    moreover have "length prefix \<le> n" "take (length prefix) (prefix @ drop (length prefix) x) = prefix" using False by simp_all
    ultimately show ?thesis using read_all_loop_ok [OF mem max e b, of "length prefix" "prefix @ drop (length prefix) x", unfolded ow(2)] n by metis
  qed
qed

text \<open>
  What is accepted: an element with a one-byte tag and a minimal definite length that fits into \<open>max_len\<close> and whose body fits into an \<open>int\<close>;
  or, after the start of a constructed element of indefinite length, all the data, if it is shorter than \<open>max_len\<close> and the end of the data is reported
  as 0 and not as \<open>- 1\<close>, the value \<open>e\<close>.
\<close>

definition asn1_front :: "bytes \<Rightarrow> int \<Rightarrow> nat \<Rightarrow> bytes \<Rightarrow> bool" where
  "asn1_front w e max_len x \<longleftrightarrow>
     (\<exists>t body rest. t AND 0x1f \<noteq> 0x1f \<and> x = t # der_length (length body) @ body \<and> w = x @ rest \<and> length x \<le> max_len \<and> int (length body) \<le> int_max) \<or>
     (\<exists>t r. t AND 0x1f \<noteq> 0x1f \<and> t AND 0x20 \<noteq> 0 \<and> w = t # 0x80 # r \<and> x = w \<and> length w < max_len \<and> e = 0)"

lemma read_asn1_definite_ok:
  assumes mem: "\<forall>m. mem m \<noteq> None" and b: "mem_bio h p (t # der_length n @ r) e" "e \<le> 0" and t: "t AND 0x1f \<noteq> 0x1f" and n: "n < 2 ^ 32"
  shows "\<exists>h'. BIO_read_asn1 mem h (Some p) max_len =
      Some (if length (t # der_length n) + n > max_len \<or> int n > int_max then Inl ASN1_R_TOO_LONG
            else if n \<le> length r then Inr ((t # der_length n) @ take n r) else Inl ASN1_R_NOT_ENOUGH_DATA, h') \<and>
    (length (t # der_length n) + n \<le> max_len \<and> int n \<le> int_max \<and> n \<le> length r \<longrightarrow> mem_bio h' p (drop n r) e)"
proof -
  obtain h1 where h1: "BIO_read_asn1 mem h (Some p) max_len = read_asn1_body mem h1 (Some p) (t # der_length n) n max_len" "mem_bio h1 p r e"
    using read_asn1_definite [OF b(1) t n] by blast
  have "length (t # der_length n) \<le> 6" using n by (cases rule: der_length_cases) auto
  from read_asn1_body_ok [OF mem h1(2) b(2) n this] show ?thesis unfolding h1(1) .
qed

lemma read_asn1_indefinite_ok:
  assumes mem: "alloc_ok mem" "\<forall>m. mem m \<noteq> None" and max: "max_len < 2 ^ 61" and e: "e = 0 \<or> e = - 1" and b: "mem_bio h p (t # 0x80 # r) e"
    and t: "t AND 0x1f \<noteq> 0x1f" "t AND 0x20 \<noteq> 0"
  shows "\<exists>h'. BIO_read_asn1 mem h (Some p) max_len =
      Some (if e = 0 \<and> length (t # 0x80 # r) < max_len then Inr (t # 0x80 # r) else Inl ASN1_R_NOT_ENOUGH_DATA, h') \<and>
    (e = 0 \<and> length (t # 0x80 # r) < max_len \<longrightarrow> mem_bio h' p [] e)"
proof -
  obtain h1 where h1: "bio_read_full h (Some p) kInitialHeaderLen True = Some (Inr [t, 0x80], h1)" "mem_bio h1 p r e" using read_header [OF b] by blast
  have n: "unat ((0x80::u8) AND 0x7f) = 0" "\<not> (0x80::u8) AND 0x80 = 0" by simp_all
  have "length [t, 0x80] \<le> 6" by simp
  from bio_read_all_ok [OF mem max e h1(2) this] obtain h2 where "bio_read_all mem h1 (Some p) [t, 0x80] max_len =
      Some (if e = 0 \<and> length [t, 0x80] + length r < max_len then Some ([t, 0x80] @ r) else None, h2)"
    "e = 0 \<and> length [t, 0x80] + length r < max_len \<longrightarrow> mem_bio h2 p [] e" by blast
  then show ?thesis using h1(1) t n by (intro exI [of _ h2]) (simp add: BIO_read_asn1_def)
qed

lemma read_asn1_exact:
  assumes mem: "alloc_ok mem" "\<forall>m. mem m \<noteq> None" and max: "max_len < 2 ^ 61" and e: "e = 0 \<or> e = - 1" and b: "mem_bio h p w e"
  shows "\<exists>r h'. BIO_read_asn1 mem h (Some p) max_len = Some (r, h') \<and> (\<forall>x. r = Inr x \<longleftrightarrow> asn1_front w e max_len x) \<and>
    (\<forall>x. r = Inr x \<longrightarrow> mem_bio h' p (drop (length x) w) e)"
proof -
  have le: "e \<le> 0" using e by auto
  have acc: "\<exists>h'. BIO_read_asn1 mem h (Some p) max_len = Some (Inr x, h') \<and> mem_bio h' p (drop (length x) w) e" if front: "asn1_front w e max_len x" for x
  proof -
    from front consider t body rest where "t AND 0x1f \<noteq> 0x1f" "x = t # der_length (length body) @ body" "w = x @ rest" "length x \<le> max_len" "int (length body) \<le> int_max"
      | t r where "t AND 0x1f \<noteq> 0x1f" "t AND 0x20 \<noteq> 0" "w = t # 0x80 # r" "x = w" "length w < max_len" "e = 0" unfolding asn1_front_def by blast
    then show ?thesis
    proof cases
      case 1
      have n: "length body < 2 ^ 32" using 1(5) by (simp add: int_max_def)
      have w: "w = t # der_length (length body) @ body @ rest" using 1(2,3) by simp
      from read_asn1_definite_ok [OF mem(2) b [unfolded w] le 1(1) n, of max_len] show ?thesis using 1 by (auto simp: add.commute)
    next
      case 2
      then show ?thesis using read_asn1_indefinite_ok [OF mem max e b [unfolded 2(3)] 2(1,2)] by auto
    qed
  qed
  have "\<exists>r h'. BIO_read_asn1 mem h (Some p) max_len = Some (r, h') \<and> (\<forall>x. r = Inr x \<longrightarrow> asn1_front w e max_len x)"
  proof (cases "\<exists>t n r. w = t # der_length n @ r \<and> t AND 0x1f \<noteq> 0x1f \<and> n < 2 ^ 32")
    case True
    then obtain t n r where w: "w = t # der_length n @ r" and t: "t AND 0x1f \<noteq> 0x1f" and n: "n < 2 ^ 32" by blast
    have "asn1_front w e max_len ((t # der_length n) @ take n r)" if "length (t # der_length n) + n \<le> max_len" "int n \<le> int_max" "n \<le> length r"
      unfolding asn1_front_def using that t w
      by (intro disjI1 exI [of _ t] exI [of _ "take n r"] exI [of _ "drop n r"]) (auto simp: min_def)
    then show ?thesis using read_asn1_definite_ok [OF mem(2) b [unfolded w] le t n, of max_len] by (auto simp: not_less split: if_splits)
  next
    case def: False
    show ?thesis
    proof (cases "\<exists>t r. w = t # 0x80 # r \<and> t AND 0x1f \<noteq> 0x1f \<and> t AND 0x20 \<noteq> 0")
      case True
      then obtain t r where w: "w = t # 0x80 # r" and t: "t AND 0x1f \<noteq> 0x1f" "t AND 0x20 \<noteq> 0" by blast
      have "asn1_front w e max_len w" if "e = 0" "length w < max_len" unfolding asn1_front_def using that t w by blast
      then show ?thesis using read_asn1_indefinite_ok [OF mem max e b [unfolded w] t] w by (auto split: if_splits)
    next
      case False
      then show ?thesis using read_asn1_reject [OF b le def] by (metis sum.distinct(1))
    qed
  qed
  then obtain r h' where r: "BIO_read_asn1 mem h (Some p) max_len = Some (r, h')" "\<And>x. r = Inr x \<Longrightarrow> asn1_front w e max_len x" by blast
  moreover have "r = Inr x \<and> mem_bio h' p (drop (length x) w) e" if "asn1_front w e max_len x" for x using acc [OF that] r(1) by auto
  ultimately show ?thesis by blast
qed

end
