(* ===== verification/Bio_Channel.thy ===== *)
theory Bio_Channel
  imports Bio_Asn1
begin

text \<open>
  Streams of bytes through \<open>BIO\<close>s. The locale \<open>byte_channel\<close> states what a writer and a reader rely on, and shows for any run of calls that nothing is lost,
  duplicated or reordered; it holds for the memory \<open>BIO\<close> and for each direction of a \<open>BIO\<close> pair.
\<close>

section \<open>The interface\<close>

text \<open>
  A run of writes and reads, with the bytes accepted and the bytes delivered; \<open>other\<close> are the steps that may happen in between.
\<close>

inductive fifo_run ::
    "('s \<Rightarrow> bytes \<Rightarrow> (int \<times> 's) option) \<Rightarrow> ('s \<Rightarrow> int \<Rightarrow> (int \<times> bytes \<times> 's) option) \<Rightarrow> ('s \<Rightarrow> 's \<Rightarrow> bool) \<Rightarrow> 's \<Rightarrow> bytes \<Rightarrow> bytes \<Rightarrow> 's \<Rightarrow> bool"
  for wr rd other s where
  fifo_start: "fifo_run wr rd other s [] [] s"
| fifo_write: "fifo_run wr rd other s w g t \<Longrightarrow> int (length x) \<le> int_max \<Longrightarrow> wr t x = Some (r, u) \<Longrightarrow> fifo_run wr rd other s (w @ take (nat r) x) g u"
| fifo_read: "fifo_run wr rd other s w g t \<Longrightarrow> n \<le> int_max \<Longrightarrow> rd t n = Some (r, out, u) \<Longrightarrow> fifo_run wr rd other s w (g @ out) u"
| fifo_other: "fifo_run wr rd other s w g t \<Longrightarrow> other t u \<Longrightarrow> fifo_run wr rd other s w g u"

lemma fifo_run_trans:
  assumes "fifo_run wr rd other t w' g' u" "fifo_run wr rd other s w g t"
  shows "fifo_run wr rd other s (w @ w') (g @ g') u"
  using assms
proof (induction rule: fifo_run.induct)
  case (fifo_write w' g' v x r u)
  then show ?case using fifo_run.fifo_write [of wr rd other s "w @ w'" "g @ g'" v x r u] by simp
next
  case (fifo_read w' g' v n r out u)
  then show ?case using fifo_run.fifo_read [of wr rd other s "w @ w'" "g @ g'" v n r out u] by simp
qed (auto intro: fifo_run.fifo_other)

locale byte_channel =
  fixes inv :: "'s \<Rightarrow> bool" and queue :: "'s \<Rightarrow> bytes" and wr :: "'s \<Rightarrow> bytes \<Rightarrow> (int \<times> 's) option" and rd :: "'s \<Rightarrow> int \<Rightarrow> (int \<times> bytes \<times> 's) option"
    and other :: "'s \<Rightarrow> 's \<Rightarrow> bool"
  assumes write_ok: "inv s \<Longrightarrow> int (length x) \<le> int_max \<Longrightarrow> \<exists>r t. wr s x = Some (r, t) \<and> inv t \<and> queue t = queue s @ take (nat r) x"
    and read_ok: "inv s \<Longrightarrow> n \<le> int_max \<Longrightarrow> \<exists>r out t. rd s n = Some (r, out, t) \<and> inv t \<and> queue s = out @ queue t"
    and read_some: "inv s \<Longrightarrow> n \<le> int_max \<Longrightarrow> 0 < n \<Longrightarrow> queue s \<noteq> [] \<Longrightarrow> rd s n = Some (r, out, t) \<Longrightarrow> out \<noteq> []"
    and other_ok: "inv s \<Longrightarrow> other s t \<Longrightarrow> inv t \<and> queue t = queue s"
begin

text \<open>What was in the queue and what was accepted is what was delivered and what is left.\<close>

lemma fifo:
  assumes "fifo_run wr rd other s w g t" "inv s"
  shows "inv t \<and> queue s @ w = g @ queue t"
  using assms
proof (induction rule: fifo_run.induct)
  case (fifo_write w g t x r u)
  then show ?case using write_ok [of t x] by fastforce
next
  case (fifo_read w g t n r out u)
  then show ?case using read_ok [of t n] by fastforce
next
  case (fifo_other w g t u)
  then show ?case using other_ok [of t u] by fastforce
qed simp

text \<open>A reader that keeps reading gets everything.\<close>

lemma drain:
  assumes "inv s" "0 < n" "n \<le> int_max"
  shows "\<exists>t. fifo_run wr rd other s [] (queue s) t \<and> inv t \<and> queue t = []"
  using assms(1)
proof (induction "length (queue s)" arbitrary: s rule: less_induct)
  case less
  show ?case
  proof (cases "queue s = []")
    case True
    then show ?thesis using fifo_start [of wr rd other s] less.prems by auto
  next
    case False
    obtain r out t where t: "rd s n = Some (r, out, t)" "inv t" "queue s = out @ queue t" using read_ok [OF less.prems assms(3)] by blast
    have "out \<noteq> []" using read_some [OF less.prems assms(3,2) False t(1)] .
    then have "length (queue t) < length (queue s)" using t(3) by simp
    then obtain u where u: "fifo_run wr rd other t [] (queue t) u" "inv u" "queue u = []" using less.hyps t(2) by blast
    have "fifo_run wr rd other s [] ([] @ out) t" by (rule fifo_read [where wr = wr and rd = rd, OF fifo_start assms(3) t(1)])
    from fifo_run_trans [OF u(1) this] show ?thesis using u(2,3) t(3) by auto
  qed
qed

end

section \<open>The memory BIO\<close>

definition mem_chan :: "allocator \<Rightarrow> nat \<Rightarrow> bios \<Rightarrow> bool" where
  "mem_chan mem p h \<longleftrightarrow> alloc_ok mem \<and> (\<exists>w e. mem_bio h p w e)"

definition mem_queue :: "nat \<Rightarrow> bios \<Rightarrow> bytes" where
  "mem_queue p h = mem_bytes (the (bio_at h p))"

definition other_object :: "nat \<Rightarrow> bios \<Rightarrow> bios \<Rightarrow> bool" where
  "other_object p h h' \<longleftrightarrow> (\<exists>q bio. q \<noteq> p \<and> h' = h[q := bio])"

lemma mem_queue_bio: "mem_bio h p w e \<Longrightarrow> mem_queue p h = w"
  by (auto simp: mem_bio_def mem_queue_def)

lemma mem_bytes_num_write [simp]: "mem_bytes (bio\<lparr>b_num_write := n\<rparr>) = mem_bytes bio" "mem_inv (bio\<lparr>b_num_write := n\<rparr>) = mem_inv bio"
  by (simp_all add: mem_bytes_def mem_inv_def mem_rdonly_def)

lemma BIO_write_mem:
  assumes mem: "alloc_ok mem" and b: "mem_bio h p w e" and x: "length x < SIZE_MOD"
  shows "\<exists>r h'. BIO_write mem h (Some p) x = Some (r, h') \<and> mem_bio h' p (w @ take (nat r) x) e"
proof (cases "x = []")
  case True
  then show ?thesis using b by (auto simp: BIO_write_def mem_bio_def)
next
  case False
  obtain bio where bio: "bio_at h p = Some bio" "b_method bio = Some mem_method" "b_init bio" "mem_inv bio" "mem_bytes bio = w" "b_num bio = e"
    using b unfolding mem_bio_def by blast
  obtain r bio' where r: "mem_write mem bio x = Some (r, bio')" "mem_inv bio'" "mem_bytes bio' = w @ take (nat r) x" "same_fields bio bio'"
    using mem_write_any [OF mem bio(4) x] bio(5) by blast
  have f: "b_method bio' = Some mem_method" "b_init bio'" "b_num bio' = e" using r(4) bio by (simp_all add: same_fields_def)
  have "BIO_write mem h (Some p) x = Some (r, add_num_write (h[p := Some bio']) p r)"
    using bio(1-3) False r(1) by (simp add: BIO_write_def method_bwrite_def)
  moreover have "mem_bio (add_num_write (h[p := Some bio']) p r) p (w @ take (nat r) x) e"
    using bio_at_less [OF bio(1)] f r(2,3) unfolding mem_bio_def add_num_write_def by (auto simp: bio_at_update)
  ultimately show ?thesis by blast
qed

lemma BIO_read_mem_any:
  assumes b: "mem_bio h p w e"
  shows "\<exists>r out h'. BIO_read h (Some p) n = Some (r, out, h') \<and> mem_bio h' p (drop (length out) w) e \<and> w = out @ drop (length out) w \<and> (0 < n \<and> w \<noteq> [] \<longrightarrow> out \<noteq> [])"
proof -
  consider "n \<le> 0" | "0 < n" "w = []" | "0 < n" "w \<noteq> []" by linarith
  then show ?thesis
  proof cases
    case 1
    then show ?thesis using b by (auto simp: BIO_read_def mem_bio_def)
  next
    case 2
    then show ?thesis using BIO_read_mem_end [of h p e n] b by auto
  next
    case 3
    have "drop (length (take (nat n) w)) w = drop (nat n) w" by (simp add: min_def)
    then show ?thesis using BIO_read_mem [OF b 3(2,1)] 3 by fastforce
  qed
qed

interpretation mem_fifo: byte_channel "mem_chan mem p" "mem_queue p" "\<lambda>h x. BIO_write mem h (Some p) x" "\<lambda>h n. BIO_read h (Some p) n" "other_object p" for mem p
proof (unfold_locales, goal_cases)
  case (1 h x)
  then obtain w e where b: "alloc_ok mem" "mem_bio h p w e" by (auto simp: mem_chan_def)
  have "length x < SIZE_MOD" using 1(2) by (simp add: int_max_def)
  from BIO_write_mem [OF b this] obtain r h' where "BIO_write mem h (Some p) x = Some (r, h')" "mem_bio h' p (w @ take (nat r) x) e" by blast
  then show ?case using b mem_queue_bio by (auto simp: mem_chan_def)
next
  case (2 h n)
  then obtain w e where b: "alloc_ok mem" "mem_bio h p w e" by (auto simp: mem_chan_def)
  from BIO_read_mem_any [OF b(2), of n] obtain r out h' where "BIO_read h (Some p) n = Some (r, out, h')" "mem_bio h' p (drop (length out) w) e"
    "w = out @ drop (length out) w" by blast
  then show ?case using b(1) mem_queue_bio [OF b(2)] mem_queue_bio by (auto simp: mem_chan_def)
next
  case (3 h n r out h')
  then obtain w e where "mem_bio h p w e" by (auto simp: mem_chan_def)
  then show ?case using BIO_read_mem_any [of h p w e n] 3(3-5) mem_queue_bio by fastforce
next
  case (4 h h')
  then show ?case by (auto simp: mem_chan_def mem_bio_def mem_queue_def other_object_def bio_at_update)
qed

section \<open>The BIO pair\<close>

lemma pair_pipe_change:
  assumes inv: "pair_inv h p q" and s: "s = p \<or> s = q" and f: "\<And>bio. b_ptr (f bio) = b_ptr bio \<and> b_init (f bio) = b_init bio \<and> b_method (f bio) = b_method bio"
  shows "pair_inv (h[s := map_option f (bio_at h s)]) p q \<and> pair_pipe (h[s := map_option f (bio_at h s)]) r = pair_pipe h r"
proof -
  obtain bio b where bio: "bio_at h s = Some bio" "b_init bio" "b_ptr bio = Pair_ptr b" "ring_inv b" using inv s unfolding pair_inv_def pair_end_def by blast
  let ?h = "h[s := map_option f (bio_at h s)]"
  have n: "bio_at ?h s = Some (f bio)" "\<forall>r. r \<noteq> s \<longrightarrow> bio_at ?h r = bio_at h r" using bio_at_less [OF bio(1)] bio(1) by (simp_all add: bio_at_update)
  note u = pair_update [OF inv s bio(1,3) n(1) _ _ _ refl bio(4) n(2)]
  show ?thesis using u(1,2) u(3) [of r] f [of bio] bio pair_at_simp [OF bio(1,3)] by (cases "r = s") (simp_all add: pair_pipe_def Let_def)
qed

lemma add_num_pair:
  assumes "pair_inv h p q" "s = p \<or> s = q"
  shows "pair_inv (add_num_write h s n) p q" "pair_inv (add_num_read h s n) p q"
    "pair_pipe (add_num_write h s n) r = pair_pipe h r" "pair_pipe (add_num_read h s n) r = pair_pipe h r"
  using pair_pipe_change [OF assms, of "\<lambda>bio. bio\<lparr>b_num_write := b_num_write bio + of_int n\<rparr>" r]
    pair_pipe_change [OF assms, of "\<lambda>bio. bio\<lparr>b_num_read := b_num_read bio + of_int n\<rparr>" r] assms(1)
  by (simp_all add: add_num_write_def add_num_read_def)

lemma BIO_write_pair:
  assumes inv: "pair_inv h p q"
  shows "\<exists>h'. BIO_write mem h (Some p) x = Some (fst (pipe_write (pair_pipe h p) x), h') \<and> pair_inv h' p q \<and>
    pair_pipe h' p = snd (pipe_write (pair_pipe h p) x) \<and> pair_pipe h' q = pair_pipe h q"
proof -
  obtain bio where bio: "bio_at h p = Some bio" "b_method bio = Some methods_biop" "b_init bio" using inv unfolding pair_inv_def pair_end_def by blast
  show ?thesis
  proof (cases "x = []")
    case True
    then show ?thesis using bio inv by (simp add: BIO_write_def pipe_write_def)
  next
    case False
    let ?r = "fst (pipe_write (pair_pipe h p) x)"
    obtain h1 where h1: "bio_write h p x = Some (?r, h1)" "pair_inv h1 p q" "pair_pipe h1 p = snd (pipe_write (pair_pipe h p) x)" "pair_pipe h1 q = pair_pipe h q"
      using bio_write_refines [OF inv, of x] by blast
    have "BIO_write mem h (Some p) x = Some (?r, add_num_write h1 p ?r)" using bio False h1(1) by (simp add: BIO_write_def method_bwrite_def)
    then show ?thesis using add_num_pair [OF h1(2), of p] h1(3,4) by simp
  qed
qed

lemma BIO_read_pair:
  assumes inv: "pair_inv h p q" and n: "n \<le> int_max"
  shows "\<exists>h'. BIO_read h (Some q) n = Some (fst (pipe_read (pair_pipe h p) (nat n)), fst (snd (pipe_read (pair_pipe h p) (nat n))), h') \<and> pair_inv h' p q \<and>
    pair_pipe h' p = snd (snd (pipe_read (pair_pipe h p) (nat n))) \<and> pair_pipe h' q = pair_pipe h q"
proof -
  obtain bio where bio: "bio_at h q = Some bio" "b_method bio = Some methods_biop" "b_init bio" using inv unfolding pair_inv_def pair_end_def by blast
  show ?thesis
  proof (cases "n \<le> 0")
    case True
    then show ?thesis using bio inv by (simp add: BIO_read_def pipe_read_def)
  next
    case False
    let ?x = "pipe_read (pair_pipe h p) (nat n)"
    have "0 \<le> n" "n < 2147483648" using False n by (simp_all add: int_max_def)
    then obtain h1 where h1: "bio_read h q n = Some (fst ?x, fst (snd ?x), h1)" "pair_inv h1 p q" "pair_pipe h1 p = snd (snd ?x)" "pair_pipe h1 q = pair_pipe h q"
      using bio_read_refines [OF inv] by blast
    have "BIO_read h (Some q) n = Some (fst ?x, fst (snd ?x), add_num_read h1 q (fst ?x))" using bio False h1(1) by (simp add: BIO_read_def method_bread_def)
    then show ?thesis using add_num_pair [OF h1(2), of q] h1(3,4) by simp
  qed
qed

lemma BIO_ctrl_pair:
  assumes inv: "pair_inv h p q" and s: "s = p \<or> s = q" and c: "BIO_ctrl h (Some s) cmd num arg = Some (r, out, h')"
  shows "pair_inv h' p q \<and> pi_queue (pair_pipe h' t) = pi_queue (pair_pipe h t)"
proof -
  obtain bio b where bio: "bio_at h s = Some bio" "b_method bio = Some methods_biop" "b_init bio" "b_ptr bio = Pair_ptr b" "ring_inv b"
    using inv s unfolding pair_inv_def pair_end_def by blast
  have set: "pair_inv (set_pair h s b') p q \<and> pi_queue (pair_pipe (set_pair h s b') t) = pi_queue (pair_pipe h t)"
    if "bb_peer b' = bb_peer b" "ring_inv b'" "ring_bytes b' = ring_bytes b" for b'
  proof -
    have n: "bio_at (set_pair h s b') s = Some (bio\<lparr>b_ptr := Pair_ptr b'\<rparr>)" "\<forall>r. r \<noteq> s \<longrightarrow> bio_at (set_pair h s b') r = bio_at h r"
      using bio(1) by (simp_all add: bio_at_set_pair)
    note u = pair_update [OF inv s bio(1,4) n(1) _ _ _ that(1,2) n(2)]
    show ?thesis using u(1,2) u(3) [of t] that(3) bio pair_at_simp [OF bio(1,4)] by (cases "t = s") (simp_all add: pair_pipe_def Let_def)
  qed
  have "bio_ctrl h s cmd num arg = Some (r, h')" using c bio(1,2) by (auto simp: BIO_ctrl_def method_ctrl_def)
  then have "h' = h \<or> h' = set_pair h s (b\<lparr>bb_request := 0\<rparr>) \<or> h' = set_pair h s (b\<lparr>bb_closed := True\<rparr>) \<or>
      h' = h[s := map_option (\<lambda>bio. bio\<lparr>b_shutdown := num\<rparr>) (bio_at h s)]"
    using bio(1,4) by (cases cmd) (auto simp: bio_ctrl_def split: option.splits bio_arg.splits)
  then show ?thesis using inv set [of "b\<lparr>bb_request := 0\<rparr>"] set [of "b\<lparr>bb_closed := True\<rparr>"] bio(5)
      pair_pipe_change [OF inv s, of "\<lambda>bio. bio\<lparr>b_shutdown := num\<rparr>" t]
    by (auto simp: ring_inv_def ring_bytes_def)
qed

text \<open>What may happen between the writes at \<open>p\<close> and the reads at \<open>q\<close>: the other direction, and control commands at either end.\<close>

definition pair_other :: "allocator \<Rightarrow> nat \<Rightarrow> nat \<Rightarrow> bios \<Rightarrow> bios \<Rightarrow> bool" where
  "pair_other mem p q h h' \<longleftrightarrow>
     (\<exists>x r. BIO_write mem h (Some q) x = Some (r, h')) \<or>
     (\<exists>n r out. n \<le> int_max \<and> BIO_read h (Some p) n = Some (r, out, h')) \<or>
     (\<exists>s cmd num arg r out. (s = p \<or> s = q) \<and> BIO_ctrl h (Some s) cmd num arg = Some (r, out, h'))"

lemma pair_other_ok:
  assumes inv: "pair_inv h p q" and oth: "pair_other mem p q h h'"
  shows "pair_inv h' p q \<and> pi_queue (pair_pipe h' p) = pi_queue (pair_pipe h p)"
proof -
  note inv' = pair_inv_sym [OF inv]
  from oth consider x r where "BIO_write mem h (Some q) x = Some (r, h')" | n r out where "n \<le> int_max" "BIO_read h (Some p) n = Some (r, out, h')"
    | s cmd num arg r out where "s = p \<or> s = q" "BIO_ctrl h (Some s) cmd num arg = Some (r, out, h')" unfolding pair_other_def by blast
  then show ?thesis
  proof cases
    case (1 x r)
    then show ?thesis using BIO_write_pair [OF inv', of mem x] pair_inv_sym [of h' q p] by auto
  next
    case (2 n r out)
    then show ?thesis using BIO_read_pair [OF inv', of n] pair_inv_sym [of h' q p] by auto
  next
    case (3 s cmd num arg r out)
    then show ?thesis using BIO_ctrl_pair [OF inv] by blast
  qed
qed

interpretation pair_fifo: byte_channel "\<lambda>h. pair_inv h p q" "\<lambda>h. pi_queue (pair_pipe h p)" "\<lambda>h x. BIO_write mem h (Some p) x"
  "\<lambda>h n. BIO_read h (Some q) n" "pair_other mem p q" for mem p q
proof (unfold_locales, goal_cases)
  case (1 h x)
  have "pi_queue (snd (pipe_write a x)) = pi_queue a @ take (nat (fst (pipe_write a x))) x" for a by (simp add: pipe_write_def Let_def min_def)
  then show ?case using BIO_write_pair [OF 1(1), of mem x] by auto
next
  case (2 h n)
  have "pi_queue a = fst (snd (pipe_read a k)) @ pi_queue (snd (snd (pipe_read a k)))" for a k by (simp add: pipe_read_def)
  then show ?case using BIO_read_pair [OF 2] by auto
next
  case (3 h n r out h')
  then have "out = fst (snd (pipe_read (pair_pipe h p) (nat n)))" using BIO_read_pair [OF 3(1,2)] by auto
  then show ?case using 3(3,4) by (simp add: pipe_read_def)
next
  case (4 h h')
  then show ?case using pair_other_ok by blast
qed

text \<open>New objects.\<close>

lemma two_at:
  "bio_at (h @ [x, y]) (length h) = x" "bio_at (h @ [x, y]) (Suc (length h)) = y"
  "set_pair (h @ [x, y]) (length h) b = h @ [map_option (\<lambda>bio. bio\<lparr>b_ptr := Pair_ptr b\<rparr>) x, y]"
  "set_pair (h @ [x, y]) (Suc (length h)) b = h @ [x, map_option (\<lambda>bio. bio\<lparr>b_ptr := Pair_ptr b\<rparr>) y]"
  "set_init (h @ [x, y]) (length h) i = h @ [map_option (\<lambda>bio. bio\<lparr>b_init := i\<rparr>) x, y]"
  "set_init (h @ [x, y]) (Suc (length h)) i = h @ [x, map_option (\<lambda>bio. bio\<lparr>b_init := i\<rparr>) y]"
  by (simp_all add: bio_at_def nth_append set_pair_def set_init_def list_update_append)

definition fresh_bio :: "bio_method \<Rightarrow> bio" where
  "fresh_bio m = \<lparr>b_method = Some m, b_init = False, b_shutdown = 1, b_flags = 0, b_retry_reason = 0, b_num = 0, b_references = 1,
     b_ptr = Null_ptr, b_next_bio = None, b_num_read = 0, b_num_write = 0\<rparr>"

lemma bio_new_bio_pair_ok:
  assumes mem: "alloc_ok mem" "\<forall>n. mem n \<noteq> None" and n: "n1 \<le> 2 ^ 62" "n2 \<le> 2 ^ 62"
  shows "\<exists>h'. BIO_new_bio_pair mem h n1 n2 = Some (Some (length h, Suc (length h)), h') \<and> pair_inv h' (length h) (Suc (length h)) \<and>
    pair_pipe h' (length h) = \<lparr>pi_queue = [], pi_cap = (if n1 = 0 then 17408 else n1), pi_closed = False\<rparr> \<and>
    pair_pipe h' (Suc (length h)) = \<lparr>pi_queue = [], pi_cap = (if n2 = 0 then 17408 else n2), pi_closed = False\<rparr>"
proof -
  let ?c1 = "if n1 = 0 then 17408 else n1" and ?c2 = "if n2 = 0 then 17408 else n2"
  have c: "?c1 \<le> 2 ^ 62" "?c2 \<le> 2 ^ 62" using n by simp_all
  obtain d1 where d1: "OPENSSL_malloc mem ?c1 = Some d1" using OPENSSL_malloc_live [OF mem(2) c(1)] by blast
  obtain d2 where d2: "OPENSSL_malloc mem ?c2 = Some d2" using OPENSSL_malloc_live [OF mem(2) c(2)] by blast
  have l: "length d1 = ?c1" "length d2 = ?c2"
    using OPENSSL_malloc_length [OF mem(1) _ d1] OPENSSL_malloc_length [OF mem(1) _ d2] c by simp_all
  define b :: "nat \<Rightarrow> bytes \<Rightarrow> nat \<Rightarrow> bio_bio_st" where
    "b n d q = \<lparr>bb_peer = Some q, bb_closed = False, bb_len = 0, bb_offset = 0, bb_size = n, bb_buf = Some d, bb_request = 0\<rparr>" for n d q
  define e :: "bio_bio_st \<Rightarrow> bio" where "e st = (fresh_bio methods_biop)\<lparr>b_ptr := Pair_ptr st, b_init := True\<rparr>" for st
  let ?p = "length h" and ?q = "Suc (length h)"
  let ?h = "h @ [Some (e (b ?c1 d1 ?q)), Some (e (b ?c2 d2 ?p))]"
  obtain x y where xy: "OPENSSL_malloc mem 64 = Some x" "OPENSSL_malloc mem 56 = Some y" using OPENSSL_malloc_live [OF mem(2)] by fastforce
  define f where "f = (fresh_bio methods_biop)\<lparr>b_ptr := Pair_ptr \<lparr>bb_peer = None, bb_closed = False, bb_len = 0, bb_offset = 0, bb_size = 17 * 1024, bb_buf = None, bb_request = 0\<rparr>\<rparr>"
  have new: "BIO_new mem g methods_biop = (Some (length g), g @ [Some f])" for g
    using xy by (simp add: BIO_new_def method_create_def bio_new_def f_def fresh_bio_def)
  have "bio_make_pair mem (h @ [Some f, Some f]) ?p ?q n1 n2 = Some (True, ?h)"
  proof -
    have "pair_buffer mem st n1 = (st\<lparr>bb_size := ?c1, bb_buf := Some d1, bb_len := 0, bb_offset := 0\<rparr>, True)"
      "pair_buffer mem st n2 = (st\<lparr>bb_size := ?c2, bb_buf := Some d2, bb_len := 0, bb_offset := 0\<rparr>, True)" if "bb_buf st = None" "bb_size st = 17408" for st
      using d1 d2 that by (auto simp: pair_buffer_def Let_def)
    then show ?thesis by (simp add: bio_make_pair_def pair_at_def two_at f_def e_def b_def)
  qed
  then have "BIO_new_bio_pair mem h n1 n2 = Some (Some (?p, ?q), ?h)" by (simp add: BIO_new_bio_pair_def new)
  moreover have "bio_at ?h ?p = Some (e (b ?c1 d1 ?q))" "bio_at ?h ?q = Some (e (b ?c2 d2 ?p))" by (simp_all add: two_at)
  then have "pair_inv ?h ?p ?q" "pair_pipe ?h ?p = \<lparr>pi_queue = [], pi_cap = ?c1, pi_closed = False\<rparr>" "pair_pipe ?h ?q = \<lparr>pi_queue = [], pi_cap = ?c2, pi_closed = False\<rparr>"
    using l by (simp_all add: pair_inv_def pair_end_def ring_inv_def pair_pipe_def pair_at_def ring_bytes_def e_def b_def fresh_bio_def Let_def)
  ultimately show ?thesis by blast
qed

lemma bio_new_mem_buf_ok:
  assumes mem: "\<forall>n. mem n \<noteq> None" and w: "length w < SIZE_MOD"
  shows "\<exists>h'. BIO_new_mem_buf mem h (Some w) (int (length w)) = Some (Some (length h), h') \<and> mem_bio h' (length h) w 0"
proof -
  obtain x y where xy: "OPENSSL_malloc mem 64 = Some x" "OPENSSL_malloc mem 24 = Some y" using OPENSSL_malloc_live [OF mem] by fastforce
  define f where "f = (fresh_bio mem_method)\<lparr>b_shutdown := 1, b_init := True, b_num := - 1, b_ptr := Mem_ptr \<lparr>mp_buf = \<lparr>bm_length = 0, bm_data = [], bm_max = 0\<rparr>, mp_off = 0\<rparr>\<rparr>"
  have new: "BIO_new mem h mem_method = (Some (length h), h @ [Some f])"
    using xy by (simp add: BIO_new_def method_create_def mem_new_def BUF_MEM_new_def f_def fresh_bio_def)
  let ?f = "f\<lparr>b_ptr := Mem_ptr \<lparr>mp_buf = \<lparr>bm_length = length w, bm_data = w, bm_max = length w\<rparr>, mp_off = 0\<rparr>,
      b_flags := b_flags f OR BIO_FLAGS_MEM_RDONLY, b_num := 0\<rparr>"
  have "BIO_new_mem_buf mem h (Some w) (int (length w)) = Some (Some (length h), h @ [Some ?f])" by (simp add: BIO_new_mem_buf_def new bio_at_def)
  moreover have "mem_bio (h @ [Some ?f]) (length h) w 0"
    using w by (simp add: mem_bio_def bio_at_def mem_inv_def mem_bytes_def mem_rdonly_def bm_inv_def f_def fresh_bio_def bio_flag_defs)
  ultimately show ?thesis by blast
qed

end
