(* ===== verification/Conf_Bio.thy ===== *)
theory Conf_Bio
  imports Conf_Text Bio_Channel
begin

text \<open>
  Loading a configuration from a memory \<open>BIO\<close>: the calls of \<open>BIO_gets\<close> in \<open>NCONF_load_bio\<close> deliver the lines of the data, cut into pieces of at most 510 bytes.
\<close>

section \<open>BIO\_gets on memory\<close>

lemma BIO_gets_mem:
  assumes b: "mem_bio h p w e" and n: "1 < n"
  shows "\<exists>h'. BIO_gets h (Some p) n = Some (int (length (gets_line (nat n) w)), gets_line (nat n) w @ [0], h') \<and>
    mem_bio h' p (drop (length (gets_line (nat n) w)) w) e"
proof -
  obtain bio where bio: "bio_at h p = Some bio" "b_method bio = Some mem_method" "b_init bio" "mem_inv bio" "mem_bytes bio = w" "b_num bio = e"
    using b unfolding mem_bio_def by blast
  let ?g = "gets_line (nat n) w"
  obtain bio' where r: "mem_gets bio n = Some (int (length ?g), ?g @ [0], bio')" "mem_inv bio'" "mem_bytes bio' = drop (length ?g) w" "same_fields bio bio'"
    using mem_gets_ok [OF bio(4) n] bio(5) by auto
  have f: "b_method bio' = Some mem_method" "b_init bio'" "b_num bio' = e" using r(4) bio by (simp_all add: same_fields_def)
  have "BIO_gets h (Some p) n = Some (int (length ?g), ?g @ [0], add_num_read (h[p := Some bio']) p (int (length ?g)))"
    using bio(1-3) n r(1) by (simp add: BIO_gets_def method_bgets_def)
  then show ?thesis using mem_bio_update [OF bio(1) f(1,2) r(2)] r(3) f(3) by simp
qed

text \<open>The strings stored by the first \<open>k\<close> calls in \<open>NCONF_load_bio\<close>.\<close>

fun bio_gets_list :: "nat \<Rightarrow> bios \<Rightarrow> nat \<Rightarrow> (bytes list \<times> bios) option" where
  "bio_gets_list 0 h p = Some ([], h)"
| "bio_gets_list (Suc k) h p =
     (case BIO_gets h (Some p) (int CONFBUFSIZE - 1) of
        None \<Rightarrow> None
      | Some (r, out, h) \<Rightarrow> map_option (\<lambda>(gs, h). (take (nat r) out # gs, h)) (bio_gets_list k h p))"

lemma gets_line_file:
  assumes "\<forall>c \<in> set l. c \<noteq> 0x0a" "length l < n - 1"
  shows "gets_line n (l @ 0x0a # r) = l @ [0x0a]"
  using assms by (simp add: gets_line_def takeWhile_append2 dropWhile_append2 takeWhile_eq_all_conv [THEN iffD2])

lemma gets_list_lines:
  "mem_bio h p (concat (map (\<lambda>l. l @ [0x0a]) ls)) e \<Longrightarrow> \<forall>l \<in> set ls. (\<forall>c \<in> set l. c \<noteq> 0x0a) \<and> length l \<le> 509 \<Longrightarrow>
    \<exists>h'. bio_gets_list (length ls) h p = Some (map (\<lambda>l. l @ [0x0a]) ls, h') \<and> mem_bio h' p [] e"
proof (induction ls arbitrary: h)
  case (Cons l ls)
  let ?r = "concat (map (\<lambda>l. l @ [0x0a]) ls)"
  have l: "\<forall>c \<in> set l. c \<noteq> 0x0a" "length l < nat 511 - 1" using Cons.prems(2) by simp_all
  have b: "mem_bio h p (l @ 0x0a # ?r) e" using Cons.prems(1) by simp
  note g = gets_line_file [OF l]
  obtain h1 where h1: "BIO_gets h (Some p) 511 = Some (int (length (l @ [0x0a])), l @ [0x0a] @ [0], h1)" "mem_bio h1 p ?r e"
    using BIO_gets_mem [OF b, of 511] g by auto
  obtain h2 where "bio_gets_list (length ls) h1 p = Some (map (\<lambda>l. l @ [0x0a]) ls, h2)" "mem_bio h2 p [] e"
    using Cons.IH [OF h1(2)] Cons.prems(2) by auto
  moreover have "nat (1 + int (length l)) = Suc (length l)" by simp
  ultimately show ?case using h1(1) by (simp add: CONFBUFSIZE_def)
qed simp

lemma load_file_ok:
  assumes mem: "memory_ok mem al" and inv: "conf_inv conf" "sections_le conf K" and items: "\<forall>it \<in> set items. wf_item it" "K + length items < 2147483647"
    and b: "mem_bio h p (concat (map (\<lambda>it. item_line it @ [0x0a]) items)) e"
  shows "\<exists>gets h' conf'. bio_gets_list (length items) h p = Some (gets, h') \<and> mem_bio h' p [] e \<and> NCONF_load_bio mem al conf gets = Some (Inr (), conf') \<and>
    (\<forall>s n. NCONF_get_string conf' (Some s) (Some n) = Some (snd (fold item_step items (kDefaultSectionName, conf_lookup conf)) s n))"
proof -
  let ?ls = "map item_line items"
  have e: "map (\<lambda>l. l @ [0x0a]) ?ls = map (\<lambda>it. item_line it @ [0x0a]) items" by simp
  have "\<forall>l \<in> set ?ls. (\<forall>c \<in> set l. c \<noteq> 0x0a) \<and> length l \<le> 509" using items(1) item_line_ok(2,5) by auto
  then obtain h' where "bio_gets_list (length items) h p = Some (map (\<lambda>it. item_line it @ [0x0a]) items, h')" "mem_bio h' p [] e"
    using gets_list_lines [of h p ?ls e] b unfolding e length_map by blast
  moreover obtain conf' where c: "NCONF_load_bio mem al conf (map (\<lambda>it. item_line it @ [0x0a]) items) = Some (Inr (), conf')" "conf_inv conf'"
    "conf_lookup conf' = snd (fold item_step items (kDefaultSectionName, conf_lookup conf))"
    using load_bio_items [OF mem inv items] by blast
  ultimately show ?thesis using get_string_ok(1) [OF c(2)] by auto
qed

end
