(* ===== verification/Spec2Isabelle.thy ===== *)
theory Spec2Isabelle
  imports Err_Text Set_Of Ber Cbb_Locked Cbs_Time Base64_Stream Conf_Bio
begin

text \<open>
  A verification library for the data-handling core of the BoringSSL copy that swift-nio-ssl carries
  under \<open>Sources/CNIOBoringSSL\<close>. The Swift package is a TLS handler for network channels; the
  bytes that it exchanges with a peer, certificates, keys and handshake messages alike, are read and written
  by the C code modelled here. All paths below are relative to \<open>src/Sources/CNIOBoringSSL/crypto\<close>.

  \<^bold>\<open>The parts and their theories.\<close>

  \<^item> Reading bytes, \<open>bytestring/cbs.c\<close>: \<open>Cbs\<close> models the fixed-size, length-prefixed, delimited and decimal
    reads, \<open>Cbs_Asn1\<close> the ASN.1 element reader and the typed readers on top of it. A \<open>CBS\<close>, a pointer
    and a length, is the list of the bytes that are left; a reader returns its result, or \<open>None\<close> for the return value 0,
    and the \<open>CBS\<close> afterwards. \<open>Der\<close> defines DER by its encoder and shows that the readers accept exactly that.
  \<^item> Building bytes, \<open>bytestring/cbb.c\<close> and \<open>bytestring/asn1_compat.c\<close>: \<open>Cbb\<close> models the tree of builders over one
    shared buffer, with its memory, its pending children and its error flag; \<open>Cbb_Asn1\<close> the ASN.1 writers. The chain of open
    children is a list, a builder is its depth in that chain, and the outer \<open>None\<close> stands for a failed assertion or an access outside the
    buffer. \<open>Cbb_Refine\<close> gives the abstract builder (a root string and a chain of open bodies), the
    simulation relation and the refinement of \<open>CBB_flush\<close>; \<open>Cbb_Ops\<close> the notion of an operation that appends given bytes, with
    rules for sequences and nested elements. \<open>Asn1_Write\<close>, \<open>Oid\<close> and \<open>Set_Of\<close> prove the ASN.1 writers, the textual
    object identifiers and the sorting of a SET OF. \<open>Cbb_Locked\<close> goes through all functions that write and shows what they do
    once an error is recorded. \<open>Codec\<close> holds the locale of self-delimiting encodings.
  \<^item> BER, \<open>bytestring/ber.c\<close>: \<open>Ber\<close> models the scan and the conversion, specifies the conversion as an inductive relation and
    shows that the code computes it.
  \<^item> Text, \<open>bytestring/unicode.c\<close>: \<open>Unicode\<close>, with one locale for the four encodings.
  \<^item> Time, \<open>asn1/posix_time.c\<close> and the end of \<open>cbs.c\<close>: \<open>Posix_Time\<close> and \<open>Cbs_Time\<close>.
  \<^item> Constant-time selection, \<open>internal.h\<close>, and base64, \<open>base64/base64.c\<close>: \<open>Constant_Time\<close>, \<open>Base64\<close> (model and one-shot round trip)
    and \<open>Base64_Stream\<close> (sequences of update calls).
  \<^item> The pointer stack, \<open>stack/stack.c\<close>: \<open>Stack\<close> (model), \<open>Stack_Sort\<close> (heap sort and binary search for any comparison
    function that is a total preorder) and \<open>Stack_List\<close> (invariant, lists, runs of operations).
  \<^item> The hash table, \<open>lhash/lhash.c\<close>: \<open>Lhash\<close> (model) and \<open>Lhash_Set\<close> (the locale of hash and comparison functions that agree, the invariant
    and the operations as set operations).
  \<^item> Strings and buffers, \<open>mem.c\<close> and \<open>buf/buf.c\<close>: \<open>Mem_Str\<close> and \<open>Buf\<close>.
  \<^item> Configuration files, \<open>conf/conf.c\<close> and \<open>conf/conf_def.h\<close>: \<open>Conf_Scan\<close> models the scanner of a line, \<open>Conf_Lines\<close> shows that it stays in the line and what it reads,
    \<open>Conf_Db\<close> models the store of values with its hash table and the stacks of the sections; it interprets the locale of the hash table on the functions of \<open>conf.c\<close>.
    \<open>Conf_Map\<close> shows that the operations of the store are updates of a map from sections and names to values, \<open>Conf_Load\<close> models the loading loop with its
    continuation lines, and \<open>Conf_File\<close> shows that loading is defined and keeps the store well typed on every input. \<open>Conf_Text\<close> and \<open>Conf_Bio\<close> show what
    files of the usual form, read from memory, are loaded to.
  \<^item> Streams, \<open>bio/bio.c\<close>, \<open>bio/bio_mem.c\<close> and \<open>bio/pair.c\<close>: \<open>Bio_Base\<close> (the structure, flags and reference counts), \<open>Bio_Mem\<close> (the memory \<open>BIO\<close> as a queue), \<open>Bio_Pair\<close> (the
    ring buffers of a \<open>BIO\<close> pair as two pipes), \<open>Bio\<close> (the interface: dispatch, control, chains), \<open>Bio_Asn1\<close> (\<open>BIO_read_asn1\<close>) and \<open>Bio_Channel\<close> (the locale of byte
    channels, interpreted for both kinds). The objects live in a store, a list indexed by the pointers; a \<open>BIO\<close> pair refers to its peer through it.
  \<^item> Errors, \<open>err/err.c\<close>: \<open>Err\<close> models the ring of a thread with marks and saved states, and shows that runs of calls are runs on a list of the 15 most recent errors;
    \<open>Err_Text\<close> the search for reasons and the text of an error. The other theories do not record the errors that their functions put on this queue.
  \<^item> \<open>BSSL_Prelude\<close> holds the machine integers, big-endian numbers and the facts on words; the memory helpers of \<open>mem.c\<close>
    and \<open>internal.h\<close> are modelled where they are used.

  The components call each other as in C: the ASN.1 readers use the byte readers, the writers the builder, the BER conversion the
  reader and the builder, the time readers the byte readers and the calendar, base64 the constant-time selections, the
  configuration store the hash table, the pointer stack and the growing buffer, its loader \<open>BIO_gets\<close>, and the memory \<open>BIO\<close> the growing buffer.

  \<^bold>\<open>Machine integers and memory.\<close> \<open>uint8_t\<close> to \<open>uint64_t\<close> are words. \<open>size_t\<close> has 64 bits and is a natural number; where the code
  tests for wrap-around the sum or product is taken at 64 bits (\<open>size_add\<close>, \<open>size_mul\<close>). The calendar uses integers with C's truncating division,
  and the places where a signed sum could overflow are explicit. Allocation is a parameter: an \<open>allocator\<close> maps a size to fresh
  contents or to a failure, and \<open>alloc_ok\<close> (for pointer arrays \<open>cells_ok\<close>) states that the block has the size asked for. Theorems that promise success assume
  that no allocation fails; the others cover every failure.

  \<^bold>\<open>Loops.\<close> Every loop is a terminating function with its own measure, or, where it ends only for well-formed data (ring buffers, chains, \<open>bio_read_all\<close>), a partial
  function whose value \<open>None\<close> covers a loop without end; no fuel is used, so a theorem that gives the result of an operation also shows that it returns. The depth bound 2048 of the BER conversion is that of the code.

  \<^bold>\<open>What the theorems show.\<close> The builder refines the abstract builder and stays locked after an error; the DER readers accept exactly DER and each encoding once;
  integers, elements, identifiers, texts, times and base64 survive writing and reading; a SET OF is sorted; the BER conversion outputs DER; the calendar functions are
  inverse to each other; the branch-free selections are conditionals; the stack keeps its invariant, sorts and searches correctly; the hash table is a set of objects; a configuration file is loaded to the map that it
  describes, and no input makes the loader undefined; a \<open>BIO\<close> pair and a memory \<open>BIO\<close> deliver the bytes written in order, and \<open>BIO_read_asn1\<close> cuts off exactly one element; the ring of the error queue is a list of the 15 most recent errors, and the text of
  an error keeps its five fields when it is cut. The properties below
  also state behaviour that differs from the documentation: nested BER that the scan overlooks, the sign of time-zone offsets,
  indefinite lengths that \<open>BIO_read_asn1\<close> refuses, and the functions that ignore the error of a builder;
  \<open>stack_set_unsorted\<close> and \<open>stack_deep_copy_unsorted\<close> show a sorted flag that is no longer true.

  \<^bold>\<open>Not modelled.\<close> The Swift sources and the C++ TLS state machine (\<open>ssl\<close>) are in other languages. The
  cryptographic primitives (\<open>fipsmodule\<close>, \<open>curve25519\<close>, \<open>kyber\<close>, assembly and tables), X.509, EVP and PEM, the printing of the error queue to files and callbacks, files and sockets, threads, and the CPU
  detection are outside this library so far. Freeing memory has no effect on the model; that the compiled code of the constant-time functions takes
  constant time cannot be stated in it.
\<close>


text \<open>The allocator of the witnesses: every request succeeds with zeroed memory.\<close>

definition zero_mem :: allocator where
  "zero_mem n = Some (replicate n 0)"

lemma zero_mem_ok: "alloc_ok zero_mem" "\<forall>m. zero_mem m \<noteq> None"
  by (simp_all add: alloc_ok_def zero_mem_def)

text \<open>A builder with an open 16-bit length-prefixed child of two bytes, as the calls leave it.\<close>

definition demo_builder :: cbb where
  "demo_builder = snd (the (CBB_add_bytes zero_mem 1 [7, 8]
     (snd (the (CBB_add_u16_length_prefixed zero_mem 0 (the (CBB_init zero_mem 4)))))))"

lemma demo_builder_rel: "cbb_rel demo_builder [] [(Prefix 2, [7, 8])]"
proof -
  have e: "demo_builder = \<lparr>cbb_base = \<lparr>bbuf = [0, 0, 7, 8], blen = 4, bcap = 4, can_resize = True, berror = False\<rparr>,
      children = [\<lparr>c_offset = 0, pending_len_len = 2, pending_is_asn1 = False\<rparr>]\<rparr>" by code_simp
  have "replicate 2 (0::u8) = [0, 0]" by (simp add: numeral_2_eq_2)
  then show ?thesis unfolding e by (simp add: cbb_rel_def buf_ok_def contents_def)
qed

section \<open>Building byte strings\<close>

text \<open>C1: \<open>CBB_flush\<close> on any builder of a well-formed tree has defined behaviour. When it
  succeeds it has closed, innermost first, every child below the builder with the length prefix
  the child was opened with; when it fails the builder is locked, and either a body does not
  fit its prefix or the buffer cannot hold the output.\<close>
theorem flush_refines:
  assumes "alloc_ok mem" "cbb_rel s root fs" "d \<le> length fs"
  shows "cbb_wp (CBB_flush mem d s)
    (\<lambda>s'. failed d s' \<and> (\<forall>a'. a_flush d (root, fs) = Some a' \<longrightarrow> \<not> cbb_room mem (cbb_base s) (alen a')))
    (\<lambda>_ s'. \<exists>root' fs'. a_flush d (root, fs) = Some (root', fs') \<and> length fs' = d \<and> cbb_rel s' root' fs')"
  by (rule cbb_wp_mono [OF CBB_flush_refines [of mem s "(root, fs)" d]]) (use assms in auto)

theorem flush_refines_witness:
  "cbb_wp (CBB_flush zero_mem 0 demo_builder)
    (\<lambda>s'. failed 0 s' \<and> (\<forall>a'. a_flush 0 ([], [(Prefix 2, [7, 8])]) = Some a' \<longrightarrow>
       \<not> cbb_room zero_mem (cbb_base demo_builder) (alen a')))
    (\<lambda>_ s'. \<exists>root' fs'. a_flush 0 ([], [(Prefix 2, [7, 8])]) = Some (root', fs') \<and> length fs' = 0 \<and>
       cbb_rel s' root' fs')"
  by (rule flush_refines [OF zero_mem_ok(1) demo_builder_rel]) simp

text \<open>C2: \<open>CBB_add_bytes\<close> flushes the children below the builder and appends exactly the given
  bytes to it. It fails only where a child cannot be closed or the buffer cannot hold the
  output.\<close>
theorem add_bytes_refines:
  assumes "alloc_ok mem" "cbb_rel s root fs" "d \<le> length fs" "length data < 2 ^ 64"
  shows "cbb_wp (CBB_add_bytes mem d data s)
    (\<lambda>s'. failed d s' \<and> (\<forall>a'. a_flush d (root, fs) = Some a' \<longrightarrow>
       \<not> cbb_room mem (cbb_base s) (alen a' + length data)))
    (\<lambda>_ s'. \<exists>a'. a_flush d (root, fs) = Some a' \<and> cbb_rel2 s' (a_append data a') \<and> length (snd a') = d)"
proof (rule cbb_wp_mono [OF appendsD [OF CBB_add_bytes_appends [OF assms(4)] assms(1), of s "(root, fs)"]])
  fix s' assume "failed d s' \<and> (\<forall>a'. a_add d data (root, fs) = Some a' \<longrightarrow> \<not> cbb_room mem (cbb_base s) (alen a'))"
  then show "failed d s' \<and> (\<forall>a'. a_flush d (root, fs) = Some a' \<longrightarrow>
      \<not> cbb_room mem (cbb_base s) (alen a' + length data))"
    by (cases "a_flush d (root, fs)") (simp_all add: a_add_def del: split_paired_All)
next
  fix x s' assume "\<exists>a'. a_add d data (root, fs) = Some a' \<and> cbb_rel2 s' a' \<and> length (snd a') = d \<and>
    grows (cbb_base s) (cbb_base s')"
  then show "\<exists>a'. a_flush d (root, fs) = Some a' \<and> cbb_rel2 s' (a_append data a') \<and> length (snd a') = d"
    by (cases "a_flush d (root, fs)") (simp_all add: a_add_def a_append_len del: split_paired_Ex)
qed (use assms in simp_all)

theorem add_bytes_refines_witness:
  "cbb_wp (CBB_add_bytes zero_mem 0 [1, 2, 3] demo_builder)
    (\<lambda>s'. failed 0 s' \<and> (\<forall>a'. a_flush 0 ([], [(Prefix 2, [7, 8])]) = Some a' \<longrightarrow>
       \<not> cbb_room zero_mem (cbb_base demo_builder) (alen a' + length [1, 2, 3 :: u8])))
    (\<lambda>_ s'. \<exists>a'. a_flush 0 ([], [(Prefix 2, [7, 8])]) = Some a' \<and> cbb_rel2 s' (a_append [1, 2, 3] a') \<and>
       length (snd a') = 0)"
  by (rule add_bytes_refines [OF zero_mem_ok(1) demo_builder_rel]) simp_all

text \<open>C13: \<open>CBB_discard_child\<close> drops the child and everything below it, and leaves what was
  written before the child was opened.\<close>
theorem discard_child_refines:
  assumes "cbb_rel s root fs" "d \<le> length fs"
  shows "cbb_rel (CBB_discard_child d s) root (drop (length fs - d) fs)"
  using assms by (rule CBB_discard_child_refines)

theorem discard_child_refines_witness: "cbb_rel (CBB_discard_child 0 demo_builder) [] []"
  using discard_child_refines [OF demo_builder_rel, of 0] by simp

text \<open>C12: once an error is recorded in the buffer, every function that flushes, finishes or appends returns 0:
  the functions for bytes, integers, children, texts and object identifiers and \<open>CBB_flush_asn1_set_of\<close> leave the builder as it is, the writers of
  ASN.1 values leave the buffer as it is and may only drop children (\<open>refused\<close>), and \<open>CBB_finish_i2d\<close> returns \<open>- 1\<close>. \<open>CBB_did_write\<close> and
  \<open>CBB_discard_child\<close> do not look at the error and can change the length, the first with success, but the error stays recorded.\<close>
theorem locked_builder:
  assumes "berror (cbb_base s)" "d \<le> length (children s)"
  shows "CBB_flush mem d s = Some (None, s) \<and> CBB_finish mem d g s = Some (None, s) \<and>
    CBB_add_space mem d n s = Some (None, s) \<and> CBB_reserve mem d n s = Some (None, s) \<and>
    CBB_add_bytes mem d data s = Some (None, s) \<and> CBB_add_zeros mem d n s = Some (None, s) \<and>
    CBB_add_u8 mem d v8 s = Some (None, s) \<and> CBB_add_u16 mem d v16 s = Some (None, s) \<and> CBB_add_u16le mem d v16 s = Some (None, s) \<and>
    CBB_add_u24 mem d v32 s = Some (None, s) \<and> CBB_add_u32 mem d v32 s = Some (None, s) \<and> CBB_add_u32le mem d v32 s = Some (None, s) \<and>
    CBB_add_u64 mem d v64 s = Some (None, s) \<and> CBB_add_u64le mem d v64 s = Some (None, s) \<and>
    CBB_add_u8_length_prefixed mem d s = Some (None, s) \<and> CBB_add_u16_length_prefixed mem d s = Some (None, s) \<and>
    CBB_add_u24_length_prefixed mem d s = Some (None, s) \<and> CBB_add_asn1 mem d tag s = Some (None, s) \<and>
    CBB_add_asn1_oid_from_text mem d txt s = Some (None, s) \<and> CBB_flush_asn1_set_of mem d s = Some (None, s) \<and>
    CBB_add_utf8 mem d u s = Some (None, s) \<and> CBB_add_latin1 mem d u s = Some (None, s) \<and>
    CBB_add_ucs2_be mem d u s = Some (None, s) \<and> CBB_add_utf32_be mem d u s = Some (None, s) \<and>
    refused s (CBB_add_asn1_uint64 mem d v64 s) \<and> refused s (CBB_add_asn1_uint64_with_tag mem d v64 tag s) \<and>
    refused s (CBB_add_asn1_int64 mem d i64 s) \<and> refused s (CBB_add_asn1_int64_with_tag mem d i64 tag s) \<and>
    refused s (CBB_add_asn1_octet_string mem d data s) \<and> refused s (CBB_add_asn1_bool mem d b s) \<and>
    (can_resize (cbb_base s) \<longrightarrow> CBB_finish_i2d mem 0 s = Some (- 1, [])) \<and>
    (\<forall>r s'. CBB_did_write d n s = Some (r, s') \<longrightarrow> berror (cbb_base s')) \<and> berror (cbb_base (CBB_discard_child d s))"
proof (intro conjI CBB_asn1_refused assms)
  show "can_resize (cbb_base s) \<longrightarrow> CBB_finish_i2d mem 0 s = Some (- 1, [])" using stickyD [OF CBB_finish_sticky assms(1)] by (simp add: CBB_finish_i2d_def)
qed (use CBB_keep_error [OF assms(1)] in \<open>simp_all add: locked_facts [THEN stickyD, OF assms(1)]\<close>)

theorem locked_builder_witness:
  "\<exists>s. CBB_add_bytes zero_mem 0 [1, 2] (CBB_init_fixed [9]) = Some (None, s) \<and> CBB_add_bytes zero_mem 0 [1] s = Some (None, s) \<and>
    refused s (CBB_add_asn1_bool zero_mem 0 True s) \<and> berror (cbb_base (CBB_discard_child 0 s))"
proof -
  let ?r = "the (CBB_add_bytes zero_mem 0 [1, 2] (CBB_init_fixed [9]))"
  have r: "CBB_add_bytes zero_mem 0 [1, 2] (CBB_init_fixed [9]) = Some (None, snd ?r)" "berror (cbb_base (snd ?r))" by code_simp+
  have "0 \<le> length (children (snd ?r))" by simp
  from r(1) locked_builder [OF r(2) this] show ?thesis by blast
qed

text \<open>Reserving space, writing into it and committing with \<open>CBB_did_write\<close> appends
  the bytes written.\<close>
theorem reserve_did_write:
  assumes "alloc_ok mem" "cbb_rel s root fs" "d \<le> length fs" "n < 2 ^ 64" "length e \<le> n"
  shows "cbb_wp (cbb_bind (CBB_reserve mem d n s) (\<lambda>out s.
      cbb_bind (cbb_write out e s) (\<lambda>_ s. CBB_did_write d (length e) s))) locked
    (\<lambda>_ s'. \<exists>a'. a_flush d (root, fs) = Some a' \<and> cbb_rel2 s' (a_append e a'))"
  by (rule cbb_wp_mono [OF cbb_reserve_write_refines [of mem s "(root, fs)" d n e, unfolded cbb_reserve_write_def]])
    (use assms in \<open>auto simp: a_add_def\<close>)

theorem reserve_did_write_witness:
  "cbb_wp (cbb_bind (CBB_reserve zero_mem 0 5 demo_builder) (\<lambda>out s.
      cbb_bind (cbb_write out [1, 2] s) (\<lambda>_ s. CBB_did_write 0 (length [1, 2 :: u8]) s))) locked
    (\<lambda>_ s'. \<exists>a'. a_flush 0 ([], [(Prefix 2, [7, 8])]) = Some a' \<and> cbb_rel2 s' (a_append [1, 2] a'))"
  by (rule reserve_did_write [OF zero_mem_ok(1) demo_builder_rel]) simp_all

section \<open>DER\<close>

text \<open>C3: \<open>CBS_get_any_asn1_element\<close> accepts exactly a DER element followed by anything,
  and returns that element, its tag and the length of its header. In particular every
  non-minimal tag or length and every truncated element is rejected.\<close>
theorem der_reader_exact:
  "CBS_get_any_asn1_element cbs = (Some el, rest) \<longleftrightarrow>
    (\<exists>tag body. asn1_valid_tag tag \<and> length body < 2 ^ 32 \<and> cbs = der_element tag body @ rest \<and>
       el = \<lparr>out_cbs = der_element tag body, out_tag = tag,
             out_header_len = length (der_header tag (length body)),
             out_ber_found = False, out_indefinite = False\<rparr>)"
  by (rule der_parse_iff)

text \<open>A byte string has at most one reading as a DER element: two elements that begin the
  same input have the same tag, body and rest.\<close>
theorem der_unique:
  assumes "CBS_get_asn1 cbs tag = (Some body, rest)" "CBS_get_any_asn1 cbs = (Some (body', tag'), rest')"
  shows "tag = tag' \<and> body = body' \<and> rest = rest'"
  using assms der_element_inject [of tag tag' body body' rest rest']
  by (auto simp: CBS_get_asn1_iff CBS_get_any_asn1_iff)

theorem der_unique_witness:
  "CBS_get_asn1 [4, 1, 9, 5] 4 = (Some [9], [5]) \<and> CBS_get_any_asn1 [4, 1, 9, 5] = (Some ([9], 4), [5]) \<and>
   4 = (4::u32) \<and> [9::u8] = [9] \<and> [5::u8] = [5]"
proof -
  have "CBS_get_asn1 [4, 1, 9, 5] 4 = (Some [9], [5])" by code_simp
  moreover have "CBS_get_any_asn1 [4, 1, 9, 5] = (Some ([9], 4), [5])" by code_simp
  ultimately show ?thesis using der_unique [of "[4, 1, 9, 5]" 4 "[9]" "[5]" "[9]" 4 "[5]"] by blast
qed

text \<open>C4: with memory available, an element written with \<open>CBB_add_asn1\<close> and
  \<open>CBB_add_bytes\<close> comes out of \<open>CBB_finish\<close> as the DER encoding of its tag and body, and
  \<open>CBS_get_asn1\<close> reads the body back.\<close>
theorem element_roundtrip:
  assumes "alloc_ok mem" "\<forall>m. mem m \<noteq> None" "asn1_valid_tag tag" "length body \<le> 0xfffffffe"
    "CBB_init mem n = Some s" "n < 2 ^ 64"
  shows "\<exists>out s'. cbb_bind (CBB_add_asn1 mem 0 tag s) (\<lambda>_ s. cbb_bind (CBB_add_bytes mem 1 body s) (\<lambda>_ s.
       CBB_finish mem 0 True s)) = Some (Some out, s') \<and>
     out = der_element tag body \<and> CBS_get_asn1 (out @ rest) tag = (Some body, rest)"
proof -
  have l: "length body < 2 ^ 64" "length body < 2 ^ 32" using assms(4) by simp_all
  from build_element [OF assms(1,2,4,5,6), of tag] show ?thesis
    using assms(3) l(2) by (auto simp: CBS_get_asn1_iff)
qed

theorem element_roundtrip_witness:
  "\<exists>out s'. cbb_bind (CBB_add_asn1 zero_mem 0 CBS_ASN1_SEQUENCE (the (CBB_init zero_mem 2))) (\<lambda>_ s.
      cbb_bind (CBB_add_bytes zero_mem 1 [5, 0] s) (\<lambda>_ s. CBB_finish zero_mem 0 True s)) = Some (Some out, s') \<and>
     out = der_element CBS_ASN1_SEQUENCE [5, 0] \<and> CBS_get_asn1 (out @ [1]) CBS_ASN1_SEQUENCE = (Some [5, 0], [1])"
proof -
  have i: "CBB_init zero_mem 2 = Some (the (CBB_init zero_mem 2))" by code_simp
  show ?thesis
    by (rule element_roundtrip [OF zero_mem_ok _ _ i]) (simp_all add: asn1_valid_tag_def)
qed

text \<open>C6: unsigned integers: \<open>CBB_add_asn1_uint64\<close> appends the minimal DER encoding, and
  \<open>CBS_get_asn1_uint64\<close> accepts exactly these encodings and returns the value.\<close>
theorem uint64_roundtrip:
  "appends mem d (CBB_add_asn1_uint64 mem d v) (der_element CBS_ASN1_INTEGER (der_uint_body (unat v))) \<and>
   (CBS_get_asn1_uint64 cbs = (Some v, rest) \<longleftrightarrow>
      cbs = der_element CBS_ASN1_INTEGER (der_uint_body (unat v)) @ rest)"
  using CBB_add_asn1_uint64_with_tag_appends [of mem d v CBS_ASN1_INTEGER] CBS_get_asn1_uint64_iff
  by (simp add: CBB_add_asn1_uint64_def [abs_def])

text \<open>C5: signed integers: \<open>CBB_add_asn1_int64\<close> appends the minimal two's-complement DER
  encoding, and \<open>CBS_get_asn1_int64\<close> accepts exactly these encodings and returns the value.\<close>
theorem int64_roundtrip:
  "appends mem d (CBB_add_asn1_int64 mem d v) (der_element CBS_ASN1_INTEGER (der_int_body (sint v))) \<and>
   (CBS_get_asn1_int64 cbs = (Some v, rest) \<longleftrightarrow>
      cbs = der_element CBS_ASN1_INTEGER (der_int_body (sint v)) @ rest)"
  using CBB_add_asn1_int64_with_tag_appends [of mem d v CBS_ASN1_INTEGER] CBS_get_asn1_int64_iff
  by (simp add: CBB_add_asn1_int64_def [abs_def])

text \<open>C14: length-prefixed strings, with prefixes of up to three bytes as the reader asserts: a body written into a length-prefixed child
  and closed by \<open>CBB_finish\<close> comes out behind its big-endian length, unless it does not fit the prefix, which makes \<open>CBB_finish\<close> fail; the reader accepts exactly
  such strings, so that it returns the body that was written and leaves what follows.\<close>
theorem length_prefixed_roundtrip:
  assumes "alloc_ok mem" "\<forall>m. mem m \<noteq> None" "CBB_init mem c = Some s" "c < 2 ^ 64" "length body < 2 ^ 64" "n \<le> 3"
  shows "(\<exists>s'. cbb_bind (cbb_add_length_prefixed mem 0 n s) (\<lambda>_ s. cbb_bind (CBB_add_bytes mem 1 body s) (\<lambda>_ s. CBB_finish mem 0 True s)) =
      Some (if length body < 256 ^ n then Some (be_bytes n (length body) @ body) else None, s')) \<and>
    (cbs_get_length_prefixed cbs n = Some (Some body, rest) \<longleftrightarrow> length body < 256 ^ n \<and> cbs = be_bytes n (length body) @ body @ rest)"
  using build_prefixed [OF assms(1,2,5,6,3,4)] cbs_get_length_prefixed_iff [OF assms(6), of cbs body rest] by blast

theorem length_prefixed_roundtrip_witness:
  "\<exists>s s'. CBB_init zero_mem 10 = Some s \<and>
    cbb_bind (cbb_add_length_prefixed zero_mem 0 2 s) (\<lambda>_ s. cbb_bind (CBB_add_bytes zero_mem 1 [7, 8] s) (\<lambda>_ s. CBB_finish zero_mem 0 True s)) =
      Some (Some [0, 2, 7, 8], s') \<and> cbs_get_length_prefixed [0, 2, 7, 8, 9] 2 = Some (Some [7, 8], [9])"
proof -
  obtain s where s: "CBB_init zero_mem 10 = Some s" using CBB_init_live [OF zero_mem_ok(2), of 10] by auto
  have l: "(10::nat) < 2 ^ 64" "length [7, 8 :: u8] < 2 ^ 64" "(2::nat) \<le> 3" by simp_all
  have b: "be_bytes 2 (length [7, 8 :: u8]) = [0, 2]" by code_simp
  from length_prefixed_roundtrip [OF zero_mem_ok s l, of "[0, 2, 7, 8, 9]" "[9]", unfolded b] s show ?thesis by auto
qed

text \<open>C7: \<open>CBB_flush_asn1_set_of\<close> leaves the builder with the same DER elements in ascending
  byte order, as DER requires of a \<open>SET OF\<close>; it fails only where the children cannot be flushed,
  the body is not a sequence of DER elements, or memory is short.\<close>
theorem set_of_sorted:
  assumes "alloc_ok mem" "cbb_rel s root fs" "d \<le> length fs"
  shows "cbb_wp (CBB_flush_asn1_set_of mem d s)
    (\<lambda>_. \<nexists>a' els. a_flush d (root, fs) = Some a' \<and> cbb_room mem (cbb_base s) (alen a') \<and> alen a' < 2 ^ 58 \<and>
       (\<forall>m. mem m \<noteq> None) \<and> (\<forall>e\<in>set els. is_der_element e) \<and> a_top a' = concat els)
    (\<lambda>_ s'. \<exists>a' els els'. a_flush d (root, fs) = Some a' \<and> (\<forall>e\<in>set els. is_der_element e) \<and>
       a_top a' = concat els \<and> mset els' = mset els \<and> sorted_wrt lexordp_eq els' \<and>
       cbb_rel2 s' (a_set_top (concat els') a'))"
proof (rule cbb_wp_mono [OF CBB_flush_asn1_set_of_refines [of mem s "(root, fs)" d]])
  fix x s' assume "\<exists>a' els. a_flush d (root, fs) = Some a' \<and> (\<forall>e\<in>set els. is_der_element e) \<and>
    a_top a' = concat els \<and> cbb_rel2 s' (a_set_top (concat (qsort compare_set_of_element els)) a')"
  moreover have "sorted_wrt lexordp_eq (qsort compare_set_of_element els)" for els
    using set_of_order.sorted_qsort [of els] by (simp add: compare_set_of_lex)
  ultimately show "\<exists>a' els els'. a_flush d (root, fs) = Some a' \<and> (\<forall>e\<in>set els. is_der_element e) \<and>
       a_top a' = concat els \<and> mset els' = mset els \<and> sorted_wrt lexordp_eq els' \<and>
       cbb_rel2 s' (a_set_top (concat els') a')"
    using set_of_order.mset_qsort by metis
qed (use assms in auto)

theorem set_of_sorted_witness:
  "cbb_wp (CBB_flush_asn1_set_of zero_mem 1 demo_builder)
    (\<lambda>_. \<nexists>a' els. a_flush 1 ([], [(Prefix 2, [7, 8])]) = Some a' \<and> cbb_room zero_mem (cbb_base demo_builder) (alen a') \<and>
       alen a' < 2 ^ 58 \<and> (\<forall>m. zero_mem m \<noteq> None) \<and> (\<forall>e\<in>set els. is_der_element e) \<and> a_top a' = concat els)
    (\<lambda>_ s'. \<exists>a' els els'. a_flush 1 ([], [(Prefix 2, [7, 8])]) = Some a' \<and> (\<forall>e\<in>set els. is_der_element e) \<and>
       a_top a' = concat els \<and> mset els' = mset els \<and> sorted_wrt lexordp_eq els' \<and>
       cbb_rel2 s' (a_set_top (concat els') a'))"
  by (rule set_of_sorted [OF zero_mem_ok(1) demo_builder_rel]) simp

section \<open>Object identifiers\<close>

text \<open>C11: \<open>CBS_is_valid_asn1_oid\<close> accepts exactly the non-empty sequences of minimally encoded
  base-128 integers.\<close>
theorem oid_valid_exact:
  "CBS_is_valid_asn1_oid bs \<longleftrightarrow> (\<exists>ns. ns \<noteq> [] \<and> bs = concat (map base128 ns))"
  by (rule CBS_is_valid_asn1_oid_iff)

text \<open>C8: an identifier whose components fit the encoding is written by
  \<open>CBB_add_asn1_oid_from_text\<close> as its DER body, and \<open>CBS_asn1_oid_to_text\<close> prints that body as the same
  text.\<close>
theorem oid_text_roundtrip:
  assumes "alloc_ok mem" "\<forall>m. mem m \<noteq> None" "oid_ok ns" "length (oid_text ns) < 2 ^ 61"
  shows "appends mem d (CBB_add_asn1_oid_from_text mem d (oid_text ns)) (oid_der ns) \<and>
    CBS_asn1_oid_to_text mem (oid_der ns) = Some (Some (oid_text ns @ [0]))"
  using CBB_add_asn1_oid_from_text_appends CBS_asn1_oid_to_text_complete assms by blast

theorem oid_text_roundtrip_witness:
  "oid_text [1, 2, 840] = [0x31, 0x2e, 0x32, 0x2e, 0x38, 0x34, 0x30] \<and>
   appends zero_mem 0 (CBB_add_asn1_oid_from_text zero_mem 0 (oid_text [1, 2, 840])) (oid_der [1, 2, 840]) \<and>
   CBS_asn1_oid_to_text zero_mem (oid_der [1, 2, 840]) = Some (Some (oid_text [1, 2, 840] @ [0]))"
proof -
  have t: "oid_text [1, 2, 840] = [0x31, 0x2e, 0x32, 0x2e, 0x38, 0x34, 0x30]"
    by (simp add: decimal.simps)
  then have "length (oid_text [1, 2, 840]) < 2 ^ 61" by simp
  from oid_text_roundtrip [OF zero_mem_ok _ this, of 0] t show ?thesis by simp
qed

text \<open>C9: every other text is rejected: with no defined error left open,
  \<open>CBB_add_asn1_oid_from_text\<close> returns 0 on any text that is not the canonical dotted form of an
  identifier whose components fit.\<close>
theorem oid_text_rejects:
  assumes "alloc_ok mem" "cbb_rel s root fs" "d \<le> length fs" "\<nexists>ns. oid_ok ns \<and> text = oid_text ns"
  shows "\<exists>s'. CBB_add_asn1_oid_from_text mem d text s = Some (None, s')"
proof -
  have "cbb_wp (CBB_add_asn1_oid_from_text mem d text s) (\<lambda>_. True) (\<lambda>_ _. False)"
    using CBB_add_asn1_oid_from_text_rejects [OF assms(4), of mem d, unfolded rejects_def] assms(1-3) by force
  then show ?thesis by (cases "CBB_add_asn1_oid_from_text mem d text s" rule: cbb_result_cases) simp_all
qed

text \<open>The text of an identifier has at least three characters.\<close>

lemma oid_text_length: "oid_ok ns \<Longrightarrow> 3 \<le> length (oid_text ns)"
proof -
  assume "oid_ok ns"
  then obtain a b cs where ns: "ns = a # b # cs" by (cases ns rule: oid_ok.cases) auto
  have "1 \<le> length (decimal n)" for n using decimal_props(1) [of n] by (cases "decimal n") auto
  from this [of a] this [of b] show ?thesis unfolding ns by (simp add: oid_text_Cons)
qed

theorem oid_text_rejects_witness:
  "\<exists>s'. CBB_add_asn1_oid_from_text zero_mem 0 [0x31, 0x2e] demo_builder = Some (None, s')"
proof -
  have "\<nexists>ns. oid_ok ns \<and> [0x31, 0x2e] = oid_text ns" 
  proof
    assume "\<exists>ns. oid_ok ns \<and> [0x31, 0x2e] = oid_text ns"
    then obtain ns where "oid_ok ns" "oid_text ns = [0x31, 0x2e]" by metis
    then show False using oid_text_length [of ns] by simp
  qed
  from oid_text_rejects [OF zero_mem_ok(1) demo_builder_rel _ this, of 0] show ?thesis by simp
qed

text \<open>C10: what \<open>CBS_asn1_oid_to_text\<close> prints is the text of an identifier with that encoding;
  the call has defined behaviour on every input, also when memory is short.\<close>
theorem oid_print_sound:
  assumes "alloc_ok mem"
  shows "\<exists>r. CBS_asn1_oid_to_text mem der = Some r \<and>
    (\<forall>t. r = Some t \<longrightarrow> (\<exists>ns. oid_ok ns \<and> der = oid_der ns \<and> t = oid_text ns @ [0]))"
  using assms by (rule CBS_asn1_oid_to_text_sound)

theorem oid_print_sound_witness:
  "\<exists>r. CBS_asn1_oid_to_text zero_mem [0x2a, 0x86] = Some r \<and>
    (\<forall>t. r = Some t \<longrightarrow> (\<exists>ns. oid_ok ns \<and> [0x2a, 0x86] = oid_der ns \<and> t = oid_text ns @ [0]))"
  by (rule oid_print_sound [OF zero_mem_ok(1)])

text \<open>C15: \<open>CBS_get_u64_decimal\<close> reads exactly the canonical decimal numbers below \<open>2 ^ 64\<close> that end
  at a non-digit; leading zeros and overflow are rejected.\<close>
theorem decimal_bounds:
  "CBS_get_u64_decimal cbs = (Some v, rest) \<longleftrightarrow>
     cbs = decimal (unat v) @ rest \<and> takeWhile OPENSSL_isdigit rest = []"
  by (cases rest) (auto simp: CBS_get_u64_decimal_decimal)


section \<open>Text\<close>

text \<open>C16: \<open>CBS_get_utf8\<close> accepts exactly the shortest UTF-8 form of a valid code point followed by
  anything, and returns that code point: overlong forms, surrogates, non-characters and values
  above \<open>0x10ffff\<close> are rejected.\<close>
theorem utf8_exact:
  "CBS_get_utf8 cbs = (Some u, rest) \<longleftrightarrow> is_valid_code_point u \<and> cbs = utf8 (unat u) @ rest"
  by (rule CBS_get_utf8_iff)

text \<open>C17: with memory available, a text written with \<open>CBB_add_utf8\<close>, character by character, comes
  out of \<open>CBB_finish\<close> as bytes that \<open>CBS_get_utf8\<close> reads back as the same characters.\<close>
theorem utf8_roundtrip:
  assumes "alloc_ok mem" "\<forall>m. mem m \<noteq> None" "CBB_init mem 0 = Some s"
    and "us \<noteq> []" "\<forall>u\<in>set us. is_valid_code_point u" "length (concat (map (utf8 \<circ> unat) us)) \<le> 2 ^ 61"
  shows "\<exists>out s'. cbb_bind (add_text (CBB_add_utf8 mem 0) us s) (\<lambda>_ s. CBB_finish mem 0 True s) = Some (Some out, s') \<and>
    cbs_many CBS_get_utf8 out = Some us"
proof -
  have "cbb_wp (cbb_bind (add_text (CBB_add_utf8 mem 0) us s) (\<lambda>_ s. CBB_finish mem 0 True s))
      (\<lambda>_. False) (\<lambda>out _. out = concat (map (\<lambda>u. utf8 (unat u)) us))"
    by (rule cbb_wp_mono [OF append_finish [OF utf8.add_text_appends assms(1,3)]]) (use assms in \<open>auto simp: o_def\<close>)
  then show ?thesis using utf8.read_text [OF assms(5)]
    by (auto simp: cbb_wp_def split: option.splits prod.splits)
qed

theorem utf8_roundtrip_witness:
  "\<exists>out s'. cbb_bind (add_text (CBB_add_utf8 zero_mem 0) [0x41, 0xe9, 0x20ac] (the (CBB_init zero_mem 0)))
      (\<lambda>_ s. CBB_finish zero_mem 0 True s) = Some (Some out, s') \<and>
    cbs_many CBS_get_utf8 out = Some [0x41, 0xe9, 0x20ac]"
proof (rule utf8_roundtrip [OF zero_mem_ok])
  show "CBB_init zero_mem 0 = Some (the (CBB_init zero_mem 0))" by code_simp
  show "\<forall>u\<in>set [0x41, 0xe9, 0x20ac]. is_valid_code_point u" by code_simp
  show "length (concat (map (utf8 \<circ> unat) [0x41, 0xe9, 0x20ac])) \<le> 2 ^ 61" by (simp add: utf8_def)
qed simp

section \<open>BER\<close>

text \<open>C18: whenever \<open>CBS_asn1_ber_to_der\<close> converts (it sets \<open>*out_storage\<close>), its output is a
  sequence of DER elements nested at most 2048 deep, without indefinite lengths and without constructed strings,
  and it has consumed the whole input.\<close>
theorem ber_to_der_output:
  assumes "alloc_ok mem" "length inp < 2 ^ 64" "CBS_asn1_ber_to_der mem inp = Some (Some (out, Some storage), rest)"
  shows "rest = [] \<and> storage = out \<and> (\<exists>ts. out = concat (map tree_der ts) \<and> (\<forall>t\<in>set ts. tree_ok 2048 t))"
proof -
  have "cbs_find_ber inp 0 = Some True"
    using assms(3) by (auto simp: CBS_asn1_ber_to_der_def cbs_bind_def split: option.splits if_splits prod.splits)
  from ber_to_der_converts [OF assms(1,2) this] assms(3)
  have "storage = out" "rest = []" "ber_conv 0 False 0 inp out []" by auto
  with ber_conv_der [of 0 False 0 inp out "[]"] show ?thesis by simp
qed

theorem ber_to_der_output_witness:
  "[] = ([] :: u8 list) \<and> [48, 3, 4, 1, 65 :: u8] = [48, 3, 4, 1, 65] \<and>
    (\<exists>ts. [48, 3, 4, 1, 65] = concat (map tree_der ts) \<and> (\<forall>t\<in>set ts. tree_ok 2048 t))"
proof (rule ber_to_der_output [OF zero_mem_ok(1)])
  show "CBS_asn1_ber_to_der zero_mem [0x30, 0x80, 0x24, 0x80, 4, 1, 65, 0, 0, 0, 0] =
      Some (Some ([48, 3, 4, 1, 65], Some [48, 3, 4, 1, 65]), [])" by code_simp
qed simp

text \<open>C19: on input that is already a sequence of DER elements nested at most 2048 deep,
  \<open>CBS_asn1_ber_to_der\<close> returns the first element as it is, allocates nothing, and leaves the others.\<close>
theorem ber_der_unchanged:
  assumes "\<forall>t\<in>set (t # ts). tree_ok 2048 t"
  shows "CBS_asn1_ber_to_der mem (concat (map tree_der (t # ts))) =
    Some (Some (tree_der t, None), concat (map tree_der ts))"
  using assms by (rule ber_to_der_of_der)

theorem ber_der_unchanged_witness:
  "CBS_asn1_ber_to_der zero_mem (concat (map tree_der [Cons 0x20000010 [Prim 4 [65]], Prim 5 []])) =
    Some (Some (tree_der (Cons 0x20000010 [Prim 4 [65]]), None), concat (map tree_der [Prim 5 []]))"
proof (rule ber_der_unchanged)
  show "\<forall>t\<in>set [Cons 0x20000010 [Prim 4 [65]], Prim 5 []]. tree_ok 2048 t"
    by (simp add: asn1_valid_tag_def is_constructed_def is_string_type_def der_element_def der_header_def der_tag_def der_length_def)
qed

text \<open>C20: \<open>cbs_find_ber\<close> forgets what it found in a nested element as soon as another element
  follows it. A constructed element whose first child holds anything that the scan accepts,
  BER included, and whose other children are DER is returned unconverted.\<close>
theorem ber_find_misses:
  assumes "asn1_valid_tag otag" "is_constructed otag" "\<not> is_string_type otag"
    and "asn1_valid_tag tag" "is_constructed tag" "\<not> is_string_type tag" "length content < 2 ^ 32"
    and "cbs_find_ber content 2 = Some b" "\<forall>t\<in>set (t # ts). tree_ok 2047 t"
    and "length (der_element tag content @ concat (map tree_der (t # ts))) < 2 ^ 32"
  shows "CBS_asn1_ber_to_der mem (der_element otag (der_element tag content @ concat (map tree_der (t # ts)))) =
    Some (Some (der_element otag (der_element tag content @ concat (map tree_der (t # ts))), None), [])"
  using assms by (rule ber_to_der_misses)

theorem ber_find_misses_witness:
  "cbs_find_ber [0x24, 3, 4, 1, 65] 2 = Some True \<and>
   CBS_asn1_ber_to_der zero_mem
     (der_element 0x20000010 (der_element 0x20000010 [0x24, 3, 4, 1, 65] @ concat (map tree_der [Prim 5 []]))) =
   Some (Some (der_element 0x20000010 (der_element 0x20000010 [0x24, 3, 4, 1, 65] @ concat (map tree_der [Prim 5 []])), None), [])"
proof
  show f: "cbs_find_ber [0x24, 3, 4, 1, 65] 2 = Some True" by code_simp
  have d: "length (der_element 0x20000010 [0x24, 3, 4, 1, 65] @ concat (map tree_der [Prim 5 []])) < 2 ^ 32"
    by (simp add: der_element_def der_header_def der_tag_def der_length_def)
  show "CBS_asn1_ber_to_der zero_mem
     (der_element 0x20000010 (der_element 0x20000010 [0x24, 3, 4, 1, 65] @ concat (map tree_der [Prim 5 []]))) =
   Some (Some (der_element 0x20000010 (der_element 0x20000010 [0x24, 3, 4, 1, 65] @ concat (map tree_der [Prim 5 []])), None), [])"
    by (rule ber_find_misses [OF _ _ _ _ _ _ _ f _ d])
      (simp_all add: asn1_valid_tag_def is_constructed_def is_string_type_def)
qed

text \<open>C21: \<open>CBS_get_asn1_implicit_string\<close> on a constructed string, given as DER chunks under
  the outer tag, returns the concatenation of the chunks in fresh storage.\<close>
theorem implicit_string:
  assumes "alloc_ok mem" "\<forall>m. mem m \<noteq> None"
    and "\<not> is_constructed outer_tag" "\<not> is_constructed inner_tag" "is_string_type inner_tag" "asn1_valid_tag outer_tag"
    and "\<forall>c\<in>set chunks. length c < 2 ^ 32" "length (concat (map (der_element inner_tag) chunks)) < 2 ^ 32"
    and "length rest < 2 ^ 61"
  shows "CBS_get_asn1_implicit_string mem
      (der_element (outer_tag OR CBS_ASN1_CONSTRUCTED) (concat (map (der_element inner_tag) chunks)) @ rest) outer_tag inner_tag =
    Some (Some (concat chunks, Some (concat chunks)), rest)"
  using assms by (rule implicit_string_constructed)

theorem implicit_string_witness:
  "CBS_get_asn1_implicit_string zero_mem
      (der_element (0x80000000 OR CBS_ASN1_CONSTRUCTED) (concat (map (der_element 4) [[1], [2, 3]])) @ [7]) 0x80000000 4 =
    Some (Some (concat [[1], [2, 3]], Some (concat [[1], [2, 3]])), [7])"
  by (rule implicit_string [OF zero_mem_ok])
    (simp_all add: asn1_valid_tag_def is_constructed_def is_string_type_def der_element_def der_header_def der_tag_def der_length_def)

section \<open>Time\<close>

text \<open>C22: \<open>OPENSSL_tm_to_posix\<close> and \<open>OPENSSL_posix_to_tm\<close> are inverse to each other, the first is
  defined exactly on the valid dates and times of the years 0000 to 9999, the second exactly on
  the seconds of these years.\<close>
theorem time_bijection:
  "(OPENSSL_tm_to_posix t = Some (Some x) \<longleftrightarrow> OPENSSL_posix_to_tm x = Some t) \<and>
   ((\<exists>x. OPENSSL_tm_to_posix t = Some (Some x)) \<longleftrightarrow> tm_ok t) \<and>
   ((\<exists>t. OPENSSL_posix_to_tm x = Some t) \<longleftrightarrow> is_valid_epoch_time x)"
  using tm_to_posix_iff tm_to_posix_ok posix_to_tm_Some by blast

text \<open>C23: without time-zone offsets the two time readers accept exactly one text for each time:
  \<open>YYYYMMDDHHMMSSZ\<close> for every valid time, and \<open>YYMMDDHHMMSSZ\<close> for those of the years 1950 to 2049.\<close>
theorem asn1_time_exact:
  "(CBS_parse_generalized_time cbs True False = Some (Some (Some t)) \<longleftrightarrow> tm_ok t \<and> cbs = gentime_text t) \<and>
   (CBS_parse_utc_time cbs True False = Some (Some (Some t)) \<longleftrightarrow>
      tm_ok t \<and> 1950 \<le> tm_year t + 1900 \<and> tm_year t + 1900 \<le> 2049 \<and> cbs = utctime_text t)"
  using parse_generalized_time_iff parse_utc_time_iff by blast

text \<open>C24: a UTCTime with a time-zone offset, where offsets are allowed, is read as the time of its
  fields with the offset added for \<open>+\<close> and subtracted for \<open>-\<close>.\<close>
theorem utc_time_offset:
  assumes "OPENSSL_tm_to_posix t = Some (Some x)" "1950 \<le> tm_year t + 1900" "tm_year t + 1900 \<le> 2049"
    and "0 \<le> h" "h \<le> 23" "0 \<le> m" "m \<le> 59"
  shows "CBS_parse_utc_time
      (digits2 ((tm_year t + 1900) mod 100) @ time_fields t @ (if neg then 0x2d else 0x2b) # digits2 h @ digits2 m) True True =
    Some (map_option Some (OPENSSL_posix_to_tm (x + (if neg then - 1 else 1) * (h * 3600 + m * 60))))"
  using assms by (rule parse_utc_time_offset)

theorem utc_time_offset_witness:
  "CBS_parse_utc_time
      (digits2 ((82 + 1900) mod 100) @ time_fields \<lparr>tm_sec = 0, tm_min = 0, tm_hour = 2, tm_mday = 2, tm_mon = 0, tm_year = 82\<rparr> @
        0x2d # digits2 5 @ digits2 0) True True =
    Some (Some (Some \<lparr>tm_sec = 0, tm_min = 0, tm_hour = 21, tm_mday = 1, tm_mon = 0, tm_year = 82\<rparr>))"
proof -
  let ?t = "\<lparr>tm_sec = 0, tm_min = 0, tm_hour = 2, tm_mday = 2, tm_mon = 0, tm_year = 82\<rparr>"
  have x: "OPENSSL_tm_to_posix ?t = Some (Some 378784800)" by code_simp
  have y: "OPENSSL_posix_to_tm (378784800 + - 1 * (5 * 3600 + 0 * 60)) =
      Some \<lparr>tm_sec = 0, tm_min = 0, tm_hour = 21, tm_mday = 1, tm_mon = 0, tm_year = 82\<rparr>" by code_simp
  show ?thesis using utc_time_offset [OF x, of 5 0 True] y by simp
qed

text \<open>\<open>OPENSSL_gmtime_diff\<close> of two valid times splits their distance into whole days and a rest
  below one day of the same sign.\<close>
theorem gmtime_difference:
  assumes "OPENSSL_tm_to_posix f = Some (Some x)" "OPENSSL_tm_to_posix t = Some (Some y)"
  shows "\<exists>days secs. OPENSSL_gmtime_diff f t = Some (Some (days, secs)) \<and> y = x + days * 86400 + secs \<and>
    \<bar>secs\<bar> < 86400 \<and> (x \<le> y \<longrightarrow> 0 \<le> days \<and> 0 \<le> secs) \<and> (y \<le> x \<longrightarrow> days \<le> 0 \<and> secs \<le> 0)"
  using assms by (rule gmtime_diff_ok)

theorem gmtime_difference_witness:
  "\<exists>days secs. OPENSSL_gmtime_diff
      \<lparr>tm_sec = 0, tm_min = 0, tm_hour = 0, tm_mday = 1, tm_mon = 0, tm_year = 70\<rparr>
      \<lparr>tm_sec = 1, tm_min = 0, tm_hour = 0, tm_mday = 2, tm_mon = 0, tm_year = 70\<rparr> = Some (Some (days, secs)) \<and>
    (86401::int) = 0 + days * 86400 + secs \<and> \<bar>secs\<bar> < 86400 \<and>
    ((0::int) \<le> 86401 \<longrightarrow> 0 \<le> days \<and> 0 \<le> secs) \<and> ((86401::int) \<le> 0 \<longrightarrow> days \<le> 0 \<and> secs \<le> 0)"
  by (rule gmtime_difference) code_simp+

section \<open>Constant-time selection and base64\<close>

text \<open>C25: the branch-free comparisons compute the masks of the comparisons they are named
  after, and the selections with such a mask are the conditional expressions.\<close>
theorem constant_time_equiv:
  "constant_time_lt_w a b = (if a < b then CONSTTIME_TRUE_W else CONSTTIME_FALSE_W) \<and>
   constant_time_ge_w a b = (if a \<ge> b then CONSTTIME_TRUE_W else CONSTTIME_FALSE_W) \<and>
   constant_time_is_zero_w a = (if a = 0 then CONSTTIME_TRUE_W else CONSTTIME_FALSE_W) \<and>
   constant_time_eq_w a b = (if a = b then CONSTTIME_TRUE_W else CONSTTIME_FALSE_W) \<and>
   constant_time_eq_int i j = (if i = j then CONSTTIME_TRUE_W else CONSTTIME_FALSE_W) \<and>
   constant_time_select_w (constant_time_lt_w a b) x y = (if a < b then x else y) \<and>
   constant_time_select_8 (constant_time_eq_w a b) p q = (if a = b then p else q) \<and>
   constant_time_select_int (constant_time_ge_w a b) i j = (if a \<ge> b then i else j)"
  by (simp only: constant_time_lt_w_eq constant_time_ge_w_eq constant_time_is_zero_w_eq constant_time_eq_w_eq
      constant_time_eq_int_eq constant_time_select_eq simp_thms)

text \<open>C26: data encoded with \<open>EVP_EncodeUpdate\<close> and \<open>EVP_EncodeFinal\<close> in any chunks, and the
  text decoded with \<open>EVP_DecodeUpdate\<close> and \<open>EVP_DecodeFinal\<close> in any other chunks, is the same
  data, for chunks small enough (\<open>2 ^ 29\<close> and \<open>2 ^ 30\<close> bytes) for the \<open>int\<close> lengths of the output; every call has defined behaviour.\<close>
theorem base64_stream_roundtrip:
  assumes "\<forall>c\<in>set cs. length c < 2 ^ 29" "\<forall>c\<in>set ds. length c < 2 ^ 30"
  shows "\<exists>text. encode_stream EVP_EncodeInit cs = Some text \<and>
    (concat ds = text \<longrightarrow> decode_stream EVP_DecodeInit ds = Some (Some (concat cs)))"
  using encode_stream_text [OF enc_rel_init assms(1)] stream_roundtrip [OF assms] by auto

theorem base64_stream_roundtrip_witness:
  "\<exists>text. encode_stream EVP_EncodeInit [[1], [2, 3]] = Some text \<and>
    (concat [[65, 81], [73, 68, 10]] = text \<longrightarrow>
     decode_stream EVP_DecodeInit [[65, 81], [73, 68, 10]] = Some (Some (concat [[1], [2, 3]])))"
  by (rule base64_stream_roundtrip) simp_all

text \<open>C27: the streaming decoder, on any chunks, gives what \<open>EVP_DecodeBase64\<close> gives on the text
  with the white space removed, and fails where that fails.\<close>
theorem base64_stream_equiv:
  assumes "\<forall>c\<in>set cs. length c < 2 ^ 30"
  shows "decode_stream EVP_DecodeInit cs =
    Some (EVP_DecodeBase64 (length (filter (\<lambda>c. \<not> is_space c) (concat cs))) (filter (\<lambda>c. \<not> is_space c) (concat cs)))"
  using decode_stream_eq [OF dec_rel_init assms] by (simp add: b64_more_def DecodeBase64_eq)

theorem base64_stream_equiv_witness:
  "decode_stream EVP_DecodeInit [[65, 32], [81, 61]] =
    Some (EVP_DecodeBase64 (length (filter (\<lambda>c. \<not> is_space c) (concat [[65, 32], [81, 61]])))
      (filter (\<lambda>c. \<not> is_space c) (concat [[65, 32], [81, 61]])))"
  by (rule base64_stream_equiv) simp


section \<open>The pointer stack\<close>

text \<open>The cells of the witnesses, the comparison of the numbers that the pointers stand for, and a stack of three of them.\<close>

definition null_cells :: "nat cell_allocator" where
  "null_cells n = Some (replicate (n div 8) None)"

lemma null_cells_ok: "cells_ok null_cells" "\<forall>n. null_cells n \<noteq> None"
  by (simp_all add: cells_ok_def null_cells_def)

definition nat_cmp :: "unit \<Rightarrow> nat ptr \<Rightarrow> nat ptr \<Rightarrow> int" where
  "nat_cmp u x y = (case x of None \<Rightarrow> 0 | Some a \<Rightarrow> int (Suc a)) - (case y of None \<Rightarrow> 0 | Some b \<Rightarrow> int (Suc b))"

lemma nat_cmp_ok: "sk_comparison (nat_cmp u)"
  by unfold_locales (auto simp: nat_cmp_def)

definition demo_stack :: "(nat, unit) stack_st" where
  "demo_stack = \<lparr>st_num = 3, st_data = [Some 5, Some 2, Some 9, None], st_sorted = False, st_num_alloc = 4, st_comp = Some ()\<rparr>"

lemma demo_stack_ok: "sk_inv demo_stack" "sorted_ok nat_cmp demo_stack" "st_comp demo_stack = Some ()"
  "sk_list demo_stack = [Some 5, Some 2, Some 9]"
  by (simp_all add: demo_stack_def sk_inv_def sorted_ok_def sk_list_def)

text \<open>C28: \<open>OPENSSL_sk_sort\<close> on a stack with a comparison function has defined behaviour and terminates, and
  leaves the same elements in ascending order with the flag \<open>sorted\<close> set.\<close>
theorem stack_sort:
  assumes "sk_inv s" "sorted_ok call s" "st_comp s = Some c" "sk_comparison (call c)"
  shows "\<exists>s'. OPENSSL_sk_sort (Some s) call = Some (Some s') \<and> sk_inv s' \<and> mset (sk_list s') = mset (sk_list s) \<and>
    sorted_wrt (\<lambda>x y. call c x y \<le> 0) (sk_list s') \<and> st_sorted s' \<and> st_comp s' = Some c"
  using assms by (rule sk_sort_ok)

theorem stack_sort_witness:
  "\<exists>s'. OPENSSL_sk_sort (Some demo_stack) nat_cmp = Some (Some s') \<and> sk_inv s' \<and>
    mset (sk_list s') = mset (sk_list demo_stack) \<and>
    sorted_wrt (\<lambda>x y. nat_cmp () x y \<le> 0) (sk_list s') \<and> st_sorted s' \<and> st_comp s' = Some ()"
  by (rule stack_sort [OF demo_stack_ok(1-3) nat_cmp_ok])

text \<open>C29: \<open>OPENSSL_sk_find\<close>, which searches a sorted stack by bisection, returns what a scan from the
  start returns: the index of the first match, by pointer equality without a comparison function
  and never for \<open>NULL\<close> with one. No assertion fails and the search ends.\<close>
theorem stack_find_first:
  assumes "sk_inv s" "sorted_ok call s" "\<And>c. st_comp s = Some c \<Longrightarrow> sk_comparison (call c)"
  shows "OPENSSL_sk_find (Some s) p call =
    Some (case st_comp s of
       None \<Rightarrow> sk_scan (\<lambda>x. x = p) (st_data s) 0 (st_num s)
     | Some c \<Rightarrow> if p = None then None else sk_scan (\<lambda>x. call c p x = 0) (st_data s) 0 (st_num s))"
  using assms by (rule sk_find_ok)

theorem stack_find_first_witness:
  "OPENSSL_sk_find (Some (demo_stack\<lparr>st_data := [Some 2, Some 5, Some 9, None], st_sorted := True\<rparr>)) (Some 5) nat_cmp =
    Some (sk_scan (\<lambda>x. nat_cmp () (Some 5) x = 0) [Some 2, Some 5, Some 9, None] 0 3)"
proof -
  let ?s = "demo_stack\<lparr>st_data := [Some 2, Some 5, Some 9, None], st_sorted := True\<rparr>"
  have "sk_inv ?s" "sorted_ok nat_cmp ?s"
    by (simp_all add: demo_stack_def sk_inv_def sorted_ok_def sk_list_def nat_cmp_def)
  from stack_find_first [OF this nat_cmp_ok, of "Some 5"] show ?thesis by (simp add: demo_stack_def)
qed

text \<open>C30: every sequence of operations on a new stack, with any results of the memory allocator,
  keeps the array invariant, and the flag \<open>sorted\<close> is set only on a stack whose elements are in
  order. The operations are all that change a stack or make one from another: insertion, push, the deletions, shift, pop, \<open>OPENSSL_sk_zero\<close>,
  sorting, a change of the comparison function to another or to \<open>NULL\<close>, \<open>OPENSSL_sk_dup\<close>, and \<open>OPENSSL_sk_deep_copy\<close> with a copy function that keeps
  the order of the elements (\<open>keeps_order\<close>). Not among them are \<open>OPENSSL_sk_set\<close> and deep copies that change the order: they leave the flag set (\<open>stack_set_unsorted\<close>,
  \<open>stack_deep_copy_unsorted\<close>).\<close>
theorem stack_reachable:
  assumes "cells_ok al" "\<And>c. c \<in> C \<Longrightarrow> sk_comparison (call c)"
    and "OPENSSL_sk_new al c = Some s" "set_option c \<subseteq> C" "(sk_step al call C)\<^sup>*\<^sup>* s s'"
  shows "sk_inv s' \<and> sorted_ok call s'"
proof -
  have "sk_ok call C s" using sk_new_ok [OF assms(1,3)] assms(4) by (simp add: sk_ok_def sorted_ok_def)
  with assms(5) have "sk_ok call C s'"
    by (induction rule: rtranclp_induct) (auto intro: sk_step_ok [OF assms(1,2)])
  then show ?thesis by (simp add: sk_ok_def)
qed

theorem stack_reachable_witness:
  "sk_inv (the (snd (the (OPENSSL_sk_push null_cells (OPENSSL_sk_new null_cells (Some ())) (Some 3))))) \<and>
   sorted_ok nat_cmp (the (snd (the (OPENSSL_sk_push null_cells (OPENSSL_sk_new null_cells (Some ())) (Some 3)))))"
proof -
  let ?s = "\<lparr>st_num = 0, st_data = [None, None, None, None], st_sorted = False, st_num_alloc = 4, st_comp = Some ()\<rparr>"
  let ?s' = "\<lparr>st_num = 1, st_data = [Some 3, None, None, None], st_sorted = False, st_num_alloc = 4, st_comp = Some ()\<rparr>"
  have n: "OPENSSL_sk_new null_cells (Some ()) = Some ?s" by code_simp
  have p: "OPENSSL_sk_push null_cells (Some ?s) (Some 3) = Some (1, Some ?s')" by code_simp
  then have "(sk_step null_cells nat_cmp UNIV)\<^sup>*\<^sup>* ?s ?s'" by (intro r_into_rtranclp sk_step.step_push)
  from stack_reachable [OF null_cells_ok(1) nat_cmp_ok n _ this] show ?thesis by (simp add: n p)
qed

text \<open>C31: with memory available and fewer than \<open>INT_MAX\<close> elements a push succeeds and appends the pointer,
  and the pop after it returns that pointer and restores the sequence.\<close>
theorem stack_push_pop:
  assumes "cells_ok al" "\<forall>n. al n \<noteq> None" "sk_inv s" "st_num s < 2147483647"
  shows "\<exists>s' s''. OPENSSL_sk_push al (Some s) p = Some (st_num s + 1, Some s') \<and> sk_list s' = sk_list s @ [p] \<and>
    OPENSSL_sk_pop (Some s') = Some (p, Some s'') \<and> sk_list s'' = sk_list s"
  using assms by (rule sk_push_pop)

theorem stack_push_pop_witness:
  "\<exists>s' s''. OPENSSL_sk_push null_cells (Some demo_stack) (Some 7) = Some (st_num demo_stack + 1, Some s') \<and>
    sk_list s' = sk_list demo_stack @ [Some 7] \<and>
    OPENSSL_sk_pop (Some s') = Some (Some 7, Some s'') \<and> sk_list s'' = sk_list demo_stack"
  by (rule stack_push_pop [OF null_cells_ok demo_stack_ok(1)]) (simp add: demo_stack_def)

text \<open>C32: on the list of its elements \<open>OPENSSL_sk_insert\<close> inserts at the index, or appends beyond the
  end, and changes nothing where it returns 0, at \<open>INT_MAX\<close> elements or without memory;
  \<open>OPENSSL_sk_delete\<close> returns the element at a valid index and removes it.\<close>
theorem stack_list_refines:
  assumes "cells_ok al" "sk_inv s"
  shows "((OPENSSL_sk_insert al (Some s) p w = Some (0, Some s) \<and> (st_num s = 2147483647 \<or> (\<exists>n. al n = None))) \<or>
     (\<exists>s'. OPENSSL_sk_insert al (Some s) p w = Some (st_num s + 1, Some s') \<and> sk_inv s' \<and>
        sk_list s' = take w (sk_list s) @ p # drop w (sk_list s))) \<and>
    (if w < length (sk_list s)
     then \<exists>s'. OPENSSL_sk_delete (Some s) w = Some (sk_list s ! w, Some s') \<and> sk_inv s' \<and>
        sk_list s' = take w (sk_list s) @ drop (Suc w) (sk_list s)
     else OPENSSL_sk_delete (Some s) w = Some (None, Some s))"
  using sk_insert_ok [OF assms, of p w] sk_delete_ok [OF assms(2), of w] sk_delete_beyond [of w s] length_sk_list [OF assms(2)]
  by auto

theorem stack_list_refines_witness:
  "((OPENSSL_sk_insert null_cells (Some demo_stack) (Some 1) 1 = Some (0, Some demo_stack) \<and>
      (st_num demo_stack = 2147483647 \<or> (\<exists>n. null_cells n = None))) \<or>
     (\<exists>s'. OPENSSL_sk_insert null_cells (Some demo_stack) (Some 1) 1 = Some (st_num demo_stack + 1, Some s') \<and> sk_inv s' \<and>
        sk_list s' = take 1 (sk_list demo_stack) @ Some 1 # drop 1 (sk_list demo_stack))) \<and>
    (if 1 < length (sk_list demo_stack)
     then \<exists>s'. OPENSSL_sk_delete (Some demo_stack) 1 = Some (sk_list demo_stack ! 1, Some s') \<and> sk_inv s' \<and>
        sk_list s' = take 1 (sk_list demo_stack) @ drop (Suc 1) (sk_list demo_stack)
     else OPENSSL_sk_delete (Some demo_stack) 1 = Some (None, Some demo_stack))"
  by (rule stack_list_refines [OF null_cells_ok(1) demo_stack_ok(1)])

text \<open>\<open>OPENSSL_sk_set\<close> on a sorted stack: the flag stays set and a search by bisection misses an element.\<close>
theorem stack_set_unsorted:
  "\<exists>s s'. sorted_ok nat_cmp s \<and> st_sorted s \<and> OPENSSL_sk_set (Some s) 0 (Some 8) = (Some 8, Some s') \<and> st_sorted s' \<and>
    Some 8 \<in> set (sk_list s') \<and> OPENSSL_sk_find (Some s') (Some 8) nat_cmp = Some None"
proof (intro exI conjI)
  let ?s = "demo_stack\<lparr>st_data := [Some 2, Some 5, Some 6, None], st_sorted := True\<rparr>"
  let ?s' = "demo_stack\<lparr>st_data := [Some 8, Some 5, Some 6, None], st_sorted := True\<rparr>"
  show "sorted_ok nat_cmp ?s" by (simp add: demo_stack_def sorted_ok_def sk_list_def nat_cmp_def)
  show "OPENSSL_sk_find (Some ?s') (Some 8) nat_cmp = Some None" by code_simp
qed (simp_all add: demo_stack_def OPENSSL_sk_set_def sk_list_def)

text \<open>\<open>OPENSSL_sk_deep_copy\<close> of a sorted stack with a copy function that reverses the order: the copy is flagged as sorted and a search misses an element.\<close>
theorem stack_deep_copy_unsorted:
  "\<exists>s s'. sorted_ok nat_cmp s \<and> st_sorted s \<and> OPENSSL_sk_deep_copy null_cells (Some s) (\<lambda>x. Some (10 - x)) = (Some s', []) \<and> st_sorted s' \<and>
    sk_list s' = [Some 8, Some 5, Some 4] \<and> OPENSSL_sk_find (Some s') (Some 8) nat_cmp = Some None"
proof (intro exI conjI)
  let ?s = "demo_stack\<lparr>st_data := [Some 2, Some 5, Some 6, None], st_sorted := True\<rparr>"
  let ?s' = "demo_stack\<lparr>st_data := [Some 8, Some 5, Some 4, None], st_sorted := True\<rparr>"
  show "sorted_ok nat_cmp ?s" by (simp add: demo_stack_def sorted_ok_def sk_list_def nat_cmp_def)
  show "OPENSSL_sk_deep_copy null_cells (Some ?s) (\<lambda>x. Some (10 - x)) = (Some ?s', [])" by code_simp
  show "OPENSSL_sk_find (Some ?s') (Some 8) nat_cmp = Some None" by code_simp
qed (simp_all add: demo_stack_def sk_list_def)

section \<open>The hash table\<close>

text \<open>A store with one value and a new table, for the witnesses.\<close>

definition demo_heap :: conf_heap where
  "demo_heap = (\<lambda>p. None)(0 := Some \<lparr>cv_section = Some [0x61], cv_name = Some [0x62], cv_value = Text (Some [0x63])\<rparr>)"

definition demo_table :: "nat lhash" where
  "demo_table = \<lparr>lh_num_items = 0, lh_buckets = replicate 16 [], lh_num_buckets = 16, lh_callback_depth = 0\<rparr>"

lemma demo_table_new: "OPENSSL_lh_new zero_mem = Some demo_table"
  by (simp add: OPENSSL_lh_new_def demo_table_def kMinNumBuckets_def OPENSSL_calloc_ok_def OPENSSL_malloc_def zero_mem_def size_add_def)

text \<open>C33: the hash table is a set of objects that are pairwise different under the comparison function.
  For functions that agree (equal objects have equal hash values) \<open>OPENSSL_lh_retrieve\<close> finds exactly the object that is equal to the given one,
  \<open>OPENSSL_lh_insert\<close> replaces it or adds the new object and \<open>OPENSSL_lh_delete\<close> removes it, both returning what was there;
  an insertion fails only when no memory can be allocated for a new item, and changes nothing then. No assertion fails, whatever
  the resizing does, and the invariant is kept.\<close>
theorem lhash_refines_set:
  assumes "lh_functions hash cmp D" "lh_inv hash cmp D lh" "d \<in> D"
  shows "(\<forall>x. OPENSSL_lh_retrieve hash cmp lh d = Some x \<longleftrightarrow> x \<in> lh_data lh \<and> cmp x d = 0) \<and>
    (\<exists>ok lh'. OPENSSL_lh_insert mem hash cmp lh d = Some (ok, OPENSSL_lh_retrieve hash cmp lh d, lh') \<and> lh_inv hash cmp D lh' \<and>
       (if ok then lh_data lh' = insert d {x \<in> lh_data lh. cmp x d \<noteq> 0}
        else lh' = lh \<and> OPENSSL_lh_retrieve hash cmp lh d = None \<and> OPENSSL_malloc mem 24 = None)) \<and>
    (\<exists>lh'. OPENSSL_lh_delete mem hash cmp lh d = Some (OPENSSL_lh_retrieve hash cmp lh d, lh') \<and> lh_inv hash cmp D lh' \<and>
       lh_data lh' = {x \<in> lh_data lh. cmp x d \<noteq> 0})"
  using lh_functions.retrieve_iff [OF assms] lh_functions.insert_ok [OF assms, of mem] lh_functions.delete_ok [OF assms, of mem] by blast

theorem lhash_refines_set_witness:
  "\<exists>ok lh'. OPENSSL_lh_insert zero_mem (conf_hash demo_heap) (conf_cmp demo_heap) demo_table 0 =
      Some (ok, OPENSSL_lh_retrieve (conf_hash demo_heap) (conf_cmp demo_heap) demo_table 0, lh') \<and>
    lh_inv (conf_hash demo_heap) (conf_cmp demo_heap) {p. conf_obj demo_heap p} lh'"
proof -
  have "lh_inv (conf_hash demo_heap) (conf_cmp demo_heap) {p. conf_obj demo_heap p} demo_table" using lh_new_ok [OF demo_table_new] by blast
  moreover have "0 \<in> {p. conf_obj demo_heap p}" by (simp add: conf_obj_def demo_heap_def)
  ultimately show ?thesis using lhash_refines_set [OF conf_lh.lh_functions_axioms, of demo_heap demo_table 0 zero_mem] by blast
qed

section \<open>Strings and configuration files\<close>

text \<open>\<open>OPENSSL_strlcpy\<close> on a destination of at least \<open>dst_size\<close> bytes returns the length of the source; it writes as
  much of the source as fits with the terminator in \<open>dst_size\<close> bytes, and nothing behind that. With \<open>dst_size\<close> 0 it writes nothing.\<close>
theorem strlcpy_bounds:
  assumes "0 \<notin> set w" "n \<le> length d" "length w < SIZE_MOD"
  shows "OPENSSL_strlcpy d (w @ 0 # r) n =
    Some (length w, if n = 0 then d else take (n - 1) w @ 0 # drop (min n (Suc (length w))) d)"
  using strlcpy_at_ok [OF assms(1), of 0 n d r] assms(2,3) by (simp add: OPENSSL_strlcpy_def)

theorem strlcpy_bounds_witness: "OPENSSL_strlcpy [7, 7, 7, 7] [1, 2, 3, 0] 3 = Some (3, [1, 2, 0, 7])"
proof -
  have "(0::u8) \<notin> set [1, 2, 3]" "3 \<le> length [7::u8, 7, 7, 7]" "length [1::u8, 2, 3] < SIZE_MOD" by simp_all
  from strlcpy_bounds [OF this, of "[]"] show ?thesis by (simp add: numeral_3_eq_3)
qed

text \<open>C34: on every buffer that holds a C string the scanner of a configuration line returns; none of its loops leaves the
  string, and the positions it returns are those of C strings in the buffer that it leaves.\<close>
theorem conf_scan_ends:
  assumes "z < length b" "b ! z = 0"
  shows "\<exists>r. scan_line b = Some r \<and> (\<forall>x. r = Inr x \<longrightarrow> (\<exists>z' \<le> z. text_ok z' b x))"
  using assms by (intro scan_line_safe) (simp add: nul_at_def)

theorem conf_scan_ends_witness:
  "\<exists>r. scan_line [0x61, 0x3d, 0x22, 0] = Some r \<and> (\<forall>x. r = Inr x \<longrightarrow> (\<exists>z' \<le> 3. text_ok z' [0x61, 0x3d, 0x22, 0] x))"
  by (rule conf_scan_ends) simp_all

text \<open>The database of a new configuration, for the witnesses.\<close>

definition demo_conf :: conf where
  "demo_conf = \<lparr>cf_heap = (\<lambda>p. None), cf_next = 0, cf_data = demo_table\<rparr>"

lemma demo_conf_new: "NCONF_new zero_mem False = Some demo_conf"
  unfolding NCONF_new_def demo_table_new demo_conf_def by (simp add: OPENSSL_malloc_def zero_mem_def size_add_def)

lemma demo_memory: "memory_ok zero_mem null_cells"
  using zero_mem_ok null_cells_ok by (simp add: memory_ok_def)

text \<open>C35: whatever bytes the calls of \<open>BIO_gets\<close> deliver, \<open>NCONF_load_bio\<close> returns, with success or an error, without undefined
  behaviour, and leaves a well-typed store: the table keeps its invariant, every object in it is live, and an object without a name
  holds a well-formed stack while one with a name holds a string (the code casts the same field to either type). The bounds are
  those of the \<open>int\<close> variables for the length of a line and the size of a stack; memory is assumed to be available.\<close>
theorem conf_load_typed:
  assumes "memory_ok mem al" "conf_inv conf" "sections_le conf K"
    "\<forall>g \<in> set gets. length g \<le> 510" "sum_list (map length gets) < 2147483647" "K + length gets < 2147483647"
  shows "\<exists>r conf'. NCONF_load_bio mem al conf gets = Some (r, conf') \<and> conf_inv conf'"
  using load_bio_ok [OF assms] by (simp add: load_ok_def)

theorem conf_load_typed_witness:
  "\<exists>r conf'. NCONF_load_bio zero_mem null_cells demo_conf [[0x61, 0x3d, 0x5c, 10], [0x62, 10], [0x5b]] = Some (r, conf') \<and> conf_inv conf'"
  by (rule conf_load_typed [OF demo_memory conf_new_ok(1) [OF demo_conf_new] conf_new_ok(2) [OF demo_conf_new, of 0]]) simp_all

text \<open>C36: a file of section headers and assignments on plain lines of at most 509 bytes (\<open>wf_item\<close>: no quotes, escapes, comments, variables or continuations), read from a memory \<open>BIO\<close> by the calls of \<open>BIO_gets\<close> in \<open>NCONF_load_bio\<close>,
  is loaded without an error, and \<open>NCONF_get_string\<close> then finds exactly the map that the file describes: for every section and name the
  last value assigned in that section (the default section before the first header), or else what was there before.\<close>
theorem conf_roundtrip:
  assumes "memory_ok mem al" "conf_inv conf" "sections_le conf K" "\<forall>it \<in> set items. wf_item it" "K + length items < 2147483647"
    "mem_bio h p (concat (map (\<lambda>it. item_line it @ [0x0a]) items)) e"
  shows "\<exists>gets h' conf'. bio_gets_list (length items) h p = Some (gets, h') \<and> mem_bio h' p [] e \<and> NCONF_load_bio mem al conf gets = Some (Inr (), conf') \<and>
    (\<forall>s n. NCONF_get_string conf' (Some s) (Some n) = Some (snd (fold item_step items (kDefaultSectionName, conf_lookup conf)) s n))"
  by (rule load_file_ok [OF assms])

text \<open>The file \<open>a=1\<close>, \<open>[b]\<close>, \<open>a=2\<close>, \<open>a=3\<close>.\<close>

definition demo_items :: "conf_item list" where
  "demo_items = [Value_line [0x61] [0x31], Section_line [0x62], Value_line [0x61] [0x32], Value_line [0x61] [0x33]]"

lemma demo_items_ok: "\<forall>it \<in> set demo_items. wf_item it"
proof -
  have "IS_ALPHA_NUMERIC_PUNCT 0x61" "IS_ALPHA_NUMERIC_PUNCT 0x62" by code_simp+
  then show ?thesis by (simp add: demo_items_def conf_name_def plain_value_def)
qed

theorem conf_roundtrip_witness:
  "\<exists>gets conf'. NCONF_load_bio zero_mem null_cells demo_conf gets = Some (Inr (), conf') \<and>
    NCONF_get_string conf' (Some [0x62]) (Some [0x61]) = Some (Some [0x33]) \<and>
    NCONF_get_string conf' (Some kDefaultSectionName) (Some [0x61]) = Some (Some [0x31]) \<and>
    NCONF_get_string conf' (Some [0x62]) (Some [0x63]) = Some None"
proof -
  let ?w = "concat (map (\<lambda>it. item_line it @ [0x0a]) demo_items)"
  have "length ?w < SIZE_MOD" by (simp add: demo_items_def)
  from bio_new_mem_buf_ok [OF zero_mem_ok(2) this, of "[]"] obtain h where h: "mem_bio h 0 ?w 0" by auto
  have "0 + length demo_items < 2147483647" by (simp add: demo_items_def)
  from conf_roundtrip [OF demo_memory conf_new_ok(1) [OF demo_conf_new] conf_new_ok(2) [OF demo_conf_new, of 0] demo_items_ok this h]
  obtain gets conf' where "NCONF_load_bio zero_mem null_cells demo_conf gets = Some (Inr (), conf')"
    "\<forall>s n. NCONF_get_string conf' (Some s) (Some n) = Some (snd (fold item_step demo_items (kDefaultSectionName, conf_lookup demo_conf)) s n)" by blast
  then show ?thesis using conf_new_ok(3) [OF demo_conf_new]
    by (intro exI [of _ gets] exI [of _ conf']) (simp add: demo_items_def kDefaultSectionName_def)
qed

section \<open>Streams of bytes\<close>

text \<open>C37: through a \<open>BIO\<close> pair no byte is lost, duplicated or reordered. However the writes at one end, the reads at the other end, the traffic in the
  other direction and control commands are interleaved, the bytes waiting at the start followed by the bytes that the writes accepted
  are the bytes that the reads returned followed by the bytes still waiting; no assertion of the ring buffer fails, and the next write and
  read are defined again.\<close>
theorem bio_pair_fifo:
  assumes "pair_inv h p q" "fifo_run (\<lambda>h x. BIO_write mem h (Some p) x) (\<lambda>h n. BIO_read h (Some q) n) (pair_other mem p q) h w g h'"
  shows "pi_queue (pair_pipe h p) @ w = g @ pi_queue (pair_pipe h' p) \<and> pair_inv h' p q \<and>
    (\<forall>x. BIO_write mem h' (Some p) x \<noteq> None) \<and> (\<forall>n. n \<le> int_max \<longrightarrow> BIO_read h' (Some q) n \<noteq> None)"
proof -
  have "pair_inv h' p q \<and> pi_queue (pair_pipe h p) @ w = g @ pi_queue (pair_pipe h' p)" by (rule pair_fifo.fifo [OF assms(2,1)])
  then show ?thesis using BIO_write_pair [of h' p q mem] BIO_read_pair [of h' p q] by (metis option.distinct(1))
qed

theorem bio_pair_fifo_witness:
  "\<exists>h h' r. BIO_new_bio_pair zero_mem [] 4 4 = Some (Some (0, 1), h) \<and> BIO_write zero_mem h (Some 0) [1, 2, 3, 4, 5] = Some (r, h') \<and> r = 4 \<and>
    pi_queue (pair_pipe h' 0) = [1, 2, 3, 4]"
proof -
  obtain h where h: "BIO_new_bio_pair zero_mem [] 4 4 = Some (Some (0, 1), h)" "pair_inv h 0 1" "pair_pipe h 0 = \<lparr>pi_queue = [], pi_cap = 4, pi_closed = False\<rparr>"
    using bio_new_bio_pair_ok [OF zero_mem_ok, of 4 4 "[]"] by auto
  obtain h' where h': "BIO_write zero_mem h (Some 0) [1, 2, 3, 4, 5] = Some (4, h')"
    using BIO_write_pair [OF h(2), of zero_mem "[1, 2, 3, 4, 5]"] h(3) by (auto simp: pipe_write_def)
  have "int (length [1::u8, 2, 3, 4, 5]) \<le> int_max" by (simp add: int_max_def)
  from fifo_write [where wr = "\<lambda>h x. BIO_write zero_mem h (Some 0) x", OF fifo_start this h', of "\<lambda>h n. BIO_read h (Some 1) n" "pair_other zero_mem 0 1"]
  have "pi_queue (pair_pipe h 0) @ [] @ take (nat 4) [1, 2, 3, 4, 5] = [] @ pi_queue (pair_pipe h' 0)" using bio_pair_fifo [OF h(2)] by blast
  then show ?thesis using h(1,3) h' by (intro exI [of _ h] exI [of _ h'] exI [of _ 4]) simp
qed

text \<open>C38: \<open>BIO_read_asn1\<close> on a memory \<open>BIO\<close> whose result at the end of the data is 0, as \<open>BIO_new_mem_buf\<close> sets it, or \<open>- 1\<close>, the default of
  \<open>BIO_s_mem\<close>. It succeeds exactly if the data starts with a one-byte tag and a minimal definite length, with header and body of at most \<open>max_len\<close> bytes and a body of at most
  \<open>INT_MAX\<close> bytes that is all there, and returns that element; or if the data starts with a constructed element of indefinite length, is strictly shorter than \<open>max_len\<close>
  and the result at the end is 0, and returns all the data. So an indefinite length fails on data of exactly \<open>max_len\<close> bytes, and always with the default \<open>- 1\<close>.
  After a success the rest of the data stays in the \<open>BIO\<close>.\<close>
theorem bio_read_asn1_exact:
  assumes "alloc_ok mem" "\<forall>m. mem m \<noteq> None" "max_len < 2 ^ 61" "e = 0 \<or> e = - 1" "mem_bio h p w e"
  shows "\<exists>r h'. BIO_read_asn1 mem h (Some p) max_len = Some (r, h') \<and> (\<forall>x. r = Inr x \<longleftrightarrow> asn1_front w e max_len x) \<and>
    (\<forall>x. r = Inr x \<longrightarrow> mem_bio h' p (drop (length x) w) e)"
  by (rule read_asn1_exact [OF assms])

theorem bio_read_asn1_exact_witness:
  "\<exists>h h'. BIO_new_mem_buf zero_mem [] (Some [0x04, 2, 7, 8, 0x05, 0]) 6 = Some (Some 0, h) \<and>
    BIO_read_asn1 zero_mem h (Some 0) 100 = Some (Inr [0x04, 2, 7, 8], h') \<and> mem_bio h' 0 [0x05, 0] 0"
proof -
  let ?w = "[0x04, 2, 7, 8, 0x05, 0] :: bytes" and ?x = "[0x04, 2, 7, 8] :: bytes"
  have "length ?w < SIZE_MOD" by simp
  from bio_new_mem_buf_ok [OF zero_mem_ok(2) this, of "[]"] obtain h where h: "BIO_new_mem_buf zero_mem [] (Some ?w) 6 = Some (Some 0, h)" "mem_bio h 0 ?w 0" by auto
  have "asn1_front ?w 0 100 ?x" unfolding asn1_front_def
    by (intro disjI1 exI [of _ "0x04"] exI [of _ "[7, 8]"] exI [of _ "[0x05, 0]"]) (simp add: der_length_def int_max_def)
  moreover have "(100::nat) < 2 ^ 61" "(0::int) = 0 \<or> (0::int) = - 1" by simp_all
  ultimately show ?thesis using bio_read_asn1_exact [OF zero_mem_ok _ _ h(2), of 100] h(1) by fastforce
qed

section \<open>Errors\<close>

text \<open>C39: with memory available, every sequence of calls on the error queue of a thread (putting, taking, peeking, clearing, adding data, setting and
  returning to marks) is defined, and behaves as on a list that keeps the 15 most recent errors: the ring of 16 entries never mixes up, loses or repeats one.\<close>
theorem err_queue_refines:
  assumes "alloc_ok mem" "\<forall>n. mem n \<noteq> None" "tls_inv tls" "\<forall>c\<in>set cs. call_ok c"
  shows "\<exists>tls'. err_calls mem cs tls = Some (fst (err_specs cs (tls_queue tls)), tls') \<and> tls_inv tls' \<and> tls_queue tls' = snd (err_specs cs (tls_queue tls))"
  by (rule err_calls_ok [OF assms])

text \<open>Two errors, a mark, another error with data, back to the mark; then the first error is taken.\<close>

definition demo_calls :: "err_call list" where
  "demo_calls = [Put_error 7 100 None 1 0, Put_error 7 101 None 1 0, Mark_error, Put_error 7 102 None 1 0, Add_data [Some [0x61], None, Some [0x62]], Pop_to_mark, Get_error]"

theorem err_queue_refines_witness:
  "\<exists>rs tls'. err_calls zero_mem demo_calls None = Some (rs, tls') \<and> last rs = Code (ERR_PACK 7 100) \<and> map ee_packed (tls_queue tls') = [ERR_PACK 7 101]"
proof -
  have "tls_inv None" "\<forall>c\<in>set demo_calls. call_ok c" by (auto simp: tls_inv_def demo_calls_def call_ok_def)
  from err_queue_refines [OF zero_mem_ok this] obtain tls' where
    "err_calls zero_mem demo_calls None = Some (fst (err_specs demo_calls (tls_queue None)), tls')" "tls_queue tls' = snd (err_specs demo_calls (tls_queue None))" by blast
  then show ?thesis
    by (simp add: tls_queue_def demo_calls_def err_spec_def q_put_def q_last_def q_pop_def q_front_def code_of_def error_info_def err_clear_def)
qed

text \<open>C40: \<open>ERR_error_string_n\<close> stays inside the buffer and leaves a C string of at most \<open>len - 1\<close> bytes; the string is the whole text
  if that fits, and cut or not it has its four colons as soon as \<open>len\<close> is more than 4.\<close>
theorem err_string_fields:
  assumes "err_reason_error_string strerror values string_data e = Some ro" "\<forall>r. 0 \<notin> set (strerror r)"
    "s = error_text e (lib_text e) (reason_text e ro)" "length s < 2 ^ 31" "0 < len" "len \<le> length buf"
  shows "\<exists>t r. ERR_error_string_n strerror values string_data e buf len = Some (True, t @ 0 # r) \<and> length (t @ 0 # r) = length buf \<and> 0 \<notin> set t \<and> length t < len \<and>
    (length s < len \<longrightarrow> t = s) \<and> (4 < len \<longrightarrow> 4 \<le> count_list t 0x3a)"
  by (rule error_string_ok [OF assms])

theorem err_string_fields_witness:
  "\<exists>t r. ERR_error_string_n (\<lambda>_. []) [] [] 0x07000041 (replicate 20 0xff) 18 = Some (True, t @ 0 # r) \<and> length t < 18 \<and> 4 \<le> count_list t 0x3a"
proof -
  have "err_reason_error_string (\<lambda>_. []) [] [] 0x07000041 = Some (Some (ctext ''malloc failure''))" by code_simp
  moreover have "length (error_text 0x07000041 (lib_text 0x07000041) (reason_text 0x07000041 (Some (ctext ''malloc failure'')))) \<le> 100" by code_simp
  ultimately show ?thesis using err_string_fields [OF _ _ refl, where len = 18 and buf = "replicate 20 0xff"] by fastforce
qed

end
